(* ===== verification/Xv6_Prelude.thy ===== *)
theory Xv6_Prelude
  imports Main "HOL-Library.Word" "HOL-Library.Sublist"
begin

text \<open>
  Shared vocabulary of the development: the C integer types of types.h at their
  widths, the outcome of running kernel code (it returns, it panics, or it goes to
  sleep), the state-passing combinators the kernel's C functions are written with,
  their weakest-precondition calculus, and the generic lemmas on lists and words that
  the component theories use.
\<close>

unbundle bit_operations_syntax

section \<open>C integer types\<close>

text \<open>types.h: \<open>uint\<close>, \<open>ushort\<close>, \<open>uchar\<close>. Arithmetic on them wraps around as
  it does in C. A \<open>char\<close> is a byte.\<close>

type_synonym uint = "32 word"
type_synonym ushort = "16 word"
type_synonym uchar = "8 word"
type_synonym byte = "8 word"

text \<open>The byte of a character literal.\<close>

abbreviation chr :: "char \<Rightarrow> byte" where
  "chr c \<equiv> of_char c"

section \<open>Collections of facts\<close>

named_theorems wp_simp \<open>equations that compute a weakest precondition\<close>
named_theorems wp_spec \<open>specification lemmas of kernel operations, in wp form\<close>
named_theorems run_fail \<open>runs that panic or sleep\<close>
named_theorems word_nat \<open>moving word expressions to natural numbers\<close>

section \<open>Running kernel code\<close>

text \<open>
  A C function of the kernel is a function from a state to an outcome. \<open>Ret a s\<close>: it
  returned \<open>a\<close> and left the state \<open>s\<close>. \<open>Panic msg\<close>: it called \<open>panic(msg)\<close>,
  which never returns. \<open>Block s\<close>: it called \<open>sleep\<close> and the process is off the CPU,
  having left the state \<open>s\<close>; every such call of the sources sits in a
  \<open>while(condition) sleep(...)\<close> loop (or in \<open>goto loop\<close>), so a process that is woken
  evaluates the same loop again.
\<close>

datatype ('a, 's) outcome = Ret 'a 's | Panic string | Block 's

type_synonym ('a, 's) kernel = "'s \<Rightarrow> ('a, 's) outcome"

abbreviation ret :: "'a \<Rightarrow> ('a, 's) kernel" where
  "ret a \<equiv> Ret a"

definition bindk :: "('a, 's) kernel \<Rightarrow> ('a \<Rightarrow> ('b, 's) kernel) \<Rightarrow> ('b, 's) kernel" where
  "bindk m f = (\<lambda>s. case m s of Ret a s' \<Rightarrow> f a s' | Panic e \<Rightarrow> Panic e | Block s' \<Rightarrow> Block s')"

definition thenk :: "('a, 's) kernel \<Rightarrow> ('b, 's) kernel \<Rightarrow> ('b, 's) kernel" where
  "thenk m n = bindk m (\<lambda>_. n)"

definition panic :: "string \<Rightarrow> ('a, 's) kernel" where
  "panic msg = (\<lambda>s. Panic msg)"

text \<open>Reading the state, updating it, and a conditional statement.\<close>

definition getk :: "('s \<Rightarrow> 'a) \<Rightarrow> ('a, 's) kernel" where
  "getk f = (\<lambda>s. Ret (f s) s)"

definition modk :: "('s \<Rightarrow> 's) \<Rightarrow> (unit, 's) kernel" where
  "modk f = (\<lambda>s. Ret () (f s))"

definition whenk :: "bool \<Rightarrow> (unit, 's) kernel \<Rightarrow> (unit, 's) kernel" where
  "whenk b m = (if b then m else ret ())"

text \<open>A \<open>for\<close> loop over a list of indices whose body neither breaks nor returns.\<close>

primrec foreach :: "'i list \<Rightarrow> ('i \<Rightarrow> (unit, 's) kernel) \<Rightarrow> (unit, 's) kernel" where
  "foreach [] f = ret ()"
| "foreach (i # is) f = thenk (f i) (foreach is f)"

lemma bindk_cong [fundef_cong]:
  assumes "m = m'" and "s = s'" and "\<And>a t. m' s' = Ret a t \<Longrightarrow> f a t = f' a t"
  shows "bindk m f s = bindk m' f' s'"
  using assms by (auto simp: bindk_def split: outcome.splits)

text \<open>Running the combinators on a state.\<close>

lemma panic_run [simp]: "panic msg s = Panic msg"
  by (simp add: panic_def)

lemma getk_run [simp]: "getk f s = Ret (f s) s"
  by (simp add: getk_def)

lemma modk_run [simp]: "modk f s = Ret () (f s)"
  by (simp add: modk_def)

lemma bindk_Ret [simp]: "m s = Ret a s' \<Longrightarrow> bindk m f s = f a s'"
  by (simp add: bindk_def)

lemma bindk_Panic [run_fail]: "m s = Panic e \<Longrightarrow> bindk m f s = Panic e"
  by (simp add: bindk_def)

lemma bindk_Block [run_fail]: "m s = Block s' \<Longrightarrow> bindk m f s = Block s'"
  by (simp add: bindk_def)

lemma thenk_Ret [simp]: "m s = Ret a s' \<Longrightarrow> thenk m n s = n s'"
  by (simp add: thenk_def)

lemma thenk_Panic [run_fail]: "m s = Panic e \<Longrightarrow> thenk m n s = Panic e"
  by (simp add: thenk_def bindk_def)

lemma thenk_Block [run_fail]: "m s = Block s' \<Longrightarrow> thenk m n s = Block s'"
  by (simp add: thenk_def bindk_def)

lemma whenk_run [simp]: "whenk b m s = (if b then m s else Ret () s)"
  by (simp add: whenk_def)

lemma thenk_whenk [simp]: "thenk (whenk b m) n s = (if b then thenk m n s else n s)"
  by (simp add: thenk_def bindk_def)

lemma bindk_thenk [simp]: "bindk (thenk m n) f = thenk m (bindk n f)"
  by (rule ext) (simp add: thenk_def bindk_def split: outcome.split)

text \<open>The monad laws.\<close>

lemma bindk_ret [simp]: "bindk (ret a) f = f a"
  by (rule ext) simp

lemma bindk_assoc: "bindk (bindk m f) g = bindk m (\<lambda>a. bindk (f a) g)"
  by (rule ext) (simp add: bindk_def split: outcome.split)

lemma bindk_Ret_iff:
  "bindk m f s = Ret b t \<longleftrightarrow> (\<exists>a s'. m s = Ret a s' \<and> f a s' = Ret b t)"
  by (auto simp: bindk_def split: outcome.splits)

lemma thenk_Ret_iff:
  "thenk m n s = Ret b t \<longleftrightarrow> (\<exists>a s'. m s = Ret a s' \<and> n s' = Ret b t)"
  by (simp add: thenk_def bindk_Ret_iff)

section \<open>Weakest preconditions\<close>

text \<open>
  \<open>wp m Q s\<close>: run from \<open>s\<close>, the code \<open>m\<close> returns (it neither panics nor sleeps) and
  its result and final state satisfy \<open>Q\<close>. This is total correctness.
\<close>

definition wp :: "('a, 's) kernel \<Rightarrow> ('a \<Rightarrow> 's \<Rightarrow> bool) \<Rightarrow> 's \<Rightarrow> bool" where
  "wp m Q s = (case m s of Ret a s' \<Rightarrow> Q a s' | Panic _ \<Rightarrow> False | Block _ \<Rightarrow> False)"

lemma wp_iff: "wp m Q s \<longleftrightarrow> (\<exists>a s'. m s = Ret a s' \<and> Q a s')"
  by (auto simp: wp_def split: outcome.splits)

lemma wpE:
  assumes "wp m Q s"
  obtains a s' where "m s = Ret a s'" and "Q a s'"
  using assms by (auto simp: wp_iff)

lemma wp_unitE:
  assumes "wp m Q s"
  obtains s' where "m s = Ret () s'" and "Q () s'"
  using assms by (auto simp: wp_iff)

lemma wp_runD: "wp m Q s \<Longrightarrow> m s = Ret a s' \<Longrightarrow> Q a s'"
  by (simp add: wp_def)

lemma wpI: "m s = Ret a s' \<Longrightarrow> Q a s' \<Longrightarrow> wp m Q s"
  by (simp add: wp_def)

lemma wp_mono: "wp m P s \<Longrightarrow> (\<And>a s'. P a s' \<Longrightarrow> Q a s') \<Longrightarrow> wp m Q s"
  by (auto simp: wp_iff)

lemma wp_run_eq: "m s = n s \<Longrightarrow> wp m Q s = wp n Q s"
  by (simp add: wp_def)

lemma wp_conj: "wp m P s \<Longrightarrow> wp m Q s \<Longrightarrow> wp m (\<lambda>a s'. P a s' \<and> Q a s') s"
  by (auto simp: wp_iff)

lemma wp_ret [wp_simp, simp]: "wp (ret a) Q s = Q a s"
  by (simp add: wp_def)

lemma wp_bindk [wp_simp, simp]: "wp (bindk m f) Q s = wp m (\<lambda>a. wp (f a) Q) s"
  by (auto simp: wp_def bindk_def split: outcome.split)

lemma wp_thenk [wp_simp, simp]: "wp (thenk m n) Q s = wp m (\<lambda>_. wp n Q) s"
  by (simp add: thenk_def)

lemma wp_getk [wp_simp, simp]: "wp (getk f) Q s = Q (f s) s"
  by (simp add: wp_def)

lemma wp_modk [wp_simp, simp]: "wp (modk f) Q s = Q () (f s)"
  by (simp add: wp_def)

lemma wp_panic [wp_simp, simp]: "\<not> wp (panic msg) Q s"
  by (simp add: wp_def)

lemma wp_whenk [wp_simp, simp]: "wp (whenk b m) Q s = (if b then wp m Q s else Q () s)"
  by (simp add: wp_def)

lemma wp_if [wp_simp]: "wp (if b then m else n) Q s = (if b then wp m Q s else wp n Q s)"
  by simp

lemma wp_Let [wp_simp]: "wp (Let x f) Q s = wp (f x) Q s"
  by (simp add: Let_def)

text \<open>The rule of the \<open>for\<close> loop: an invariant indexed by what is left to do.\<close>

lemma wp_foreach:
  assumes "I xs s"
    and "\<And>x ys t. suffix (x # ys) xs \<Longrightarrow> I (x # ys) t \<Longrightarrow> wp (f x) (\<lambda>_. I ys) t"
    and "\<And>t. I [] t \<Longrightarrow> Q () t"
  shows "wp (foreach xs f) Q s"
  using assms
proof (induction xs arbitrary: s)
  case Nil
  then show ?case by simp
next
  case (Cons x xs)
  have "wp (f x) (\<lambda>_. I xs) s"
    using Cons.prems(1) by (intro Cons.prems(2)) simp_all
  then show ?case
    unfolding foreach.simps wp_thenk
  proof (rule wp_mono)
    fix u t
    assume "I xs t"
    then show "wp (foreach xs f) Q t"
      using Cons.prems by (intro Cons.IH) (auto intro: suffix_ConsI)
  qed
qed

section \<open>Frames\<close>

text \<open>
  \<open>within R s out\<close>: the outcome is not a sleep, and when it is a return its state is
  related to \<open>s\<close> by \<open>R\<close>. \<open>pres R m\<close>: run from any state, \<open>m\<close> stays within \<open>R\<close> of it.
  \<open>R\<close> is reflexive and transitive, typically \<open>only these fields have changed\<close>.
\<close>

definition within :: "('s \<Rightarrow> 's \<Rightarrow> bool) \<Rightarrow> 's \<Rightarrow> ('a, 's) outcome \<Rightarrow> bool" where
  "within R s out = (case out of Ret _ s' \<Rightarrow> R s s' | Panic _ \<Rightarrow> True | Block _ \<Rightarrow> False)"

definition pres :: "('s \<Rightarrow> 's \<Rightarrow> bool) \<Rightarrow> ('a, 's) kernel \<Rightarrow> bool" where
  "pres R m \<longleftrightarrow> (\<forall>s. within R s (m s))"

lemma within_simps [simp]:
  "within R s (Ret a s') = R s s'" "within R s (Panic e)" "\<not> within R s (Block t)"
  by (simp_all add: within_def)

lemma withinD: "within R s out \<Longrightarrow> out = Ret a s' \<Longrightarrow> R s s'"
  by simp

lemma presI: "(\<And>s. within R s (m s)) \<Longrightarrow> pres R m"
  by (simp add: pres_def)

lemma presD: "pres R m \<Longrightarrow> m s = Ret a s' \<Longrightarrow> R s s'"
  by (auto simp: pres_def dest: spec [of _ s])

lemma pres_no_Block: "pres R m \<Longrightarrow> m s \<noteq> Block t"
  by (auto simp: pres_def dest: spec [of _ s])

locale frame =
  fixes R :: "'s \<Rightarrow> 's \<Rightarrow> bool"
  assumes frame_refl: "R s s"
    and frame_trans: "R s t \<Longrightarrow> R t u \<Longrightarrow> R s u"
begin

lemma within_pres: "pres R m \<Longrightarrow> R s t \<Longrightarrow> within R s (m t)"
  by (auto simp: pres_def within_def dest: spec [of _ t] intro: frame_trans split: outcome.splits)

lemma within_trans: "within R t out \<Longrightarrow> R s t \<Longrightarrow> within R s out"
  by (auto simp: within_def intro: frame_trans split: outcome.splits)

lemma within_bindk:
  "within R s (m t) \<Longrightarrow> (\<And>a u. m t = Ret a u \<Longrightarrow> R s u \<Longrightarrow> within R s (f a u)) \<Longrightarrow> within R s (bindk m f t)"
  by (auto simp: within_def bindk_def split: outcome.splits)

lemma within_thenk:
  "within R s (m t) \<Longrightarrow> (\<And>a u. m t = Ret a u \<Longrightarrow> R s u \<Longrightarrow> within R s (n u)) \<Longrightarrow> within R s (thenk m n t)"
  by (simp add: thenk_def within_bindk)

lemma within_foreach:
  "(\<And>i u. R s u \<Longrightarrow> within R s (f i u)) \<Longrightarrow> R s t \<Longrightarrow> within R s (foreach is f t)"
  by (induction "is" arbitrary: t) (auto intro!: within_thenk)

lemmas within_intros = within_bindk within_thenk within_foreach

end

section \<open>Lists\<close>

lemma find_upt_Some:
  "find P [0..<n] = Some i \<longleftrightarrow> i < n \<and> P i \<and> (\<forall>j < i. \<not> P j)"
  by (auto simp: find_Some_iff)

lemma find_upt_None: "find P [0..<n] = None \<longleftrightarrow> (\<forall>i < n. \<not> P i)"
  by (auto simp: find_None_iff)

lemma nth_upd_if:
  "i < length xs \<Longrightarrow> (xs[i := v]) ! j = (if i = j then v else xs ! j)"
  by simp

lemma set_nth_ball: "(\<forall>x \<in> set xs. P x) \<longleftrightarrow> (\<forall>i < length xs. P (xs ! i))"
  by (auto simp: all_set_conv_all_nth)

text \<open>\<open>splice n xs ys\<close> overwrites \<open>xs\<close> from position \<open>n\<close> on with \<open>ys\<close>: what
  \<open>memmove(xs + n, ys, length ys)\<close> does to a buffer that is long enough.\<close>

definition splice_at :: "nat \<Rightarrow> 'a list \<Rightarrow> 'a list \<Rightarrow> 'a list" where
  "splice_at n ys xs = take n xs @ ys @ drop (n + length ys) xs"

lemma length_splice_at [simp]:
  "n + length ys \<le> length xs \<Longrightarrow> length (splice_at n ys xs) = length xs"
  by (simp add: splice_at_def)

lemma nth_splice_at:
  assumes "n + length ys \<le> length xs" and "i < length xs"
  shows "splice_at n ys xs ! i =
    (if n \<le> i \<and> i < n + length ys then ys ! (i - n) else xs ! i)"
  using assms by (auto simp: splice_at_def nth_append)

lemma take_drop_splice_at [simp]:
  "n + length ys \<le> length xs \<Longrightarrow> take (length ys) (drop n (splice_at n ys xs)) = ys"
  by (simp add: splice_at_def)

section \<open>Words\<close>

lemma unat_lt_2_32: "unat (x :: uint) < 4294967296"
  using unsigned_less [of x] by simp

lemma unat_lt_2_16: "unat (x :: ushort) < 65536"
  using unsigned_less [of x] by simp

lemma unat_lt_2_8: "unat (x :: byte) < 256"
  using unsigned_less [of x] by simp

lemma unat_add_no_wrap:
  "unat (a :: uint) + unat b < 4294967296 \<Longrightarrow> unat (a + b) = unat a + unat b"
  by (simp add: unat_word_ariths)

lemma unat_sub_no_wrap: "unat (b :: uint) \<le> unat a \<Longrightarrow> unat (a - b) = unat a - unat b"
  by (simp add: unat_sub word_le_nat_alt)

lemma unat_of_nat_32 [simp]: "n < 4294967296 \<Longrightarrow> unat (of_nat n :: uint) = n"
  by (simp add: unat_of_nat take_bit_nat_eq_self)

declare unat_word_ariths [word_nat] unat_of_nat [word_nat] word_less_nat_alt [word_nat]
  word_le_nat_alt [word_nat]

lemma unat_eq_word: "unat (a - b) = n \<Longrightarrow> a = (b :: uint) + of_nat n"
  by auto

lemma unat_plus_eqI:
  assumes "unat q = unat p + k"
  shows "q = (p :: uint) + of_nat k"
proof -
  have "of_nat (unat q) = (of_nat (unat p + k) :: uint)" using assms by simp
  then show ?thesis by simp
qed

lemma word_eq_iff_unat: "(a :: 'a::len word) = b \<longleftrightarrow> unat a = unat b"
  by (simp add: word_unat_eq_iff)

end
