(* ===== verification/Xv6_Bytes.thy ===== *)
theory Xv6_Bytes
  imports Xv6_Prelude
begin

text \<open>
  How the kernel's structs lie in byte buffers. The sources read and write on-disk
  structs by casting \<open>bp->data\<close> to a struct pointer; on the x86 this is the
  little-endian concatenation of the fields. A codec is an encoder and a decoder of
  fixed width with the laws such a cast relies on; reading and writing through a
  codec at an offset obeys the usual lens laws, proved once in the locale.
\<close>

section \<open>Access through a codec at an offset\<close>

definition rd_at :: "nat \<Rightarrow> (byte list \<Rightarrow> 'v) \<Rightarrow> byte list \<Rightarrow> nat \<Rightarrow> 'v" where
  "rd_at w dec b off = dec (take w (drop off b))"

definition wr_at :: "('v \<Rightarrow> byte list) \<Rightarrow> byte list \<Rightarrow> nat \<Rightarrow> 'v \<Rightarrow> byte list" where
  "wr_at enc b off v = splice_at off (enc v) b"

lemma take_drop_splice_other:
  assumes "off + length ys \<le> length xs" and "off' + w \<le> off \<or> off + length ys \<le> off'"
  shows "take w (drop off' (splice_at off ys xs)) = take w (drop off' xs)"
proof (cases "off' + w \<le> off")
  case True
  then show ?thesis
    using assms(1) by (simp add: splice_at_def take_drop min_def)
next
  case False
  then have le: "off + length ys \<le> off'" using assms(2) by simp
  have "drop off' (splice_at off ys xs) = drop off' xs"
    using le assms(1) by (simp add: splice_at_def)
  then show ?thesis by simp
qed

lemma splice_at_self:
  "off + w \<le> length b \<Longrightarrow> splice_at off (take w (drop off b)) b = b"
  by (simp add: splice_at_def min_def) (metis add.commute append_take_drop_id drop_drop)

lemma splice_at_twice:
  "off + length ys \<le> length b \<Longrightarrow> length zs = length ys \<Longrightarrow>
    splice_at off zs (splice_at off ys b) = splice_at off zs b"
  by (simp add: splice_at_def)

lemma splice_at_comm:
  assumes "o1 + length ys \<le> o2" and "o2 + length zs \<le> length b"
  shows "splice_at o2 zs (splice_at o1 ys b) = splice_at o1 ys (splice_at o2 zs b)"
proof (rule nth_equalityI)
  show "length (splice_at o2 zs (splice_at o1 ys b)) = length (splice_at o1 ys (splice_at o2 zs b))"
    using assms by simp
  fix i
  assume "i < length (splice_at o2 zs (splice_at o1 ys b))"
  then show "splice_at o2 zs (splice_at o1 ys b) ! i = splice_at o1 ys (splice_at o2 zs b) ! i"
    using assms by (auto simp: nth_splice_at)
qed

locale codec =
  fixes width :: nat and enc :: "'v \<Rightarrow> byte list" and dec :: "byte list \<Rightarrow> 'v"
    and wf :: "'v \<Rightarrow> bool"
  assumes length_enc: "wf v \<Longrightarrow> length (enc v) = width"
    and dec_enc: "wf v \<Longrightarrow> dec (enc v) = v"
    and wf_dec: "length bs = width \<Longrightarrow> wf (dec bs)"
    and enc_dec: "length bs = width \<Longrightarrow> enc (dec bs) = bs"
begin

lemma length_wr: "wf v \<Longrightarrow> off + width \<le> length b \<Longrightarrow> length (wr_at enc b off v) = length b"
  by (simp add: wr_at_def length_enc)

lemma rd_wr_same: "wf v \<Longrightarrow> off + width \<le> length b \<Longrightarrow> rd_at width dec (wr_at enc b off v) off = v"
  using take_drop_splice_at [of off "enc v" b]
  by (simp add: rd_at_def wr_at_def length_enc dec_enc)

lemma rd_wr_other:
  assumes "wf v" and "off + width \<le> length b" and "off' + w \<le> off \<or> off + width \<le> off'"
  shows "rd_at w dec' (wr_at enc b off v) off' = rd_at w dec' b off'"
  using assms by (simp add: rd_at_def wr_at_def take_drop_splice_other length_enc)

lemma nth_wr_other:
  assumes "wf v" and "off + width \<le> length b" and "i < off \<or> off + width \<le> i" and "i < length b"
  shows "wr_at enc b off v ! i = b ! i"
  using assms by (auto simp: wr_at_def nth_splice_at length_enc)

lemma wr_rd: "off + width \<le> length b \<Longrightarrow> wr_at enc b off (rd_at width dec b off) = b"
  by (simp add: rd_at_def wr_at_def enc_dec splice_at_self)

lemma wr_wr: "wf v \<Longrightarrow> wf v' \<Longrightarrow> off + width \<le> length b \<Longrightarrow>
    wr_at enc (wr_at enc b off v) off v' = wr_at enc b off v'"
  by (simp add: wr_at_def splice_at_twice length_enc)

lemma rd_wf: "off + width \<le> length b \<Longrightarrow> wf (rd_at width dec b off)"
  by (simp add: rd_at_def wf_dec)

end

section \<open>The codecs of \<open>ushort\<close> and \<open>uint\<close>\<close>

definition enc16 :: "ushort \<Rightarrow> byte list" where
  "enc16 v = [ucast v, ucast (drop_bit 8 v)]"

definition dec16 :: "byte list \<Rightarrow> ushort" where
  "dec16 bs = ucast (bs ! 0) OR push_bit 8 (ucast (bs ! 1))"

definition enc32 :: "uint \<Rightarrow> byte list" where
  "enc32 v = [ucast v, ucast (drop_bit 8 v), ucast (drop_bit 16 v), ucast (drop_bit 24 v)]"

definition dec32 :: "byte list \<Rightarrow> uint" where
  "dec32 bs = ucast (bs ! 0) OR push_bit 8 (ucast (bs ! 1)) OR push_bit 16 (ucast (bs ! 2))
     OR push_bit 24 (ucast (bs ! 3))"

lemma length_enc16 [simp]: "length (enc16 v) = 2"
  by (simp add: enc16_def)

lemma length_enc32 [simp]: "length (enc32 v) = 4"
  by (simp add: enc32_def)

lemmas byte_bits = bit_or_iff bit_push_bit_iff bit_ucast_iff bit_drop_bit_eq

lemma dec16_enc16 [simp]: "dec16 (enc16 v) = v"
proof (rule bit_word_eqI)
  fix n
  assume "n < LENGTH(16)"
  then consider "n < 8" | "8 \<le> n" "n < 16" by fastforce
  then show "bit (dec16 (enc16 v)) n = bit v n"
    by cases (auto simp: dec16_def enc16_def byte_bits)
qed

lemma dec32_enc32 [simp]: "dec32 (enc32 v) = v"
proof (rule bit_word_eqI)
  fix n
  assume "n < LENGTH(32)"
  then consider "n < 8" | "8 \<le> n" "n < 16" | "16 \<le> n" "n < 24" | "24 \<le> n" "n < 32"
    by fastforce
  then show "bit (dec32 (enc32 v)) n = bit v n"
    by cases (auto simp: dec32_def enc32_def byte_bits)
qed

lemma enc16_dec16: "length bs = 2 \<Longrightarrow> enc16 (dec16 bs) = bs"
proof -
  assume "length bs = 2"
  then obtain a b where "bs = [a, b]"
    by (auto simp: numeral_2_eq_2 length_Suc_conv)
  moreover have "ucast (dec16 [a, b]) = a" "ucast (drop_bit 8 (dec16 [a, b])) = b"
    by (rule bit_word_eqI; auto simp: dec16_def byte_bits dest: bit_imp_le_length)+
  ultimately show ?thesis by (simp add: enc16_def)
qed

lemma enc32_dec32: "length bs = 4 \<Longrightarrow> enc32 (dec32 bs) = bs"
proof -
  assume "length bs = 4"
  then obtain a b c d where "bs = [a, b, c, d]"
    by (auto simp: numeral_eq_Suc length_Suc_conv)
  moreover have "ucast (dec32 [a, b, c, d]) = a" "ucast (drop_bit 8 (dec32 [a, b, c, d])) = b"
    "ucast (drop_bit 16 (dec32 [a, b, c, d])) = c" "ucast (drop_bit 24 (dec32 [a, b, c, d])) = d"
    by (rule bit_word_eqI; auto simp: dec32_def byte_bits dest: bit_imp_le_length)+
  ultimately show ?thesis by (simp add: enc32_def)
qed

interpretation c16: codec 2 enc16 dec16 "\<lambda>_. True"
  by unfold_locales (simp_all add: enc16_dec16)

interpretation c32: codec 4 enc32 dec32 "\<lambda>_. True"
  by unfold_locales (simp_all add: enc32_dec32)

section \<open>Arrays of \<open>uint\<close>\<close>

definition enc32s :: "uint list \<Rightarrow> byte list" where
  "enc32s vs = concat (map enc32 vs)"

fun dec32s :: "nat \<Rightarrow> byte list \<Rightarrow> uint list" where
  "dec32s 0 bs = []"
| "dec32s (Suc n) bs = dec32 (take 4 bs) # dec32s n (drop 4 bs)"

lemma length_enc32s [simp]: "length (enc32s vs) = 4 * length vs"
  by (induction vs) (simp_all add: enc32s_def)

lemma enc32s_Nil [simp]: "enc32s [] = []"
  by (simp add: enc32s_def)

lemma enc32s_Cons [simp]: "enc32s (v # vs) = enc32 v @ enc32s vs"
  by (simp add: enc32s_def)

lemma length_dec32s [simp]: "length (dec32s n bs) = n"
  by (induction n arbitrary: bs) simp_all

lemma dec32s_enc32s: "dec32s (length vs) (enc32s vs) = vs"
  by (induction vs) simp_all

lemma enc32s_dec32s: "length bs = 4 * n \<Longrightarrow> enc32s (dec32s n bs) = bs"
proof (induction n arbitrary: bs)
  case 0
  then show ?case by simp
next
  case (Suc n)
  then have "enc32s (dec32s n (drop 4 bs)) = drop 4 bs" and "enc32 (dec32 (take 4 bs)) = take 4 bs"
    by (auto intro: Suc.IH enc32_dec32)
  then show ?case by simp
qed

lemma nth_dec32s: "i < n \<Longrightarrow> dec32s n bs ! i = dec32 (take 4 (drop (4 * i) bs))"
proof (induction n arbitrary: bs i)
  case (Suc n)
  then show ?case by (cases i) (simp_all add: add.commute)
qed simp

lemma c32s: "codec (4 * n) enc32s (dec32s n) (\<lambda>vs. length vs = n)"
  by unfold_locales (auto simp: dec32s_enc32s enc32s_dec32s)

end
