(* ===== verification/Xv6_CString.thy ===== *)
theory Xv6_CString
  imports Xv6_Bytes
begin

text \<open>
  string.c and the \<open>rep stos\<close> helpers of x86.h, over a flat 32-bit address space: a
  memory maps every address to a byte and pointer arithmetic wraps around. The second
  part restates the string routines on byte arrays, the form the file system uses
  them in, and proves that the two agree.
\<close>

type_synonym memory = "uint \<Rightarrow> byte"

section \<open>x86.h: stosb and stosl\<close>

text \<open>\<open>rep stosb\<close>: store the low byte of \<open>data\<close> at \<open>cnt\<close> consecutive addresses.\<close>

primrec stosb :: "uint \<Rightarrow> byte \<Rightarrow> nat \<Rightarrow> memory \<Rightarrow> memory" where
  "stosb addr data 0 m = m"
| "stosb addr data (Suc cnt) m = stosb (addr + 1) data cnt (m(addr := data))"

definition store32 :: "uint \<Rightarrow> uint \<Rightarrow> memory \<Rightarrow> memory" where
  "store32 a v m = m(a := ucast v, a + 1 := ucast (drop_bit 8 v),
     a + 2 := ucast (drop_bit 16 v), a + 3 := ucast (drop_bit 24 v))"

definition load32 :: "uint \<Rightarrow> memory \<Rightarrow> uint" where
  "load32 a m = dec32 [m a, m (a + 1), m (a + 2), m (a + 3)]"

text \<open>\<open>rep stosl\<close>: store a 32-bit word at \<open>cnt\<close> consecutive word addresses.\<close>

primrec stosl :: "uint \<Rightarrow> uint \<Rightarrow> nat \<Rightarrow> memory \<Rightarrow> memory" where
  "stosl addr data 0 m = m"
| "stosl addr data (Suc cnt) m = stosl (addr + 4) data cnt (store32 addr data m)"

section \<open>string.c\<close>

text \<open>\<open>memset\<close>: whole words when both the address and the count are multiples of four
  (the remainder of the C \<open>(int)dst%4\<close> is zero exactly when that of the unsigned value is).\<close>

definition memset :: "uint \<Rightarrow> uint \<Rightarrow> uint \<Rightarrow> memory \<Rightarrow> memory" where
  "memset dst c n m =
    (if dst mod 4 = 0 \<and> n mod 4 = 0 then
       (let c = c AND 0xFF in
        stosl dst (push_bit 24 c OR push_bit 16 c OR push_bit 8 c OR c) (unat (n div 4)) m)
     else stosb dst (ucast c) (unat n) m)"

primrec memcmp_loop :: "uint \<Rightarrow> uint \<Rightarrow> nat \<Rightarrow> memory \<Rightarrow> int" where
  "memcmp_loop s1 s2 0 m = 0"
| "memcmp_loop s1 s2 (Suc n) m =
    (if m s1 \<noteq> m s2 then uint (m s1) - uint (m s2) else memcmp_loop (s1 + 1) (s2 + 1) n m)"

definition memcmp :: "uint \<Rightarrow> uint \<Rightarrow> uint \<Rightarrow> memory \<Rightarrow> int" where
  "memcmp v1 v2 n m = memcmp_loop v1 v2 (unat n) m"

primrec copy_down :: "uint \<Rightarrow> uint \<Rightarrow> nat \<Rightarrow> memory \<Rightarrow> memory" where
  "copy_down d s 0 m = m"
| "copy_down d s (Suc n) m = copy_down (d - 1) (s - 1) n (m(d - 1 := m (s - 1)))"

primrec copy_up :: "uint \<Rightarrow> uint \<Rightarrow> nat \<Rightarrow> memory \<Rightarrow> memory" where
  "copy_up d s 0 m = m"
| "copy_up d s (Suc n) m = copy_up (d + 1) (s + 1) n (m(d := m s))"

definition memmove :: "uint \<Rightarrow> uint \<Rightarrow> uint \<Rightarrow> memory \<Rightarrow> memory" where
  "memmove dst src n m =
    (if src < dst \<and> src + n > dst then copy_down (dst + n) (src + n) (unat n) m
     else copy_up dst src (unat n) m)"

definition memcpy :: "uint \<Rightarrow> uint \<Rightarrow> uint \<Rightarrow> memory \<Rightarrow> memory" where
  "memcpy dst src n m = memmove dst src n m"

primrec strncmp_loop :: "uint \<Rightarrow> uint \<Rightarrow> nat \<Rightarrow> memory \<Rightarrow> int" where
  "strncmp_loop p q 0 m = 0"
| "strncmp_loop p q (Suc n) m =
    (if m p \<noteq> 0 \<and> m p = m q then strncmp_loop (p + 1) (q + 1) n m
     else uint (m p) - uint (m q))"

definition strncmp :: "uint \<Rightarrow> uint \<Rightarrow> uint \<Rightarrow> memory \<Rightarrow> int" where
  "strncmp p q n m = strncmp_loop p q (unat n) m"

text \<open>\<open>strncpy\<close>: copy up to and including the NUL, then pad with NULs. The count of the
  loops is what is left of the \<open>int\<close> argument \<open>n\<close>; a negative \<open>n\<close> copies nothing.\<close>

primrec strncpy_loop :: "uint \<Rightarrow> uint \<Rightarrow> nat \<Rightarrow> memory \<Rightarrow> memory" where
  "strncpy_loop s t 0 m = m"
| "strncpy_loop s t (Suc n) m =
    (let c = m t; m' = m(s := c) in
     if c \<noteq> 0 then strncpy_loop (s + 1) (t + 1) n m' else stosb (s + 1) 0 n m')"

definition strncpy :: "uint \<Rightarrow> uint \<Rightarrow> int \<Rightarrow> memory \<Rightarrow> memory" where
  "strncpy s t n m = strncpy_loop s t (nat n) m"

text \<open>\<open>safestrcpy\<close>: at most \<open>n - 1\<close> bytes of the source, then a NUL.\<close>

primrec safestrcpy_loop :: "uint \<Rightarrow> uint \<Rightarrow> nat \<Rightarrow> memory \<Rightarrow> memory" where
  "safestrcpy_loop s t 0 m = m(s := 0)"
| "safestrcpy_loop s t (Suc n) m =
    (let c = m t; m' = m(s := c) in
     if c \<noteq> 0 then safestrcpy_loop (s + 1) (t + 1) n m' else m'(s + 1 := 0))"

definition safestrcpy :: "uint \<Rightarrow> uint \<Rightarrow> int \<Rightarrow> memory \<Rightarrow> memory" where
  "safestrcpy s t n m = (if n \<le> 0 then m else safestrcpy_loop s t (nat (n - 1)) m)"

text \<open>\<open>strlen\<close> scans for a NUL; it returns only if there is one.\<close>

partial_function (option) strlen_loop :: "uint \<Rightarrow> nat \<Rightarrow> memory \<Rightarrow> nat option" where
  "strlen_loop s n m = (if m (s + of_nat n) = 0 then Some n else strlen_loop s (Suc n) m)"

definition strlen :: "uint \<Rightarrow> memory \<Rightarrow> nat option" where
  "strlen s m = strlen_loop s 0 m"

section \<open>What the memory routines do\<close>

lemma unat_diff_Suc:
  assumes "a \<noteq> (x :: uint)"
  shows "unat (a - x) = Suc (unat (a - (x + 1)))"
proof -
  have "a - (x + 1) + 1 \<noteq> 0" using assms by simp
  then have "unat (a - (x + 1) + 1) = Suc (unat (a - (x + 1)))"
    by (metis Suc_eq_plus1 add.commute unatSuc)
  then show ?thesis by simp
qed

text \<open>Offsets \<open>a - dst\<close> are taken modulo \<open>2^32\<close>, so these laws hold for ranges that
  wrap around as well.\<close>

lemma stosb_eq:
  "n \<le> 4294967296 \<Longrightarrow> stosb dst c n m = (\<lambda>a. if unat (a - dst) < n then c else m a)"
proof (induction n arbitrary: dst m)
  case 0
  then show ?case by simp
next
  case (Suc n)
  have "stosb (dst + 1) c n (m(dst := c)) a = (if unat (a - dst) < Suc n then c else m a)" for a
  proof (cases "a = dst")
    case True
    then show ?thesis using Suc by simp
  next
    case False
    then show ?thesis using Suc by (simp add: unat_diff_Suc)
  qed
  then show ?case by (simp add: fun_eq_iff)
qed

lemma stosb_add: "stosb a c (i + j) m = stosb (a + of_nat i) c j (stosb a c i m)"
  by (induction i arbitrary: a m) (simp_all add: algebra_simps)

lemma store32_fill:
  fixes c :: uint
  defines "b \<equiv> c AND 0xFF"
  shows "store32 a (push_bit 24 b OR push_bit 16 b OR push_bit 8 b OR b) m = stosb a (ucast c) 4 m"
proof -
  let ?w = "push_bit 24 b OR push_bit 16 b OR push_bit 8 b OR b"
  have b: "b = take_bit 8 c"
    by (simp add: b_def take_bit_eq_mask mask_eq_exp_minus_1)
  have "ucast ?w = (ucast c :: byte)" "ucast (drop_bit 8 ?w) = (ucast c :: byte)"
    "ucast (drop_bit 16 ?w) = (ucast c :: byte)" "ucast (drop_bit 24 ?w) = (ucast c :: byte)"
    by (rule bit_word_eqI; auto simp: b byte_bits bit_take_bit_iff)+
  then have "store32 a ?w m = m(a := ucast c, a + 1 := ucast c, a + 2 := ucast c, a + 3 := ucast c)"
    by (simp only: store32_def)
  also have "\<dots> = stosb a (ucast c) (Suc (Suc (Suc (Suc 0)))) m"
    by (simp add: add.commute)
  also have "Suc (Suc (Suc (Suc 0))) = 4" by simp
  finally show ?thesis .
qed

lemma stosl_fill:
  fixes c :: uint
  defines "b \<equiv> c AND 0xFF"
  shows "stosl a (push_bit 24 b OR push_bit 16 b OR push_bit 8 b OR b) n m = stosb a (ucast c) (4 * n) m"
proof (induction n arbitrary: a m)
  case (Suc n)
  have "stosb a (ucast c) (4 * Suc n) m = stosb (a + 4) (ucast c) (4 * n) (stosb a (ucast c) 4 m)"
    using stosb_add [of a "ucast c" 4 "4 * n" m] by simp
  then show ?case
    using Suc store32_fill [of a c m] by (simp add: b_def)
qed simp

lemma memset_eq: "memset dst c n m = stosb dst (ucast c) (unat n) m"
proof -
  have "4 * unat (n div 4) = unat n" if "n mod 4 = 0"
  proof -
    have "unat n mod 4 = 0"
      using arg_cong [OF that, of unat] by (simp add: unat_mod)
    then show ?thesis by (simp add: unat_div) arith
  qed
  then show ?thesis
    unfolding memset_def Let_def stosl_fill by simp
qed

lemma copy_up_snoc:
  "copy_up d s (Suc n) m =
    (copy_up d s n m)(d + of_nat n := copy_up d s n m (s + of_nat n))"
proof (induction n arbitrary: d s m)
  case (Suc n)
  have "copy_up d s (Suc (Suc n)) m = copy_up (d + 1) (s + 1) (Suc n) (m(d := m s))"
    by (simp only: copy_up.simps)
  also have "\<dots> = (copy_up (d + 1) (s + 1) n (m(d := m s)))
      (d + 1 + of_nat n := copy_up (d + 1) (s + 1) n (m(d := m s)) (s + 1 + of_nat n))"
    by (rule Suc.IH)
  finally show ?case by (simp add: add.assoc)
qed simp

lemma copy_up_eq:
  assumes "\<And>i j. i < n \<Longrightarrow> j < i \<Longrightarrow> s + of_nat i \<noteq> d + of_nat j" and "n \<le> 4294967296"
  shows "copy_up d s n m = (\<lambda>a. if unat (a - d) < n then m (s + (a - d)) else m a)"
  using assms
proof (induction n)
  case 0
  then show ?case by simp
next
  case (Suc n)
  let ?m = "copy_up d s n m"
  have IH: "?m = (\<lambda>a. if unat (a - d) < n then m (s + (a - d)) else m a)"
    using Suc.prems by (intro Suc.IH) auto
  have "\<not> unat (s + of_nat n - d) < n"
  proof
    assume lt: "unat (s + of_nat n - d) < n"
    have "s + of_nat n = d + of_nat (unat (s + of_nat n - d))" by simp
    with Suc.prems(1) [of n "unat (s + of_nat n - d)"] lt show False by simp
  qed
  then have src: "?m (s + of_nat n) = m (s + of_nat n)" by (simp add: IH)
  show ?case
    unfolding copy_up_snoc src
  proof
    fix a
    show "(?m(d + of_nat n := m (s + of_nat n))) a = (if unat (a - d) < Suc n then m (s + (a - d)) else m a)"
    proof (cases "a = d + of_nat n")
      case True
      then show ?thesis using Suc.prems by simp
    next
      case False
      then have "unat (a - d) \<noteq> n"
        by (auto simp: unat_eq_word)
      then show ?thesis using False by (auto simp: IH less_Suc_eq)
    qed
  qed
qed

lemma copy_down_snoc:
  "copy_down d s (Suc n) m =
    (copy_down d s n m)(d - 1 - of_nat n := copy_down d s n m (s - 1 - of_nat n))"
proof (induction n arbitrary: d s m)
  case (Suc n)
  have "copy_down d s (Suc (Suc n)) m = copy_down (d - 1) (s - 1) (Suc n) (m(d - 1 := m (s - 1)))"
    by (simp only: copy_down.simps)
  also have "\<dots> = (copy_down (d - 1) (s - 1) n (m(d - 1 := m (s - 1))))
      (d - 1 - 1 - of_nat n := copy_down (d - 1) (s - 1) n (m(d - 1 := m (s - 1))) (s - 1 - 1 - of_nat n))"
    by (rule Suc.IH)
  finally show ?case by (simp add: algebra_simps)
qed simp

lemma copy_down_eq:
  assumes "\<And>i j. i < n \<Longrightarrow> j < i \<Longrightarrow> s - 1 - of_nat i \<noteq> d - 1 - of_nat j" and "n \<le> 4294967296"
  shows "copy_down d s n m = (\<lambda>a. if unat (d - 1 - a) < n then m (s - 1 - (d - 1 - a)) else m a)"
  using assms
proof (induction n)
  case 0
  then show ?case by simp
next
  case (Suc n)
  let ?m = "copy_down d s n m"
  have IH: "?m = (\<lambda>a. if unat (d - 1 - a) < n then m (s - 1 - (d - 1 - a)) else m a)"
    using Suc.prems by (intro Suc.IH) auto
  let ?src = "s - 1 - of_nat n"
  have "\<not> unat (d - 1 - ?src) < n"
  proof
    assume lt: "unat (d - 1 - ?src) < n"
    have "?src = d - 1 - of_nat (unat (d - 1 - ?src))" by simp
    with Suc.prems(1) [of n "unat (d - 1 - ?src)"] lt show False by simp
  qed
  then have src: "?m ?src = m ?src" by (simp add: IH)
  show ?case
    unfolding copy_down_snoc src
  proof
    fix a
    show "(?m(d - 1 - of_nat n := m ?src)) a =
      (if unat (d - 1 - a) < Suc n then m (s - 1 - (d - 1 - a)) else m a)"
    proof (cases "a = d - 1 - of_nat n")
      case True
      then have "d - 1 - a = of_nat n" by simp
      then show ?thesis using True Suc.prems by simp
    next
      case False
      then have "unat (d - 1 - a) \<noteq> n"
        by (auto dest: unat_eq_word)
      then show ?thesis using False by (auto simp: IH less_Suc_eq)
    qed
  qed
qed

lemma unat_mirror:
  assumes "0 < unat n"
  shows "unat (n - 1 - x) < unat n \<longleftrightarrow> unat (x :: uint) < unat n"
proof -
  have n1: "unat (n - 1) = unat n - 1"
    using assms by (simp add: unat_sub_no_wrap)
  show ?thesis
  proof (cases "unat x < unat n")
    case True
    then have "unat (n - 1 - x) = unat n - 1 - unat x"
      using n1 by (subst unat_sub_no_wrap) auto
    then show ?thesis using True by simp
  next
    case False
    then have "unat (n - 1 - x) = 4294967296 + (unat n - 1) - unat x"
      using assms n1 by (simp add: unat_sub_if' word_le_nat_alt)
    then show ?thesis
      using False assms unat_lt_2_32 [of x] by auto
  qed
qed

text \<open>The contract of \<open>memmove\<close>: the \<open>n\<close> bytes at \<open>src\<close> as they were before the call,
  overlapping ranges included.\<close>

lemma memmove_eq:
  assumes "unat src + unat n < 4294967296" and "unat dst + unat n \<le> 4294967296"
  shows "memmove dst src n m =
    (\<lambda>a. if unat (a - dst) < unat n then m (src + (a - dst)) else m a)"
proof (cases "src < dst \<and> src + n > dst")
  case True
  have nlt: "unat n < 4294967296" by (rule unat_lt_2_32)
  have ov: "unat src < unat dst"
    using True by (simp add: word_less_nat_alt)
  have ne: "src + n - 1 - of_nat i \<noteq> dst + n - 1 - of_nat j" if "i < unat n" "j < i" for i j
  proof
    assume "src + n - 1 - of_nat i = dst + n - 1 - of_nat j"
    then have eq: "dst + of_nat i = src + of_nat j" by (simp add: algebra_simps)
    have "unat (dst + of_nat i) = unat dst + i" "unat (src + of_nat j) = unat src + j"
      using that assms nlt by (auto simp: unat_add_no_wrap)
    with eq ov that show False by simp
  qed
  have "copy_down (dst + n) (src + n) (unat n) m =
      (\<lambda>a. if unat (dst + n - 1 - a) < unat n then m (src + n - 1 - (dst + n - 1 - a)) else m a)"
    using ne nlt by (intro copy_down_eq) auto
  moreover have "unat (dst + n - 1 - a) < unat n \<longleftrightarrow> unat (a - dst) < unat n" for a
  proof (cases "0 < unat n")
    case True
    then show ?thesis using unat_mirror [of n "a - dst"] by (simp add: algebra_simps)
  qed simp
  moreover have "src + n - 1 - (dst + n - 1 - a) = src + (a - dst)" for a by simp
  ultimately have "copy_down (dst + n) (src + n) (unat n) m =
      (\<lambda>a. if unat (a - dst) < unat n then m (src + (a - dst)) else m a)"
    by (simp only:)
  then show ?thesis using True by (simp only: memmove_def if_True simp_thms)
next
  case False
  have nlt: "unat n < 4294967296" by (rule unat_lt_2_32)
  have sep: "unat dst \<le> unat src \<or> unat src + unat n \<le> unat dst"
    using False assms by (auto simp: word_less_nat_alt unat_add_no_wrap)
  have "src + of_nat i \<noteq> dst + of_nat j" if "i < unat n" "j < i" for i j
  proof
    assume eq: "src + of_nat i = dst + of_nat j"
    have "unat (src + of_nat i) = unat src + i" "unat (dst + of_nat j) = unat dst + j"
      using that assms nlt by (auto simp: unat_add_no_wrap)
    with eq sep that show False by simp
  qed
  then have "copy_up dst src (unat n) m =
      (\<lambda>a. if unat (a - dst) < unat n then m (src + (a - dst)) else m a)"
    using nlt by (intro copy_up_eq) auto
  then show ?thesis using False by (simp only: memmove_def if_False)
qed

section \<open>The string routines on byte arrays\<close>

text \<open>The bytes a pointer points at, and reading past the end of an array that ends in
  its NUL.\<close>

definition bytes_at :: "memory \<Rightarrow> uint \<Rightarrow> nat \<Rightarrow> byte list" where
  "bytes_at m p n = map (\<lambda>i. m (p + of_nat i)) [0..<n]"

definition hd0 :: "byte list \<Rightarrow> byte" where
  "hd0 xs = (case xs of [] \<Rightarrow> 0 | x # _ \<Rightarrow> x)"

primrec strncmp_l :: "nat \<Rightarrow> byte list \<Rightarrow> byte list \<Rightarrow> int" where
  "strncmp_l 0 p q = 0"
| "strncmp_l (Suc n) p q =
    (if hd0 p \<noteq> 0 \<and> hd0 p = hd0 q then strncmp_l n (tl p) (tl q)
     else uint (hd0 p) - uint (hd0 q))"

primrec strncpy_l :: "nat \<Rightarrow> byte list \<Rightarrow> byte list" where
  "strncpy_l 0 t = []"
| "strncpy_l (Suc n) t =
    (if hd0 t \<noteq> 0 then hd0 t # strncpy_l n (tl t) else replicate (Suc n) 0)"

text \<open>The string an array of \<open>n\<close> bytes holds: up to its NUL, or all of it.\<close>

definition cstr :: "nat \<Rightarrow> byte list \<Rightarrow> byte list" where
  "cstr n xs = takeWhile (\<lambda>c. c \<noteq> 0) (take n xs)"

lemma hd0_simps [simp]: "hd0 [] = 0" "hd0 (x # xs) = x"
  by (simp_all add: hd0_def)

lemma bytes_at_0 [simp]: "bytes_at m p 0 = []"
  by (simp add: bytes_at_def)

lemma bytes_at_Suc [simp]: "bytes_at m p (Suc n) = m p # bytes_at m (p + 1) n"
  by (simp add: bytes_at_def upt_conv_Cons map_Suc_upt [symmetric] add.assoc del: upt_Suc map_Suc_upt)

lemma length_bytes_at [simp]: "length (bytes_at m p n) = n"
  by (simp add: bytes_at_def)

lemma nth_bytes_at [simp]: "i < n \<Longrightarrow> bytes_at m p n ! i = m (p + of_nat i)"
  by (simp add: bytes_at_def)

lemma strncmp_loop_l: "strncmp_loop p q n m = strncmp_l n (bytes_at m p n) (bytes_at m q n)"
  by (induction n arbitrary: p q) simp_all

lemma length_strncpy_l [simp]: "length (strncpy_l n t) = n"
  by (induction n arbitrary: t) simp_all

text \<open>Two strings compare equal exactly when they are the same up to the NUL or to
  the first \<open>n\<close> bytes.\<close>

lemma strncmp_l_0: "strncmp_l n p q = 0 \<longleftrightarrow> cstr n p = cstr n q"
proof (induction n arbitrary: p q)
  case (Suc n)
  show ?case
    by (cases p; cases q) (auto simp: Suc.IH cstr_def uint_0_iff word_uint_eq_iff [symmetric])
qed (simp add: cstr_def)

lemma cstr_strncpy_l: "cstr n (strncpy_l n t) = cstr n t"
proof (induction n arbitrary: t)
  case (Suc n)
  then show ?case by (cases t) (auto simp: cstr_def)
qed (simp add: cstr_def)

lemma cstr_length: "length (cstr n xs) \<le> n"
  unfolding cstr_def by (metis length_take length_takeWhile_le min.cobounded2 order_trans)

text \<open>\<open>strlen\<close> returns the position of the first NUL.\<close>

lemma strlen_loop_eq:
  assumes "n \<le> k" and "m (s + of_nat k) = 0" and "\<forall>i. n \<le> i \<and> i < k \<longrightarrow> m (s + of_nat i) \<noteq> 0"
  shows "strlen_loop s n m = Some k"
  using assms
proof (induction "k - n" arbitrary: n)
  case 0
  then show ?case by (subst strlen_loop.simps) simp
next
  case (Suc d)
  then have "strlen_loop s (Suc n) m = Some k" by (intro Suc.hyps) auto
  moreover have "m (s + of_nat n) \<noteq> 0" using Suc by auto
  ultimately show ?case by (subst strlen_loop.simps) simp
qed

lemma stosb_1: "stosb a c (Suc 0) m = m(a := c)"
  by simp

text \<open>A write to an address outside a range leaves the bytes of the range.\<close>

lemma bytes_at_upd:
  "(\<And>i. i < n \<Longrightarrow> p + of_nat i \<noteq> a) \<Longrightarrow> bytes_at (m(a := v)) p n = bytes_at m p n"
  by (auto simp: bytes_at_def)

lemma bytes_at_stosb:
  assumes "k \<le> 4294967296" and "\<And>i j. i < n \<Longrightarrow> j < k \<Longrightarrow> p + of_nat i \<noteq> a + of_nat j"
  shows "bytes_at (stosb a c k m) p n = bytes_at m p n"
proof -
  have "\<not> unat (p + of_nat i - a) < k" if "i < n" for i
    using assms(2) [OF that, of "unat (p + of_nat i - a)"] by auto
  then show ?thesis
    by (simp add: bytes_at_def stosb_eq [OF assms(1)])
qed

lemma of_nat_Suc_neq: "k < 4294967295 \<Longrightarrow> (s :: uint) + 1 + of_nat k \<noteq> s"
proof
  assume "k < 4294967295" and "s + 1 + of_nat k = s"
  then have "of_nat (Suc k) = (0 :: uint)" by (simp add: algebra_simps)
  then have "unat (of_nat (Suc k) :: uint) = 0" by (simp only: unat_0)
  then show False using \<open>k < 4294967295\<close> unat_of_nat_32 [of "Suc k"] by (simp del: of_nat_Suc)
qed

text \<open>\<open>strncpy\<close> into memory that does not overlap the source is \<open>strncpy_l\<close>.\<close>

lemma strncpy_loop_l:
  assumes "n < 4294967296" and "\<And>i j. i < n \<Longrightarrow> j < n \<Longrightarrow> t + of_nat i \<noteq> s + of_nat j"
  shows "bytes_at (strncpy_loop s t n m) s n = strncpy_l n (bytes_at m t n) \<and>
    (\<forall>a. n \<le> unat (a - s) \<longrightarrow> strncpy_loop s t n m a = m a)"
  using assms
proof (induction n arbitrary: s t m)
  case 0
  then show ?case by simp
next
  case (Suc n)
  let ?m = "m(s := m t)"
  have sep: "t + 1 + of_nat i \<noteq> s + 1 + of_nat j" if "i < n" "j < n" for i j
    using Suc.prems(2) [of "Suc i" "Suc j"] that by (simp add: algebra_simps)
  have src: "bytes_at ?m (t + 1) n = bytes_at m (t + 1) n"
    using Suc.prems(2) [of "Suc _" 0] by (intro bytes_at_upd) (simp add: algebra_simps)
  have keep: "n \<le> unat (a - (s + 1))" if "Suc n \<le> unat (a - s)" for a
    using that unat_diff_Suc [of a s] by (cases "a = s") auto
  have self: "n \<le> unat (s - (s + 1))"
    using Suc.prems(1) of_nat_Suc_neq [of "unat (s - (s + 1))" s] by (fastforce simp: not_le)
  show ?case
  proof (cases "m t = 0")
    case True
    then have run: "strncpy_loop s t (Suc n) m = stosb s 0 (Suc n) m" by simp
    have "bytes_at (stosb s 0 (Suc n) m) s (Suc n) = replicate (Suc n) 0"
      using Suc.prems(1) by (intro nth_equalityI) (auto simp: stosb_eq nth_Cons' simp del: stosb.simps bytes_at_Suc)
    then show ?thesis
      using True Suc.prems(1) unfolding run by (simp add: stosb_eq del: stosb.simps bytes_at_Suc) simp
  next
    case False
    have IH: "bytes_at (strncpy_loop (s + 1) (t + 1) n ?m) (s + 1) n = strncpy_l n (bytes_at ?m (t + 1) n) \<and>
        (\<forall>a. n \<le> unat (a - (s + 1)) \<longrightarrow> strncpy_loop (s + 1) (t + 1) n ?m a = ?m a)"
      using Suc.prems(1) sep by (intro Suc.IH) auto
    have "strncpy_loop (s + 1) (t + 1) n ?m s = m t"
      using IH self by simp
    moreover have "strncpy_loop (s + 1) (t + 1) n ?m a = m a" if "Suc n \<le> unat (a - s)" for a
      using IH keep [OF that] that by auto
    ultimately show ?thesis
      using False IH src by simp
  qed
qed

lemma safestrcpy_loop_l:
  fixes m :: memory
  assumes "n < 4294967295" and "\<And>i j. i < n \<Longrightarrow> j \<le> n \<Longrightarrow> t + of_nat i \<noteq> s + of_nat j"
  defines "src \<equiv> cstr n (bytes_at m t n)"
  shows "bytes_at (safestrcpy_loop s t n m) s (length src) = src \<and>
    safestrcpy_loop s t n m (s + of_nat (length src)) = 0 \<and>
    (\<forall>a. n < unat (a - s) \<longrightarrow> safestrcpy_loop s t n m a = m a)"
  using assms(1,2) unfolding src_def
proof (induction n arbitrary: s t m)
  case 0
  then show ?case by (auto simp: cstr_def)
next
  case (Suc n)
  let ?m = "m(s := m t)"
  have sep: "t + 1 + of_nat i \<noteq> s + 1 + of_nat j" if "i < n" "j \<le> n" for i j
    using Suc.prems(2) [of "Suc i" "Suc j"] that by (simp add: algebra_simps)
  have src: "bytes_at ?m (t + 1) n = bytes_at m (t + 1) n"
    using Suc.prems(2) [of "Suc _" 0] by (intro bytes_at_upd) (simp add: algebra_simps)
  have keep: "n < unat (a - (s + 1)) \<and> a \<noteq> s" if "Suc n < unat (a - s)" for a
    using that unat_diff_Suc [of a s] by (cases "a = s") auto
  have self: "n < unat (s - (s + 1))"
    using Suc.prems(1) of_nat_Suc_neq [of "unat (s - (s + 1))" s] by (fastforce simp: not_less)
  show ?case
  proof (cases "m t = 0")
    case True
    have "a \<noteq> s + 1" if "Suc n < unat (a - s)" for a
      using that by auto
    then show ?thesis
      using True keep by (auto simp: cstr_def)
  next
    case False
    let ?src = "cstr n (bytes_at m (t + 1) n)"
    have IH: "bytes_at (safestrcpy_loop (s + 1) (t + 1) n ?m) (s + 1) (length ?src) = ?src \<and>
        safestrcpy_loop (s + 1) (t + 1) n ?m (s + 1 + of_nat (length ?src)) = 0 \<and>
        (\<forall>a. n < unat (a - (s + 1)) \<longrightarrow> safestrcpy_loop (s + 1) (t + 1) n ?m a = ?m a)"
      unfolding src [symmetric] using Suc.prems(1) sep by (intro Suc.IH) auto
    have cs: "cstr (Suc n) (bytes_at m t (Suc n)) = m t # ?src"
      using False by (simp add: cstr_def)
    have "safestrcpy_loop (s + 1) (t + 1) n ?m s = m t"
      using IH self by simp
    moreover have "safestrcpy_loop (s + 1) (t + 1) n ?m a = m a" if "Suc n < unat (a - s)" for a
      using IH keep [OF that] by simp
    ultimately show ?thesis
      using False IH unfolding cs by (simp add: add.assoc)
  qed
qed

section \<open>Properties of string.c\<close>

text \<open>C11. \<open>memset\<close> and \<open>memmove\<close> meet their contracts: \<open>memset\<close> fills exactly the
  \<open>n\<close> bytes at \<open>dst\<close> with the low byte of \<open>c\<close>, whichever of its two loops runs, and
  \<open>memmove\<close> copies the \<open>n\<close> bytes that were at \<open>src\<close> before the call to \<open>dst\<close>, also
  when the ranges overlap, changing nothing else. The ranges of \<open>memmove\<close> must not run
  off the end of the address space.\<close>

theorem memset_memmove_correct:
  assumes "unat src + unat n < 4294967296" and "unat dst + unat n \<le> 4294967296"
  shows "memset dst c n m = (\<lambda>a. if unat (a - dst) < unat n then ucast c else m a) \<and>
    memmove dst src n m = (\<lambda>a. if unat (a - dst) < unat n then m (src + (a - dst)) else m a)"
proof
  show "memset dst c n m = (\<lambda>a. if unat (a - dst) < unat n then ucast c else m a)"
    using unat_lt_2_32 [of n] by (simp add: memset_eq stosb_eq less_imp_le)
qed (rule memmove_eq [OF assms])

theorem memset_memmove_correct_witness:
  "memset 0x1002 0x141 4 (\<lambda>_. 0) 0x1004 = 0x41 \<and>
   memmove 0x1002 0x1000 4 (\<lambda>a. ucast a) 0x1003 = 1"
proof -
  have r: "unat (0x1000 :: uint) + unat (4 :: uint) < 4294967296"
      "unat (0x1002 :: uint) + unat (4 :: uint) \<le> 4294967296" by simp_all
  show ?thesis
    using memset_memmove_correct [OF r, of "0x141" "\<lambda>_. 0"]
      memset_memmove_correct [OF r, of 0 "\<lambda>a. ucast a"] by simp
qed

text \<open>C12. \<open>safestrcpy\<close> always leaves a NUL-terminated string in the destination: the
  source up to its NUL, cut to \<open>n - 1\<close> bytes, for a destination of \<open>n > 0\<close> bytes that
  does not overlap the source, and it writes nothing outside the destination.\<close>

theorem safestrcpy_terminates_string:
  fixes m :: memory
  assumes "0 < n" and "n < 4294967296"
    and "\<And>i j. i < nat n \<Longrightarrow> j < nat n \<Longrightarrow> t + of_nat i \<noteq> s + of_nat j"
  shows "let src = cstr (nat n - 1) (bytes_at m t (nat n - 1)); m' = safestrcpy s t n m in
    length src < nat n \<and> bytes_at m' s (length src) = src \<and> m' (s + of_nat (length src)) = 0 \<and>
    (\<forall>a. nat n \<le> unat (a - s) \<longrightarrow> m' a = m a)"
proof -
  let ?src = "cstr (nat n - 1) (bytes_at m t (nat n - 1))"
  have run: "safestrcpy s t n m = safestrcpy_loop s t (nat n - 1) m"
    using assms(1) by (simp add: safestrcpy_def nat_diff_distrib)
  have "length ?src < nat n"
    using cstr_length [of "nat n - 1" "bytes_at m t (nat n - 1)"] assms(1) by linarith
  moreover have "bytes_at (safestrcpy_loop s t (nat n - 1) m) s (length ?src) = ?src \<and>
      safestrcpy_loop s t (nat n - 1) m (s + of_nat (length ?src)) = 0 \<and>
      (\<forall>a. nat n - 1 < unat (a - s) \<longrightarrow> safestrcpy_loop s t (nat n - 1) m a = m a)"
    using assms by (intro safestrcpy_loop_l) auto
  moreover have "0 < nat n" using assms(1) by simp
  ultimately show ?thesis
    by (auto simp: run Let_def)
qed

theorem safestrcpy_terminates_string_witness:
  "safestrcpy 0x2000 0x1000 4 (\<lambda>a. if a < 0x1010 then 0x61 else 0x62) 0x2003 = 0"
proof -
  let ?m = "\<lambda>a :: uint. if a < 0x1010 then (0x61 :: byte) else 0x62"
  have sep: "(0x1000 :: uint) + of_nat i \<noteq> 0x2000 + of_nat j" if "i < nat 4" "j < nat 4" for i j
  proof
    assume "(0x1000 :: uint) + of_nat i = 0x2000 + of_nat j"
    then have "unat ((0x1000 :: uint) + of_nat i) = unat ((0x2000 :: uint) + of_nat j)" by simp
    then show False using that by (simp add: unat_add_no_wrap)
  qed
  have "bytes_at ?m 0x1000 3 = [0x61, 0x61, 0x61]" by (simp add: numeral_3_eq_3)
  then have "cstr (nat 4 - 1) (bytes_at ?m 0x1000 (nat 4 - 1)) = [0x61, 0x61, 0x61]"
    by (simp add: cstr_def)
  then show ?thesis
    using safestrcpy_terminates_string [of 4 "0x1000" "0x2000" ?m, OF _ _ sep] by (simp add: Let_def)
qed

end
