(* ===== verification/Xv6_Spinlock.thy ===== *)
theory Xv6_Spinlock
  imports Xv6_CString
begin

text \<open>
  spinlock.c. The first part is the interface the rest of the kernel is written with:
  the set of locks the executing CPU holds, with \<open>acquire\<close> and \<open>release\<close> and their
  panics. The second part models the implementation on a machine with several CPUs:
  \<open>pushcli\<close>/\<open>popcli\<close> nesting, the atomic exchange on \<open>locked\<close>, the debugging fields
  and the call-stack walk, interleaved instruction by instruction at the points where
  CPUs can observe each other. The lemmas show mutual exclusion, that interrupts stay
  off while a lock is held, and that the implementation does on one CPU what the
  interface says.
\<close>

section \<open>The interface\<close>

text \<open>The spinlocks of the kernel.\<close>

datatype lockid = LkKmem | LkPtable | LkBcache | LkLog | LkIcache | LkFtable
  | LkPipe uint | LkTicks | LkInput | LkCons | LkIde

record lock_state =
  held :: "lockid set"

text \<open>
  What \<open>acquire\<close> and \<open>release\<close> do as seen by the code of one CPU: re-acquiring a lock
  it holds and releasing one it does not hold panic. A section between the two calls
  runs without interference from the other users of the same lock, so the definitions
  of the other theories run such a section in one go.
\<close>

definition acquire :: "lockid \<Rightarrow> (unit, 'z lock_state_scheme) kernel" where
  "acquire l = (\<lambda>s. if l \<in> held s then Panic ''acquire''
    else Ret () (s\<lparr>held := insert l (held s)\<rparr>))"

definition release :: "lockid \<Rightarrow> (unit, 'z lock_state_scheme) kernel" where
  "release l = (\<lambda>s. if l \<notin> held s then Panic ''release''
    else Ret () (s\<lparr>held := held s - {l}\<rparr>))"

definition holding :: "lockid \<Rightarrow> 'z lock_state_scheme \<Rightarrow> bool" where
  "holding l s \<longleftrightarrow> l \<in> held s"

lemma wp_acquire [wp_simp, simp]:
  "wp (acquire l) Q s \<longleftrightarrow> l \<notin> held s \<and> Q () (s\<lparr>held := insert l (held s)\<rparr>)"
  by (auto simp: wp_def acquire_def)

lemma wp_release [wp_simp, simp]:
  "wp (release l) Q s \<longleftrightarrow> l \<in> held s \<and> Q () (s\<lparr>held := held s - {l}\<rparr>)"
  by (auto simp: wp_def release_def)

lemma acquire_run [simp]: "l \<notin> held s \<Longrightarrow> acquire l s = Ret () (s\<lparr>held := insert l (held s)\<rparr>)"
  by (simp add: acquire_def)

lemma release_run [simp]: "l \<in> held s \<Longrightarrow> release l s = Ret () (s\<lparr>held := held s - {l}\<rparr>)"
  by (simp add: release_def)

lemma held_noop [simp]: "held s = h \<Longrightarrow> s\<lparr>held := h\<rparr> = (s :: 'z lock_state_scheme)"
  by simp

section \<open>The implementation\<close>

text \<open>The part of \<open>struct cpu\<close> the locks use, with the interrupt flag of \<open>eflags\<close>.
  \<open>pc\<close> is where the CPU is in the code below, and \<open>own\<close> are the locks whose
  \<open>acquire\<close> has returned and whose \<open>release\<close> has not been called since.\<close>

datatype lkpc = Outside | Spin lockid | Won lockid | Unlocking lockid | Popping

record lk_cpu =
  ncli :: int
  intena :: bool
  eflags_IF :: bool
  pc :: lkpc
  own :: "lockid set"

record spinlock =
  locked :: uint
  lkname :: string
  lkcpu :: "nat option"
  pcs :: "uint list"

record smp =
  mcpu :: "lk_cpu list"
  mlock :: "lockid \<Rightarrow> spinlock"
  smem :: memory

definition initlock :: "string \<Rightarrow> spinlock \<Rightarrow> spinlock" where
  "initlock name lk = lk\<lparr>lkname := name, locked := 0, lkcpu := None\<rparr>"

definition pushcli :: "lk_cpu \<Rightarrow> lk_cpu" where
  "pushcli c =
    (let eflags = eflags_IF c; c = c\<lparr>eflags_IF := False\<rparr> in
     if ncli c = 0 then c\<lparr>ncli := ncli c + 1, intena := eflags\<rparr> else c\<lparr>ncli := ncli c + 1\<rparr>)"

definition popcli :: "(unit, lk_cpu) kernel" where
  "popcli = (\<lambda>c.
    if eflags_IF c then Panic ''popcli - interruptible''
    else let c = c\<lparr>ncli := ncli c - 1\<rparr> in
      if ncli c < 0 then Panic ''popcli''
      else Ret () (if ncli c = 0 \<and> intena c then c\<lparr>eflags_IF := True\<rparr> else c))"

text \<open>The walk up the saved \<open>%ebp\<close> chain, at most ten frames, the rest of \<open>pcs\<close> zero.\<close>

primrec callerpcs_walk :: "nat \<Rightarrow> memory \<Rightarrow> uint \<Rightarrow> uint list" where
  "callerpcs_walk 0 m ebp = []"
| "callerpcs_walk (Suc k) m ebp =
    (if ebp = 0 \<or> ebp < 0x80000000 \<or> ebp = 0xffffffff then replicate (Suc k) 0
     else load32 (ebp + 4) m # callerpcs_walk k m (load32 ebp m))"

definition getcallerpcs :: "memory \<Rightarrow> uint \<Rightarrow> uint list" where
  "getcallerpcs m v = callerpcs_walk 10 m (v - 8)"

definition spin_holding :: "nat \<Rightarrow> spinlock \<Rightarrow> bool" where
  "spin_holding i lk \<longleftrightarrow> locked lk \<noteq> 0 \<and> lkcpu lk = Some i"

text \<open>\<open>xchg\<close> of x86.h on the lock word: the old value and the new lock.\<close>

definition xchg :: "uint \<Rightarrow> spinlock \<Rightarrow> uint \<times> spinlock" where
  "xchg newval lk = (locked lk, lk\<lparr>locked := newval\<rparr>)"

definition upd_cpu :: "nat \<Rightarrow> (lk_cpu \<Rightarrow> lk_cpu) \<Rightarrow> smp \<Rightarrow> smp" where
  "upd_cpu i f m = m\<lparr>mcpu := (mcpu m)[i := f (mcpu m ! i)]\<rparr>"

definition upd_lock :: "lockid \<Rightarrow> (spinlock \<Rightarrow> spinlock) \<Rightarrow> smp \<Rightarrow> smp" where
  "upd_lock l f m = m\<lparr>mlock := (mlock m)(l := f (mlock m l))\<rparr>"

text \<open>\<open>acquire\<close> on CPU \<open>i\<close>, cut at the points where other CPUs can act: up to the
  loop, one turn of the loop, and the debugging record after it (\<open>v\<close> is \<open>&lk\<close>, the
  address of the argument on the stack).\<close>

definition spin_acquire_enter :: "nat \<Rightarrow> lockid \<Rightarrow> (unit, smp) kernel" where
  "spin_acquire_enter i l = (\<lambda>m.
    let m = upd_cpu i pushcli m in
    if spin_holding i (mlock m l) then Panic ''acquire''
    else Ret () (upd_cpu i (\<lambda>c. c\<lparr>pc := Spin l\<rparr>) m))"

definition spin_acquire_turn :: "nat \<Rightarrow> lockid \<Rightarrow> smp \<Rightarrow> smp" where
  "spin_acquire_turn i l m =
    (let (old, lk) = xchg 1 (mlock m l); m = upd_lock l (\<lambda>_. lk) m in
     if old \<noteq> 0 then m else upd_cpu i (\<lambda>c. c\<lparr>pc := Won l\<rparr>) m)"

definition spin_acquire_record :: "nat \<Rightarrow> lockid \<Rightarrow> uint \<Rightarrow> smp \<Rightarrow> smp" where
  "spin_acquire_record i l v m =
    upd_cpu i (\<lambda>c. c\<lparr>pc := Outside, own := insert l (own c)\<rparr>)
      (upd_lock l (\<lambda>lk. lk\<lparr>lkcpu := Some i, pcs := getcallerpcs (smem m) v\<rparr>) m)"

text \<open>\<open>release\<close> on CPU \<open>i\<close>: up to the exchange, the exchange, and \<open>popcli\<close>.\<close>

definition spin_release_enter :: "nat \<Rightarrow> lockid \<Rightarrow> (unit, smp) kernel" where
  "spin_release_enter i l = (\<lambda>m.
    if \<not> spin_holding i (mlock m l) then Panic ''release''
    else Ret () (upd_cpu i (\<lambda>c. c\<lparr>pc := Unlocking l, own := own c - {l}\<rparr>)
      (upd_lock l (\<lambda>lk. lk\<lparr>pcs := (pcs lk)[0 := 0], lkcpu := None\<rparr>) m)))"

definition spin_release_xchg :: "nat \<Rightarrow> lockid \<Rightarrow> smp \<Rightarrow> smp" where
  "spin_release_xchg i l m =
    upd_cpu i (\<lambda>c. c\<lparr>pc := Popping\<rparr>) (upd_lock l (\<lambda>lk. snd (xchg 0 lk)) m)"

definition spin_release_pop :: "nat \<Rightarrow> (unit, smp) kernel" where
  "spin_release_pop i = (\<lambda>m. case popcli (mcpu m ! i) of
      Ret _ c \<Rightarrow> Ret () (upd_cpu i (\<lambda>_. c\<lparr>pc := Outside\<rparr>) m)
    | Panic e \<Rightarrow> Panic e
    | Block _ \<Rightarrow> Block m)"

text \<open>The lock checks of \<open>sched\<close> (proc.c): it holds \<open>ptable.lock\<close>, nothing else, and
  runs with interrupts off.\<close>

definition sched_checks :: "nat \<Rightarrow> smp \<Rightarrow> string option" where
  "sched_checks i m =
    (if \<not> spin_holding i (mlock m LkPtable) then Some ''sched ptable.lock''
     else if ncli (mcpu m ! i) \<noteq> 1 then Some ''sched locks''
     else if eflags_IF (mcpu m ! i) then Some ''sched interruptible''
     else None)"

section \<open>Interleavings\<close>

text \<open>
  One step of the machine is one step of one CPU. A CPU calls \<open>acquire\<close> on a lock it
  does not own and \<open>release\<close> on a lock it owns; it may switch interrupts on or off with
  \<open>sti\<close> and \<open>cli\<close> when it is in no \<open>pushcli\<close> section.
\<close>

inductive smp_step :: "smp \<Rightarrow> smp \<Rightarrow> bool" where
  acq: "i < length (mcpu m) \<Longrightarrow> pc (mcpu m ! i) = Outside \<Longrightarrow> l \<notin> own (mcpu m ! i) \<Longrightarrow>
    spin_acquire_enter i l m = Ret () m' \<Longrightarrow> smp_step m m'"
| turn: "i < length (mcpu m) \<Longrightarrow> pc (mcpu m ! i) = Spin l \<Longrightarrow>
    smp_step m (spin_acquire_turn i l m)"
| record_pcs: "i < length (mcpu m) \<Longrightarrow> pc (mcpu m ! i) = Won l \<Longrightarrow>
    smp_step m (spin_acquire_record i l v m)"
| rel: "i < length (mcpu m) \<Longrightarrow> pc (mcpu m ! i) = Outside \<Longrightarrow> l \<in> own (mcpu m ! i) \<Longrightarrow>
    spin_release_enter i l m = Ret () m' \<Longrightarrow> smp_step m m'"
| unlocking: "i < length (mcpu m) \<Longrightarrow> pc (mcpu m ! i) = Unlocking l \<Longrightarrow>
    smp_step m (spin_release_xchg i l m)"
| pop: "i < length (mcpu m) \<Longrightarrow> pc (mcpu m ! i) = Popping \<Longrightarrow>
    spin_release_pop i m = Ret () m' \<Longrightarrow> smp_step m m'"
| sti_cli: "i < length (mcpu m) \<Longrightarrow> pc (mcpu m ! i) = Outside \<Longrightarrow> ncli (mcpu m ! i) = 0 \<Longrightarrow>
    smp_step m (upd_cpu i (\<lambda>c. c\<lparr>eflags_IF := b\<rparr>) m)"

text \<open>The locks whose word a CPU has set: those it owns and the one it is taking or giving back.\<close>

definition pending :: "lk_cpu \<Rightarrow> lockid set" where
  "pending c = (case pc c of Won l \<Rightarrow> {l} | Unlocking l \<Rightarrow> {l} | _ \<Rightarrow> {})"

definition claims :: "lk_cpu \<Rightarrow> lockid set" where
  "claims c = own c \<union> pending c"

definition cpu_inv :: "lk_cpu \<Rightarrow> bool" where
  "cpu_inv c \<longleftrightarrow> finite (own c) \<and> own c \<inter> pending c = {} \<and>
    (\<forall>l. pc c = Spin l \<longrightarrow> l \<notin> own c) \<and>
    ncli c = int (card (own c)) + (if pc c = Outside then 0 else 1) \<and>
    (ncli c > 0 \<longrightarrow> \<not> eflags_IF c)"

definition smp_inv :: "smp \<Rightarrow> bool" where
  "smp_inv m \<longleftrightarrow> (\<forall>i < length (mcpu m). cpu_inv (mcpu m ! i)) \<and>
    (\<forall>l. (locked (mlock m l) \<noteq> 0) = (\<exists>i < length (mcpu m). l \<in> claims (mcpu m ! i))) \<and>
    (\<forall>l i j. i < length (mcpu m) \<and> j < length (mcpu m) \<and>
      l \<in> claims (mcpu m ! i) \<and> l \<in> claims (mcpu m ! j) \<longrightarrow> i = j) \<and>
    (\<forall>l i. (lkcpu (mlock m l) = Some i) = (i < length (mcpu m) \<and> l \<in> own (mcpu m ! i)))"

lemma upd_sel [simp]:
  "mcpu (upd_cpu i f m) = (mcpu m)[i := f (mcpu m ! i)]" "mlock (upd_cpu i f m) = mlock m"
  "mcpu (upd_lock l g m) = mcpu m" "mlock (upd_lock l g m) = (mlock m)(l := g (mlock m l))"
  "smem (upd_cpu i f m) = smem m" "smem (upd_lock l g m) = smem m"
  by (simp_all add: upd_cpu_def upd_lock_def)

lemma smp_invD:
  assumes "smp_inv m"
  shows smp_cpu: "i < length (mcpu m) \<Longrightarrow> cpu_inv (mcpu m ! i)"
    and smp_locked: "locked (mlock m l) \<noteq> 0 \<longleftrightarrow> (\<exists>i < length (mcpu m). l \<in> claims (mcpu m ! i))"
    and smp_excl: "i < length (mcpu m) \<Longrightarrow> j < length (mcpu m) \<Longrightarrow> l \<in> claims (mcpu m ! i) \<Longrightarrow>
      l \<in> claims (mcpu m ! j) \<Longrightarrow> i = j"
    and smp_lkcpu: "lkcpu (mlock m l) = Some i \<longleftrightarrow> i < length (mcpu m) \<and> l \<in> own (mcpu m ! i)"
  using assms unfolding smp_inv_def by blast+

lemma own_claims: "l \<in> own c \<Longrightarrow> l \<in> claims c"
  by (simp add: claims_def)

text \<open>The CPU recorded in a lock that a CPU claims, or that nobody claims.\<close>

lemma lkcpu_claimed:
  assumes "smp_inv m" and "i < length (mcpu m)" and "l \<in> claims (mcpu m ! i) \<or> locked (mlock m l) = 0"
  shows "lkcpu (mlock m l) = (if l \<in> own (mcpu m ! i) then Some i else None)"
proof (cases "lkcpu (mlock m l)")
  case None
  then show ?thesis using smp_lkcpu [OF assms(1), of l i] assms(2) by auto
next
  case (Some j)
  then have j: "j < length (mcpu m)" "l \<in> own (mcpu m ! j)" using smp_lkcpu [OF assms(1)] by auto
  then have "locked (mlock m l) \<noteq> 0" using smp_locked [OF assms(1)] own_claims by blast
  then have "l \<in> claims (mcpu m ! i)" using assms(3) by simp
  then have "i = j" using smp_excl [OF assms(1,2) j(1)] own_claims [OF j(2)] by blast
  then show ?thesis using Some j by simp
qed

text \<open>A step that changes one CPU and no lock.\<close>

lemma smp_inv_cpu:
  assumes "smp_inv m" and "i < length (mcpu m)" and "mcpu m' = (mcpu m)[i := c]" and "mlock m' = mlock m"
    and "cpu_inv c" and "claims c = claims (mcpu m ! i)" and "own c = own (mcpu m ! i)"
  shows "smp_inv m'"
proof -
  have cl: "claims (mcpu m' ! j) = claims (mcpu m ! j)" "own (mcpu m' ! j) = own (mcpu m ! j)" for j
    using assms(2,3,6,7) by (cases "j = i", auto)+
  have len: "length (mcpu m') = length (mcpu m)" using assms(3) by simp
  have "cpu_inv (mcpu m' ! j)" if "j < length (mcpu m)" for j
    using smp_cpu [OF assms(1) that] assms(3,5) that by (cases "j = i") auto
  then show ?thesis
    using assms(1) unfolding smp_inv_def assms(4) cl len by blast
qed

text \<open>A step that changes one CPU and one lock, which is free or claimed by that CPU.\<close>

lemma smp_inv_cpu_lock:
  assumes inv: "smp_inv m" and i: "i < length (mcpu m)"
    and m': "mcpu m' = (mcpu m)[i := c]" "mlock m' = (mlock m)(l := lk)"
    and c: "cpu_inv c" "claims c - {l} = claims (mcpu m ! i) - {l}" "own c - {l} = own (mcpu m ! i) - {l}"
    and l: "l \<in> claims (mcpu m ! i) \<or> locked (mlock m l) = 0"
    and lk: "(locked lk \<noteq> 0) = (l \<in> claims c)" "lkcpu lk = (if l \<in> own c then Some i else None)"
  shows "smp_inv m'"
proof -
  have len: "length (mcpu m') = length (mcpu m)" using m' by simp
  have others: "l \<notin> claims (mcpu m ! j)" if "j < length (mcpu m)" "j \<noteq> i" for j
    using smp_excl [OF inv i that(1)] smp_locked [OF inv] l i that by metis
  have cl: "k \<in> claims (mcpu m' ! j) \<longleftrightarrow>
      (if k = l then j = i \<and> l \<in> claims c else k \<in> claims (mcpu m ! j))"
    if "j < length (mcpu m)" for j k
    using that i m'(1) c(2) others [of j] by (cases "j = i") auto
  have ow: "k \<in> own (mcpu m' ! j) \<longleftrightarrow>
      (if k = l then j = i \<and> l \<in> own c else k \<in> own (mcpu m ! j))"
    if "j < length (mcpu m)" for j k
    using that i m'(1) c(3) others [of j] own_claims [of l "mcpu m ! j"] by (cases "j = i") auto
  have "cpu_inv (mcpu m' ! j)" if "j < length (mcpu m)" for j
    using smp_cpu [OF inv that] c(1) m'(1) that by (cases "j = i") auto
  moreover have "(locked (mlock m' k) \<noteq> 0) = (\<exists>j < length (mcpu m). k \<in> claims (mcpu m' ! j))" for k
    using smp_locked [OF inv, of k] lk(1) cl i m'(2) by (cases "k = l") auto
  moreover have "j1 = j2" if "j1 < length (mcpu m)" "j2 < length (mcpu m)"
      "k \<in> claims (mcpu m' ! j1)" "k \<in> claims (mcpu m' ! j2)" for k j1 j2
    using smp_excl [OF inv that(1,2), of k] that cl [of j1 k] cl [of j2 k] by (auto split: if_splits)
  moreover have "(lkcpu (mlock m' k) = Some j) = (j < length (mcpu m) \<and> k \<in> own (mcpu m' ! j))" for j k
    using smp_lkcpu [OF inv, of k j] ow [of j k] lk(2) m'(2) i by (cases "k = l") auto
  ultimately show ?thesis unfolding smp_inv_def len by blast
qed

lemma cpu_inv_pushcli:
  "cpu_inv c \<Longrightarrow> pc c = Outside \<Longrightarrow> l \<notin> own c \<Longrightarrow> cpu_inv (pushcli c\<lparr>pc := Spin l\<rparr>)"
  by (auto simp: cpu_inv_def pushcli_def pending_def Let_def)

lemma popcli_Popping:
  assumes "cpu_inv c" and "pc c = Popping"
  obtains c' where "popcli c = Ret () c'" and "cpu_inv (c'\<lparr>pc := Outside\<rparr>)" and "own c' = own c"
    and "ncli c' = int (card (own c))"
  using assms by (auto simp: popcli_def cpu_inv_def Let_def pending_def)

lemmas cpu_simps = cpu_inv_def claims_def pending_def

lemma smp_step_inv: "smp_step m m' \<Longrightarrow> smp_inv m \<Longrightarrow> smp_inv m'"
proof (induction rule: smp_step.induct)
  case (acq i m l m')
  have c: "cpu_inv (mcpu m ! i)" using acq(1,5) by (intro smp_cpu)
  let ?c = "pushcli (mcpu m ! i)\<lparr>pc := Spin l\<rparr>"
  have "mcpu m' = (mcpu m)[i := ?c]" "mlock m' = mlock m"
    using acq(1,4) by (auto simp: spin_acquire_enter_def Let_def split: if_splits)
  moreover have "own ?c = own (mcpu m ! i)" "claims ?c = claims (mcpu m ! i)"
    using acq(2) by (simp_all add: claims_def pending_def pushcli_def Let_def)
  ultimately show ?case
    using smp_inv_cpu [OF acq(5,1)] cpu_inv_pushcli [OF c acq(2,3)] by blast
next
  case (turn i m l)
  have c: "cpu_inv (mcpu m ! i)" using turn(1,3) by (intro smp_cpu)
  show ?case
  proof (cases "locked (mlock m l) = 0")
    case True
    have "lkcpu (mlock m l) = None"
      using lkcpu_claimed [OF turn(3,1) disjI2 [OF True]] c turn(2) by (simp add: cpu_inv_def)
    then show ?thesis
      using c turn(2) True
      by (intro smp_inv_cpu_lock [OF turn(3,1), where l = l and
            c = "(mcpu m ! i)\<lparr>pc := Won l\<rparr>" and lk = "(mlock m l)\<lparr>locked := 1\<rparr>"])
        (auto simp: spin_acquire_turn_def xchg_def cpu_simps)
  next
    case False
    then have lk: "(locked (mlock (spin_acquire_turn i l m) k) \<noteq> 0) = (locked (mlock m k) \<noteq> 0)"
        "lkcpu (mlock (spin_acquire_turn i l m) k) = lkcpu (mlock m k)"
        "mcpu (spin_acquire_turn i l m) = mcpu m" for k
      by (simp_all add: spin_acquire_turn_def xchg_def)
    show ?thesis
      using turn(3) unfolding smp_inv_def lk .
  qed
next
  case (record_pcs i m l v)
  have c: "cpu_inv (mcpu m ! i)" using record_pcs(1,3) by (intro smp_cpu)
  have cl: "l \<in> claims (mcpu m ! i)" using record_pcs(2) by (simp add: cpu_simps)
  then have "locked (mlock m l) \<noteq> 0" using smp_locked [OF record_pcs(3)] record_pcs(1) by blast
  then show ?case
    using record_pcs(2) c cl
    by (intro smp_inv_cpu_lock [OF record_pcs(3,1), where l = l and
          c = "(mcpu m ! i)\<lparr>pc := Outside, own := insert l (own (mcpu m ! i))\<rparr>" and
          lk = "(mlock m l)\<lparr>lkcpu := Some i, pcs := getcallerpcs (smem m) v\<rparr>"])
      (auto simp: spin_acquire_record_def cpu_simps)
next
  case (rel i m l m')
  have c: "cpu_inv (mcpu m ! i)" using rel(1,5) by (intro smp_cpu)
  have cl: "l \<in> claims (mcpu m ! i)" using rel(3) by (simp add: claims_def)
  have m': "m' = upd_cpu i (\<lambda>c. c\<lparr>pc := Unlocking l, own := own c - {l}\<rparr>)
      (upd_lock l (\<lambda>lk. lk\<lparr>pcs := (pcs lk)[0 := 0], lkcpu := None\<rparr>) m)"
    using rel(4) by (simp add: spin_release_enter_def split: if_splits)
  have "locked (mlock m l) \<noteq> 0" using smp_locked [OF rel(5)] rel(1) cl by blast
  moreover have "card (own (mcpu m ! i)) > 0" using c rel(3) by (auto simp: cpu_inv_def card_gt_0_iff)
  ultimately show ?case
    using rel(2,3) c cl unfolding m'
    by (intro smp_inv_cpu_lock [OF rel(5,1), where l = l and
          c = "(mcpu m ! i)\<lparr>pc := Unlocking l, own := own (mcpu m ! i) - {l}\<rparr>" and
          lk = "(mlock m l)\<lparr>pcs := (pcs (mlock m l))[0 := 0], lkcpu := None\<rparr>"])
      (auto simp: cpu_simps)
next
  case (unlocking i m l)
  have c: "cpu_inv (mcpu m ! i)" using unlocking(1,3) by (intro smp_cpu)
  have cl: "l \<in> claims (mcpu m ! i)" using unlocking(2) by (simp add: cpu_simps)
  have "lkcpu (mlock m l) = None"
    using lkcpu_claimed [OF unlocking(3,1) disjI1 [OF cl]] c unlocking(2) by (auto simp: cpu_simps)
  then show ?case
    using unlocking(2) c cl
    by (intro smp_inv_cpu_lock [OF unlocking(3,1), where l = l and
          c = "(mcpu m ! i)\<lparr>pc := Popping\<rparr>" and lk = "(mlock m l)\<lparr>locked := 0\<rparr>"])
      (auto simp: spin_release_xchg_def xchg_def cpu_simps)
next
  case (pop i m m')
  have c: "cpu_inv (mcpu m ! i)" using pop(1,4) by (intro smp_cpu)
  from popcli_Popping [OF c pop(2)] obtain c' where c':
    "popcli (mcpu m ! i) = Ret () c'" "cpu_inv (c'\<lparr>pc := Outside\<rparr>)" "own c' = own (mcpu m ! i)" .
  then have "mcpu m' = (mcpu m)[i := c'\<lparr>pc := Outside\<rparr>]" "mlock m' = mlock m"
    using pop(1,3) by (auto simp: spin_release_pop_def)
  then show ?case
    using smp_inv_cpu [OF pop(4,1)] c' pop(2) by (simp add: claims_def pending_def)
next
  case (sti_cli i m b)
  have c: "cpu_inv (mcpu m ! i)" using sti_cli(1,4) by (intro smp_cpu)
  show ?case
    using sti_cli(2,3) c
    by (intro smp_inv_cpu [OF sti_cli(4,1), where c = "(mcpu m ! i)\<lparr>eflags_IF := b\<rparr>"])
      (auto simp: cpu_simps)
qed

lemma smp_steps_inv: "smp_step\<^sup>*\<^sup>* m m' \<Longrightarrow> smp_inv m \<Longrightarrow> smp_inv m'"
  by (induction rule: rtranclp_induct) (auto intro: smp_step_inv)

section \<open>Properties of the spinlocks\<close>

text \<open>A machine as \<open>main\<close> starts it: no CPU is in lock code or holds a lock, and every
  lock has been through \<open>initlock\<close>.\<close>

definition smp_boot :: "smp \<Rightarrow> bool" where
  "smp_boot m \<longleftrightarrow> (\<forall>c \<in> set (mcpu m). pc c = Outside \<and> own c = {} \<and> ncli c = 0) \<and>
    (\<forall>l. \<exists>name lk. mlock m l = initlock name lk)"

lemma smp_boot_inv:
  assumes boot: "smp_boot m"
  shows "smp_inv m"
proof -
  have c: "cpu_inv (mcpu m ! i) \<and> claims (mcpu m ! i) = {} \<and> own (mcpu m ! i) = {}"
    if "i < length (mcpu m)" for i
    using boot nth_mem [OF that] by (simp add: smp_boot_def cpu_simps)
  have "locked (mlock m l) = 0 \<and> lkcpu (mlock m l) = None" for l
    using boot by (auto simp: smp_boot_def initlock_def dest: spec [of _ l])
  then show ?thesis using c by (auto simp: smp_inv_def)
qed

lemma spin_holding_own:
  assumes "smp_inv m" and "i < length (mcpu m)"
  shows "spin_holding i (mlock m l) \<longleftrightarrow> l \<in> own (mcpu m ! i)"
  using smp_lkcpu [OF assms(1), of l i] smp_locked [OF assms(1), of l] assms(2) own_claims
  by (auto simp: spin_holding_def)

text \<open>C9. Mutual exclusion. Whatever the interleaving of the CPUs, a lock is owned by at
  most one CPU; a CPU that owns a lock has interrupts off; \<open>acquire\<close> of a lock the CPU
  does not own, \<open>release\<close> of one it owns, and the \<open>popcli\<close> at its end do not panic;
  and a CPU that owns just \<open>ptable.lock\<close> passes the lock checks of \<open>sched\<close>.\<close>

theorem spinlock_mutual_exclusion:
  assumes "smp_boot m" and "smp_step\<^sup>*\<^sup>* m m'" and "i < length (mcpu m')" and "j < length (mcpu m')"
  shows "(l \<in> own (mcpu m' ! i) \<and> l \<in> own (mcpu m' ! j) \<longrightarrow> i = j) \<and>
    (own (mcpu m' ! i) \<noteq> {} \<longrightarrow> \<not> eflags_IF (mcpu m' ! i)) \<and>
    (l \<notin> own (mcpu m' ! i) \<longrightarrow> (\<exists>m''. spin_acquire_enter i l m' = Ret () m'')) \<and>
    (l \<in> own (mcpu m' ! i) \<longrightarrow> (\<exists>m''. spin_release_enter i l m' = Ret () m'')) \<and>
    (pc (mcpu m' ! i) = Popping \<longrightarrow> (\<exists>m''. spin_release_pop i m' = Ret () m'')) \<and>
    (pc (mcpu m' ! i) = Outside \<and> own (mcpu m' ! i) = {LkPtable} \<longrightarrow> sched_checks i m' = None)"
proof -
  have inv: "smp_inv m'" using smp_steps_inv assms(1,2) smp_boot_inv by blast
  have c: "cpu_inv (mcpu m' ! i)" using smp_cpu [OF inv assms(3)] .
  have "l \<in> own (mcpu m' ! i) \<and> l \<in> own (mcpu m' ! j) \<longrightarrow> i = j"
    using smp_excl [OF inv assms(3,4)] own_claims by blast
  moreover have "own (mcpu m' ! i) \<noteq> {} \<longrightarrow> \<not> eflags_IF (mcpu m' ! i)"
    using c by (auto simp: cpu_inv_def card_gt_0_iff split: if_splits)
  moreover have "spin_holding i (mlock m' k) \<longleftrightarrow> k \<in> own (mcpu m' ! i)" for k
    by (rule spin_holding_own [OF inv assms(3)])
  moreover have "\<exists>m''. spin_release_pop i m' = Ret () m''" if "pc (mcpu m' ! i) = Popping"
    by (rule popcli_Popping [OF c that]) (simp add: spin_release_pop_def)
  ultimately show ?thesis
    using c by (auto simp: spin_acquire_enter_def spin_release_enter_def sched_checks_def cpu_inv_def Let_def)
qed

definition boot2 :: smp where
  "boot2 = \<lparr>mcpu = replicate 2 \<lparr>ncli = 0, intena = False, eflags_IF = True, pc = Outside, own = {}\<rparr>,
    mlock = (\<lambda>_. initlock ''lock'' \<lparr>locked = 0, lkname = [], lkcpu = None, pcs = replicate 10 0\<rparr>),
    smem = (\<lambda>_. 0)\<rparr>"

theorem spinlock_mutual_exclusion_witness:
  "\<exists>m. smp_step boot2 m \<and> pc (mcpu m ! 0) = Spin LkKmem \<and>
    (LkKmem \<notin> own (mcpu m ! 1) \<longrightarrow> (\<exists>m''. spin_acquire_enter 1 LkKmem m = Ret () m''))"
proof -
  obtain m where m: "spin_acquire_enter 0 LkKmem boot2 = Ret () m"
      "length (mcpu m) = 2" "pc (mcpu m ! 0) = Spin LkKmem"
    by (simp add: spin_acquire_enter_def boot2_def spin_holding_def initlock_def Let_def upd_cpu_def
        numeral_2_eq_2)
  have boot: "smp_boot boot2" by (auto simp: smp_boot_def boot2_def)
  have step: "smp_step boot2 m"
    by (rule smp_step.acq [where i = 0 and l = LkKmem]) (use m in \<open>simp_all add: boot2_def\<close>)
  then have "smp_step\<^sup>*\<^sup>* boot2 m" by simp
  from spinlock_mutual_exclusion [OF boot this, of 1 1 LkKmem] m(2)
  show ?thesis using step m(3) by (intro exI [of _ m]) auto
qed

text \<open>\<open>popcli\<close> undoes \<open>pushcli\<close>.\<close>

lemma popcli_pushcli:
  assumes "ncli c \<ge> 0" and "ncli c > 0 \<longrightarrow> \<not> eflags_IF c"
  shows "\<exists>c'. popcli (pushcli c\<lparr>pc := p, own := X\<rparr>) = Ret () c' \<and> ncli c' = ncli c \<and>
    eflags_IF c' = eflags_IF c \<and> own c' = X"
  using assms by (cases "ncli c = 0") (auto simp: popcli_def pushcli_def Let_def)

text \<open>A CPU that owns the lock it releases gets through \<open>release\<close>.\<close>

lemma spin_release_owned:
  assumes "smp_inv m" and "i < length (mcpu m)" and "pc (mcpu m ! i) = Outside" and "k \<in> own (mcpu m ! i)"
  shows "\<exists>m'. thenk (spin_release_enter i k) (thenk (modk (spin_release_xchg i k)) (spin_release_pop i)) m = Ret () m'"
proof -
  let ?c = "mcpu m ! i"
  have "cpu_inv ?c" by (rule smp_cpu [OF assms(1,2)])
  then have n: "1 \<le> ncli ?c" "\<not> eflags_IF ?c"
    using assms(3,4) card_gt_0_iff [of "own ?c"] by (auto simp: cpu_inv_def)
  then have "\<exists>c'. popcli (?c\<lparr>own := own ?c - {k}, pc := Popping\<rparr>) = Ret () c'" by (simp add: popcli_def Let_def)
  moreover have "spin_holding i (mlock m k)" using spin_holding_own [OF assms(1,2)] assms(4) by simp
  ultimately show ?thesis
    using assms(2) by (auto simp: spin_release_enter_def spin_release_xchg_def spin_release_pop_def)
qed

text \<open>C10. The implementation does what the interface says. On a machine that satisfies
  the lock invariant, for a CPU outside lock code: \<open>acquire\<close> panics exactly when the
  interface's does, and so does \<open>release\<close>, with the same message; on a lock nobody claims
  \<open>acquire\<close> takes the lock in one turn of the loop, and giving it back takes the CPU to the
  locks, the nesting depth and the interrupt flag it started with.\<close>

theorem spinlock_refines_interface:
  assumes "smp_inv m" and "i < length (mcpu m)" and "pc (mcpu m ! i) = Outside"
    and "locked (mlock m l) = 0" and "held s = own (mcpu m ! i)"
  shows "(\<forall>k e. acquire k s = Panic e \<longleftrightarrow> spin_acquire_enter i k m = Panic e) \<and>
    (\<forall>k e. release k s = Panic e \<longleftrightarrow>
      thenk (spin_release_enter i k) (thenk (modk (spin_release_xchg i k)) (spin_release_pop i)) m = Panic e) \<and>
    (\<exists>m1 m2 m3 s1 s2. spin_acquire_enter i l m = Ret () m1 \<and> acquire l s = Ret () s1 \<and>
      m2 = spin_acquire_record i l v (spin_acquire_turn i l m1) \<and>
      own (mcpu m2 ! i) = held s1 \<and> pc (mcpu m2 ! i) = Outside \<and> \<not> eflags_IF (mcpu m2 ! i) \<and>
      release l s1 = Ret () s2 \<and>
      thenk (spin_release_enter i l) (thenk (modk (spin_release_xchg i l)) (spin_release_pop i)) m2
        = Ret () m3 \<and>
      own (mcpu m3 ! i) = held s2 \<and> held s2 = held s \<and> locked (mlock m3 l) = 0 \<and>
      ncli (mcpu m3 ! i) = ncli (mcpu m ! i) \<and> eflags_IF (mcpu m3 ! i) = eflags_IF (mcpu m ! i))"
proof -
  let ?c = "mcpu m ! i"
  have c: "cpu_inv ?c" using smp_cpu [OF assms(1,2)] .
  have h: "spin_holding i (mlock m k) \<longleftrightarrow> k \<in> own ?c" for k
    by (rule spin_holding_own [OF assms(1,2)])
  have l: "l \<notin> own ?c" using smp_locked [OF assms(1), of l] assms(2,4) own_claims by blast
  have n: "ncli ?c \<ge> 0" "ncli ?c > 0 \<longrightarrow> \<not> eflags_IF ?c" using c by (auto simp: cpu_inv_def)
  obtain m1 where m1: "m1 = upd_cpu i (\<lambda>c. pushcli c\<lparr>pc := Spin l\<rparr>) m" by blast
  then have e1: "spin_acquire_enter i l m = Ret () m1"
    using l h assms(2) by (simp add: spin_acquire_enter_def Let_def upd_cpu_def)
  obtain m2 where m2: "m2 = spin_acquire_record i l v (spin_acquire_turn i l m1)" by blast
  have c2: "mcpu m2 ! i = pushcli ?c\<lparr>pc := Outside, own := insert l (own ?c)\<rparr>"
      "locked (mlock m2 l) = 1" "lkcpu (mlock m2 l) = Some i" "i < length (mcpu m2)"
    using assms(2,4) by (simp_all add: m2 m1 spin_acquire_record_def spin_acquire_turn_def xchg_def pushcli_def Let_def)
  obtain c' where c': "popcli (pushcli ?c\<lparr>pc := Popping, own := own ?c\<rparr>) = Ret () c'" "ncli c' = ncli ?c"
      "eflags_IF c' = eflags_IF ?c" "own c' = own ?c"
    using popcli_pushcli [OF n] by blast
  define m4 where "m4 = spin_release_xchg i l (upd_cpu i (\<lambda>c. c\<lparr>pc := Unlocking l, own := own c - {l}\<rparr>)
    (upd_lock l (\<lambda>lk. lk\<lparr>pcs := (pcs lk)[0 := 0], lkcpu := None\<rparr>) m2))"
  have c4: "mcpu m4 ! i = pushcli ?c\<lparr>pc := Popping, own := own ?c\<rparr>" "i < length (mcpu m4)" "locked (mlock m4 l) = 0"
    using c2 l by (simp_all add: m4_def spin_release_xchg_def xchg_def)
  have "spin_release_enter i l m2 = Ret () (upd_cpu i (\<lambda>c. c\<lparr>pc := Unlocking l, own := own c - {l}\<rparr>)
      (upd_lock l (\<lambda>lk. lk\<lparr>pcs := (pcs lk)[0 := 0], lkcpu := None\<rparr>) m2))"
    using c2 by (simp add: spin_release_enter_def spin_holding_def)
  then obtain m3 where m3: "thenk (spin_release_enter i l) (thenk (modk (spin_release_xchg i l)) (spin_release_pop i)) m2
        = Ret () m3" "own (mcpu m3 ! i) = own ?c" "locked (mlock m3 l) = 0"
      "ncli (mcpu m3 ! i) = ncli ?c" "eflags_IF (mcpu m3 ! i) = eflags_IF ?c"
    using c4 c' by (simp add: spin_release_pop_def m4_def [symmetric])
  have "release k s = Panic e \<longleftrightarrow>
      thenk (spin_release_enter i k) (thenk (modk (spin_release_xchg i k)) (spin_release_pop i)) m = Panic e" for k e
  proof (cases "k \<in> own ?c")
    case True
    then show ?thesis using spin_release_owned [OF assms(1-3) True] assms(5) by auto
  next
    case False
    then show ?thesis using h assms(5) by (simp add: release_def spin_release_enter_def thenk_def bindk_def)
  qed
  moreover have "acquire k s = Panic e \<longleftrightarrow> spin_acquire_enter i k m = Panic e" for k e
    using h assms(5) by (auto simp: acquire_def spin_acquire_enter_def Let_def)
  ultimately show ?thesis
    using e1 m2 m3 c2 l assms(5) n by (auto simp: pushcli_def Let_def)
qed

theorem spinlock_refines_interface_witness:
  "thenk (spin_release_enter 0 LkIde) (thenk (modk (spin_release_xchg 0 LkIde)) (spin_release_pop 0)) boot2 = Panic ''release'' \<and>
   (\<exists>m1. spin_acquire_enter 0 LkIde boot2 = Ret () m1 \<and>
     LkIde \<in> own (mcpu (spin_acquire_record 0 LkIde 0 (spin_acquire_turn 0 LkIde m1)) ! 0))"
proof -
  have "smp_boot boot2" by (auto simp: smp_boot_def boot2_def)
  then have "smp_inv boot2" by (rule smp_boot_inv)
  from spinlock_refines_interface [OF this, of 0 LkIde "\<lparr>held = {}\<rparr>" 0]
  show ?thesis by (auto simp: boot2_def initlock_def release_def acquire_def)
qed

end
