(* ===== verification/Xv6_Kalloc.thy ===== *)
theory Xv6_Kalloc
  imports Xv6_CString Xv6_Spinlock
begin

text \<open>
  kalloc.c: the physical page allocator. The free pages form a list threaded through
  the pages themselves: the first word of a free page points to the next one. The
  state is the kernel's memory and the head of the list; \<open>kmem.lock\<close> is taken only once
  \<open>use_lock\<close> is set.
\<close>

section \<open>memlayout.h and mmu.h constants\<close>

abbreviation (input) KERNBASE :: uint where "KERNBASE \<equiv> 0x80000000"
abbreviation (input) EXTMEM :: uint where "EXTMEM \<equiv> 0x100000"
abbreviation (input) PHYSTOP :: uint where "PHYSTOP \<equiv> 0xE000000"
abbreviation (input) DEVSPACE :: uint where "DEVSPACE \<equiv> 0xFE000000"
abbreviation (input) PGSIZE :: uint where "PGSIZE \<equiv> 4096"

definition v2p :: "uint \<Rightarrow> uint" where "v2p a = a - KERNBASE"
definition p2v :: "uint \<Rightarrow> uint" where "p2v a = a + KERNBASE"

definition PGROUNDUP :: "uint \<Rightarrow> uint" where
  "PGROUNDUP sz = (sz + PGSIZE - 1) AND NOT (PGSIZE - 1)"

definition PGROUNDDOWN :: "uint \<Rightarrow> uint" where
  "PGROUNDDOWN a = a AND NOT (PGSIZE - 1)"

section \<open>State and operations\<close>

text \<open>\<open>kend\<close> is the linker's symbol \<open>end\<close>, the first address after the kernel image;
  nothing writes it.\<close>

record kmem_state = lock_state +
  mem :: memory
  freelist :: uint
  use_lock :: bool
  kend :: uint

definition kfree :: "uint \<Rightarrow> (unit, 'z kmem_state_scheme) kernel" where
  "kfree v = (\<lambda>s.
    if v mod PGSIZE \<noteq> 0 \<or> v < kend s \<or> v2p v \<ge> PHYSTOP then Panic ''kfree''
    else
      \<comment> \<open>fill with junk to catch dangling refs\<close>
      thenk (modk (\<lambda>s. s\<lparr>mem := memset v 1 PGSIZE (mem s)\<rparr>))
      (thenk (whenk (use_lock s) (acquire LkKmem))
      (thenk (modk (\<lambda>s. s\<lparr>mem := store32 v (freelist s) (mem s), freelist := v\<rparr>))
      (whenk (use_lock s) (release LkKmem)))) s)"

definition kalloc :: "(uint, 'z kmem_state_scheme) kernel" where
  "kalloc = (\<lambda>s.
    thenk (whenk (use_lock s) (acquire LkKmem))
    (bindk (getk freelist) (\<lambda>r.
     thenk (whenk (r \<noteq> 0) (modk (\<lambda>s. s\<lparr>freelist := load32 r (mem s)\<rparr>)))
     (thenk (whenk (use_lock s) (release LkKmem))
     (ret r)))) s)"

text \<open>The allocator's lock is free for the caller.\<close>

definition kmem_free :: "'z kmem_state_scheme \<Rightarrow> bool" where
  "kmem_free s \<longleftrightarrow> (use_lock s \<longrightarrow> LkKmem \<notin> held s)"

lemma kfree_returns:
  "kmem_free s \<Longrightarrow> v mod PGSIZE = 0 \<Longrightarrow> kend s \<le> v \<Longrightarrow> v2p v < PHYSTOP \<Longrightarrow>
    kfree v s = Ret () (s\<lparr>mem := store32 v (freelist s) (memset v 1 PGSIZE (mem s)), freelist := v\<rparr>)"
  by (auto simp: kfree_def kmem_free_def not_le)

lemma kfree_guard:
  "kfree v s = Ret a s' \<Longrightarrow> v mod PGSIZE = 0 \<and> kend s \<le> v \<and> v2p v < PHYSTOP"
  by (auto simp: kfree_def split: if_splits)

lemma kfree_Ret:
  "kmem_free s \<Longrightarrow> kfree v s = Ret a s' \<Longrightarrow> v mod PGSIZE = 0 \<and> kend s \<le> v \<and> v2p v < PHYSTOP \<and>
    s' = s\<lparr>mem := store32 v (freelist s) (memset v 1 PGSIZE (mem s)), freelist := v\<rparr>"
  using kfree_guard [of v s a s'] kfree_returns [of s v] by simp

lemma kalloc_returns:
  "kmem_free s \<Longrightarrow> kalloc s =
    Ret (freelist s) (if freelist s \<noteq> 0 then s\<lparr>freelist := load32 (freelist s) (mem s)\<rparr> else s)"
  by (auto simp: kalloc_def kmem_free_def)

lemma v2p_less_phystop:
  assumes "v2p v < PHYSTOP"
  shows "unat KERNBASE \<le> unat v \<and> unat v < unat (KERNBASE + PHYSTOP)"
proof -
  have lt: "unat (v2p v) < 0xE000000" using assms by (simp add: word_less_nat_alt)
  have "unat (v2p v + KERNBASE) = unat (v2p v) + 0x80000000"
    using lt by (subst unat_add_no_wrap) simp_all
  then have "unat v = unat (v2p v) + 0x80000000" by (simp add: v2p_def)
  then show ?thesis using lt by simp
qed

text \<open>The loop of \<open>freerange\<close>: \<open>kfree\<close> panics beyond \<open>PHYSTOP\<close>, so the page address
  grows without wrapping around for as long as the loop runs.\<close>

function freerange_loop :: "uint \<Rightarrow> uint \<Rightarrow> (unit, 'z kmem_state_scheme) kernel" where
  "freerange_loop p vend s =
    (if p + PGSIZE \<le> vend then bindk (kfree p) (\<lambda>_. freerange_loop (p + PGSIZE) vend) s
     else Ret () s)"
  by pat_completeness auto
termination
proof (relation "measure (\<lambda>(p, vend, s). 4294967296 - unat p)")
  fix p vend a and s t :: "'z kmem_state_scheme"
  assume "kfree p s = Ret a t"
  then have "v2p p < PHYSTOP" by (blast dest: kfree_guard)
  then have "unat (p + PGSIZE) = unat p + 4096" and "unat p < 0x8E000000"
    using v2p_less_phystop [of p] by (auto simp: unat_add_no_wrap)
  then show "((p + PGSIZE, vend, t), (p, vend, s)) \<in> measure (\<lambda>(p, vend, s). 4294967296 - unat p)"
    by simp
qed simp

declare freerange_loop.simps [simp del]

definition freerange :: "uint \<Rightarrow> uint \<Rightarrow> (unit, 'z kmem_state_scheme) kernel" where
  "freerange vstart vend = freerange_loop (PGROUNDUP vstart) vend"

text \<open>The two phases of initialisation. \<open>use_lock\<close> turns the locking on.\<close>

definition kinit1 :: "uint \<Rightarrow> uint \<Rightarrow> (unit, 'z kmem_state_scheme) kernel" where
  "kinit1 vstart vend =
    thenk (modk (\<lambda>s. s\<lparr>use_lock := False\<rparr>)) (freerange vstart vend)"

definition kinit2 :: "uint \<Rightarrow> uint \<Rightarrow> (unit, 'z kmem_state_scheme) kernel" where
  "kinit2 vstart vend =
    thenk (freerange vstart vend) (modk (\<lambda>s. s\<lparr>use_lock := True\<rparr>))"

section \<open>Page arithmetic\<close>

lemma unat_mod_pgsize: "v mod PGSIZE = 0 \<longleftrightarrow> unat (v :: uint) mod 4096 = 0"
  by (simp add: word_eq_iff_unat unat_mod)

lemma pgrounddown_nat: "unat (PGROUNDDOWN a) = unat a div 4096 * 4096"
proof -
  have mask: "PGSIZE - 1 = mask 12" by (simp add: mask_eq_exp_minus_1)
  have "PGROUNDDOWN a = push_bit 12 (drop_bit 12 a)"
    unfolding PGROUNDDOWN_def mask
    by (rule bit_word_eqI)
      (auto simp only: bit_and_iff bit_not_iff bit_push_bit_iff bit_drop_bit_eq bit_mask_iff
        comp_apply le_add_diff_inverse)
  moreover have "unat a div 4096 * 4096 < 4294967296" "unat a div 4096 < 4294967296"
    using unat_lt_2_32 [of a] by auto
  ultimately show ?thesis
    by (simp add: push_bit_eq_mult drop_bit_eq_div unat_word_ariths unat_div)
qed

lemma pgroundup_nat:
  assumes "unat a + 4095 < 4294967296"
  shows "unat (PGROUNDUP a) = (unat a + 4095) div 4096 * 4096"
proof -
  have "PGROUNDUP a = PGROUNDDOWN (a + 4095)"
    by (simp add: PGROUNDUP_def PGROUNDDOWN_def add.commute)
  then show ?thesis
    using assms by (simp add: pgrounddown_nat unat_add_no_wrap)
qed

lemma roundup_ge: "x \<le> (x + 4095) div 4096 * (4096 :: nat)"
proof -
  have "x + 4095 = (x + 4095) div 4096 * 4096 + (x + 4095) mod 4096" by simp
  moreover have "(x + 4095) mod 4096 < 4096" by simp
  ultimately show ?thesis by linarith
qed

lemma roundup_le: "x \<le> y \<Longrightarrow> y mod 4096 = 0 \<Longrightarrow> (x + 4095) div 4096 * 4096 \<le> (y :: nat)"
proof -
  assume "x \<le> y" and "y mod 4096 = 0"
  then obtain j where j: "y = 4096 * j" by (auto elim: dvdE)
  have "(x + 4095) div 4096 \<le> (4096 * j + 4095) div 4096"
    using \<open>x \<le> y\<close> j by (intro div_le_mono) simp
  also have "\<dots> = j" by simp
  finally show ?thesis using j by simp
qed

lemma page_offset:
  assumes "p mod PGSIZE = 0" and "v mod PGSIZE = 0" and "p \<noteq> v" and "k < 4096"
  shows "4096 \<le> unat (p + of_nat k - v)"
proof -
  let ?d = "p - v"
  have "4096 dvd unat p" "4096 dvd unat v"
    using assms(1,2) by (simp_all add: unat_mod_pgsize mod_eq_0_iff_dvd)
  then have "4096 dvd (unat p + 4294967296 - unat v)" by (intro dvd_diff_nat dvd_add) simp_all
  then have "4096 dvd (unat p + 4294967296 - unat v) mod 4294967296" by (rule dvd_mod) simp
  moreover have "unat ?d = (unat p + 4294967296 - unat v) mod 4294967296"
    using unat_lt_2_32 [of p] unat_lt_2_32 [of v]
    by (simp add: unat_sub_if' word_le_nat_alt) (auto simp: mod_if)
  ultimately obtain j where j: "unat ?d = 4096 * j" by (metis dvdE)
  moreover have "unat ?d \<noteq> 0" using assms(3) by (simp add: unat_eq_zero)
  moreover have "4096 * j < 4294967296" using j unat_lt_2_32 [of ?d] by simp
  then have "j < 1048576" by simp
  then have "unat ?d + k < 4294967296" using j assms(4) by linarith
  then have "unat (?d + of_nat k) = unat ?d + k"
    using assms(4) by (simp add: unat_add_no_wrap)
  ultimately have "4096 \<le> unat (?d + of_nat k)" by (cases j) auto
  then show ?thesis by (simp add: algebra_simps)
qed

section \<open>The free list\<close>

text \<open>\<open>chain m r ps\<close>: the list that starts at \<open>r\<close> in memory \<open>m\<close> runs through the
  pages \<open>ps\<close>. The invariant: the pages are distinct and each may be freed.\<close>

primrec chain :: "memory \<Rightarrow> uint \<Rightarrow> uint list \<Rightarrow> bool" where
  "chain m r [] \<longleftrightarrow> r = 0"
| "chain m r (p # ps) \<longleftrightarrow> r = p \<and> p \<noteq> 0 \<and> chain m (load32 p m) ps"

definition page_ok :: "uint \<Rightarrow> uint \<Rightarrow> bool" where
  "page_ok e p \<longleftrightarrow> p mod PGSIZE = 0 \<and> e \<le> p \<and> v2p p < PHYSTOP"

definition kmem_inv :: "'z kmem_state_scheme \<Rightarrow> uint list \<Rightarrow> bool" where
  "kmem_inv s ps \<longleftrightarrow> kmem_free s \<and>
    chain (mem s) (freelist s) ps \<and> distinct ps \<and> (\<forall>p \<in> set ps. page_ok (kend s) p)"

lemma page_ok_nonzero: "page_ok e p \<Longrightarrow> p \<noteq> 0"
  using v2p_less_phystop [of p] by (auto simp: page_ok_def)

lemma chain_cong:
  "(\<And>p. p \<in> set ps \<Longrightarrow> load32 p m' = load32 p m) \<Longrightarrow> chain m' r ps = chain m r ps"
  by (induction ps arbitrary: r) auto

lemma load32_store32 [simp]: "load32 a (store32 a v m) = v"
  using dec32_enc32 [of v] by (simp add: load32_def store32_def enc32_def)

text \<open>Memory that changes only inside the page \<open>v\<close> keeps the words of the other pages.\<close>

lemma load32_other_page:
  assumes "\<And>a. m' a \<noteq> m a \<Longrightarrow> \<exists>v \<in> A. unat (a - v) < 4096"
    and "\<forall>v \<in> A. v mod PGSIZE = 0" and "p mod PGSIZE = 0" and "p \<notin> A"
  shows "load32 p m' = load32 p m"
proof -
  have "m' (p + of_nat k) = m (p + of_nat k)" if "k < 4096" for k
  proof (rule ccontr)
    assume "m' (p + of_nat k) \<noteq> m (p + of_nat k)"
    then obtain v where "v \<in> A" "unat (p + of_nat k - v) < 4096" using assms(1) by blast
    then show False
      using page_offset [of p v k] assms(2-4) that by (metis not_le)
  qed
  from this [of 0] this [of 1] this [of 2] this [of 3] show ?thesis
    by (simp add: load32_def)
qed

lemma kfree_writes_page:
  "store32 v w (memset v c PGSIZE m) a \<noteq> m a \<Longrightarrow> unat (a - v) < 4096"
  by (auto simp: memset_eq stosb_eq store32_def split: if_splits)

lemma kfree_spec:
  assumes "kmem_inv s ps" and "page_ok (kend s) v" and "v \<notin> set ps"
  shows "wp (kfree v) (\<lambda>_ s'. kmem_inv s' (v # ps) \<and> kend s' = kend s \<and>
    (\<forall>a. mem s' a \<noteq> mem s a \<longrightarrow> unat (a - v) < 4096)) s"
proof -
  let ?m = "store32 v (freelist s) (memset v 1 PGSIZE (mem s))"
  have "load32 p ?m = load32 p (mem s)" if "p \<in> set ps" for p
    using assms that kfree_writes_page
    by (intro load32_other_page [where A = "{v}"]) (auto simp: kmem_inv_def page_ok_def)
  then have "chain ?m (freelist s) ps"
    using assms(1) chain_cong [of ps ?m "mem s"] by (simp add: kmem_inv_def)
  then show ?thesis
    using assms page_ok_nonzero [OF assms(2)] kfree_writes_page
    by (auto simp: wp_def kfree_returns page_ok_def kmem_inv_def kmem_free_def)
qed

lemma kalloc_spec:
  assumes "kmem_inv s ps"
  shows "kalloc s = (case ps of [] \<Rightarrow> Ret 0 s
    | p # qs \<Rightarrow> Ret p (s\<lparr>freelist := load32 p (mem s)\<rparr>))"
    and "ps = p # qs \<Longrightarrow> kmem_inv (s\<lparr>freelist := load32 p (mem s)\<rparr>) qs"
  using assms by (auto simp: kalloc_returns kmem_inv_def kmem_free_def split: list.split)

section \<open>Owners and the pool\<close>

text \<open>The allocator at work: \<open>A\<close> is the set of pages handed out. A step allocates a
  page, frees one that is handed out, or has an owner write anything at all into the
  pages it owns.\<close>

inductive kmem_step :: "kmem_state \<times> uint set \<Rightarrow> kmem_state \<times> uint set \<Rightarrow> bool" where
  alloc: "kalloc s = Ret r s' \<Longrightarrow> r \<noteq> 0 \<Longrightarrow> kmem_step (s, A) (s', insert r A)"
| fail: "kalloc s = Ret 0 s' \<Longrightarrow> kmem_step (s, A) (s', A)"
| free: "v \<in> A \<Longrightarrow> kfree v s = Ret () s' \<Longrightarrow> kmem_step (s, A) (s', A - {v})"
| scribble: "(\<And>a. m' a \<noteq> mem s a \<Longrightarrow> \<exists>v \<in> A. unat (a - v) < 4096) \<Longrightarrow>
    kmem_step (s, A) (s\<lparr>mem := m'\<rparr>, A)"

definition pool_inv :: "uint set \<Rightarrow> kmem_state \<times> uint set \<Rightarrow> bool" where
  "pool_inv pool sA \<longleftrightarrow> (\<exists>ps. kmem_inv (fst sA) ps \<and> snd sA \<inter> set ps = {} \<and>
    snd sA \<union> set ps = pool \<and> (\<forall>p \<in> pool. page_ok (kend (fst sA)) p))"

lemma kmem_step_pool: "kmem_step sA tB \<Longrightarrow> pool_inv pool sA \<Longrightarrow> pool_inv pool tB"
proof (induction rule: kmem_step.induct)
  case (alloc s r s' A)
  then obtain ps where ps: "kmem_inv s ps" "A \<inter> set ps = {}" "A \<union> set ps = pool"
      "\<forall>p \<in> pool. page_ok (kend s) p"
    by (auto simp: pool_inv_def)
  then obtain qs where "ps = r # qs" "s' = s\<lparr>freelist := load32 r (mem s)\<rparr>"
    using alloc.hyps kalloc_spec(1) [OF ps(1)] by (cases ps) auto
  then show ?case
    using ps kalloc_spec(2) [OF ps(1), of r qs]
    by (auto simp: pool_inv_def kmem_inv_def intro!: exI [of _ qs])
next
  case (fail s s' A)
  then obtain ps where ps: "kmem_inv s ps" "A \<inter> set ps = {}" "A \<union> set ps = pool"
      "\<forall>p \<in> pool. page_ok (kend s) p"
    by (auto simp: pool_inv_def)
  then have "s' = s"
    using fail.hyps kalloc_spec(1) [OF ps(1)] page_ok_nonzero by (cases ps) (auto simp: kmem_inv_def)
  then show ?case using fail.prems by simp
next
  case (free v A s s')
  then obtain ps where ps: "kmem_inv s ps" "A \<inter> set ps = {}" "A \<union> set ps = pool"
      "\<forall>p \<in> pool. page_ok (kend s) p"
    by (auto simp: pool_inv_def)
  have "wp (kfree v) (\<lambda>_ s'. kmem_inv s' (v # ps) \<and> kend s' = kend s \<and>
      (\<forall>a. mem s' a \<noteq> mem s a \<longrightarrow> unat (a - v) < 4096)) s"
    using ps free.hyps(1) by (intro kfree_spec) auto
  then have "kmem_inv s' (v # ps)" "kend s' = kend s"
    using free.hyps(2) by (auto simp: wp_def)
  then show ?case
    using ps free.hyps(1) by (auto simp: pool_inv_def intro!: exI [of _ "v # ps"])
next
  case (scribble m' s A)
  then obtain ps where ps: "kmem_inv s ps" "A \<inter> set ps = {}" "A \<union> set ps = pool"
      "\<forall>p \<in> pool. page_ok (kend s) p"
    by (auto simp: pool_inv_def)
  have "load32 p m' = load32 p (mem s)" if "p \<in> set ps" for p
    using ps that scribble.hyps
    by (intro load32_other_page [where A = A]) (auto simp: page_ok_def)
  then have "chain m' (freelist s) ps"
    using ps(1) chain_cong [of ps m' "mem s"] by (simp add: kmem_inv_def)
  then show ?case
    using ps by (auto simp: pool_inv_def kmem_inv_def kmem_free_def intro!: exI [of _ ps])
qed

lemma kmem_steps_pool: "kmem_step\<^sup>*\<^sup>* sA tB \<Longrightarrow> pool_inv pool sA \<Longrightarrow> pool_inv pool tB"
  by (induction rule: rtranclp_induct) (auto intro: kmem_step_pool)

section \<open>Initialisation\<close>

text \<open>The whole pages from the page address \<open>p\<close> up to \<open>vend\<close>.\<close>

definition pages_from :: "uint \<Rightarrow> uint \<Rightarrow> uint list" where
  "pages_from p vend = map (\<lambda>i. p + of_nat (4096 * i)) [0..<(unat vend - unat p) div 4096]"

lemma pages_from_Nil: "unat vend < unat p + 4096 \<Longrightarrow> pages_from p vend = []"
  by (auto simp: pages_from_def)

lemma pages_from_Cons:
  assumes "unat p + 4096 \<le> unat vend"
  shows "pages_from p vend = p # pages_from (p + PGSIZE) vend"
proof -
  have "unat (p + PGSIZE) = unat p + 4096"
    using assms unat_lt_2_32 [of vend] by (simp add: unat_add_no_wrap)
  moreover have "(unat vend - unat p) div 4096 = Suc ((unat vend - (unat p + 4096)) div 4096)"
    using assms by (simp add: le_div_geq)
  ultimately show ?thesis
    by (simp add: pages_from_def upt_conv_Cons map_Suc_upt [symmetric] algebra_simps del: upt_Suc map_Suc_upt)
qed

lemma pages_from_set:
  assumes "q \<in> set (pages_from p vend)" and "p mod PGSIZE = 0"
  shows "q mod PGSIZE = 0" and "unat p \<le> unat q" and "unat q + 4096 \<le> unat vend"
proof -
  obtain i where i: "i < (unat vend - unat p) div 4096" "q = p + of_nat (4096 * i)"
    using assms(1) by (auto simp: pages_from_def)
  then have le: "unat p + 4096 * i + 4096 \<le> unat vend"
    by (simp add: less_eq_Suc_le less_eq_div_iff_mult_less_eq)
  then have q: "unat q = unat p + 4096 * i"
    using i(2) unat_lt_2_32 [of vend] unat_of_nat_32 [of "4096 * i"]
    by (simp add: unat_add_no_wrap del: of_nat_mult)
  then show "q mod PGSIZE = 0"
    using assms(2) by (simp add: unat_mod_pgsize mod_add_eq)
  show "unat p \<le> unat q" "unat q + 4096 \<le> unat vend" using q le by simp_all
qed

lemma pages_from_mem:
  assumes "q mod PGSIZE = 0" and "p mod PGSIZE = 0" and "unat p \<le> unat q" and "unat q + 4096 \<le> unat vend"
  shows "q \<in> set (pages_from p vend)"
proof -
  have "4096 dvd unat q - unat p"
    using assms(1,2) by (intro dvd_diff_nat) (auto simp: unat_mod_pgsize mod_eq_0_iff_dvd)
  then obtain i where i: "unat q - unat p = 4096 * i" by (auto elim: dvdE)
  then have q: "unat q = unat p + 4096 * i" using assms(3) by simp
  then have "q = p + of_nat (4096 * i)" by (rule unat_plus_eqI)
  moreover have "i < (unat vend - unat p) div 4096"
    using q assms(4) by (simp add: less_eq_Suc_le less_eq_div_iff_mult_less_eq)
  ultimately show ?thesis by (auto simp: pages_from_def)
qed

lemma freerange_loop_spec:
  assumes "kmem_inv s ps" and "p mod PGSIZE = 0" and "kend s \<le> p" and "unat KERNBASE \<le> unat p"
    and "unat p \<le> unat (KERNBASE + PHYSTOP)" and "unat vend \<le> unat (KERNBASE + PHYSTOP)"
    and "set (pages_from p vend) \<inter> set ps = {}"
  shows "wp (freerange_loop p vend)
    (\<lambda>_ s'. kmem_inv s' (rev (pages_from p vend) @ ps) \<and> kend s' = kend s \<and> use_lock s' = use_lock s) s"
  using assms
proof (induction p vend s arbitrary: ps rule: freerange_loop.induct)
  case (1 p vend s)
  note prems = "1.prems"
  have next_p: "unat (p + PGSIZE) = unat p + 4096"
    using prems(5) by (simp add: unat_add_no_wrap)
  show ?case
  proof (cases "p + PGSIZE \<le> vend")
    case False
    then show ?thesis
      using prems(1) pages_from_Nil [of vend p] next_p
      by (auto simp: wp_def word_le_nat_alt freerange_loop.simps [of p vend s])
  next
    case True
    then have pages: "pages_from p vend = p # pages_from (p + PGSIZE) vend"
      using next_p by (intro pages_from_Cons) (simp add: word_le_nat_alt)
    have le: "unat p + 4096 \<le> unat vend" using True next_p by (simp add: word_le_nat_alt)
    have "unat (v2p p) = unat p - 0x80000000"
      using prems(4) by (simp add: v2p_def unat_sub_no_wrap)
    then have "page_ok (kend s) p"
      using prems(2,3,6) le by (simp add: page_ok_def word_less_nat_alt)
    moreover have "p \<notin> set ps" using prems(7) pages by auto
    ultimately have free: "wp (kfree p) (\<lambda>_ s'. kmem_inv s' (p # ps) \<and> kend s' = kend s \<and>
        (\<forall>a. mem s' a \<noteq> mem s a \<longrightarrow> unat (a - p) < 4096)) s"
      using prems(1) by (intro kfree_spec)
    then obtain s' where s': "kfree p s = Ret () s'" "kmem_inv s' (p # ps)" "kend s' = kend s"
      by (auto elim: wpE)
    then have "use_lock s' = use_lock s"
      using prems(1) kfree_Ret [of s p] by (auto simp: kmem_inv_def)
    moreover have "wp (freerange_loop (p + PGSIZE) vend)
        (\<lambda>_ t. kmem_inv t (rev (pages_from (p + PGSIZE) vend) @ p # ps) \<and> kend t = kend s' \<and>
          use_lock t = use_lock s') s'"
    proof (rule "1.IH" [OF True s'(1,2)])
      show "(p + PGSIZE) mod PGSIZE = 0" using prems(2) next_p by (simp add: unat_mod_pgsize)
      show "kend s' \<le> p + PGSIZE" using prems(3) next_p s'(3) by (simp add: word_le_nat_alt)
      show "unat KERNBASE \<le> unat (p + PGSIZE)" using prems(4) next_p by simp
      show "unat (p + PGSIZE) \<le> unat (KERNBASE + PHYSTOP)" using next_p le prems(6) by simp
      show "set (pages_from (p + PGSIZE) vend) \<inter> set (p # ps) = {}"
      proof -
        have "p \<notin> set (pages_from (p + PGSIZE) vend)"
          using pages_from_set(2) [of p "p + PGSIZE" vend] prems(2) next_p
          by (auto simp: unat_mod_pgsize)
        then show ?thesis using prems(7) pages by auto
      qed
    qed (use prems in auto)
    ultimately show ?thesis
      using True s' by (simp add: wp_def freerange_loop.simps [of p vend s] pages)
  qed
qed

section \<open>Properties of the page allocator\<close>

text \<open>C13. Boot puts exactly the whole pages of the given range on the free list:
  \<open>kinit1\<close> on a range of kernel addresses above \<open>end\<close> and below \<open>PHYSTOP\<close> returns,
  and the list it leaves holds the page-aligned addresses between the rounded-up start
  and the end, each once.\<close>

theorem kinit1_frees_range:
  assumes "freelist s = 0" and "kend s \<le> vstart" and "unat KERNBASE \<le> unat vstart"
    and "unat vstart \<le> unat vend" and "unat vend \<le> unat (KERNBASE + PHYSTOP)"
  shows "wp (kinit1 vstart vend) (\<lambda>_ s'. \<not> use_lock s' \<and>
    kmem_inv s' (rev (pages_from (PGROUNDUP vstart) vend)) \<and>
    set (pages_from (PGROUNDUP vstart) vend) =
      {p. p mod PGSIZE = 0 \<and> unat vstart \<le> unat p \<and> unat p + 4096 \<le> unat vend}) s"
proof -
  let ?p = "PGROUNDUP vstart"
  have up: "unat ?p = (unat vstart + 4095) div 4096 * 4096"
    using assms(4,5) by (intro pgroundup_nat) simp
  have al: "?p mod PGSIZE = 0" using up by (simp add: unat_mod_pgsize)
  have ge: "unat vstart \<le> unat ?p" using up roundup_ge by simp
  have le: "unat ?p \<le> unat (KERNBASE + PHYSTOP)"
    unfolding up using assms(4,5) by (intro roundup_le) auto
  have least: "unat ?p \<le> unat q" if "q mod PGSIZE = 0" "unat vstart \<le> unat q" for q
    unfolding up using that by (intro roundup_le) (auto simp: unat_mod_pgsize)
  have "wp (freerange vstart vend)
      (\<lambda>_ s'. kmem_inv s' (rev (pages_from ?p vend) @ []) \<and> kend s' = kend (s\<lparr>use_lock := False\<rparr>) \<and>
        use_lock s' = use_lock (s\<lparr>use_lock := False\<rparr>)) (s\<lparr>use_lock := False\<rparr>)"
    unfolding freerange_def
    using assms al ge le by (intro freerange_loop_spec) (auto simp: kmem_inv_def kmem_free_def word_le_nat_alt)
  moreover have "set (pages_from ?p vend) =
      {q. q mod PGSIZE = 0 \<and> unat vstart \<le> unat q \<and> unat q + 4096 \<le> unat vend}"
  proof (intro equalityI subsetI)
    fix q
    assume q: "q \<in> set (pages_from ?p vend)"
    show "q \<in> {q. q mod PGSIZE = 0 \<and> unat vstart \<le> unat q \<and> unat q + 4096 \<le> unat vend}"
      using pages_from_set [OF q al] ge by simp
  next
    fix q
    assume "q \<in> {q. q mod PGSIZE = 0 \<and> unat vstart \<le> unat q \<and> unat q + 4096 \<le> unat vend}"
    then show "q \<in> set (pages_from ?p vend)"
      using least al by (intro pages_from_mem) auto
  qed
  ultimately show ?thesis
    by (simp add: kinit1_def) (erule wp_mono, simp)
qed

theorem kinit1_frees_range_witness:
  "wp (kinit1 0x80100010 0x80103000) (\<lambda>_ s'.
     set (pages_from (PGROUNDUP 0x80100010) 0x80103000) =
       {p. p mod PGSIZE = 0 \<and> unat (0x80100010 :: uint) \<le> unat p \<and>
         unat p + 4096 \<le> unat (0x80103000 :: uint)})
     \<lparr>held = {}, mem = \<lambda>_. 0, freelist = 0, use_lock = True, kend = 0x80100000\<rparr>"
  by (rule wp_mono [OF kinit1_frees_range]) simp_all

text \<open>Two free pages, the first of which points to the second.\<close>

definition demo_kmem :: kmem_state where
  "demo_kmem = \<lparr>held = {}, mem = (\<lambda>_. 0)(0x80400001 := 0x10, 0x80400002 := 0x40, 0x80400003 := 0x80),
    freelist = 0x80400000, use_lock = True, kend = 0x80100000\<rparr>"

text \<open>C17. The allocator never hands out a page twice and never loses one. From a free
  list \<open>ps\<close>, through any sequence of allocations, frees by owners and arbitrary writes
  by owners into their own pages, the pages handed out are pages of \<open>ps\<close>; the next
  \<open>kalloc\<close> returns a page of \<open>ps\<close> that nobody holds, and it returns 0 exactly when
  every page is held.\<close>

theorem kalloc_exclusive:
  assumes "kmem_inv s ps" and "kmem_step\<^sup>*\<^sup>* (s, {}) (s', A)" and "kalloc s' = Ret r s''"
  shows "A \<subseteq> set ps \<and> (r \<noteq> 0 \<longrightarrow> r \<in> set ps - A) \<and> (r = 0 \<longleftrightarrow> A = set ps)"
proof -
  have "pool_inv (set ps) (s, {})"
    using assms(1) by (auto simp: pool_inv_def kmem_inv_def)
  with assms(2) have "pool_inv (set ps) (s', A)" by (rule kmem_steps_pool)
  then obtain qs where qs: "kmem_inv s' qs" "A \<inter> set qs = {}" "A \<union> set qs = set ps"
    by (auto simp: pool_inv_def)
  have "r = (case qs of [] \<Rightarrow> 0 | q # _ \<Rightarrow> q)"
    using kalloc_spec(1) [OF qs(1)] assms(3) by (auto split: list.splits)
  moreover have "q \<noteq> 0" if "q \<in> set qs" for q
    using qs(1) that page_ok_nonzero by (auto simp: kmem_inv_def)
  ultimately show ?thesis
    using qs(2,3) by (cases qs) auto
qed

theorem kalloc_exclusive_witness:
  "kmem_inv demo_kmem [0x80400000, 0x80401000] \<and>
   (\<exists>t u r. kmem_step\<^sup>*\<^sup>* (demo_kmem, {}) (t, {0x80400000}) \<and> mem t 0x80400002 = 7 \<and>
     kalloc t = Ret r u \<and> r \<noteq> 0 \<and> r \<in> set [0x80400000, 0x80401000] - {0x80400000} \<and>
     {0x80400000} \<subset> set [0x80400000, 0x80401000 :: uint])"
proof -
  let ?t = "demo_kmem\<lparr>freelist := 0x80401000\<rparr>"
  let ?v = "?t\<lparr>mem := (mem ?t)(0x80400002 := 7)\<rparr>"
  have ld: "load32 0x80400000 (mem demo_kmem) = 0x80401000" "load32 0x80401000 (mem demo_kmem) = 0"
    by (simp_all add: demo_kmem_def load32_def dec32_def)
  have inv: "kmem_inv demo_kmem [0x80400000, 0x80401000]"
    by (simp add: kmem_inv_def kmem_free_def page_ok_def v2p_def ld) (simp add: demo_kmem_def)
  have "freelist demo_kmem = 0x80400000" "kmem_free demo_kmem" by (simp_all add: demo_kmem_def kmem_free_def)
  then have alloc: "kmem_step (demo_kmem, {}) (?t, insert 0x80400000 {})"
    by (intro kmem_step.alloc) (simp_all add: kalloc_returns ld)
  have "kmem_step (?t, {0x80400000}) (?v, {0x80400000})"
    by (rule kmem_step.scribble) (auto split: if_splits)
  then have steps: "kmem_step\<^sup>*\<^sup>* (demo_kmem, {}) (?v, {0x80400000})"
    by (rule rtranclp.rtrancl_into_rtrancl [OF r_into_rtranclp [of kmem_step, OF alloc]])
  have run: "kalloc ?v = Ret 0x80401000 (?v\<lparr>freelist := load32 0x80401000 (mem ?v)\<rparr>)"
    by (simp add: kalloc_returns kmem_free_def demo_kmem_def)
  have "0x80401000 \<in> set [0x80400000, 0x80401000 :: uint] - {0x80400000}" "{0x80400000} \<subset> set [0x80400000, 0x80401000 :: uint]"
    using kalloc_exclusive [OF inv steps run] by auto
  moreover have "mem ?v 0x80400002 = 7" by simp
  ultimately show ?thesis using inv steps run
    by (intro conjI [OF inv] exI [of _ ?v] exI [of _ "?v\<lparr>freelist := load32 0x80401000 (mem ?v)\<rparr>"]
      exI [of _ "0x80401000"]) simp
qed

end
