(* ===== verification/Xv6_Vm.thy ===== *)
theory Xv6_Vm
  imports Xv6_Kalloc
begin

text \<open>
  vm.c: page directories and page tables live in the physical pages handed out by
  \<open>kalloc\<close>, read and written as 32-bit words of the kernel's memory. The functions
  that need a process or an inode (\<open>switchuvm\<close>, \<open>loaduvm\<close>) are in the theories of
  proc.c and exec.c. The console messages of \<open>allocuvm\<close> are left out.
\<close>

section \<open>mmu.h: the parts of an address and of a page table entry\<close>

abbreviation (input) PTE_P :: uint where "PTE_P \<equiv> 1"
abbreviation (input) PTE_W :: uint where "PTE_W \<equiv> 2"
abbreviation (input) PTE_U :: uint where "PTE_U \<equiv> 4"
abbreviation (input) KERNLINK :: uint where "KERNLINK \<equiv> 0x80100000"

definition PDX :: "uint \<Rightarrow> uint" where "PDX va = drop_bit 22 va AND 0x3FF"
definition PTX :: "uint \<Rightarrow> uint" where "PTX va = drop_bit 12 va AND 0x3FF"
definition PTE_ADDR :: "uint \<Rightarrow> uint" where "PTE_ADDR pte = pte AND NOT 0xFFF"

text \<open>\<open>pde_t\<close> and \<open>pte_t\<close> arrays: entry \<open>i\<close> of the table at address \<open>t\<close>.\<close>

definition entry :: "uint \<Rightarrow> uint \<Rightarrow> uint" where "entry t i = t + 4 * i"

section \<open>vm.c\<close>

definition walkpgdir :: "uint \<Rightarrow> uint \<Rightarrow> bool \<Rightarrow> (uint, 'z kmem_state_scheme) kernel" where
  "walkpgdir pgdir va alloc = (\<lambda>s.
    let pde = entry pgdir (PDX va) in
    if load32 pde (mem s) AND PTE_P \<noteq> 0 then
      Ret (entry (p2v (PTE_ADDR (load32 pde (mem s)))) (PTX va)) s
    else if \<not> alloc then Ret 0 s
    else bindk kalloc (\<lambda>pgtab.
      if pgtab = 0 then ret 0
      else
        \<comment> \<open>make sure all those PTE_P bits are zero\<close>
        thenk (modk (\<lambda>s. s\<lparr>mem := memset pgtab 0 PGSIZE (mem s)\<rparr>))
        (thenk (modk (\<lambda>s. s\<lparr>mem := store32 pde (v2p pgtab OR PTE_P OR PTE_W OR PTE_U) (mem s)\<rparr>))
        (ret (entry pgtab (PTX va))))) s)"

text \<open>The loop of \<open>mappages\<close>. \<open>a\<close> and \<open>last\<close> are page aligned, so the test
  \<open>a == last\<close> first holds after \<open>(last - a) / PGSIZE\<close> turns: the counter.\<close>

primrec mappages_loop :: "nat \<Rightarrow> uint \<Rightarrow> uint \<Rightarrow> uint \<Rightarrow> uint \<Rightarrow> (int, 'z kmem_state_scheme) kernel" where
  "mappages_loop 0 pgdir a pa perm = bindk (walkpgdir pgdir a True) (\<lambda>pte.
     if pte = 0 then ret (-1)
     else (\<lambda>s. if load32 pte (mem s) AND PTE_P \<noteq> 0 then Panic ''remap''
       else Ret 0 (s\<lparr>mem := store32 pte (pa OR perm OR PTE_P) (mem s)\<rparr>)))"
| "mappages_loop (Suc n) pgdir a pa perm = bindk (walkpgdir pgdir a True) (\<lambda>pte.
     if pte = 0 then ret (-1)
     else (\<lambda>s. if load32 pte (mem s) AND PTE_P \<noteq> 0 then Panic ''remap''
       else mappages_loop n pgdir (a + PGSIZE) (pa + PGSIZE) perm
         (s\<lparr>mem := store32 pte (pa OR perm OR PTE_P) (mem s)\<rparr>)))"

definition mappages :: "uint \<Rightarrow> uint \<Rightarrow> uint \<Rightarrow> uint \<Rightarrow> uint \<Rightarrow> (int, 'z kmem_state_scheme) kernel" where
  "mappages pgdir va sz pa perm =
    (let a = PGROUNDDOWN va; last = PGROUNDDOWN (va + sz - 1) in
     mappages_loop (unat ((last - a) div PGSIZE)) pgdir a pa perm)"

text \<open>The table \<open>kmap\<close>; \<open>data\<close> is the address the linker gives the kernel's data.\<close>

definition kmap :: "uint \<Rightarrow> (uint \<times> uint \<times> uint \<times> uint) list" where
  "kmap data =
    [(KERNBASE, 0, EXTMEM, PTE_W),
     (KERNLINK, v2p KERNLINK, v2p data, 0),
     (data, v2p data, PHYSTOP, PTE_W),
     (DEVSPACE, DEVSPACE, 0, PTE_W)]"

primrec map_kernel :: "(uint \<times> uint \<times> uint \<times> uint) list \<Rightarrow> uint \<Rightarrow> (uint, 'z kmem_state_scheme) kernel" where
  "map_kernel [] pgdir = ret pgdir"
| "map_kernel (k # ks) pgdir =
    (case k of (virt, phys_start, phys_end, perm) \<Rightarrow>
      bindk (mappages pgdir virt (phys_end - phys_start) phys_start perm) (\<lambda>r.
        if r < 0 then ret 0 else map_kernel ks pgdir))"

definition setupkvm :: "uint \<Rightarrow> (uint, 'z kmem_state_scheme) kernel" where
  "setupkvm data = bindk kalloc (\<lambda>pgdir.
    if pgdir = 0 then ret 0
    else thenk (modk (\<lambda>s. s\<lparr>mem := memset pgdir 0 PGSIZE (mem s)\<rparr>))
      (if p2v PHYSTOP > DEVSPACE then panic ''PHYSTOP too high''
       else map_kernel (kmap data) pgdir))"

text \<open>\<open>inituvm\<close>: \<open>init\<close> is the address of the embedded initcode. The results of
  \<open>kalloc\<close> and \<open>mappages\<close> are not checked.\<close>

definition inituvm :: "uint \<Rightarrow> uint \<Rightarrow> uint \<Rightarrow> (unit, 'z kmem_state_scheme) kernel" where
  "inituvm pgdir init sz =
    (if sz \<ge> PGSIZE then panic ''inituvm: more than a page''
     else bindk kalloc (\<lambda>m.
       thenk (modk (\<lambda>s. s\<lparr>mem := memset m 0 PGSIZE (mem s)\<rparr>))
       (thenk (mappages pgdir 0 PGSIZE (v2p m) (PTE_W OR PTE_U))
       (modk (\<lambda>s. s\<lparr>mem := memmove m init sz (mem s)\<rparr>)))))"

text \<open>The loop of \<open>deallocuvm\<close>. The increment wraps around only for an \<open>oldsz\<close> in the
  last 4 megabytes of the address space; the C loop would then start over from low
  addresses, and the model stops there.\<close>

function deallocuvm_loop :: "uint \<Rightarrow> uint \<Rightarrow> uint \<Rightarrow> (unit, 'z kmem_state_scheme) kernel" where
  "deallocuvm_loop pgdir a oldsz s =
    (if a < oldsz then
       bindk (walkpgdir pgdir a False) (\<lambda>pte.
         if pte = 0 then
           (let a' = a + 1023 * PGSIZE + PGSIZE in
            if a' > a then deallocuvm_loop pgdir a' oldsz else panic ''deallocuvm: wrapped around'')
         else thenk
           (\<lambda>s. let e = load32 pte (mem s) in
             if e AND PTE_P \<noteq> 0 then
               (let pa = PTE_ADDR e in
                if pa = 0 then Panic ''kfree''
                else thenk (kfree (p2v pa)) (modk (\<lambda>s. s\<lparr>mem := store32 pte 0 (mem s)\<rparr>)) s)
             else Ret () s)
           (if a + PGSIZE > a then deallocuvm_loop pgdir (a + PGSIZE) oldsz
            else panic ''deallocuvm: wrapped around'')) s
     else Ret () s)"
  by pat_completeness auto
termination
  by (relation "measure (\<lambda>(pgdir, a, oldsz, s). 4294967296 - unat a)")
    (auto simp: word_less_nat_alt intro!: diff_less_mono2 unat_lt_2_32)

declare deallocuvm_loop.simps [simp del]

definition deallocuvm :: "uint \<Rightarrow> uint \<Rightarrow> uint \<Rightarrow> (uint, 'z kmem_state_scheme) kernel" where
  "deallocuvm pgdir oldsz newsz =
    (if newsz \<ge> oldsz then ret oldsz
     else thenk (deallocuvm_loop pgdir (PGROUNDUP newsz) oldsz) (ret newsz))"

text \<open>The loop of \<open>allocuvm\<close>; the result of \<open>mappages\<close> is not checked.\<close>

function allocuvm_loop :: "uint \<Rightarrow> uint \<Rightarrow> uint \<Rightarrow> uint \<Rightarrow> (uint, 'z kmem_state_scheme) kernel" where
  "allocuvm_loop pgdir a oldsz newsz s =
    (if a < newsz then
       bindk kalloc (\<lambda>m.
         if m = 0 then thenk (deallocuvm pgdir newsz oldsz) (ret 0)
         else thenk (modk (\<lambda>s. s\<lparr>mem := memset m 0 PGSIZE (mem s)\<rparr>))
           (thenk (mappages pgdir a PGSIZE (v2p m) (PTE_W OR PTE_U))
           (if a + PGSIZE > a then allocuvm_loop pgdir (a + PGSIZE) oldsz newsz
            else panic ''allocuvm: wrapped around''))) s
     else Ret newsz s)"
  by pat_completeness auto
termination
  by (relation "measure (\<lambda>(pgdir, a, oldsz, newsz, s). 4294967296 - unat a)")
    (auto simp: word_less_nat_alt intro!: diff_less_mono2 unat_lt_2_32)

declare allocuvm_loop.simps [simp del]

definition allocuvm :: "uint \<Rightarrow> uint \<Rightarrow> uint \<Rightarrow> (uint, 'z kmem_state_scheme) kernel" where
  "allocuvm pgdir oldsz newsz =
    (if newsz \<ge> KERNBASE then ret 0
     else if newsz < oldsz then ret oldsz
     else allocuvm_loop pgdir (PGROUNDUP oldsz) oldsz newsz)"

definition freevm :: "uint \<Rightarrow> (unit, 'z kmem_state_scheme) kernel" where
  "freevm pgdir =
    (if pgdir = 0 then panic ''freevm: no pgdir''
     else thenk (deallocuvm pgdir KERNBASE 0)
       (thenk (foreach [0..<1024] (\<lambda>i s.
          let e = load32 (entry pgdir (of_nat i)) (mem s) in
          if e AND PTE_P \<noteq> 0 then kfree (p2v (PTE_ADDR e)) s else Ret () s))
       (kfree pgdir)))"

definition clearpteu :: "uint \<Rightarrow> uint \<Rightarrow> (unit, 'z kmem_state_scheme) kernel" where
  "clearpteu pgdir uva = bindk (walkpgdir pgdir uva False) (\<lambda>pte.
    if pte = 0 then panic ''clearpteu''
    else modk (\<lambda>s. s\<lparr>mem := store32 pte (load32 pte (mem s) AND NOT PTE_U) (mem s)\<rparr>))"

text \<open>\<open>copyuvm\<close>: on the way out over \<open>bad\<close> the new page table is freed.\<close>

definition copyuvm_bad :: "uint \<Rightarrow> (uint, 'z kmem_state_scheme) kernel" where
  "copyuvm_bad d = thenk (freevm d) (ret 0)"

function copyuvm_loop :: "uint \<Rightarrow> uint \<Rightarrow> uint \<Rightarrow> uint \<Rightarrow> (uint, 'z kmem_state_scheme) kernel" where
  "copyuvm_loop pgdir d i sz s =
    (if i < sz then
       bindk (walkpgdir pgdir i False) (\<lambda>pte.
         if pte = 0 then panic ''copyuvm: pte should exist''
         else (\<lambda>s. let e = load32 pte (mem s) in
           if e AND PTE_P = 0 then Panic ''copyuvm: page not present''
           else bindk kalloc (\<lambda>m.
             if m = 0 then copyuvm_bad d
             else thenk (modk (\<lambda>s. s\<lparr>mem := memmove m (p2v (PTE_ADDR e)) PGSIZE (mem s)\<rparr>))
               (bindk (mappages d i PGSIZE (v2p m) (PTE_W OR PTE_U)) (\<lambda>r.
                 if r < 0 then copyuvm_bad d
                 else if i + PGSIZE > i then copyuvm_loop pgdir d (i + PGSIZE) sz
                 else panic ''copyuvm: wrapped around''))) s)) s
     else Ret d s)"
  by pat_completeness auto
termination
  by (relation "measure (\<lambda>(pgdir, d, i, sz, s). 4294967296 - unat i)")
    (auto simp: word_less_nat_alt intro!: diff_less_mono2 unat_lt_2_32)

declare copyuvm_loop.simps [simp del]

definition copyuvm :: "uint \<Rightarrow> uint \<Rightarrow> uint \<Rightarrow> (uint, 'z kmem_state_scheme) kernel" where
  "copyuvm data pgdir sz = bindk (setupkvm data) (\<lambda>d.
    if d = 0 then ret 0 else copyuvm_loop pgdir d 0 sz)"

text \<open>\<open>uva2ka\<close> reads \<open>*pte\<close> without a check that \<open>walkpgdir\<close> found a page table: with
  a null \<open>pte\<close> it reads the word at address 0.\<close>

definition uva2ka :: "uint \<Rightarrow> uint \<Rightarrow> (uint, 'z kmem_state_scheme) kernel" where
  "uva2ka pgdir uva = bindk (walkpgdir pgdir uva False) (\<lambda>pte s.
    let e = load32 pte (mem s) in
    if e AND PTE_P = 0 then Ret 0 s
    else if e AND PTE_U = 0 then Ret 0 s
    else Ret (p2v (PTE_ADDR e)) s)"

text \<open>\<open>copyout\<close> copies bytes given as a list (the kernel's buffer).\<close>

primrec store_bytes :: "byte list \<Rightarrow> uint \<Rightarrow> memory \<Rightarrow> memory" where
  "store_bytes [] a m = m"
| "store_bytes (b # bs) a m = store_bytes bs (a + 1) (m(a := b))"

function copyout :: "uint \<Rightarrow> uint \<Rightarrow> byte list \<Rightarrow> (int, 'z kmem_state_scheme) kernel" where
  "copyout pgdir va buf s =
    (if buf = [] then Ret 0 s
     else let va0 = PGROUNDDOWN va in
       bindk (uva2ka pgdir va0) (\<lambda>pa0.
         if pa0 = 0 then ret (-1)
         else let n = min (unat (PGSIZE - (va - va0))) (length buf) in
           thenk (modk (\<lambda>s. s\<lparr>mem := store_bytes (take n buf) (pa0 + (va - va0)) (mem s)\<rparr>))
             (if n = 0 then panic ''copyout: no progress''
              else copyout pgdir (va0 + PGSIZE) (drop n buf))) s)"
  by pat_completeness auto
termination
  by (relation "measure (\<lambda>(pgdir, va, buf, s). length buf)") auto

declare copyout.simps [simp del]

end
