(* ===== verification/Xv6_Proc.thy ===== *)
theory Xv6_Proc
  imports Xv6_Vm
begin

text \<open>
  proc.h and the part of proc.c that works on the process table: allocation, sleeping
  and waking, killing, waiting, the end of \<open>exit\<close>, the scheduler. A pointer to a
  process is its index in \<open>ptable.proc\<close>. \<open>fork\<close>, \<open>exit\<close> and \<open>userinit\<close>, which also
  use files and inodes, are in a later theory. The lemmas show that a process runs on
  at most one CPU, that a runnable process is never lost, and that a parent asleep in
  \<open>wait\<close> never misses the exit of a child.
\<close>

section \<open>State\<close>

abbreviation (input) NPROC :: nat where "NPROC \<equiv> 64"
abbreviation (input) KSTACKSIZE :: uint where "KSTACKSIZE \<equiv> 4096"
abbreviation (input) NOFILE :: nat where "NOFILE \<equiv> 16"

datatype procstate = UNUSED | EMBRYO | SLEEPING | RUNNABLE | RUNNING | ZOMBIE

text \<open>The channels processes sleep on. In C a channel is an address; these are the
  addresses the sources use: a buffer, an inode, the log, the read and the write end of
  the pipe at an address, \<open>ticks\<close>, the console's input buffer, and a process.\<close>

datatype chan = ChanBuf nat | ChanInode nat | ChanLog | ChanPipeRead uint | ChanPipeWrite uint
  | ChanTicks | ChanInput | ChanProc nat

record proc =
  p_sz :: uint
  p_pgdir :: uint
  p_kstack :: uint
  p_state :: procstate
  p_pid :: uint
  p_parent :: "nat option"
  p_tf :: uint
  p_context :: uint
  p_chan :: "chan option"
  p_killed :: bool
  p_ofile :: "nat option list"
  p_cwd :: "nat option"
  p_name :: "byte list"

text \<open>The part of \<open>struct cpu\<close> the scheduler sets: the process it runs, the kernel stack
  the TSS points to, and the page table register.\<close>

record cpu =
  c_proc :: "nat option"
  c_esp0 :: uint
  c_cr3 :: uint

text \<open>\<open>mycpu\<close> is the CPU that executes. \<open>trapret\<close>, \<open>forkret_addr\<close> and \<open>kdata\<close> are
  addresses the linker chooses.\<close>

record proc_state = kmem_state +
  ptable :: "proc list"
  nextpid :: uint
  initproc :: "nat option"
  cpus :: "cpu list"
  mycpu :: nat
  kpgdir :: uint
  trapret :: uint
  forkret_addr :: uint
  kdata :: uint

text \<open>The per-CPU variable \<open>proc\<close>, and reading through it.\<close>

definition curproc :: "'z proc_state_scheme \<Rightarrow> nat option" where
  "curproc s = c_proc (cpus s ! mycpu s)"

definition myproc :: "(nat, 'z proc_state_scheme) kernel" where
  "myproc = (\<lambda>s. case curproc s of None \<Rightarrow> Panic ''null pointer: proc'' | Some p \<Rightarrow> Ret p s)"

definition upd_proc :: "nat \<Rightarrow> (proc \<Rightarrow> proc) \<Rightarrow> 'z proc_state_scheme \<Rightarrow> 'z proc_state_scheme" where
  "upd_proc i f s = s\<lparr>ptable := (ptable s)[i := f (ptable s ! i)]\<rparr>"

definition upd_mycpu :: "(cpu \<Rightarrow> cpu) \<Rightarrow> 'z proc_state_scheme \<Rightarrow> 'z proc_state_scheme" where
  "upd_mycpu f s = s\<lparr>cpus := (cpus s)[mycpu s := f (cpus s ! mycpu s)]\<rparr>"

section \<open>Sleeping and waking\<close>

text \<open>\<open>sched\<close> switches to the scheduler: the process is off the CPU. Holding only
  \<open>ptable.lock\<close> is \<open>ncli == 1\<close>, and interrupts are off while a lock is held
  (spinlock.c), so the fourth check of the source cannot fail.\<close>

definition sched :: "('a, 'z proc_state_scheme) kernel" where
  "sched = bindk myproc (\<lambda>p s.
    if \<not> holding LkPtable s then Panic ''sched ptable.lock''
    else if held s \<noteq> {LkPtable} then Panic ''sched locks''
    else if p_state (ptable s ! p) = RUNNING then Panic ''sched running''
    else Block s)"

definition yield :: "('a, 'z proc_state_scheme) kernel" where
  "yield = thenk (acquire LkPtable) (bindk myproc (\<lambda>p.
    thenk (modk (upd_proc p (\<lambda>q. q\<lparr>p_state := RUNNABLE\<rparr>))) sched))"

definition sleep :: "chan \<Rightarrow> lockid \<Rightarrow> ('a, 'z proc_state_scheme) kernel" where
  "sleep ch lk = (\<lambda>s. case curproc s of
      None \<Rightarrow> Panic ''sleep''
    | Some p \<Rightarrow>
        thenk (whenk (lk \<noteq> LkPtable) (thenk (acquire LkPtable) (release lk)))
        (thenk (modk (upd_proc p (\<lambda>q. q\<lparr>p_chan := Some ch, p_state := SLEEPING\<rparr>)))
        sched) s)"

text \<open>The rest of \<open>sleep\<close>, run when the scheduler switches back, and the rest of
  \<open>yield\<close> and of \<open>forkret\<close>'s start.\<close>

definition sleep_resume :: "lockid \<Rightarrow> (unit, 'z proc_state_scheme) kernel" where
  "sleep_resume lk = bindk myproc (\<lambda>p.
    thenk (modk (upd_proc p (\<lambda>q. q\<lparr>p_chan := None\<rparr>)))
    (whenk (lk \<noteq> LkPtable) (thenk (release LkPtable) (acquire lk))))"

definition yield_resume :: "(unit, 'z proc_state_scheme) kernel" where
  "yield_resume = release LkPtable"

text \<open>\<open>wakeup1\<close>: the argument is a pointer and may be null (\<open>None\<close>).\<close>

definition wakes :: "chan option \<Rightarrow> proc \<Rightarrow> proc" where
  "wakes ch p = (if p_state p = SLEEPING \<and> p_chan p = ch then p\<lparr>p_state := RUNNABLE\<rparr> else p)"

definition wakeup1 :: "chan option \<Rightarrow> (unit, 'z proc_state_scheme) kernel" where
  "wakeup1 ch = modk (\<lambda>s. s\<lparr>ptable := map (wakes ch) (ptable s)\<rparr>)"

definition wakeup :: "chan \<Rightarrow> (unit, 'z proc_state_scheme) kernel" where
  "wakeup ch = thenk (acquire LkPtable) (thenk (wakeup1 (Some ch)) (release LkPtable))"

definition kill :: "uint \<Rightarrow> (int, 'z proc_state_scheme) kernel" where
  "kill pid = thenk (acquire LkPtable) (\<lambda>s.
    case find (\<lambda>i. p_pid (ptable s ! i) = pid) [0..<NPROC] of
      Some i \<Rightarrow>
        thenk (modk (upd_proc i (\<lambda>p. p\<lparr>p_killed := True\<rparr>)))
        (thenk (whenk (p_state (ptable s ! i) = SLEEPING)
           (modk (upd_proc i (\<lambda>p. p\<lparr>p_state := RUNNABLE\<rparr>))))
        (thenk (release LkPtable) (ret 0))) s
    | None \<Rightarrow> thenk (release LkPtable) (ret (-1)) s)"

section \<open>Allocation\<close>

text \<open>The kernel stack of a new process, from the top: the trap frame (76 bytes), the
  return address \<open>trapret\<close>, the saved context (20 bytes) whose \<open>eip\<close> is \<open>forkret\<close>.\<close>

definition allocproc_stack :: "nat \<Rightarrow> (nat option, 'z proc_state_scheme) kernel" where
  "allocproc_stack p = bindk kalloc (\<lambda>ks.
    thenk (modk (upd_proc p (\<lambda>q. q\<lparr>p_kstack := ks\<rparr>)))
    (if ks = 0 then
       thenk (modk (upd_proc p (\<lambda>q. q\<lparr>p_state := UNUSED\<rparr>))) (ret None)
     else
       let tf = ks + KSTACKSIZE - 76; ra = tf - 4; ctx = ra - 20 in
       thenk (modk (upd_proc p (\<lambda>q. q\<lparr>p_tf := tf\<rparr>)))
       (thenk (modk (\<lambda>s. s\<lparr>mem := store32 ra (trapret s) (mem s)\<rparr>))
       (thenk (modk (upd_proc p (\<lambda>q. q\<lparr>p_context := ctx\<rparr>)))
       (thenk (modk (\<lambda>s. s\<lparr>mem := memset ctx 0 20 (mem s)\<rparr>))
       (thenk (modk (\<lambda>s. s\<lparr>mem := store32 (ctx + 16) (forkret_addr s) (mem s)\<rparr>))
       (ret (Some p))))))))"

definition allocproc :: "(nat option, 'z proc_state_scheme) kernel" where
  "allocproc = thenk (acquire LkPtable) (\<lambda>s.
    case find (\<lambda>i. p_state (ptable s ! i) = UNUSED) [0..<NPROC] of
      None \<Rightarrow> thenk (release LkPtable) (ret None) s
    | Some p \<Rightarrow>
        thenk (modk (\<lambda>s. (upd_proc p (\<lambda>q. q\<lparr>p_state := EMBRYO, p_pid := nextpid s\<rparr>) s)
          \<lparr>nextpid := nextpid s + 1\<rparr>))
        (thenk (release LkPtable) (allocproc_stack p)) s)"

section \<open>Waiting and the end of exit\<close>

definition wait_reap :: "nat \<Rightarrow> (int, 'z proc_state_scheme) kernel" where
  "wait_reap i = (\<lambda>s.
    let p = ptable s ! i in
    thenk (kfree (p_kstack p))
    (thenk (modk (upd_proc i (\<lambda>p. p\<lparr>p_kstack := 0\<rparr>)))
    (thenk (freevm (p_pgdir p))
    (thenk (modk (upd_proc i (\<lambda>p. p\<lparr>p_state := UNUSED, p_pid := 0, p_parent := None,
        p_name := (p_name p)[0 := 0], p_killed := False\<rparr>)))
    (thenk (release LkPtable)
    (ret (sint (p_pid p))))))) s)"

definition wait :: "(int, 'z proc_state_scheme) kernel" where
  "wait = thenk (acquire LkPtable) (bindk myproc (\<lambda>me s.
    case find (\<lambda>i. p_parent (ptable s ! i) = Some me \<and> p_state (ptable s ! i) = ZOMBIE) [0..<NPROC] of
      Some i \<Rightarrow> wait_reap i s
    | None \<Rightarrow>
        let havekids = (\<exists>i < NPROC. p_parent (ptable s ! i) = Some me) in
        if \<not> havekids \<or> p_killed (ptable s ! me) then thenk (release LkPtable) (ret (-1)) s
        else sleep (ChanProc me) LkPtable s))"

text \<open>The second half of \<open>exit\<close>, from \<open>acquire(&ptable.lock)\<close> on, and its loop that passes
  abandoned children to the first process.\<close>

definition reparent :: "nat \<Rightarrow> (unit, 'z proc_state_scheme) kernel" where
  "reparent me = foreach [0..<NPROC] (\<lambda>i s.
    if p_parent (ptable s ! i) = Some me then
      thenk (modk (upd_proc i (\<lambda>p. p\<lparr>p_parent := initproc s\<rparr>)))
      (whenk (p_state (ptable s ! i) = ZOMBIE) (wakeup1 (map_option ChanProc (initproc s)))) s
    else Ret () s)"

definition exit_tail :: "('a, 'z proc_state_scheme) kernel" where
  "exit_tail = bindk myproc (\<lambda>me.
    thenk (acquire LkPtable)
    (thenk (\<lambda>s. wakeup1 (map_option ChanProc (p_parent (ptable s ! me))) s)
    (thenk (reparent me)
    (thenk (modk (upd_proc me (\<lambda>p. p\<lparr>p_state := ZOMBIE\<rparr>)))
    sched))))"

section \<open>Address space of the current process\<close>

definition switchkvm :: "(unit, 'z proc_state_scheme) kernel" where
  "switchkvm = modk (\<lambda>s. upd_mycpu (\<lambda>c. c\<lparr>c_cr3 := v2p (kpgdir s)\<rparr>) s)"

definition kvmalloc :: "(unit, 'z proc_state_scheme) kernel" where
  "kvmalloc = (\<lambda>s. bindk (setupkvm (kdata s)) (\<lambda>d.
    thenk (modk (\<lambda>s. s\<lparr>kpgdir := d\<rparr>)) switchkvm) s)"

text \<open>\<open>switchuvm\<close>: the stack comes from the variable \<open>proc\<close>, the page table from the
  argument. The descriptor of the task segment is constant.\<close>

definition switchuvm :: "nat \<Rightarrow> (unit, 'z proc_state_scheme) kernel" where
  "switchuvm p = bindk myproc (\<lambda>me.
    thenk (modk (\<lambda>s. upd_mycpu (\<lambda>c. c\<lparr>c_esp0 := p_kstack (ptable s ! me) + KSTACKSIZE\<rparr>) s))
    (\<lambda>s. if p_pgdir (ptable s ! p) = 0 then Panic ''switchuvm: no pgdir''
      else Ret () (upd_mycpu (\<lambda>c. c\<lparr>c_cr3 := v2p (p_pgdir (ptable s ! p))\<rparr>) s)))"

definition growproc :: "int \<Rightarrow> (int, 'z proc_state_scheme) kernel" where
  "growproc n = bindk myproc (\<lambda>me s.
    let p = ptable s ! me; sz = p_sz p;
        done = (\<lambda>sz. thenk (modk (upd_proc me (\<lambda>p. p\<lparr>p_sz := sz\<rparr>)))
                 (thenk (switchuvm me) (ret 0))) in
    if n > 0 then
      bindk (allocuvm (p_pgdir p) sz (sz + word_of_int n)) (\<lambda>sz.
        if sz = 0 then ret (-1) else done sz) s
    else if n < 0 then
      bindk (deallocuvm (p_pgdir p) sz (sz + word_of_int n)) (\<lambda>sz.
        if sz = 0 then ret (-1) else done sz) s
    else done sz s)"

section \<open>The scheduler\<close>

text \<open>The body of the scheduler's loop for slot \<open>p\<close>, up to \<open>swtch\<close> (it answers whether it
  switches to \<open>p\<close>), what it does when \<open>swtch\<close> returns, and the scan of the table from
  slot \<open>j\<close> on: the first runnable process, or the end of the scan.\<close>

definition scheduler_pick :: "nat \<Rightarrow> (bool, 'z proc_state_scheme) kernel" where
  "scheduler_pick p = (\<lambda>s.
    if p_state (ptable s ! p) \<noteq> RUNNABLE then Ret False s
    else thenk (modk (upd_mycpu (\<lambda>c. c\<lparr>c_proc := Some p\<rparr>)))
      (thenk (switchuvm p)
      (thenk (modk (upd_proc p (\<lambda>q. q\<lparr>p_state := RUNNING\<rparr>)))
      (ret True))) s)"

definition scheduler_back :: "(unit, 'z proc_state_scheme) kernel" where
  "scheduler_back = thenk switchkvm (modk (upd_mycpu (\<lambda>c. c\<lparr>c_proc := None\<rparr>)))"

primrec scheduler_scan :: "nat list \<Rightarrow> (nat option, 'z proc_state_scheme) kernel" where
  "scheduler_scan [] = ret None"
| "scheduler_scan (p # ps) =
    bindk (scheduler_pick p) (\<lambda>b. if b then ret (Some p) else scheduler_scan ps)"

section \<open>Frames of the memory operations\<close>

text \<open>The allocator and the page table code change memory and the free list, nothing of
  the process table, and do not sleep.\<close>

definition kframe :: "'z kmem_state_scheme \<Rightarrow> 'z kmem_state_scheme \<Rightarrow> bool" where
  "kframe s s' \<longleftrightarrow> s' = s\<lparr>mem := mem s', freelist := freelist s'\<rparr>"

interpretation kf: frame kframe
proof
  show "kframe s s" for s :: "'z kmem_state_scheme"
    by (simp add: kframe_def)
  show "kframe s u" if "kframe s t" "kframe t u" for s t u :: "'z kmem_state_scheme"
    unfolding kframe_def
    by (rule trans [OF that(2) [unfolded kframe_def]], subst that(1) [unfolded kframe_def]) simp
qed

lemma kframe_mem: "kframe s (s\<lparr>mem := m\<rparr>)" "kframe s (s\<lparr>mem := m, freelist := f\<rparr>)"
    "kframe s (s\<lparr>freelist := f\<rparr>)"
  by (simp_all add: kframe_def)

lemma kframe_step: "kframe s t \<Longrightarrow> kframe s (t\<lparr>mem := m\<rparr>)"
  using kf.frame_trans kframe_mem by blast

lemma kalloc_pres: "pres kframe kalloc"
  by (rule presI) (auto simp: kalloc_def kframe_mem kf.frame_refl acquire_def thenk_def bindk_def)

lemma kfree_pres: "pres kframe (kfree v)"
  by (rule presI) (auto simp: kfree_def kframe_mem kf.frame_refl acquire_def thenk_def bindk_def)

lemmas kf_within = kf.within_intros kf.within_pres [OF kalloc_pres] kf.within_pres [OF kfree_pres] kframe_step

lemma walkpgdir_pres: "pres kframe (walkpgdir d va alloc)"
  by (rule presI) (auto simp: walkpgdir_def Let_def kf.frame_refl intro!: kf_within)

lemma deallocuvm_loop_pres: "pres kframe (deallocuvm_loop d a oldsz :: (unit, 'z kmem_state_scheme) kernel)"
proof (induction "4294967296 - unat a" arbitrary: a rule: less_induct)
  case less
  have IH: "within kframe s (deallocuvm_loop d a' oldsz u)" if "a < a'" "kframe s u" for a' and s u :: "'z kmem_state_scheme"
  proof -
    have "4294967296 - unat a' < 4294967296 - unat a"
      using that(1) unat_lt_2_32 [of a'] by (simp add: word_less_nat_alt diff_less_mono2)
    from kf.within_pres [OF less.hyps [OF this] that(2)] show ?thesis .
  qed
  show ?case
    by (rule presI, subst deallocuvm_loop.simps)
      (auto simp: Let_def kf.frame_refl intro!: kf_within kf.within_pres [OF walkpgdir_pres] IH)
qed

lemma deallocuvm_pres: "pres kframe (deallocuvm d oldsz newsz)"
  by (rule presI) (auto simp: deallocuvm_def kf.frame_refl
      intro!: kf_within kf.within_pres [OF deallocuvm_loop_pres])

lemma freevm_pres: "pres kframe (freevm d)"
  by (rule presI) (auto simp: freevm_def Let_def kf.frame_refl
      intro!: kf_within kf.within_pres [OF deallocuvm_pres])

section \<open>Invariants of the process table\<close>

text \<open>A process runs on at most one CPU, exactly while its state is \<open>RUNNING\<close>.\<close>

definition running_inv :: "'z proc_state_scheme \<Rightarrow> bool" where
  "running_inv s \<longleftrightarrow>
    (\<forall>c < length (cpus s). \<forall>p. c_proc (cpus s ! c) = Some p \<longrightarrow>
      p < NPROC \<and> p_state (ptable s ! p) = RUNNING) \<and>
    (\<forall>c < length (cpus s). \<forall>d < length (cpus s). \<forall>p.
      c_proc (cpus s ! c) = Some p \<and> c_proc (cpus s ! d) = Some p \<longrightarrow> c = d) \<and>
    (\<forall>p < NPROC. p_state (ptable s ! p) = RUNNING \<longrightarrow>
      (\<exists>c < length (cpus s). c_proc (cpus s ! c) = Some p))"

text \<open>No process sleeps in \<open>wait\<close> while it has a zombie child.\<close>

definition no_lost_wakeup :: "proc list \<Rightarrow> bool" where
  "no_lost_wakeup pt \<longleftrightarrow> (\<forall>q < NPROC. \<forall>i < NPROC. \<forall>p.
    p_state (pt ! q) = SLEEPING \<and> p_chan (pt ! q) = Some (ChanProc p) \<and>
    p_parent (pt ! i) = Some p \<longrightarrow> p_state (pt ! i) \<noteq> ZOMBIE)"

text \<open>Nobody is its own parent; the first process has no parent and does not exit.\<close>

definition parents_ok :: "nat option \<Rightarrow> proc list \<Rightarrow> bool" where
  "parents_ok ip pt \<longleftrightarrow> (\<forall>i < NPROC. p_parent (pt ! i) \<noteq> Some i) \<and>
    (\<forall>i. ip = Some i \<longrightarrow> i < NPROC \<and> p_parent (pt ! i) = None \<and>
      p_state (pt ! i) \<notin> {UNUSED, EMBRYO, ZOMBIE})"

text \<open>A process sleeps on a channel, and has none once it runs again; a process that may run
  has a page table.\<close>

definition proc_ok :: "proc \<Rightarrow> bool" where
  "proc_ok p \<longleftrightarrow> (case p_state p of SLEEPING \<Rightarrow> p_chan p \<noteq> None \<and> p_pgdir p \<noteq> 0 | RUNNABLE \<Rightarrow> p_pgdir p \<noteq> 0
    | RUNNING \<Rightarrow> p_chan p = None \<and> p_pgdir p \<noteq> 0 | _ \<Rightarrow> p_chan p = None)"

definition proc_inv :: "'z proc_state_scheme \<Rightarrow> bool" where
  "proc_inv s \<longleftrightarrow> length (ptable s) = NPROC \<and> held s = {} \<and> running_inv s \<and>
    no_lost_wakeup (ptable s) \<and> parents_ok (initproc s) (ptable s) \<and> (\<forall>i < NPROC. proc_ok (ptable s ! i))"

text \<open>A runnable process stays runnable until a CPU runs it.\<close>

definition keeps_runnable :: "proc list \<Rightarrow> proc list \<Rightarrow> bool" where
  "keeps_runnable pt pt' \<longleftrightarrow> (\<forall>i < NPROC. p_state (pt ! i) = RUNNABLE \<longrightarrow> p_state (pt' ! i) \<in> {RUNNABLE, RUNNING})"

text \<open>
  The steps of the processes and the schedulers of all CPUs. Each runs on a CPU \<open>c\<close>
  that an interleaving chooses: the scheduler of an idle CPU switches to a runnable
  process; a running process calls one of the operations. A process that starts or comes
  back from \<open>yield\<close> releases \<open>ptable.lock\<close> (\<open>dispatch\<close>); one that slept, and so has a
  channel, runs the rest of \<open>sleep\<close> and gives up the lock it slept with (\<open>resume\<close>; \<open>wait\<close>
  keeps \<open>ptable.lock\<close> and looks at the table again, here as a step of its own). When an
  operation goes off the CPU (\<open>Block\<close>) the scheduler takes over and releases \<open>ptable.lock\<close>
  at the end of its scan. \<open>start\<close> and \<open>abandon\<close> are what \<open>fork\<close> does to the table when the
  copy \<open>d\<close> of the page table exists and when it does not: an allocated process becomes its
  child and runnable, or its slot is free again.
\<close>

definition on_cpu :: "nat \<Rightarrow> 'z proc_state_scheme \<Rightarrow> 'z proc_state_scheme" where
  "on_cpu c s = s\<lparr>mycpu := c\<rparr>"

definition off_cpu :: "(unit, 'z proc_state_scheme) kernel" where
  "off_cpu = thenk scheduler_back (release LkPtable)"

inductive proc_step :: "'z proc_state_scheme \<Rightarrow> 'z proc_state_scheme \<Rightarrow> bool" where
  dispatch: "c < length (cpus s) \<Longrightarrow> curproc (on_cpu c s) = None \<Longrightarrow> p < NPROC \<Longrightarrow> p_chan (ptable s ! p) = None \<Longrightarrow>
    thenk (acquire LkPtable) (bindk (scheduler_pick p) (\<lambda>b. thenk yield_resume (ret b))) (on_cpu c s)
      = Ret b s' \<Longrightarrow> proc_step s s'"
| resume: "c < length (cpus s) \<Longrightarrow> curproc (on_cpu c s) = None \<Longrightarrow> p < NPROC \<Longrightarrow> p_chan (ptable s ! p) \<noteq> None \<Longrightarrow>
    thenk (acquire LkPtable) (bindk (scheduler_pick p) (\<lambda>b.
      thenk (if b then thenk (sleep_resume lk) (release lk) else release LkPtable) (ret b))) (on_cpu c s)
      = Ret b s' \<Longrightarrow> proc_step s s'"
| yield: "c < length (cpus s) \<Longrightarrow> (yield :: (unit, 'z proc_state_scheme) kernel) (on_cpu c s) = Block t \<Longrightarrow> off_cpu t = Ret () s' \<Longrightarrow> proc_step s s'"
| sleep: "c < length (cpus s) \<Longrightarrow> (\<And>p. ch \<noteq> ChanProc p) \<Longrightarrow>
    thenk (acquire lk) (sleep ch lk :: (unit, 'z proc_state_scheme) kernel) (on_cpu c s) = Block t \<Longrightarrow> off_cpu t = Ret () s' \<Longrightarrow> proc_step s s'"
| wait_sleep: "c < length (cpus s) \<Longrightarrow> wait (on_cpu c s) = Block t \<Longrightarrow> off_cpu t = Ret () s' \<Longrightarrow> proc_step s s'"
| wait_reap: "c < length (cpus s) \<Longrightarrow> wait (on_cpu c s) = Ret n s' \<Longrightarrow> proc_step s s'"
| exiting: "c < length (cpus s) \<Longrightarrow> curproc (on_cpu c s) \<noteq> initproc s \<Longrightarrow>
    (exit_tail :: (unit, 'z proc_state_scheme) kernel) (on_cpu c s) = Block t \<Longrightarrow> off_cpu t = Ret () s' \<Longrightarrow> proc_step s s'"
| wakeup: "c < length (cpus s) \<Longrightarrow> wakeup ch (on_cpu c s) = Ret () s' \<Longrightarrow> proc_step s s'"
| kill: "c < length (cpus s) \<Longrightarrow> kill n (on_cpu c s) = Ret r s' \<Longrightarrow> proc_step s s'"
| alloc: "c < length (cpus s) \<Longrightarrow> allocproc (on_cpu c s) = Ret r s' \<Longrightarrow> proc_step s s'"
| start: "c < length (cpus s) \<Longrightarrow> curproc (on_cpu c s) = Some me \<Longrightarrow> np < NPROC \<Longrightarrow>
    p_state (ptable s ! np) = EMBRYO \<Longrightarrow> d \<noteq> 0 \<Longrightarrow>
    proc_step s (upd_proc np (\<lambda>p. p\<lparr>p_pgdir := d, p_parent := Some me, p_state := RUNNABLE\<rparr>) (on_cpu c s))"
| abandon: "c < length (cpus s) \<Longrightarrow> curproc (on_cpu c s) = Some me \<Longrightarrow> np < NPROC \<Longrightarrow>
    p_state (ptable s ! np) = EMBRYO \<Longrightarrow> kfree (p_kstack (ptable s ! np)) (on_cpu c s) = Ret () t \<Longrightarrow>
    proc_step s (upd_proc np (\<lambda>p. p\<lparr>p_pgdir := 0, p_kstack := 0, p_state := UNUSED\<rparr>) t)"

lemma upd_proc_sel [simp]:
  "ptable (upd_proc i f s) = (ptable s)[i := f (ptable s ! i)]" "held (upd_proc i f s) = held s"
  "cpus (upd_proc i f s) = cpus s" "mycpu (upd_proc i f s) = mycpu s" "initproc (upd_proc i f s) = initproc s"
  "curproc (upd_proc i f s) = curproc s"
  by (simp_all add: upd_proc_def curproc_def)

lemma upd_mycpu_sel [simp]:
  "ptable (upd_mycpu f s) = ptable s" "held (upd_mycpu f s) = held s"
  "cpus (upd_mycpu f s) = (cpus s)[mycpu s := f (cpus s ! mycpu s)]" "mycpu (upd_mycpu f s) = mycpu s"
  "initproc (upd_mycpu f s) = initproc s"
  by (simp_all add: upd_mycpu_def)

lemma on_cpu_sel [simp]:
  "ptable (on_cpu c s) = ptable s" "held (on_cpu c s) = held s" "cpus (on_cpu c s) = cpus s"
  "mycpu (on_cpu c s) = c" "initproc (on_cpu c s) = initproc s" "curproc (on_cpu c s) = c_proc (cpus s ! c)"
  by (simp_all add: on_cpu_def curproc_def)

lemma curproc_held [simp]: "curproc (s\<lparr>held := h\<rparr>) = curproc s"
  by (simp add: curproc_def)

lemma myproc_Ret_iff: "myproc s = Ret p t \<longleftrightarrow> curproc s = Some p \<and> t = s"
  by (auto simp: myproc_def split: option.split)

text \<open>Going off the CPU: only the CPU that executes loses its process.\<close>

lemma off_cpu_effect:
  assumes "off_cpu t = Ret () s'" and "held t = {LkPtable}" and "mycpu t < length (cpus t)"
  obtains x where "cpus s' = (cpus t)[mycpu t := x]" and "c_proc x = None" and "ptable s' = ptable t"
    and "held s' = {}" and "initproc s' = initproc t"
  using assms by (auto simp: off_cpu_def scheduler_back_def switchkvm_def release_def)

lemma sched_Block: "sched s = Block t \<longleftrightarrow> t = s \<and> held s = {LkPtable} \<and>
    (\<exists>p. curproc s = Some p \<and> p_state (ptable s ! p) \<noteq> RUNNING)"
  by (auto simp: sched_def bindk_def myproc_def holding_def split: option.split)

text \<open>How the steps affect who runs where.\<close>

lemma running_invD:
  assumes "running_inv s"
  shows "c < length (cpus s) \<Longrightarrow> c_proc (cpus s ! c) = Some p \<Longrightarrow> p < NPROC \<and> p_state (ptable s ! p) = RUNNING"
    and "c < length (cpus s) \<Longrightarrow> d < length (cpus s) \<Longrightarrow> c_proc (cpus s ! c) = Some p \<Longrightarrow>
      c_proc (cpus s ! d) = Some p \<Longrightarrow> c = d"
    and "p < NPROC \<Longrightarrow> p_state (ptable s ! p) = RUNNING \<Longrightarrow> \<exists>c < length (cpus s). c_proc (cpus s ! c) = Some p"
  using assms unfolding running_inv_def by blast+

lemma running_invI:
  assumes "\<And>c p. c < length (cpus s) \<Longrightarrow> c_proc (cpus s ! c) = Some p \<Longrightarrow> p < NPROC \<and> p_state (ptable s ! p) = RUNNING"
    and "\<And>c d p. c < length (cpus s) \<Longrightarrow> d < length (cpus s) \<Longrightarrow> c_proc (cpus s ! c) = Some p \<Longrightarrow>
      c_proc (cpus s ! d) = Some p \<Longrightarrow> c = d"
    and "\<And>p. p < NPROC \<Longrightarrow> p_state (ptable s ! p) = RUNNING \<Longrightarrow> \<exists>c < length (cpus s). c_proc (cpus s ! c) = Some p"
  shows "running_inv s"
  using assms unfolding running_inv_def by blast

lemma running_same:
  assumes "running_inv s" and "map c_proc (cpus s') = map c_proc (cpus s)"
    and "\<And>p. p < NPROC \<Longrightarrow> p_state (ptable s' ! p) = RUNNING \<longleftrightarrow> p_state (ptable s ! p) = RUNNING"
  shows "running_inv s'"
proof -
  have len: "length (cpus s') = length (cpus s)" using assms(2) map_eq_imp_length_eq by blast
  have nth: "c_proc (cpus s' ! c) = c_proc (cpus s ! c)" if "c < length (cpus s)" for c
    using that len arg_cong [OF assms(2), where f = "\<lambda>xs. xs ! c"] by simp
  show ?thesis
    using assms(1) unfolding running_inv_def len
    by (simp add: nth assms(3) cong: conj_cong imp_cong)
qed

lemma running_leave:
  assumes "running_inv s" and "c < length (cpus s)" and "c_proc (cpus s ! c) = Some me"
    and "cpus s' = (cpus s)[c := x]" and "c_proc x = None" and "p_state (ptable s' ! me) \<noteq> RUNNING"
    and "\<And>p. p < NPROC \<Longrightarrow> p \<noteq> me \<Longrightarrow> p_state (ptable s' ! p) = RUNNING \<longleftrightarrow> p_state (ptable s ! p) = RUNNING"
  shows "running_inv s'"
proof -
  have len: "length (cpus s') = length (cpus s)" using assms(4) by simp
  have nth: "c_proc (cpus s' ! d) = (if d = c then None else c_proc (cpus s ! d))" for d
    using assms(2,4,5) by (cases "d = c") auto
  note inv = running_invD [OF assms(1)]
  have me: "d = c" if "d < length (cpus s)" "c_proc (cpus s ! d) = Some me" for d
    using inv(2) assms(2,3) that by blast
  show ?thesis
  proof (rule running_invI, unfold len nth)
    show "p < NPROC \<and> p_state (ptable s' ! p) = RUNNING"
      if "d < length (cpus s)" "(if d = c then None else c_proc (cpus s ! d)) = Some p" for d p
      using that inv(1) [of d p] assms(7) [of p] me by (auto split: if_splits)
    show "d = e" if "d < length (cpus s)" "e < length (cpus s)"
      "(if d = c then None else c_proc (cpus s ! d)) = Some p"
      "(if e = c then None else c_proc (cpus s ! e)) = Some p" for d e p
      using that inv(2) [of d e p] by (auto split: if_splits)
    show "\<exists>d < length (cpus s). (if d = c then None else c_proc (cpus s ! d)) = Some p"
      if "p < NPROC" "p_state (ptable s' ! p) = RUNNING" for p
      using that inv(3) [of p] assms(3,6,7) by (metis option.inject)
  qed
qed

lemma running_dispatch:
  assumes "running_inv s" and "c < length (cpus s)" and "c_proc (cpus s ! c) = None"
    and "cpus s' = (cpus s)[c := x]" and "c_proc x = Some p" and "p < NPROC"
    and "p_state (ptable s ! p) \<noteq> RUNNING" and "p_state (ptable s' ! p) = RUNNING"
    and "\<And>q. q < NPROC \<Longrightarrow> q \<noteq> p \<Longrightarrow> p_state (ptable s' ! q) = RUNNING \<longleftrightarrow> p_state (ptable s ! q) = RUNNING"
  shows "running_inv s'"
proof -
  have len: "length (cpus s') = length (cpus s)" using assms(4) by simp
  have nth: "c_proc (cpus s' ! d) = (if d = c then Some p else c_proc (cpus s ! d))" for d
    using assms(2,4,5) by (cases "d = c") auto
  note inv = running_invD [OF assms(1)]
  have free: "c_proc (cpus s ! d) \<noteq> Some p" if "d < length (cpus s)" for d
    using inv(1) assms(7) that by blast
  show ?thesis
  proof (rule running_invI, unfold len nth)
    show "q < NPROC \<and> p_state (ptable s' ! q) = RUNNING"
      if "d < length (cpus s)" "(if d = c then Some p else c_proc (cpus s ! d)) = Some q" for d q
      using that inv(1) [of d q] assms(6,8,9) free by (auto split: if_splits)
    show "d = e" if "d < length (cpus s)" "e < length (cpus s)"
      "(if d = c then Some p else c_proc (cpus s ! d)) = Some q"
      "(if e = c then Some p else c_proc (cpus s ! e)) = Some q" for d e q
      using that inv(2) [of d e q] free by (auto split: if_splits)
    show "\<exists>d < length (cpus s). (if d = c then Some p else c_proc (cpus s ! d)) = Some q"
      if "q < NPROC" "p_state (ptable s' ! q) = RUNNING" for q
      using that inv(3) [of q] assms(2,3,9) by (metis option.distinct(1))
  qed
qed

text \<open>How the steps affect sleepers and parents. A table is a wakened version of another
  when processes have only gone from \<open>SLEEPING\<close> to \<open>RUNNABLE\<close>.\<close>

definition woken :: "proc \<Rightarrow> proc \<Rightarrow> bool" where
  "woken p q \<longleftrightarrow> q = p \<or> p_state p = SLEEPING \<and> q = p\<lparr>p_state := RUNNABLE\<rparr>"

lemma woken_refl [simp]: "woken p p"
  by (simp add: woken_def)

lemma woken_wakes [simp]: "woken p (wakes ch p)"
  by (simp add: woken_def wakes_def)

lemma woken_trans: "woken p q \<Longrightarrow> woken q r \<Longrightarrow> woken p r"
  by (auto simp: woken_def)

lemma wokenD:
  assumes "woken p q"
  shows "p_parent q = p_parent p" "p_chan q = p_chan p" "p_state q = RUNNING \<longleftrightarrow> p_state p = RUNNING"
    "p_state q = ZOMBIE \<longleftrightarrow> p_state p = ZOMBIE" "p_state q = SLEEPING \<Longrightarrow> p_state p = SLEEPING"
    "p_state q = UNUSED \<longleftrightarrow> p_state p = UNUSED" "p_state q = EMBRYO \<longleftrightarrow> p_state p = EMBRYO"
  using assms by (auto simp: woken_def)

lemma woken_runnable: "woken p q \<Longrightarrow> p_state p = RUNNABLE \<Longrightarrow> p_state q = RUNNABLE"
  by (auto simp: woken_def)

lemma proc_ok_woken: "proc_ok p \<Longrightarrow> woken p q \<Longrightarrow> proc_ok q"
  by (auto simp: woken_def proc_ok_def)

lemma proc_ok_upd:
  "\<forall>i < NPROC. proc_ok (pt ! i) \<Longrightarrow> length pt = NPROC \<Longrightarrow> proc_ok p \<Longrightarrow> \<forall>j < NPROC. proc_ok (pt[i := p] ! j)"
  by (metis length_list_update nth_list_update_eq nth_list_update_neq)

lemma keeps_runnable_upd:
  "length pt = NPROC \<Longrightarrow> (p_state (pt ! i) = RUNNABLE \<Longrightarrow> p_state p \<in> {RUNNABLE, RUNNING}) \<Longrightarrow> keeps_runnable pt (pt[i := p])"
  unfolding keeps_runnable_def by (metis insertI1 nth_list_update_eq nth_list_update_neq)

lemma wakes_sleeping: "p_state (wakes ch p) = SLEEPING \<Longrightarrow> p_chan (wakes ch p) \<noteq> ch"
  by (auto simp: wakes_def split: if_splits)

lemma no_lost_wakeup_woken:
  assumes "no_lost_wakeup pt" and "\<And>i. i < NPROC \<Longrightarrow> woken (pt ! i) (pt' ! i)"
  shows "no_lost_wakeup pt'"
  unfolding no_lost_wakeup_def
proof (intro allI impI)
  fix q i p
  assume *: "q < NPROC" "i < NPROC"
    "p_state (pt' ! q) = SLEEPING \<and> p_chan (pt' ! q) = Some (ChanProc p) \<and> p_parent (pt' ! i) = Some p"
  then show "p_state (pt' ! i) \<noteq> ZOMBIE"
    using assms(1) wokenD [OF assms(2) [OF *(1)]] wokenD [OF assms(2) [OF *(2)]]
    by (auto simp: no_lost_wakeup_def)
qed

lemma parents_ok_woken:
  assumes "parents_ok ip pt" and "\<And>i. i < NPROC \<Longrightarrow> woken (pt ! i) (pt' ! i)"
  shows "parents_ok ip pt'"
  using assms(1) wokenD [OF assms(2)] unfolding parents_ok_def by simp

text \<open>One entry of the table changes.\<close>

lemma no_lost_wakeup_upd:
  assumes "no_lost_wakeup pt" and "length pt = NPROC" and "i < NPROC"
    and "\<And>r q. p_state p = ZOMBIE \<Longrightarrow> p_parent p = Some r \<Longrightarrow> q < NPROC \<Longrightarrow> p_state (pt ! q) = SLEEPING \<Longrightarrow>
      p_chan (pt ! q) = Some (ChanProc r) \<Longrightarrow> q = i"
    and "\<And>r j. p_state p = SLEEPING \<Longrightarrow> p_chan p = Some (ChanProc r) \<Longrightarrow> j < NPROC \<Longrightarrow>
      p_parent (pt ! j) = Some r \<Longrightarrow> p_state (pt ! j) \<noteq> ZOMBIE"
  shows "no_lost_wakeup (pt[i := p])"
  unfolding no_lost_wakeup_def
proof (intro allI impI)
  fix q j r
  assume *: "q < NPROC" "j < NPROC" "p_state (pt[i := p] ! q) = SLEEPING \<and>
    p_chan (pt[i := p] ! q) = Some (ChanProc r) \<and> p_parent (pt[i := p] ! j) = Some r"
  have "p_state (pt ! q) = SLEEPING \<Longrightarrow> p_chan (pt ! q) = Some (ChanProc r) \<Longrightarrow>
      p_parent (pt ! j) = Some r \<Longrightarrow> p_state (pt ! j) \<noteq> ZOMBIE"
    using assms(1) *(1,2) unfolding no_lost_wakeup_def by blast
  then show "p_state (pt[i := p] ! j) \<noteq> ZOMBIE"
    using * assms(2,3) assms(4) [of r q] assms(5) [of r j] by (auto simp: nth_list_update split: if_splits)
qed

lemma parents_ok_upd:
  assumes "parents_ok ip pt" and "length pt = NPROC" and "i < NPROC" and "p_parent p \<noteq> Some i"
    and "ip = Some i \<Longrightarrow> p_parent p = None \<and> p_state p \<notin> {UNUSED, EMBRYO, ZOMBIE}"
  shows "parents_ok ip (pt[i := p])"
  using assms by (auto simp: parents_ok_def nth_list_update)

lemma parents_okD:
  assumes "parents_ok ip pt"
  shows "i < NPROC \<Longrightarrow> p_parent (pt ! i) \<noteq> Some i"
    and "ip = Some i \<Longrightarrow> i < NPROC \<and> p_parent (pt ! i) = None \<and> p_state (pt ! i) \<notin> {UNUSED, EMBRYO, ZOMBIE}"
  using assms unfolding parents_ok_def by blast+

section \<open>The steps keep the invariants\<close>

definition step_ok :: "'z proc_state_scheme \<Rightarrow> 'z proc_state_scheme \<Rightarrow> bool" where
  "step_ok s s' \<longleftrightarrow> proc_inv s' \<and> keeps_runnable (ptable s) (ptable s')"

text \<open>The running process goes off the CPU with a new state.\<close>

lemma leave_step:
  assumes inv: "proc_inv s" and c: "c < length (cpus s)" "c_proc (cpus s ! c) = Some me"
    and off: "off_cpu t = Ret () s'" and t: "held t = {LkPtable}" "cpus t = cpus s" "mycpu t = c"
    "initproc t = initproc s" "length (ptable t) = NPROC" "p_state (ptable t ! me) \<noteq> RUNNING"
    and run: "\<And>p. p < NPROC \<Longrightarrow> p \<noteq> me \<Longrightarrow> p_state (ptable t ! p) = RUNNING \<longleftrightarrow> p_state (ptable s ! p) = RUNNING"
    and ok: "no_lost_wakeup (ptable t)" "parents_ok (initproc t) (ptable t)" "\<forall>i < NPROC. proc_ok (ptable t ! i)"
      "keeps_runnable (ptable s) (ptable t)"
  shows "step_ok s s'"
proof -
  obtain x where x: "cpus s' = (cpus s)[c := x]" "c_proc x = None" "ptable s' = ptable t"
    "held s' = {}" "initproc s' = initproc t"
    using off_cpu_effect [OF off t(1)] t c(1) by metis
  have "running_inv s'"
    using inv x t run c by (intro running_leave [of s c me s' x]) (auto simp: proc_inv_def)
  then show ?thesis using x t ok by (simp add: proc_inv_def step_ok_def)
qed

lemma upd_me:
  assumes "proc_inv s" and "c < length (cpus s)" and "c_proc (cpus s ! c) = Some me"
  shows "me < NPROC" and "p_state (ptable s ! me) = RUNNING" and "p_chan (ptable s ! me) = None" and "p_pgdir (ptable s ! me) \<noteq> 0"
proof -
  show me: "me < NPROC" "p_state (ptable s ! me) = RUNNING"
    using assms running_invD(1) [of s c me] by (auto simp: proc_inv_def)
  have "proc_ok (ptable s ! me)" using assms(1) me(1) by (simp add: proc_inv_def)
  then show "p_chan (ptable s ! me) = None" "p_pgdir (ptable s ! me) \<noteq> 0" using me(2) by (simp_all add: proc_ok_def)
qed

lemma leave_upd:
  assumes inv: "proc_inv s" and c: "c < length (cpus s)" "c_proc (cpus s ! c) = Some me"
    and off: "off_cpu (upd_proc me f ((on_cpu c s)\<lparr>held := {LkPtable}\<rparr>)) = Ret () s'"
    and f: "p_state (f (ptable s ! me)) \<in> {RUNNABLE, SLEEPING}"
      "p_parent (f (ptable s ! me)) = p_parent (ptable s ! me)"
      "\<And>r j. p_state (f (ptable s ! me)) = SLEEPING \<Longrightarrow> p_chan (f (ptable s ! me)) = Some (ChanProc r) \<Longrightarrow>
        j < NPROC \<Longrightarrow> p_parent (ptable s ! j) = Some r \<Longrightarrow> p_state (ptable s ! j) \<noteq> ZOMBIE"
      "proc_ok (f (ptable s ! me))"
  shows "step_ok s s'"
proof -
  have h: "held s = {}" "length (ptable s) = NPROC" "no_lost_wakeup (ptable s)" "parents_ok (initproc s) (ptable s)"
      "\<forall>i < NPROC. proc_ok (ptable s ! i)"
    using inv by (auto simp: proc_inv_def)
  note me' = upd_me [OF inv c]
  show ?thesis
  proof (rule leave_step [OF inv c off])
    show "no_lost_wakeup (ptable (upd_proc me f ((on_cpu c s)\<lparr>held := {LkPtable}\<rparr>)))"
      using h me' f by (auto intro!: no_lost_wakeup_upd)
    show "parents_ok (initproc (upd_proc me f ((on_cpu c s)\<lparr>held := {LkPtable}\<rparr>)))
        (ptable (upd_proc me f ((on_cpu c s)\<lparr>held := {LkPtable}\<rparr>)))"
      using h me' f by (auto intro!: parents_ok_upd dest: parents_okD)
    show "\<forall>i < NPROC. proc_ok (ptable (upd_proc me f ((on_cpu c s)\<lparr>held := {LkPtable}\<rparr>)) ! i)"
      using proc_ok_upd [OF h(5,2) f(4)] by simp
    show "keeps_runnable (ptable s) (ptable (upd_proc me f ((on_cpu c s)\<lparr>held := {LkPtable}\<rparr>)))"
      using h(2) me'(2) by (auto intro!: keeps_runnable_upd)
  qed (use h me' f in auto)
qed

lemma step_yield:
  fixes s :: "'z proc_state_scheme"
  assumes "proc_inv s" and "c < length (cpus s)" and "(yield :: (unit, 'z proc_state_scheme) kernel) (on_cpu c s) = Block t" and "off_cpu t = Ret () s'"
  shows "step_ok s s'"
proof -
  have h: "held s = {}" using assms(1) by (simp add: proc_inv_def)
  obtain me where me: "c_proc (cpus s ! c) = Some me"
    and t: "t = upd_proc me (\<lambda>q. q\<lparr>p_state := RUNNABLE\<rparr>) ((on_cpu c s)\<lparr>held := {LkPtable}\<rparr>)"
    using assms(3) h
    by (auto simp: yield_def myproc_def sched_Block thenk_def bindk_def acquire_def split: option.splits)
  show ?thesis
    by (rule leave_upd [OF assms(1,2) me assms(4) [unfolded t]]) (use upd_me [OF assms(1,2) me] in \<open>auto simp: proc_ok_def\<close>)
qed

lemma sleep_Block:
  assumes "sleep ch lk u = Block t" and "held u \<subseteq> {lk}"
  obtains me where "curproc u = Some me"
    and "t = upd_proc me (\<lambda>q. q\<lparr>p_chan := Some ch, p_state := SLEEPING\<rparr>) (u\<lparr>held := {LkPtable}\<rparr>)"
  using assms
  by (cases "lk = LkPtable")
    (auto simp: sleep_def thenk_def bindk_def acquire_def release_def sched_Block upd_proc_def
      split: option.splits if_splits)

lemma wakeup_run: "LkPtable \<notin> held s \<Longrightarrow> wakeup ch s = Ret () (s\<lparr>ptable := map (wakes (Some ch)) (ptable s)\<rparr>)"
  by (simp add: wakeup_def wakeup1_def thenk_def bindk_def acquire_def release_def)

lemma sleep_run:
  assumes "curproc s = Some me" and "held s = {lk}" and "lk \<noteq> LkPtable" and "me < length (ptable s)"
  shows "sleep ch lk s = Block (upd_proc me (\<lambda>q. q\<lparr>p_chan := Some ch, p_state := SLEEPING\<rparr>) (s\<lparr>held := {LkPtable}\<rparr>))"
  using assms by (auto simp: sleep_def thenk_def bindk_def sched_def myproc_def holding_def upd_proc_def curproc_def)

lemma step_sleep:
  fixes s :: "'z proc_state_scheme"
  assumes "proc_inv s" and "c < length (cpus s)" and "\<And>p. ch \<noteq> ChanProc p"
    and "thenk (acquire lk) (sleep ch lk :: (unit, 'z proc_state_scheme) kernel) (on_cpu c s) = Block t" and "off_cpu t = Ret () s'"
  shows "step_ok s s'"
proof -
  have h: "held s = {}" using assms(1) by (simp add: proc_inv_def)
  then have "(sleep ch lk :: (unit, 'z proc_state_scheme) kernel) ((on_cpu c s)\<lparr>held := {lk}\<rparr>) = Block t"
    using assms(4) by simp
  then obtain me where me: "c_proc (cpus s ! c) = Some me"
    and t: "t = upd_proc me (\<lambda>q. q\<lparr>p_chan := Some ch, p_state := SLEEPING\<rparr>) ((on_cpu c s)\<lparr>held := {LkPtable}\<rparr>)"
    by (rule sleep_Block) auto
  show ?thesis
    by (rule leave_upd [OF assms(1,2) me assms(5) [unfolded t]]) (use assms(3) upd_me [OF assms(1,2) me] in \<open>auto simp: proc_ok_def\<close>)
qed

lemma step_wait_sleep:
  fixes s :: "'z proc_state_scheme"
  assumes "proc_inv s" and "c < length (cpus s)" and "wait (on_cpu c s) = Block t" and "off_cpu t = Ret () s'"
  shows "step_ok s s'"
proof -
  have h: "held s = {}" using assms(1) by (simp add: proc_inv_def)
  obtain me where me: "c_proc (cpus s ! c) = Some me"
    using assms(3) h by (auto simp: wait_def thenk_def bindk_def acquire_def myproc_def split: option.splits)
  let ?u = "(on_cpu c s)\<lparr>held := {LkPtable}\<rparr>"
  have nb: "wait_reap i u \<noteq> Block t" for i and u :: "'z proc_state_scheme"
    by (auto simp: wait_reap_def thenk_def bindk_def release_def Let_def
        pres_no_Block [OF kfree_pres] pres_no_Block [OF freevm_pres] split: outcome.splits)
  have none: "find (\<lambda>i. p_parent (ptable s ! i) = Some me \<and> p_state (ptable s ! i) = ZOMBIE) [0..<NPROC] = None"
    and "(sleep (ChanProc me) LkPtable :: (int, 'z proc_state_scheme) kernel) ?u = Block t"
    using assms(3) h me
    by (auto simp: nb wait_def myproc_def Let_def release_def thenk_def bindk_def split: option.splits if_splits)
  then have t: "t = upd_proc me (\<lambda>q. q\<lparr>p_chan := Some (ChanProc me), p_state := SLEEPING\<rparr>) ?u"
    using me by (elim sleep_Block) auto
  show ?thesis
    by (rule leave_upd [OF assms(1,2) me assms(4) [unfolded t]]) (use none upd_me [OF assms(1,2) me] in \<open>auto simp: find_upt_None proc_ok_def\<close>)
qed

text \<open>The running process stays on the CPU.\<close>

lemma stay_woken:
  assumes "proc_inv s" and "cpus s' = cpus s" and "held s' = {}" and "initproc s' = initproc s"
    and "length (ptable s') = NPROC" and "\<And>i. i < NPROC \<Longrightarrow> woken (ptable s ! i) (ptable s' ! i)"
  shows "step_ok s s'"
proof -
  have h: "running_inv s" "no_lost_wakeup (ptable s)" "parents_ok (initproc s') (ptable s)" "\<forall>i < NPROC. proc_ok (ptable s ! i)"
    using assms(1,4) by (simp_all add: proc_inv_def)
  have "running_inv s'"
    by (rule running_same [OF h(1)]) (simp_all add: assms(2) wokenD(3) [OF assms(6)])
  moreover note no_lost_wakeup_woken [OF h(2) assms(6)] parents_ok_woken [OF h(3) assms(6)]
  moreover have "\<forall>i < NPROC. proc_ok (ptable s' ! i)" using h(4) assms(6) proc_ok_woken by blast
  moreover have "keeps_runnable (ptable s) (ptable s')" using woken_runnable [OF assms(6)] by (simp add: keeps_runnable_def)
  ultimately show ?thesis using assms by (simp add: proc_inv_def step_ok_def)
qed

lemma stay_upd:
  assumes inv: "proc_inv s" and s': "cpus s' = cpus s" "held s' = {}" "initproc s' = initproc s"
      "ptable s' = (ptable s)[i := p]" and i: "i < NPROC"
    and p: "p_state p = RUNNING \<longleftrightarrow> p_state (ptable s ! i) = RUNNING" "p_parent p \<noteq> Some i"
      "p_state p \<noteq> ZOMBIE \<or> p_state (ptable s ! i) = ZOMBIE \<and> p_parent p = p_parent (ptable s ! i)"
      "p_state p = SLEEPING \<Longrightarrow> p_state (ptable s ! i) = SLEEPING \<and> p_chan p = p_chan (ptable s ! i)"
      "initproc s = Some i \<Longrightarrow> p_parent p = None \<and> p_state p \<notin> {UNUSED, EMBRYO, ZOMBIE}"
      "proc_ok p" "p_state (ptable s ! i) = RUNNABLE \<Longrightarrow> p_state p = RUNNABLE"
  shows "step_ok s s'"
proof -
  have h: "length (ptable s) = NPROC" "no_lost_wakeup (ptable s)" "parents_ok (initproc s) (ptable s)" "running_inv s"
      "\<forall>i < NPROC. proc_ok (ptable s ! i)"
    using inv by (auto simp: proc_inv_def)
  have "no_lost_wakeup (ptable s')"
    unfolding s' using h(2) p(3,4) i
    by (intro no_lost_wakeup_upd h i) (auto simp: no_lost_wakeup_def)
  moreover have "parents_ok (initproc s') (ptable s')"
    unfolding s' using p(2,5) by (intro parents_ok_upd h i) auto
  moreover have "running_inv s'"
    using h i p(1) s' by (intro running_same [OF h(4)]) (auto simp: nth_list_update)
  moreover have "\<forall>j < NPROC. proc_ok (ptable s' ! j)" unfolding s' by (rule proc_ok_upd [OF h(5,1) p(6)])
  moreover have "keeps_runnable (ptable s) (ptable s')" unfolding s' using h(1) p(7) by (auto intro!: keeps_runnable_upd)
  ultimately show ?thesis using h s' by (simp add: proc_inv_def step_ok_def)
qed

lemma step_wakeup:
  assumes "proc_inv s" and "wakeup ch (on_cpu c s) = Ret () s'"
  shows "step_ok s s'"
proof -
  have "held s = {}" "length (ptable s) = NPROC" using assms(1) by (auto simp: proc_inv_def)
  then show ?thesis
    using assms(2) by (intro stay_woken [OF assms(1)]) (auto simp: wakeup_def wakeup1_def)
qed

lemma step_kill:
  assumes "proc_inv s" and "kill n (on_cpu c s) = Ret r s'"
  shows "step_ok s s'"
proof -
  have h: "held s = {}" "length (ptable s) = NPROC" "parents_ok (initproc s) (ptable s)"
    using assms(1) by (auto simp: proc_inv_def)
  show ?thesis
  proof (cases "find (\<lambda>i. p_pid (ptable s ! i) = n) [0..<NPROC]")
    case None
    then show ?thesis
      using assms(2) h by (intro stay_woken [OF assms(1)]) (auto simp: kill_def)
  next
    case (Some i)
    then have i: "i < NPROC" by (simp add: find_upt_Some)
    let ?p = "let q = ptable s ! i in
      if p_state q = SLEEPING then q\<lparr>p_killed := True, p_state := RUNNABLE\<rparr> else q\<lparr>p_killed := True\<rparr>"
    have s': "cpus s' = cpus s" "held s' = {}" "initproc s' = initproc s" "ptable s' = (ptable s)[i := ?p]"
      using assms(2) h Some i by (auto simp: kill_def Let_def split: if_splits)
    have "proc_ok (ptable s ! i)" using assms(1) i by (simp add: proc_inv_def)
    then have "proc_ok ?p" by (auto simp: proc_ok_def Let_def split: procstate.splits)
    then show ?thesis
      using i parents_okD [OF h(3)]
      by (intro stay_upd [OF assms(1) s']) (auto simp: Let_def split: if_splits)
  qed
qed

lemma step_start:
  assumes "proc_inv s" and "c < length (cpus s)" and "c_proc (cpus s ! c) = Some me" and "np < NPROC"
    and "p_state (ptable s ! np) = EMBRYO" and "d \<noteq> 0"
  shows "step_ok s (upd_proc np (\<lambda>p. p\<lparr>p_pgdir := d, p_parent := Some me, p_state := RUNNABLE\<rparr>) (on_cpu c s))"
proof -
  have h: "held s = {}" "parents_ok (initproc s) (ptable s)" using assms(1) by (auto simp: proc_inv_def)
  have "me \<noteq> np" using upd_me [OF assms(1-3)] assms(5) by auto
  then show ?thesis
    using h assms(4,5,6) parents_okD(2) [OF h(2)]
    by (intro stay_upd [OF assms(1), where i = np and
          p = "(ptable s ! np)\<lparr>p_pgdir := d, p_parent := Some me, p_state := RUNNABLE\<rparr>"]) (auto simp: proc_ok_def)
qed

lemma curproc_upd_mycpu [simp]:
  "mycpu s < length (cpus s) \<Longrightarrow> curproc (upd_mycpu f s) = c_proc (f (cpus s ! mycpu s))"
  by (simp add: curproc_def)

text \<open>The scheduler of an idle CPU switches to a runnable process.\<close>

lemma scheduler_pick_run:
  assumes "mycpu s < length (cpus s)" and "p_state (ptable s ! p) = RUNNABLE" and "p_pgdir (ptable s ! p) \<noteq> 0"
  shows "\<exists>x. c_proc x = Some p \<and> scheduler_pick p s =
    Ret True (upd_proc p (\<lambda>q. q\<lparr>p_state := RUNNING\<rparr>) (s\<lparr>cpus := (cpus s)[mycpu s := x]\<rparr>))"
  using assms by (intro exI [of _ "(cpus s ! mycpu s)\<lparr>c_proc := Some p, c_esp0 := p_kstack (ptable s ! p) + KSTACKSIZE,
      c_cr3 := v2p (p_pgdir (ptable s ! p))\<rparr>"])
    (simp add: scheduler_pick_def switchuvm_def myproc_def curproc_def upd_mycpu_def upd_proc_def thenk_def bindk_def)

lemma runnable_pgdir: "proc_inv s \<Longrightarrow> p < NPROC \<Longrightarrow> p_state (ptable s ! p) = RUNNABLE \<Longrightarrow> p_pgdir (ptable s ! p) \<noteq> 0"
  by (auto simp: proc_inv_def proc_ok_def)

lemma dispatch_run:
  assumes "proc_inv s" and "c < length (cpus s)" and "p < NPROC" and "p_state (ptable s ! p) = RUNNABLE"
  shows "\<exists>x. c_proc x = Some p \<and>
      thenk (acquire LkPtable) (bindk (scheduler_pick p) (\<lambda>b. thenk yield_resume (ret b))) (on_cpu c s) =
        Ret True (upd_proc p (\<lambda>q. q\<lparr>p_state := RUNNING\<rparr>) ((on_cpu c s)\<lparr>cpus := (cpus s)[c := x]\<rparr>))"
    and "\<exists>x. c_proc x = Some p \<and> thenk (acquire LkPtable) (bindk (scheduler_pick p) (\<lambda>b.
        thenk (if b then thenk (sleep_resume lk) (release lk) else release LkPtable) (ret b))) (on_cpu c s) =
      Ret True (upd_proc p (\<lambda>q. q\<lparr>p_state := RUNNING, p_chan := None\<rparr>) ((on_cpu c s)\<lparr>cpus := (cpus s)[c := x]\<rparr>))"
proof -
  have h: "held s = {}" "length (ptable s) = NPROC" using assms(1) by (auto simp: proc_inv_def)
  obtain x where x: "c_proc x = Some p" "scheduler_pick p ((on_cpu c s)\<lparr>held := {LkPtable}\<rparr>) =
      Ret True (upd_proc p (\<lambda>q. q\<lparr>p_state := RUNNING\<rparr>) ((on_cpu c s)\<lparr>held := {LkPtable}, cpus := (cpus s)[c := x]\<rparr>))"
    using scheduler_pick_run [of "(on_cpu c s)\<lparr>held := {LkPtable}\<rparr>" p] assms runnable_pgdir by auto
  show "\<exists>x. c_proc x = Some p \<and>
      thenk (acquire LkPtable) (bindk (scheduler_pick p) (\<lambda>b. thenk yield_resume (ret b))) (on_cpu c s) =
        Ret True (upd_proc p (\<lambda>q. q\<lparr>p_state := RUNNING\<rparr>) ((on_cpu c s)\<lparr>cpus := (cpus s)[c := x]\<rparr>))"
    using x h by (intro exI [of _ x]) (simp add: yield_resume_def upd_proc_def)
  show "\<exists>x. c_proc x = Some p \<and> thenk (acquire LkPtable) (bindk (scheduler_pick p) (\<lambda>b.
        thenk (if b then thenk (sleep_resume lk) (release lk) else release LkPtable) (ret b))) (on_cpu c s) =
      Ret True (upd_proc p (\<lambda>q. q\<lparr>p_state := RUNNING, p_chan := None\<rparr>) ((on_cpu c s)\<lparr>cpus := (cpus s)[c := x]\<rparr>))"
    using x h assms(2,3) by (intro exI [of _ x])
      (simp add: sleep_resume_def myproc_def curproc_def upd_proc_def on_cpu_def thenk_def bindk_def acquire_def release_def)
qed

lemma picked_ok:
  assumes inv: "proc_inv s" and c: "c < length (cpus s)" "c_proc (cpus s ! c) = None"
    and p: "p < NPROC" "p_state (ptable s ! p) = RUNNABLE" and x: "c_proc x = Some p"
    and f: "p_state (f (ptable s ! p)) = RUNNING" "p_parent (f (ptable s ! p)) = p_parent (ptable s ! p)" "proc_ok (f (ptable s ! p))"
  shows "step_ok s (upd_proc p f ((on_cpu c s)\<lparr>cpus := (cpus s)[c := x]\<rparr>))" (is "step_ok s ?t")
proof -
  have h: "held s = {}" "length (ptable s) = NPROC" "no_lost_wakeup (ptable s)" "parents_ok (initproc s) (ptable s)"
      "running_inv s" "\<forall>i < NPROC. proc_ok (ptable s ! i)"
    using inv by (auto simp: proc_inv_def)
  have t: "ptable ?t = (ptable s)[p := f (ptable s ! p)]" "initproc ?t = initproc s" "held ?t = {}"
    using h(1) by simp_all
  have "running_inv ?t"
    using h p f by (intro running_dispatch [OF h(5) c _ x p(1)]) auto
  moreover have "no_lost_wakeup (ptable ?t)"
    unfolding t by (intro no_lost_wakeup_upd h p(1)) (use f in auto)
  moreover have "parents_ok (initproc ?t) (ptable ?t)"
    unfolding t using parents_okD [OF h(4)] p(1) f by (intro parents_ok_upd h p(1)) auto
  moreover have "\<forall>j < NPROC. proc_ok (ptable ?t ! j)" unfolding t by (rule proc_ok_upd [OF h(6,2) f(3)])
  moreover have "keeps_runnable (ptable s) (ptable ?t)" unfolding t using h(2) f(1) by (auto intro!: keeps_runnable_upd)
  ultimately show ?thesis using h t by (simp add: proc_inv_def step_ok_def)
qed

lemma step_same: "proc_inv s \<Longrightarrow> step_ok s (on_cpu c s)"
  by (rule stay_woken) (auto simp: proc_inv_def)

lemma step_dispatch:
  assumes "proc_inv s" and "c < length (cpus s)" and "c_proc (cpus s ! c) = None" and "p < NPROC" and "p_chan (ptable s ! p) = None"
    and "thenk (acquire LkPtable) (bindk (scheduler_pick p) (\<lambda>b. thenk yield_resume (ret b))) (on_cpu c s) = Ret b s'"
  shows "step_ok s s'"
proof (cases "p_state (ptable s ! p) = RUNNABLE")
  case False
  have "held s = {}" using assms(1) by (simp add: proc_inv_def)
  then have "s' = on_cpu c s"
    using assms(6) False by (auto simp: scheduler_pick_def yield_resume_def on_cpu_def)
  then show ?thesis using step_same [OF assms(1)] by simp
next
  case True
  obtain x where x: "c_proc x = Some p"
      "s' = upd_proc p (\<lambda>q. q\<lparr>p_state := RUNNING\<rparr>) ((on_cpu c s)\<lparr>cpus := (cpus s)[c := x]\<rparr>)"
    using dispatch_run(1) [OF assms(1,2,4) True] assms(6) by auto
  show ?thesis
    unfolding x(2) by (rule picked_ok [OF assms(1-4) True x(1)])
      (use assms(5) runnable_pgdir [OF assms(1,4) True] in \<open>simp_all add: proc_ok_def\<close>)
qed

lemma step_resume:
  assumes "proc_inv s" and "c < length (cpus s)" and "c_proc (cpus s ! c) = None" and "p < NPROC"
    and "thenk (acquire LkPtable) (bindk (scheduler_pick p) (\<lambda>b.
        thenk (if b then thenk (sleep_resume lk) (release lk) else release LkPtable) (ret b))) (on_cpu c s) = Ret b s'"
  shows "step_ok s s'"
proof (cases "p_state (ptable s ! p) = RUNNABLE")
  case False
  have "held s = {}" using assms(1) by (simp add: proc_inv_def)
  then have "s' = on_cpu c s"
    using assms(5) False by (auto simp: scheduler_pick_def on_cpu_def)
  then show ?thesis using step_same [OF assms(1)] by simp
next
  case True
  obtain x where x: "c_proc x = Some p"
      "s' = upd_proc p (\<lambda>q. q\<lparr>p_state := RUNNING, p_chan := None\<rparr>) ((on_cpu c s)\<lparr>cpus := (cpus s)[c := x]\<rparr>)"
    using dispatch_run(2) [OF assms(1,2,4) True, of lk] assms(5) by auto
  show ?thesis
    unfolding x(2) by (rule picked_ok [OF assms(1-4) True x(1)])
      (use runnable_pgdir [OF assms(1,4) True] in \<open>simp_all add: proc_ok_def\<close>)
qed

lemma kframe_sel:
  assumes "kframe s s'"
  shows "held s' = held s" "ptable s' = ptable s" "cpus s' = cpus s" "initproc s' = initproc s"
    "mycpu s' = mycpu s" "trapret s' = trapret s" "nextpid s' = nextpid s"
  by (subst assms [unfolded kframe_def], simp)+

lemma step_wait_reap:
  assumes "proc_inv s" and "c < length (cpus s)" and "wait (on_cpu c s) = Ret n s'"
  shows "step_ok s s'"
proof -
  have h: "held s = {}" "length (ptable s) = NPROC" "parents_ok (initproc s) (ptable s)"
    using assms(1) by (auto simp: proc_inv_def)
  let ?u = "(on_cpu c s)\<lparr>held := {LkPtable}\<rparr>"
  obtain me where me: "c_proc (cpus s ! c) = Some me"
    using assms(3) h by (auto simp: wait_def thenk_Ret_iff bindk_Ret_iff myproc_Ret_iff acquire_def)
  show ?thesis
  proof (cases "find (\<lambda>i. p_parent (ptable s ! i) = Some me \<and> p_state (ptable s ! i) = ZOMBIE) [0..<NPROC]")
    case None
    have "s' = ?u\<lparr>held := {}\<rparr>"
      using assms(3) h(1) me None
      by (auto simp: wait_def myproc_def Let_def sleep_def sched_def thenk_def bindk_def acquire_def release_def
          split: if_splits)
    then show ?thesis
      using h by (intro stay_woken [OF assms(1)]) auto
  next
    case (Some i)
    then have i: "i < NPROC" "p_state (ptable s ! i) = ZOMBIE" "p_parent (ptable s ! i) = Some me"
      by (auto simp: find_upt_Some)
    have "wait_reap i ?u = Ret n s'"
      using assms(3) h(1) me Some by (simp add: wait_def myproc_def)
    then obtain t1 t2 where t: "kfree (p_kstack (ptable s ! i)) ?u = Ret () t1"
        "freevm (p_pgdir (ptable s ! i)) (upd_proc i (\<lambda>p. p\<lparr>p_kstack := 0\<rparr>) t1) = Ret () t2"
        "s' = (upd_proc i (\<lambda>p. p\<lparr>p_state := UNUSED, p_pid := 0, p_parent := None,
           p_name := (p_name p)[0 := 0], p_killed := False\<rparr>) t2)\<lparr>held := held t2 - {LkPtable}\<rparr>"
      by (auto simp: wait_reap_def Let_def thenk_Ret_iff release_def split: if_splits)
    note f1 = kframe_sel [OF presD [OF kfree_pres t(1)]] and f2 = kframe_sel [OF presD [OF freevm_pres t(2)]]
    define p where "p = (ptable s ! i)\<lparr>p_kstack := 0, p_state := UNUSED, p_pid := 0, p_parent := None,
      p_name := (p_name (ptable s ! i))[0 := 0], p_killed := False\<rparr>"
    have s': "cpus s' = cpus s" "held s' = {}" "initproc s' = initproc s" "ptable s' = (ptable s)[i := p]"
      using i(1) h by (simp_all add: t(3) f1 f2 p_def)
    have ok: "proc_ok (ptable s ! i)" using assms(1) i(1) by (simp add: proc_inv_def)
    show ?thesis
      by (rule stay_upd [OF assms(1) s' i(1)]) (use i parents_okD(2) [OF h(3), of i] ok in \<open>auto simp: p_def proc_ok_def\<close>)
  qed
qed

lemma step_abandon:
  assumes "proc_inv s" and "np < NPROC" and "p_state (ptable s ! np) = EMBRYO"
    and "kfree (p_kstack (ptable s ! np)) (on_cpu c s) = Ret () t"
  shows "step_ok s (upd_proc np (\<lambda>p. p\<lparr>p_pgdir := 0, p_kstack := 0, p_state := UNUSED\<rparr>) t)"
proof -
  have h: "held s = {}" "parents_ok (initproc s) (ptable s)" "proc_ok (ptable s ! np)"
    using assms(1,2) by (auto simp: proc_inv_def)
  note f = kframe_sel [OF presD [OF kfree_pres assms(4)]]
  show ?thesis
    using h f assms(2,3) parents_okD [OF h(2)]
    by (intro stay_upd [OF assms(1), where i = np and
          p = "(ptable s ! np)\<lparr>p_pgdir := 0, p_kstack := 0, p_state := UNUSED\<rparr>"]) (auto simp: proc_ok_def)
qed

lemma allocproc_stack_effect:
  assumes "allocproc_stack i s = Ret r s'" and "i < length (ptable s)"
  shows "held s' = held s \<and> cpus s' = cpus s \<and> initproc s' = initproc s \<and>
    (\<exists>p. ptable s' = (ptable s)[i := p] \<and> p_parent p = p_parent (ptable s ! i) \<and>
      p_killed p = p_killed (ptable s ! i) \<and> p_chan p = p_chan (ptable s ! i) \<and> p_pid p = p_pid (ptable s ! i) \<and>
      (r = None \<and> p_state p = UNUSED \<or> r = Some i \<and> p_state p = p_state (ptable s ! i)))"
proof -
  obtain ks t where t: "kalloc s = Ret ks t"
    using assms(1) by (auto simp: allocproc_stack_def bindk_Ret_iff)
  note f = kframe_sel [OF presD [OF kalloc_pres t]]
  let ?q = "ptable s ! i"
  show ?thesis
  proof (cases "ks = 0")
    case True
    have s': "s' = upd_proc i (\<lambda>q. q\<lparr>p_state := UNUSED\<rparr>) (upd_proc i (\<lambda>q. q\<lparr>p_kstack := 0\<rparr>) t)" "r = None"
      using assms(1) t unfolding allocproc_stack_def by (simp_all add: True)
    then have "ptable s' = (ptable s)[i := ?q\<lparr>p_kstack := 0, p_state := UNUSED\<rparr>]"
      using f assms(2) by simp
    then show ?thesis
      using f s' by (intro conjI exI [of _ "?q\<lparr>p_kstack := 0, p_state := UNUSED\<rparr>"]) simp_all
  next
    case False
    define tf where "tf = ks + KSTACKSIZE - 76"
    let ?p = "?q\<lparr>p_kstack := ks, p_tf := tf, p_context := tf - 4 - 20\<rparr>"
    have "\<exists>m. s' = (upd_proc i (\<lambda>q. q\<lparr>p_context := tf - 4 - 20\<rparr>) (upd_proc i (\<lambda>q. q\<lparr>p_tf := tf\<rparr>)
        (upd_proc i (\<lambda>q. q\<lparr>p_kstack := ks\<rparr>) t)))\<lparr>mem := m\<rparr>" "r = Some i"
      using assms(1) t False unfolding allocproc_stack_def tf_def [symmetric]
      by (simp_all add: Let_def upd_proc_def tf_def [symmetric]) blast
    then obtain m where s': "s' = (upd_proc i (\<lambda>q. q\<lparr>p_context := tf - 4 - 20\<rparr>) (upd_proc i (\<lambda>q. q\<lparr>p_tf := tf\<rparr>)
        (upd_proc i (\<lambda>q. q\<lparr>p_kstack := ks\<rparr>) t)))\<lparr>mem := m\<rparr>" "r = Some i"
      by blast
    then have "ptable s' = (ptable s)[i := ?p]"
      using f assms(2) by simp
    then show ?thesis
      using f s' by (intro conjI exI [of _ ?p]) simp_all
  qed
qed

lemma allocproc_effect:
  assumes "allocproc s = Ret r s'" and "held s = {}" and "length (ptable s) = NPROC"
  shows "held s' = {} \<and> cpus s' = cpus s \<and> initproc s' = initproc s \<and>
    (r = None \<and> ptable s' = ptable s \<and> (\<forall>i < NPROC. p_state (ptable s ! i) \<noteq> UNUSED) \<or>
     (\<exists>i p. i < NPROC \<and> p_state (ptable s ! i) = UNUSED \<and> (\<forall>j < i. p_state (ptable s ! j) \<noteq> UNUSED) \<and>
       ptable s' = (ptable s)[i := p] \<and> p_parent p = p_parent (ptable s ! i) \<and> p_killed p = p_killed (ptable s ! i) \<and> p_chan p = p_chan (ptable s ! i) \<and> p_pid p = nextpid s \<and>
       (r = None \<and> p_state p = UNUSED \<or> r = Some i \<and> p_state p = EMBRYO)))"
proof (cases "find (\<lambda>i. p_state (ptable s ! i) = UNUSED) [0..<NPROC]")
  case None
  moreover from this have "\<forall>i < NPROC. p_state (ptable s ! i) \<noteq> UNUSED" by (simp add: find_upt_None)
  ultimately show ?thesis
    using assms(1,2) by (auto simp: allocproc_def)
next
  case (Some i)
  then have i: "i < NPROC" "p_state (ptable s ! i) = UNUSED" "\<forall>j < i. p_state (ptable s ! j) \<noteq> UNUSED"
    by (auto simp: find_upt_Some)
  define u where "u = ((upd_proc i (\<lambda>q. q\<lparr>p_state := EMBRYO, p_pid := nextpid s\<rparr>) s)
    \<lparr>nextpid := nextpid s + 1, held := {}\<rparr>)"
  have "allocproc_stack i u = Ret r s'"
    using assms(1,2) Some by (simp add: allocproc_def u_def upd_proc_def)
  moreover have "i < length (ptable u)" using i assms(3) by (simp add: u_def)
  ultimately have "held s' = held u \<and> cpus s' = cpus u \<and> initproc s' = initproc u \<and>
    (\<exists>p. ptable s' = (ptable u)[i := p] \<and> p_parent p = p_parent (ptable u ! i) \<and>
      p_killed p = p_killed (ptable u ! i) \<and> p_chan p = p_chan (ptable u ! i) \<and> p_pid p = p_pid (ptable u ! i) \<and>
      (r = None \<and> p_state p = UNUSED \<or> r = Some i \<and> p_state p = p_state (ptable u ! i)))"
    by (rule allocproc_stack_effect)
  then show ?thesis
    using i assms(3) by (auto simp: u_def intro!: exI [of _ i])
qed

lemma step_alloc:
  assumes "proc_inv s" and "allocproc (on_cpu c s) = Ret r s'"
  shows "step_ok s s'"
proof -
  have h: "held s = {}" "length (ptable s) = NPROC" "parents_ok (initproc s) (ptable s)"
    using assms(1) by (auto simp: proc_inv_def)
  from allocproc_effect [OF assms(2)] h(1,2)
  consider "held s' = {}" "cpus s' = cpus s" "initproc s' = initproc s" "ptable s' = ptable s"
    | i p where "held s' = {}" "cpus s' = cpus s" "initproc s' = initproc s" "i < NPROC"
      "p_state (ptable s ! i) = UNUSED" "ptable s' = (ptable s)[i := p]"
      "p_parent p = p_parent (ptable s ! i)" "p_state p \<in> {UNUSED, EMBRYO}" "p_chan p = p_chan (ptable s ! i)"
    by auto
  then show ?thesis
  proof cases
    case 1
    then show ?thesis using h by (intro stay_woken [OF assms(1)]) auto
  next
    case 2
    have "proc_ok (ptable s ! i)" using assms(1) 2(4) by (simp add: proc_inv_def)
    then have "proc_ok p" using 2(5,8,9) by (auto simp: proc_ok_def)
    then show ?thesis
      by (intro stay_upd [OF assms(1) 2(2,1,3,6,4)])
        (use 2 parents_okD [OF h(3), of i] in auto)
  qed
qed

text \<open>The loop of \<open>exit\<close> changes parents from the exiting process to the first one, wakes
  the first one when it inherits a zombie, and changes nothing else.\<close>

definition adopted :: "nat \<Rightarrow> nat option \<Rightarrow> proc list \<Rightarrow> proc list \<Rightarrow> bool" where
  "adopted me ip pt pt' \<longleftrightarrow> length pt' = NPROC \<and> no_lost_wakeup pt' \<and>
    (\<forall>i < NPROC. p_chan (pt' ! i) = p_chan (pt ! i) \<and> p_pgdir (pt' ! i) = p_pgdir (pt ! i) \<and>
      (p_state (pt' ! i) = p_state (pt ! i) \<or> p_state (pt ! i) = SLEEPING \<and> p_state (pt' ! i) = RUNNABLE) \<and>
      (p_parent (pt' ! i) = p_parent (pt ! i) \<or> p_parent (pt ! i) = Some me \<and> p_parent (pt' ! i) = ip))"

lemma no_lost_wakeup_adopt:
  assumes "no_lost_wakeup pt" and "length pt = NPROC" and "i < NPROC"
  shows "p_state (pt ! i) \<noteq> ZOMBIE \<Longrightarrow> no_lost_wakeup (pt[i := (pt ! i)\<lparr>p_parent := ip\<rparr>])"
    and "no_lost_wakeup (map (wakes (map_option ChanProc ip)) (pt[i := (pt ! i)\<lparr>p_parent := ip\<rparr>]))"
proof -
  have old: "p_state (pt ! j) \<noteq> ZOMBIE"
    if "q < NPROC" "j < NPROC" "p_state (pt ! q) = SLEEPING" "p_chan (pt ! q) = Some (ChanProc r)"
      "p_parent (pt ! j) = Some r" for q j r
    using assms(1) that unfolding no_lost_wakeup_def by blast
  show "no_lost_wakeup (pt[i := (pt ! i)\<lparr>p_parent := ip\<rparr>])" if "p_state (pt ! i) \<noteq> ZOMBIE"
    using that assms(2,3) old unfolding no_lost_wakeup_def by (auto simp: nth_list_update)
  show "no_lost_wakeup (map (wakes (map_option ChanProc ip)) (pt[i := (pt ! i)\<lparr>p_parent := ip\<rparr>]))"
    unfolding no_lost_wakeup_def
  proof (intro allI impI)
    fix q j r
    let ?w = "wakes (map_option ChanProc ip)" and ?pt = "pt[i := (pt ! i)\<lparr>p_parent := ip\<rparr>]"
    assume *: "q < NPROC" "j < NPROC" "p_state (map ?w ?pt ! q) = SLEEPING \<and>
      p_chan (map ?w ?pt ! q) = Some (ChanProc r) \<and> p_parent (map ?w ?pt ! j) = Some r"
    have q: "p_state (pt ! q) = SLEEPING" "p_chan (pt ! q) = Some (ChanProc r)" "ip \<noteq> Some r"
      using * assms(2,3) by (auto simp: wakes_def nth_list_update split: if_splits)
    then have "p_parent (pt ! j) = Some r" "p_state (map ?w ?pt ! j) = ZOMBIE \<longrightarrow> p_state (pt ! j) = ZOMBIE"
      using * assms(2,3) by (auto simp: wakes_def nth_list_update split: if_splits)
    then show "p_state (map ?w ?pt ! j) \<noteq> ZOMBIE"
      using old [OF *(1,2) q(1,2)] by blast
  qed
qed

lemma reparent_spec:
  assumes "length (ptable s) = NPROC" and "no_lost_wakeup (ptable s)"
  shows "wp (reparent me) (\<lambda>_ t. adopted me (initproc s) (ptable s) (ptable t) \<and>
    held t = held s \<and> cpus t = cpus s \<and> mycpu t = mycpu s \<and> initproc t = initproc s) s"
  unfolding reparent_def
proof (rule wp_foreach [where I = "\<lambda>xs t. adopted me (initproc s) (ptable s) (ptable t) \<and>
    held t = held s \<and> cpus t = cpus s \<and> mycpu t = mycpu s \<and> initproc t = initproc s"], goal_cases)
  case 1
  show ?case using assms by (simp add: adopted_def)
next
  case (2 i ys t)
  have i: "i < NPROC" using set_mono_suffix [OF 2(1)] by auto
  have t: "adopted me (initproc s) (ptable s) (ptable t)" "initproc t = initproc s" using 2(2) by auto
  then have len: "length (ptable t) = NPROC" and nl: "no_lost_wakeup (ptable t)" by (auto simp: adopted_def)
  note adopt = no_lost_wakeup_adopt [OF nl len i, of "initproc s"]
  show ?case
  proof (cases "p_parent (ptable t ! i) = Some me")
    case False
    then show ?thesis using 2(2) by (simp add: wp_def)
  next
    case par: True
    let ?pt = "(ptable t)[i := (ptable t ! i)\<lparr>p_parent := initproc s\<rparr>]"
    let ?pt' = "if p_state (ptable t ! i) = ZOMBIE then map (wakes (map_option ChanProc (initproc s))) ?pt else ?pt"
    have "adopted me (initproc s) (ptable s) ?pt'"
      unfolding adopted_def
    proof (intro conjI allI impI)
      show "length ?pt' = NPROC" using len by simp
      show "no_lost_wakeup ?pt'" using adopt by simp
      fix j assume j: "j < NPROC"
      have nth: "?pt' ! j = (if p_state (ptable t ! i) = ZOMBIE then wakes (map_option ChanProc (initproc s)) else id)
          (if j = i then (ptable t ! i)\<lparr>p_parent := initproc s\<rparr> else ptable t ! j)"
        using i j len by (simp add: nth_list_update)
      have old: "p_chan (ptable t ! j) = p_chan (ptable s ! j) \<and> p_pgdir (ptable t ! j) = p_pgdir (ptable s ! j)"
        "p_state (ptable t ! j) = p_state (ptable s ! j) \<or>
         p_state (ptable s ! j) = SLEEPING \<and> p_state (ptable t ! j) = RUNNABLE"
        "p_parent (ptable t ! j) = p_parent (ptable s ! j) \<or>
         p_parent (ptable s ! j) = Some me \<and> p_parent (ptable t ! j) = initproc s"
        using t(1) j by (auto simp: adopted_def)
      show "p_chan (?pt' ! j) = p_chan (ptable s ! j)" "p_pgdir (?pt' ! j) = p_pgdir (ptable s ! j)"
        unfolding nth using old(1) by (auto simp: wakes_def)
      show "p_state (?pt' ! j) = p_state (ptable s ! j) \<or>
         p_state (ptable s ! j) = SLEEPING \<and> p_state (?pt' ! j) = RUNNABLE"
        unfolding nth using old(2) by (auto simp: wakes_def)
      show "p_parent (?pt' ! j) = p_parent (ptable s ! j) \<or>
         p_parent (ptable s ! j) = Some me \<and> p_parent (?pt' ! j) = initproc s"
        unfolding nth using old(3) par by (auto simp: wakes_def)
    qed
    then show ?thesis
      using par 2(2) by (simp add: wp_def wakeup1_def split: if_splits)
  qed
next
  case (3 t)
  then show ?case by simp
qed

lemma step_exiting:
  fixes s :: "'z proc_state_scheme"
  assumes "proc_inv s" and c: "c < length (cpus s)" and ip: "c_proc (cpus s ! c) \<noteq> initproc s"
    and ex: "(exit_tail :: (unit, 'z proc_state_scheme) kernel) (on_cpu c s) = Block t"
    and off: "off_cpu t = Ret () s'"
  shows "step_ok s s'"
proof -
  have h: "held s = {}" "length (ptable s) = NPROC" "no_lost_wakeup (ptable s)" "parents_ok (initproc s) (ptable s)"
    using assms(1) by (auto simp: proc_inv_def)
  obtain me where me: "c_proc (cpus s ! c) = Some me"
    using ex by (auto simp: exit_tail_def bindk_def myproc_def split: option.splits)
  note me' = upd_me [OF assms(1) c me]
  define ch where "ch = map_option ChanProc (p_parent (ptable s ! me))"
  define u1 where "u1 = (on_cpu c s)\<lparr>held := {LkPtable}, ptable := map (wakes ch) (ptable s)\<rparr>"
  have pt1: "ptable u1 ! i = wakes ch (ptable s ! i)" if "i < NPROC" for i
    using that h(2) by (simp add: u1_def)
  have w1: "woken (ptable s ! i) (ptable u1 ! i)" if "i < NPROC" for i
    using pt1 [OF that] by simp
  have nl1: "no_lost_wakeup (ptable u1)" and par1: "parents_ok (initproc s) (ptable u1)"
    using no_lost_wakeup_woken [OF h(3) w1] parents_ok_woken [OF h(4) w1] by auto
  have "wp (reparent me) (\<lambda>_ t. adopted me (initproc u1) (ptable u1) (ptable t) \<and>
      held t = held u1 \<and> cpus t = cpus u1 \<and> mycpu t = mycpu u1 \<and> initproc t = initproc u1) u1"
    using h(2) nl1 by (intro reparent_spec) (auto simp: u1_def)
  then obtain u2 where u2: "reparent me u1 = Ret () u2" "adopted me (initproc s) (ptable u1) (ptable u2)"
      "held u2 = {LkPtable}" "cpus u2 = cpus s" "mycpu u2 = c" "initproc u2 = initproc s"
    by (auto elim!: wpE simp: u1_def)
  have t: "t = upd_proc me (\<lambda>p. p\<lparr>p_state := ZOMBIE\<rparr>) u2"
    using ex me h(1) u2(1)
    by (simp add: exit_tail_def myproc_def wakeup1_def ch_def [symmetric] u1_def sched_Block)
  have len2: "length (ptable u2) = NPROC" and nl2: "no_lost_wakeup (ptable u2)"
    using u2(2) by (auto simp: adopted_def)
  have f2: "p_chan (ptable u2 ! i) = p_chan (ptable u1 ! i) \<and> p_pgdir (ptable u2 ! i) = p_pgdir (ptable u1 ! i)"
      "p_state (ptable u2 ! i) = p_state (ptable u1 ! i) \<or>
       p_state (ptable u1 ! i) = SLEEPING \<and> p_state (ptable u2 ! i) = RUNNABLE"
      "p_parent (ptable u2 ! i) = p_parent (ptable u1 ! i) \<or>
       p_parent (ptable u1 ! i) = Some me \<and> p_parent (ptable u2 ! i) = initproc s" if "i < NPROC" for i
    using u2(2) that by (auto simp: adopted_def)
  have par2: "parents_ok (initproc s) (ptable u2)"
    unfolding parents_ok_def
  proof (intro conjI allI impI)
    show "p_parent (ptable u2 ! i) \<noteq> Some i" if "i < NPROC" for i
      using f2(3) [OF that] parents_okD(1) [OF par1 that] parents_okD(2) [OF par1, of i] by auto
    fix i assume "initproc s = Some i"
    note i = parents_okD(2) [OF par1 this]
    show "i < NPROC" using i by simp
    show "p_parent (ptable u2 ! i) = None" "p_state (ptable u2 ! i) \<notin> {UNUSED, EMBRYO, ZOMBIE}"
      using f2(2,3) [of i] i by auto
  qed
  have nlt: "no_lost_wakeup (ptable t)"
  proof -
    have par_me: "p_parent (ptable u2 ! me) = p_parent (ptable s ! me)"
      using f2(3) [OF me'(1)] parents_okD(1) [OF par1 me'(1)] wokenD(1) [OF w1 [OF me'(1)]] by auto
    have "q = me" if "q < NPROC" "p_state (ptable u2 ! q) = SLEEPING" "p_parent (ptable u2 ! me) = Some r"
        "p_chan (ptable u2 ! q) = Some (ChanProc r)" for q r
    proof -
      have "ch = Some (ChanProc r)" using that(3) par_me by (simp add: ch_def)
      then show ?thesis
        using that f2(1,2) [OF that(1)] wakes_sleeping [of ch "ptable s ! q"] pt1 [OF that(1)] by simp
    qed
    then show ?thesis
      unfolding t upd_proc_sel by (intro no_lost_wakeup_upd nl2 len2 me'(1)) auto
  qed
  have part: "parents_ok (initproc t) (ptable t)"
    unfolding t upd_proc_sel u2(6) using ip me parents_okD(1) [OF par2 me'(1)]
    by (intro parents_ok_upd par2 len2 me'(1)) auto
  have "proc_ok (ptable u2 ! i)" if "i < NPROC" for i
  proof -
    have "proc_ok (ptable u1 ! i)" using assms(1) that proc_ok_woken [OF _ w1 [OF that]] by (simp add: proc_inv_def)
    then show ?thesis using f2(1,2) [OF that] by (auto simp: proc_ok_def split: procstate.splits)
  qed
  moreover have "proc_ok ((ptable u2 ! me)\<lparr>p_state := ZOMBIE\<rparr>)"
    using f2(1) [OF me'(1)] wokenD(2) [OF w1 [OF me'(1)]] me'(3) by (simp add: proc_ok_def)
  ultimately have okt: "\<forall>i < NPROC. proc_ok (ptable t ! i)"
    unfolding t upd_proc_sel by (intro proc_ok_upd len2) simp_all
  have keep: "keeps_runnable (ptable s) (ptable t)"
    unfolding keeps_runnable_def
  proof (intro allI impI)
    fix i assume i: "i < NPROC" "p_state (ptable s ! i) = RUNNABLE"
    have "i \<noteq> me" using i(2) me'(2) by auto
    then show "p_state (ptable t ! i) \<in> {RUNNABLE, RUNNING}"
      using i w1 [OF i(1)] f2(2) [OF i(1)] by (auto simp: t woken_def)
  qed
  show ?thesis
  proof (rule leave_step [OF assms(1) c me off _ _ _ _ _ _ _ nlt part okt keep])
    show "p_state (ptable t ! p) = RUNNING \<longleftrightarrow> p_state (ptable s ! p) = RUNNING" if "p < NPROC" "p \<noteq> me" for p
      using f2(2) [OF that(1)] wokenD(3) [OF w1 [OF that(1)]] that(2) by (auto simp: t)
  qed (use t u2 len2 me'(1) in auto)
qed

text \<open>All steps keep the invariant.\<close>

lemma proc_step_ok: "proc_step s s' \<Longrightarrow> proc_inv s \<Longrightarrow> step_ok s s'"
proof (induction rule: proc_step.induct)
  case (dispatch c s p b s')
  show ?case by (rule step_dispatch [OF dispatch(6,1) _ dispatch(3,4,5)]) (use dispatch(2) in simp)
next
  case (resume c s p lk b s')
  show ?case by (rule step_resume [OF resume(6,1) _ resume(3,5)]) (use resume(2) in simp)
next
  case (yield c s t s')
  show ?case by (rule step_yield [OF yield(4,1,2,3)])
next
  case (sleep c s ch lk t s')
  show ?case by (rule step_sleep [OF sleep(5,1,2,3,4)])
next
  case (wait_sleep c s t s')
  show ?case by (rule step_wait_sleep [OF wait_sleep(4,1,2,3)])
next
  case (wait_reap c s n s')
  show ?case by (rule step_wait_reap [OF wait_reap(3,1,2)])
next
  case (exiting c s t s')
  show ?case by (rule step_exiting [OF exiting(5,1) _ exiting(3,4)]) (use exiting(2) in simp)
next
  case (wakeup c s ch s')
  show ?case by (rule step_wakeup [OF wakeup(3,2)])
next
  case (kill c s n r s')
  show ?case by (rule step_kill [OF kill(3,2)])
next
  case (alloc c s r s')
  show ?case by (rule step_alloc [OF alloc(3,2)])
next
  case (start c s me np d)
  show ?case by (rule step_start [OF start(6,1) _ start(3,4,5)]) (use start(2) in simp)
next
  case (abandon c s me np t)
  show ?case by (rule step_abandon [OF abandon(6,3,4,5)])
qed

lemma proc_steps_inv: "proc_step\<^sup>*\<^sup>* s s' \<Longrightarrow> proc_inv s \<Longrightarrow> proc_inv s'"
  by (induction rule: rtranclp_induct) (auto dest: proc_step_ok simp: step_ok_def)

section \<open>Properties of the process table\<close>

text \<open>The machine when \<open>userinit\<close> has run and the CPUs enter their schedulers: the first
  process is runnable and has a page table, the other slots are unused, nobody sleeps on a
  channel, no CPU runs a process.\<close>

definition proc_boot :: "'z proc_state_scheme \<Rightarrow> bool" where
  "proc_boot s \<longleftrightarrow> held s = {} \<and> length (ptable s) = NPROC \<and> (\<forall>c \<in> set (cpus s). c_proc c = None) \<and>
    (\<exists>ip < NPROC. initproc s = Some ip \<and> p_state (ptable s ! ip) = RUNNABLE \<and> p_pgdir (ptable s ! ip) \<noteq> 0 \<and>
      (\<forall>i < NPROC. p_parent (ptable s ! i) = None \<and> p_chan (ptable s ! i) = None \<and> (i \<noteq> ip \<longrightarrow> p_state (ptable s ! i) = UNUSED)))"

lemma proc_boot_inv:
  assumes "proc_boot s"
  shows "proc_inv s"
proof -
  obtain ip where ip: "ip < NPROC" "initproc s = Some ip" "p_state (ptable s ! ip) = RUNNABLE" "p_pgdir (ptable s ! ip) \<noteq> 0"
    and st: "\<And>i. i < NPROC \<Longrightarrow> p_state (ptable s ! i) = (if i = ip then RUNNABLE else UNUSED)"
      "\<And>i. i < NPROC \<Longrightarrow> p_parent (ptable s ! i) = None" "\<And>i. i < NPROC \<Longrightarrow> p_chan (ptable s ! i) = None"
    using assms by (auto simp: proc_boot_def)
  have "running_inv s"
    using assms st(1) by (auto simp: running_inv_def proc_boot_def dest: nth_mem split: if_splits)
  moreover have "no_lost_wakeup (ptable s)"
    using st by (simp add: no_lost_wakeup_def)
  moreover have "parents_ok (initproc s) (ptable s)"
    using st ip by (auto simp: parents_ok_def)
  moreover have "proc_ok (ptable s ! i)" if "i < NPROC" for i
    using st [OF that] ip(4) by (auto simp: proc_ok_def split: if_splits)
  ultimately show ?thesis using assms by (simp add: proc_inv_def proc_boot_def)
qed

text \<open>A runnable process can be given to any idle CPU, and a process that yields becomes runnable.\<close>

lemma runnable_can_run:
  assumes "proc_inv s" and "c < length (cpus s)" and "c_proc (cpus s ! c) = None" and "p < NPROC" and "p_state (ptable s ! p) = RUNNABLE"
  shows "\<exists>t. proc_step s t \<and> c_proc (cpus t ! c) = Some p \<and> p_state (ptable t ! p) = RUNNING"
proof -
  have len: "length (ptable s) = NPROC" using assms(1) by (simp add: proc_inv_def)
  note run = dispatch_run [OF assms(1,2,4,5)]
  show ?thesis
  proof (cases "p_chan (ptable s ! p) = None")
    case True
    obtain x t where "c_proc x = Some p" "t = upd_proc p (\<lambda>q. q\<lparr>p_state := RUNNING\<rparr>) ((on_cpu c s)\<lparr>cpus := (cpus s)[c := x]\<rparr>)"
        and r: "thenk (acquire LkPtable) (bindk (scheduler_pick p) (\<lambda>b. thenk yield_resume (ret b))) (on_cpu c s) = Ret True t"
      using run(1) by blast
    then have "c_proc (cpus t ! c) = Some p \<and> p_state (ptable t ! p) = RUNNING"
      using assms(2,4) len by simp
    then show ?thesis
      using proc_step.dispatch [OF assms(2) _ assms(4) True r] assms(3) by auto
  next
    case False
    obtain x t where "c_proc x = Some p"
        "t = upd_proc p (\<lambda>q. q\<lparr>p_state := RUNNING, p_chan := None\<rparr>) ((on_cpu c s)\<lparr>cpus := (cpus s)[c := x]\<rparr>)"
        and r: "thenk (acquire LkPtable) (bindk (scheduler_pick p) (\<lambda>b.
          thenk (if b then thenk (sleep_resume LkPtable) (release LkPtable) else release LkPtable) (ret b))) (on_cpu c s) = Ret True t"
      using run(2) [of LkPtable] by blast
    then have "c_proc (cpus t ! c) = Some p \<and> p_state (ptable t ! p) = RUNNING"
      using assms(2,4) len by simp
    then show ?thesis
      using proc_step.resume [OF assms(2) _ assms(4) False r] assms(3) by auto
  qed
qed

lemma yield_run:
  fixes s :: "'z proc_state_scheme"
  assumes "proc_inv s" and "c < length (cpus s)" and "c_proc (cpus s ! c) = Some p"
  shows "\<exists>t u. (yield :: (unit, 'z proc_state_scheme) kernel) (on_cpu c s) = Block t \<and> off_cpu t = Ret () u \<and> p_state (ptable u ! p) = RUNNABLE"
proof -
  have h: "held s = {}" "length (ptable s) = NPROC" using assms(1) by (auto simp: proc_inv_def)
  let ?t = "upd_proc p (\<lambda>q. q\<lparr>p_state := RUNNABLE\<rparr>) ((on_cpu c s)\<lparr>held := {LkPtable}\<rparr>)"
  have "(yield :: (unit, 'z proc_state_scheme) kernel) (on_cpu c s) = Block ?t"
    using assms(2,3) h upd_me(1) [OF assms] by (simp add: yield_def myproc_def sched_Block thenk_def bindk_def acquire_def)
  moreover have "\<exists>u. off_cpu ?t = Ret () u \<and> ptable u = ptable ?t"
    by (simp add: off_cpu_def scheduler_back_def switchkvm_def thenk_def bindk_def release_def)
  ultimately show ?thesis using h upd_me(1) [OF assms] by auto
qed

text \<open>C8. Through every interleaving of the CPUs' schedulers and of the processes' calls
  (yield, sleep, wait, exit, wakeup, kill, allocation, fork and its failure): a CPU's \<open>proc\<close> is
  a process in state \<open>RUNNING\<close>, no two CPUs run the same process, and every \<open>RUNNING\<close> process is
  on a CPU. No runnable process is lost: whatever step comes next it stays \<open>RUNNABLE\<close> or becomes
  \<open>RUNNING\<close>, and on any idle CPU the scheduler's next step can run it; a running process that
  yields comes off its CPU \<open>RUNNABLE\<close>, and one that sleeps has a channel to be woken on. A process
  asleep in \<open>wait\<close> has no zombie child, so the wakeup that \<open>exit\<close> sends is never lost, also when
  an orphan is passed on to the first process.\<close>

theorem scheduling_safe:
  fixes s s' :: "'z proc_state_scheme"
  assumes "proc_boot s" and "proc_step\<^sup>*\<^sup>* s s'"
  shows "(\<forall>c < length (cpus s'). \<forall>d < length (cpus s'). \<forall>p. c_proc (cpus s' ! c) = Some p \<longrightarrow>
      p_state (ptable s' ! p) = RUNNING \<and> (c_proc (cpus s' ! d) = Some p \<longrightarrow> c = d)) \<and>
    (\<forall>p < NPROC. p_state (ptable s' ! p) = RUNNING \<longrightarrow> (\<exists>c < length (cpus s'). c_proc (cpus s' ! c) = Some p)) \<and>
    (\<forall>t. proc_step s' t \<longrightarrow>
      (\<forall>p < NPROC. p_state (ptable s' ! p) = RUNNABLE \<longrightarrow> p_state (ptable t ! p) \<in> {RUNNABLE, RUNNING})) \<and>
    (\<forall>c < length (cpus s'). \<forall>p < NPROC. c_proc (cpus s' ! c) = None \<and> p_state (ptable s' ! p) = RUNNABLE \<longrightarrow>
      (\<exists>t. proc_step s' t \<and> c_proc (cpus t ! c) = Some p \<and> p_state (ptable t ! p) = RUNNING)) \<and>
    (\<forall>c < length (cpus s'). \<forall>p. c_proc (cpus s' ! c) = Some p \<longrightarrow>
      (\<exists>t u. (yield :: (unit, 'z proc_state_scheme) kernel) (on_cpu c s') = Block t \<and> off_cpu t = Ret () u \<and>
        p_state (ptable u ! p) = RUNNABLE)) \<and>
    (\<forall>p < NPROC. p_state (ptable s' ! p) = SLEEPING \<longrightarrow> p_chan (ptable s' ! p) \<noteq> None) \<and>
    (\<forall>p < NPROC. \<forall>i < NPROC. p_state (ptable s' ! p) = SLEEPING \<and> p_chan (ptable s' ! p) = Some (ChanProc p) \<and>
      p_parent (ptable s' ! i) = Some p \<longrightarrow> p_state (ptable s' ! i) \<noteq> ZOMBIE)"
proof -
  have inv: "proc_inv s'" using proc_steps_inv [OF assms(2) proc_boot_inv [OF assms(1)]] .
  then have h: "running_inv s'" "no_lost_wakeup (ptable s')" "\<forall>i < NPROC. proc_ok (ptable s' ! i)" by (auto simp: proc_inv_def)
  have "p_state (ptable t ! p) \<in> {RUNNABLE, RUNNING}"
    if "proc_step s' t" "p < NPROC" "p_state (ptable s' ! p) = RUNNABLE" for t p
    using proc_step_ok [OF that(1) inv] that(2,3) by (simp add: step_ok_def keeps_runnable_def)
  moreover have "p_chan (ptable s' ! p) \<noteq> None" if "p < NPROC" "p_state (ptable s' ! p) = SLEEPING" for p
    using h(3) that by (auto simp: proc_ok_def)
  ultimately show ?thesis
    using running_invD [OF h(1)] h(2) runnable_can_run [OF inv] yield_run [OF inv] unfolding no_lost_wakeup_def
    by (intro conjI) blast+
qed

definition proc0 :: proc where
  "proc0 = \<lparr>p_sz = 0, p_pgdir = 0, p_kstack = 0, p_state = UNUSED, p_pid = 0, p_parent = None, p_tf = 0,
    p_context = 0, p_chan = None, p_killed = False, p_ofile = replicate NOFILE None, p_cwd = None,
    p_name = replicate 16 0\<rparr>"

definition boot_table :: "proc list" where
  "boot_table = proc0\<lparr>p_state := RUNNABLE, p_pgdir := 0x80400000, p_pid := 1\<rparr> # replicate 63 proc0"

definition boot_state :: proc_state where
  "boot_state = \<lparr>held = {}, mem = \<lambda>_. 0, freelist = 0, use_lock = True, kend = 0x80110000,
    ptable = boot_table, nextpid = 2, initproc = Some 0,
    cpus = [\<lparr>c_proc = None, c_esp0 = 0, c_cr3 = 0\<rparr>], mycpu = 0, kpgdir = 0x80401000,
    trapret = 0x80105000, forkret_addr = 0x80104000, kdata = 0x8010a000\<rparr>"

theorem scheduling_safe_witness:
  "proc_boot boot_state \<and> (\<exists>s' s''. proc_step boot_state s' \<and> c_proc (cpus s' ! 0) = Some 0 \<and> p_state (ptable s' ! 0) = RUNNING \<and>
    proc_step s' s'' \<and> p_state (ptable s'' ! 0) = RUNNABLE)"
proof -
  have boot: "proc_boot boot_state"
    by (auto simp: proc_boot_def boot_state_def boot_table_def proc0_def nth_Cons' intro!: exI [of _ 0])
  have b: "length (cpus boot_state) = 1" "c_proc (cpus boot_state ! 0) = None" "p_state (ptable boot_state ! 0) = RUNNABLE"
      "p_chan (ptable boot_state ! 0) = None"
    by (simp_all add: boot_state_def boot_table_def proc0_def)
  obtain x s' where s': "c_proc x = Some 0" "thenk (acquire LkPtable) (bindk (scheduler_pick 0) (\<lambda>b. thenk yield_resume (ret b))) (on_cpu 0 boot_state) = Ret True s'"
      "cpus s' = (cpus boot_state)[0 := x]"
    using dispatch_run(1) [OF proc_boot_inv [OF boot], of 0 0] b by auto
  then have step: "proc_step boot_state s'"
    using b by (intro proc_step.dispatch [where c = 0 and p = 0 and b = True]) simp_all
  then have "proc_step\<^sup>*\<^sup>* boot_state s'" by simp
  note safe = scheduling_safe [OF boot this]
  have cpu: "0 < length (cpus s')" "c_proc (cpus s' ! 0) = Some 0" using s' b(1) by simp_all
  then have "p_state (ptable s' ! 0) = RUNNING" using safe by blast
  moreover obtain t u where "(yield :: (unit, unit proc_state_scheme) kernel) (on_cpu 0 s') = Block t" "off_cpu t = Ret () u" "p_state (ptable u ! 0) = RUNNABLE"
    using safe cpu by blast
  ultimately show ?thesis using boot step cpu proc_step.yield [OF cpu(1)] by blast
qed

lemma allocproc_succeeds:
  assumes "held s = {}" and "find (\<lambda>i. p_state (ptable s ! i) = UNUSED) [0..<NPROC] = Some i" and "freelist s \<noteq> 0"
  shows "\<exists>t. allocproc s = Ret (Some i) t"
proof -
  define u where "u = ((upd_proc i (\<lambda>q. q\<lparr>p_state := EMBRYO, p_pid := nextpid s\<rparr>) s)
    \<lparr>nextpid := nextpid s + 1, held := {}\<rparr>)"
  have "kalloc u = Ret (freelist s) (u\<lparr>freelist := load32 (freelist s) (mem u)\<rparr>)"
    using assms(3) by (simp add: kalloc_returns kmem_free_def u_def upd_proc_def)
  then have "\<exists>t. allocproc_stack i u = Ret (Some i) t"
    using assms(3) by (simp add: allocproc_stack_def Let_def thenk_def bindk_def)
  moreover have "allocproc s = allocproc_stack i u"
    using assms(1,2) by (simp add: allocproc_def u_def upd_proc_def)
  ultimately show ?thesis by simp
qed

text \<open>C14. \<open>kill(0)\<close> reports success and kills a process that does not exist yet. An unused
  slot has process number 0, \<open>kill\<close> does not look at the state, and \<open>allocproc\<close> does not
  clear \<open>killed\<close>: when there is memory for a kernel stack, the next \<open>allocproc\<close> returns that slot,
  and the new process with the next process number starts out killed.\<close>

theorem kill_zero_kills_next_process:
  assumes "held s = {}" and "length (ptable s) = NPROC" and "i < NPROC"
    and "p_state (ptable s ! i) = UNUSED" and "\<forall>j < i. p_state (ptable s ! j) \<noteq> UNUSED \<and> p_pid (ptable s ! j) \<noteq> 0"
    and "p_pid (ptable s ! i) = 0" and "freelist s \<noteq> 0"
  shows "\<exists>s1 s2. kill 0 s = Ret 0 s1 \<and> allocproc s1 = Ret (Some i) s2 \<and>
    p_state (ptable s2 ! i) = EMBRYO \<and> p_pid (ptable s2 ! i) = nextpid s \<and> p_killed (ptable s2 ! i)"
proof -
  have find: "find (\<lambda>i. p_pid (ptable s ! i) = 0) [0..<NPROC] = Some i"
    using assms by (simp add: find_upt_Some)
  define s1 where "s1 = (upd_proc i (\<lambda>p. p\<lparr>p_killed := True\<rparr>) s)\<lparr>held := {}\<rparr>"
  have kill: "kill 0 s = Ret 0 s1"
    using find assms(1,4) by (simp add: kill_def s1_def upd_proc_def)
  have s1: "held s1 = {}" "length (ptable s1) = NPROC" "nextpid s1 = nextpid s" "freelist s1 \<noteq> 0"
    using assms by (simp_all add: s1_def upd_proc_def)
  have "p_state (ptable s1 ! k) = p_state (ptable s ! k)" for k
    using assms(2,3) by (simp add: s1_def nth_list_update)
  then have "find (\<lambda>i. p_state (ptable s1 ! i) = UNUSED) [0..<NPROC] = Some i"
    using assms(3,4,5) by (simp add: find_upt_Some)
  then obtain s2 where al: "allocproc s1 = Ret (Some i) s2"
    using allocproc_succeeds s1(1,4) by blast
  then obtain p where "ptable s2 = (ptable s1)[i := p]" "p_killed p = p_killed (ptable s1 ! i)" "p_pid p = nextpid s" "p_state p = EMBRYO"
    using allocproc_effect [OF al s1(1,2)] s1(3) by auto
  then show ?thesis using kill al assms(2,3) by (simp add: s1_def)
qed

theorem kill_zero_kills_next_process_witness:
  "\<exists>s1 s2. kill 0 (boot_state\<lparr>freelist := 0x80402000\<rparr>) = Ret 0 s1 \<and> allocproc s1 = Ret (Some 1) s2 \<and>
    p_state (ptable s2 ! 1) = EMBRYO \<and> p_pid (ptable s2 ! 1) = 2 \<and> p_killed (ptable s2 ! 1)"
proof -
  have "nextpid (boot_state\<lparr>freelist := 0x80402000\<rparr>) = 2" by (simp add: boot_state_def)
  moreover have "\<exists>s1 s2. kill 0 (boot_state\<lparr>freelist := 0x80402000\<rparr>) = Ret 0 s1 \<and> allocproc s1 = Ret (Some 1) s2 \<and>
    p_state (ptable s2 ! 1) = EMBRYO \<and> p_pid (ptable s2 ! 1) = nextpid (boot_state\<lparr>freelist := 0x80402000\<rparr>) \<and> p_killed (ptable s2 ! 1)"
    by (rule kill_zero_kills_next_process)
      (simp_all add: boot_state_def boot_table_def proc0_def nth_Cons')
  ultimately show ?thesis by simp
qed

end
