(* ===== verification/Xv6_Bio.thy ===== *)
theory Xv6_Bio
  imports Xv6_Proc
begin

text \<open>
  bio.c, the buffer cache, over memide.c, the disk in memory (the \<open>kernelmemfs\<close> build;
  the interrupt-driven ide.c has its own theory). A buffer pointer is an index into
  \<open>bcache.buf\<close>; the list threaded through \<open>prev\<close> and \<open>next\<close> is the list \<open>mru\<close> of indices
  from \<open>bcache.head.next\<close> on. \<open>writes\<close> records every sector written to the disk, for the crash analysis of the
  log. The lemmas are the contract the layers above use: what a block contains, which
  blocks are busy and which are pinned, and how each operation changes that.
\<close>

section \<open>State\<close>

abbreviation (input) NBUF :: nat where "NBUF \<equiv> 10"
abbreviation (input) BSIZE :: nat where "BSIZE \<equiv> 512"
abbreviation (input) ROOTDEV :: uint where "ROOTDEV \<equiv> 1"

text \<open>The bits of \<open>flags\<close>.\<close>

datatype bflag = B_BUSY | B_VALID | B_DIRTY

record buf =
  b_flags :: "bflag set"
  b_dev :: uint
  b_sector :: uint
  b_data :: "byte list"

record bio_state = proc_state +
  bufs :: "buf list"
  mru :: "nat list"
  disk :: "uint \<Rightarrow> byte list"
  disksize :: uint
  writes :: "(uint \<times> byte list) list"

definition upd_buf :: "nat \<Rightarrow> (buf \<Rightarrow> buf) \<Rightarrow> 'z bio_state_scheme \<Rightarrow> 'z bio_state_scheme" where
  "upd_buf i f s = s\<lparr>bufs := (bufs s)[i := f (bufs s ! i)]\<rparr>"

definition set_flag :: "bflag \<Rightarrow> buf \<Rightarrow> buf" where
  "set_flag fl b = b\<lparr>b_flags := insert fl (b_flags b)\<rparr>"

definition clear_flag :: "bflag \<Rightarrow> buf \<Rightarrow> buf" where
  "clear_flag fl b = b\<lparr>b_flags := b_flags b - {fl}\<rparr>"

section \<open>memide.c\<close>

text \<open>\<open>iderw\<close> copies between the buffer and its sector. \<open>ideintr\<close> does nothing.\<close>

definition iderw :: "nat \<Rightarrow> (unit, 'z bio_state_scheme) kernel" where
  "iderw i = (\<lambda>s. let b = bufs s ! i in
    if B_BUSY \<notin> b_flags b then Panic ''iderw: buf not busy''
    else if B_VALID \<in> b_flags b \<and> B_DIRTY \<notin> b_flags b then Panic ''iderw: nothing to do''
    else if b_dev b \<noteq> 1 then Panic ''iderw: request not for disk 1''
    else if b_sector b \<ge> disksize s then Panic ''iderw: sector out of range''
    else thenk
      (if B_DIRTY \<in> b_flags b then
         thenk (modk (upd_buf i (clear_flag B_DIRTY)))
         (modk (\<lambda>s. s\<lparr>disk := (disk s)(b_sector b := b_data b), writes := writes s @ [(b_sector b, b_data b)]\<rparr>))
       else modk (\<lambda>s. upd_buf i (\<lambda>b. b\<lparr>b_data := disk s (b_sector b)\<rparr>) s))
      (modk (upd_buf i (set_flag B_VALID))) s)"

text \<open>\<open>ideinit\<close>: the image of the disk and its size are the linker's.\<close>

definition ideinit :: "uint \<Rightarrow> (uint \<Rightarrow> byte list) \<Rightarrow> (unit, 'z bio_state_scheme) kernel" where
  "ideinit imgsize img = modk (\<lambda>s. s\<lparr>disk := img, disksize := imgsize div 512\<rparr>)"

definition ideintr :: "(unit, 'z bio_state_scheme) kernel" where
  "ideintr = ret ()"

section \<open>bio.c\<close>

text \<open>Each turn of the loop of \<open>binit\<close> puts the next buffer at the front of the list.\<close>

definition binit :: "(unit, 'z bio_state_scheme) kernel" where
  "binit = thenk (modk (\<lambda>s. s\<lparr>mru := []\<rparr>))
    (foreach [0..<NBUF] (\<lambda>i. thenk (modk (upd_buf i (\<lambda>b. b\<lparr>b_dev := -1\<rparr>)))
      (modk (\<lambda>s. s\<lparr>mru := i # mru s\<rparr>))))"

definition bget :: "uint \<Rightarrow> uint \<Rightarrow> (nat, 'z bio_state_scheme) kernel" where
  "bget dev sector = thenk (acquire LkBcache) (\<lambda>s.
    case find (\<lambda>i. b_dev (bufs s ! i) = dev \<and> b_sector (bufs s ! i) = sector) (mru s) of
      Some i \<Rightarrow>
        if B_BUSY \<notin> b_flags (bufs s ! i) then
          thenk (modk (upd_buf i (set_flag B_BUSY))) (thenk (release LkBcache) (ret i)) s
        else sleep (ChanBuf i) LkBcache s
    | None \<Rightarrow>
        \<comment> \<open>not cached; recycle some non-busy and clean buffer\<close>
        (case find (\<lambda>i. B_BUSY \<notin> b_flags (bufs s ! i) \<and> B_DIRTY \<notin> b_flags (bufs s ! i)) (rev (mru s)) of
          Some i \<Rightarrow>
            thenk (modk (upd_buf i (\<lambda>b. b\<lparr>b_dev := dev, b_sector := sector, b_flags := {B_BUSY}\<rparr>)))
            (thenk (release LkBcache) (ret i)) s
        | None \<Rightarrow> Panic ''bget: no buffers''))"

definition bread :: "uint \<Rightarrow> uint \<Rightarrow> (nat, 'z bio_state_scheme) kernel" where
  "bread dev sector = bindk (bget dev sector) (\<lambda>i s.
    thenk (whenk (B_VALID \<notin> b_flags (bufs s ! i)) (iderw i)) (ret i) s)"

definition bwrite :: "nat \<Rightarrow> (unit, 'z bio_state_scheme) kernel" where
  "bwrite i = (\<lambda>s.
    if B_BUSY \<notin> b_flags (bufs s ! i) then Panic ''bwrite''
    else thenk (modk (upd_buf i (set_flag B_DIRTY))) (iderw i) s)"

definition brelse :: "nat \<Rightarrow> (unit, 'z bio_state_scheme) kernel" where
  "brelse i = (\<lambda>s.
    if B_BUSY \<notin> b_flags (bufs s ! i) then Panic ''brelse''
    else thenk (acquire LkBcache)
      (thenk (modk (\<lambda>s. s\<lparr>mru := i # remove1 i (mru s)\<rparr>))
      (thenk (modk (upd_buf i (clear_flag B_BUSY)))
      (thenk (wakeup (ChanBuf i))
      (release LkBcache)))) s)"

text \<open>A holder of a buffer reads and writes its data in place.\<close>

definition buf_data :: "nat \<Rightarrow> 'z bio_state_scheme \<Rightarrow> byte list" where
  "buf_data i s = b_data (bufs s ! i)"

definition set_data :: "nat \<Rightarrow> (byte list \<Rightarrow> byte list) \<Rightarrow> (unit, 'z bio_state_scheme) kernel" where
  "set_data i f = modk (upd_buf i (\<lambda>b. b\<lparr>b_data := f (b_data b)\<rparr>))"

section \<open>What the cache holds\<close>

text \<open>The slot that caches a block of the root device, the content of a block, the busy
  blocks and the pinned (dirty) ones.\<close>

definition slot :: "'z bio_state_scheme \<Rightarrow> uint \<Rightarrow> nat option" where
  "slot s n = find (\<lambda>i. b_dev (bufs s ! i) = ROOTDEV \<and> b_sector (bufs s ! i) = n) [0..<NBUF]"

definition blk :: "'z bio_state_scheme \<Rightarrow> uint \<Rightarrow> byte list" where
  "blk s n = (case slot s n of
      Some i \<Rightarrow> if B_VALID \<in> b_flags (bufs s ! i) then b_data (bufs s ! i) else disk s n
    | None \<Rightarrow> disk s n)"

definition busy :: "'z bio_state_scheme \<Rightarrow> uint set" where
  "busy s = {b_sector b | b. b \<in> set (bufs s) \<and> B_BUSY \<in> b_flags b}"

definition pinned :: "'z bio_state_scheme \<Rightarrow> uint set" where
  "pinned s = {b_sector b | b. b \<in> set (bufs s) \<and> B_DIRTY \<in> b_flags b}"

text \<open>The invariant of the cache: the list is a permutation of the buffers; a block is
  cached at most once; flags are set only on buffers of the root device; a dirty buffer
  is valid; a valid buffer that is neither busy nor dirty agrees with the disk.\<close>

definition bio_inv :: "'z bio_state_scheme \<Rightarrow> bool" where
  "bio_inv s \<longleftrightarrow> length (bufs s) = NBUF \<and> distinct (mru s) \<and> set (mru s) = {..<NBUF} \<and>
    (\<forall>n. length (disk s n) = BSIZE) \<and>
    (\<forall>i < NBUF. length (b_data (bufs s ! i)) = BSIZE \<and>
      (b_flags (bufs s ! i) \<noteq> {} \<longrightarrow> b_dev (bufs s ! i) = ROOTDEV) \<and>
      (B_DIRTY \<in> b_flags (bufs s ! i) \<longrightarrow> B_VALID \<in> b_flags (bufs s ! i)) \<and>
      (b_flags (bufs s ! i) = {B_VALID} \<longrightarrow> b_data (bufs s ! i) = disk s (b_sector (bufs s ! i)))) \<and>
    (\<forall>i < NBUF. \<forall>j < NBUF. b_dev (bufs s ! i) = ROOTDEV \<and> b_dev (bufs s ! j) = ROOTDEV \<and>
      b_sector (bufs s ! i) = b_sector (bufs s ! j) \<longrightarrow> i = j)"

text \<open>Only the cache, the disk and the states of woken processes change.\<close>

definition bframe :: "'z bio_state_scheme \<Rightarrow> 'z bio_state_scheme \<Rightarrow> bool" where
  "bframe s s' \<longleftrightarrow> s' = s\<lparr>ptable := ptable s', bufs := bufs s', mru := mru s', disk := disk s', writes := writes s'\<rparr>"

interpretation bf: frame bframe
proof
  show "bframe s s" for s :: "'z bio_state_scheme"
    by (simp add: bframe_def)
  show "bframe s u" if "bframe s t" "bframe t u" for s t u :: "'z bio_state_scheme"
    unfolding bframe_def
    by (rule trans [OF that(2) [unfolded bframe_def]], subst that(1) [unfolded bframe_def]) simp
qed

section \<open>Lemmas on the view\<close>

lemma upd_buf_sel [simp]:
  "bufs (upd_buf i f s) = (bufs s)[i := f (bufs s ! i)]" "mru (upd_buf i f s) = mru s"
  "disk (upd_buf i f s) = disk s" "writes (upd_buf i f s) = writes s" "held (upd_buf i f s) = held s"
  "ptable (upd_buf i f s) = ptable s" "disksize (upd_buf i f s) = disksize s"
  by (simp_all add: upd_buf_def)

lemma flag_sel [simp]:
  "b_flags (set_flag fl b) = insert fl (b_flags b)" "b_flags (clear_flag fl b) = b_flags b - {fl}"
  "b_dev (set_flag fl b) = b_dev b" "b_dev (clear_flag fl b) = b_dev b"
  "b_sector (set_flag fl b) = b_sector b" "b_sector (clear_flag fl b) = b_sector b"
  "b_data (set_flag fl b) = b_data b" "b_data (clear_flag fl b) = b_data b"
  by (simp_all add: set_flag_def clear_flag_def)

lemma bio_invD:
  assumes "bio_inv s"
  shows bio_len: "length (bufs s) = NBUF" and bio_mru: "distinct (mru s)" "set (mru s) = {..<NBUF}"
    and bio_disk: "length (disk s n) = BSIZE"
    and bio_data: "i < NBUF \<Longrightarrow> length (b_data (bufs s ! i)) = BSIZE"
    and bio_dev: "i < NBUF \<Longrightarrow> b_flags (bufs s ! i) \<noteq> {} \<Longrightarrow> b_dev (bufs s ! i) = ROOTDEV"
    and bio_dirty: "i < NBUF \<Longrightarrow> B_DIRTY \<in> b_flags (bufs s ! i) \<Longrightarrow> B_VALID \<in> b_flags (bufs s ! i)"
    and bio_clean: "i < NBUF \<Longrightarrow> b_flags (bufs s ! i) = {B_VALID} \<Longrightarrow>
      b_data (bufs s ! i) = disk s (b_sector (bufs s ! i))"
    and bio_uniq: "i < NBUF \<Longrightarrow> j < NBUF \<Longrightarrow> b_dev (bufs s ! i) = ROOTDEV \<Longrightarrow> b_dev (bufs s ! j) = ROOTDEV \<Longrightarrow>
      b_sector (bufs s ! i) = b_sector (bufs s ! j) \<Longrightarrow> i = j"
  using assms unfolding bio_inv_def by blast+

lemma slot_Some:
  assumes "bio_inv s"
  shows "slot s n = Some i \<longleftrightarrow> i < NBUF \<and> b_dev (bufs s ! i) = ROOTDEV \<and> b_sector (bufs s ! i) = n"
proof -
  have "\<not> (b_dev (bufs s ! j) = ROOTDEV \<and> b_sector (bufs s ! j) = n)"
    if "i < NBUF" "b_dev (bufs s ! i) = ROOTDEV" "b_sector (bufs s ! i) = n" "j < i" for j
    using bio_uniq [OF assms, of i j] that by auto
  then show ?thesis unfolding slot_def find_upt_Some by blast
qed

lemma slot_None: "slot s n = None \<longleftrightarrow> (\<forall>i < NBUF. \<not> (b_dev (bufs s ! i) = ROOTDEV \<and> b_sector (bufs s ! i) = n))"
  unfolding slot_def find_upt_None ..

text \<open>The flags of a block, and the sets of blocks in terms of them.\<close>

definition flags_of :: "'z bio_state_scheme \<Rightarrow> uint \<Rightarrow> bflag set" where
  "flags_of s n = (case slot s n of Some i \<Rightarrow> b_flags (bufs s ! i) | None \<Rightarrow> {})"

lemma flag_blocks:
  assumes "bio_inv s"
  shows "{b_sector b | b. b \<in> set (bufs s) \<and> fl \<in> b_flags b} = {n. fl \<in> flags_of s n}"
proof (intro equalityI subsetI)
  fix n
  assume "n \<in> {b_sector b | b. b \<in> set (bufs s) \<and> fl \<in> b_flags b}"
  then obtain i where i: "i < NBUF" "fl \<in> b_flags (bufs s ! i)" "n = b_sector (bufs s ! i)"
    using bio_len [OF assms] by (auto simp: in_set_conv_nth)
  then have "slot s n = Some i" using slot_Some [OF assms] bio_dev [OF assms, of i] by auto
  then show "n \<in> {n. fl \<in> flags_of s n}" using i by (simp add: flags_of_def)
next
  fix n
  assume "n \<in> {n. fl \<in> flags_of s n}"
  then obtain i where "slot s n = Some i" "fl \<in> b_flags (bufs s ! i)"
    by (auto simp: flags_of_def split: option.splits)
  then show "n \<in> {b_sector b | b. b \<in> set (bufs s) \<and> fl \<in> b_flags b}"
    using slot_Some [OF assms] bio_len [OF assms] nth_mem by fastforce
qed

lemma busy_iff: "bio_inv s \<Longrightarrow> n \<in> busy s \<longleftrightarrow> B_BUSY \<in> flags_of s n"
  unfolding busy_def by (simp add: flag_blocks)

lemma pinned_iff: "bio_inv s \<Longrightarrow> n \<in> pinned s \<longleftrightarrow> B_DIRTY \<in> flags_of s n"
  unfolding pinned_def by (simp add: flag_blocks)

lemma busy_eq: "bio_inv s \<Longrightarrow> busy s = {n. B_BUSY \<in> flags_of s n}"
  by (auto simp: busy_iff)

lemma pinned_eq: "bio_inv s \<Longrightarrow> pinned s = {n. B_DIRTY \<in> flags_of s n}"
  by (auto simp: pinned_iff)

text \<open>A buffer caches a block; holding a buffer: it is busy, with the data of its block.\<close>

definition cached :: "'z bio_state_scheme \<Rightarrow> nat \<Rightarrow> uint \<Rightarrow> bool" where
  "cached s i n \<longleftrightarrow> i < NBUF \<and> b_dev (bufs s ! i) = ROOTDEV \<and> b_sector (bufs s ! i) = n"

definition holds :: "'z bio_state_scheme \<Rightarrow> nat \<Rightarrow> uint \<Rightarrow> bool" where
  "holds s i n \<longleftrightarrow> cached s i n \<and> B_BUSY \<in> b_flags (bufs s ! i) \<and> B_VALID \<in> b_flags (bufs s ! i)"

lemma cached_slot: "bio_inv s \<Longrightarrow> slot s n = Some i \<longleftrightarrow> cached s i n"
  by (simp add: slot_Some cached_def)

lemma holds_cached: "holds s i n \<Longrightarrow> cached s i n"
  by (simp add: holds_def)

lemma holds_slot: "bio_inv s \<Longrightarrow> holds s i n \<Longrightarrow> slot s n = Some i"
  by (simp add: cached_slot holds_def)

lemma holds_blk: "bio_inv s \<Longrightarrow> holds s i n \<Longrightarrow> blk s n = b_data (bufs s ! i)"
  using holds_slot by (fastforce simp: blk_def holds_def)

lemma holds_busy: "bio_inv s \<Longrightarrow> holds s i n \<Longrightarrow> n \<in> busy s"
  by (simp add: busy_iff flags_of_def holds_slot) (simp add: holds_def)

text \<open>A buffer changes but stays with its block.\<close>

lemma slot_upd_same:
  assumes "bio_inv s" and "i < NBUF" and "b_dev b = b_dev (bufs s ! i)" and "b_sector b = b_sector (bufs s ! i)"
    and "bufs s' = (bufs s)[i := b]"
  shows "slot s' n = slot s n"
proof -
  have "b_dev (bufs s' ! j) = b_dev (bufs s ! j)" "b_sector (bufs s' ! j) = b_sector (bufs s ! j)" for j
    using assms by (cases "j = i", simp_all add: bio_len [OF assms(1)])+
  then show ?thesis by (simp add: slot_def)
qed

lemma cached_upd_flags:
  assumes "bio_inv s" and "cached s i n" and "bufs s' = (bufs s)[i := b]" and "b_dev b = ROOTDEV" and "b_sector b = n"
  shows "flags_of s' m = (if m = n then b_flags b else flags_of s m)"
proof -
  have i: "i < NBUF" "slot s n = Some i" using assms(1,2) cached_slot by (auto simp: cached_def)
  have sl: "slot s' m = slot s m"
    using assms by (intro slot_upd_same [OF assms(1) i(1)]) (auto simp: cached_def)
  have "j = i" if "slot s m = Some j" "m = n" for j using that i by simp
  moreover have "j \<noteq> i" if "slot s m = Some j" "m \<noteq> n" for j
    using that i slot_Some [OF assms(1)] by auto
  ultimately show ?thesis
    using i assms(3) bio_len [OF assms(1)] by (auto simp: flags_of_def sl split: option.split)
qed

lemma cached_upd_blk:
  assumes "bio_inv s" and "cached s i n" and "bufs s' = (bufs s)[i := b]" and "b_dev b = ROOTDEV" and "b_sector b = n"
    and "B_VALID \<in> b_flags b" and "\<And>m. m \<noteq> n \<Longrightarrow> disk s' m = disk s m"
  shows "blk s' = (blk s)(n := b_data b)"
proof
  fix m
  have i: "i < NBUF" "slot s n = Some i" using assms(1,2) cached_slot by (auto simp: cached_def)
  have sl: "slot s' m = slot s m"
    using assms by (intro slot_upd_same [OF assms(1) i(1)]) (auto simp: cached_def)
  have "j \<noteq> i" if "slot s m = Some j" "m \<noteq> n" for j
    using that i slot_Some [OF assms(1)] by auto
  then show "blk s' m = ((blk s)(n := b_data b)) m"
    using i assms(3,6,7) bio_len [OF assms(1)] by (auto simp: blk_def sl split: option.split)
qed

lemma bio_inv_upd:
  assumes inv: "bio_inv s" and h: "cached s i n" and b: "bufs s' = (bufs s)[i := b]" "b_dev b = ROOTDEV" "b_sector b = n"
      "length (b_data b) = BSIZE" "B_DIRTY \<in> b_flags b \<Longrightarrow> B_VALID \<in> b_flags b"
      "b_flags b = {B_VALID} \<Longrightarrow> b_data b = disk s' n"
    and m: "distinct (mru s')" "set (mru s') = {..<NBUF}"
    and d: "\<And>m. length (disk s' m) = BSIZE" "\<And>m. m \<noteq> n \<Longrightarrow> disk s' m = disk s m"
  shows "bio_inv s'"
proof -
  have i: "i < NBUF" "b_dev (bufs s ! i) = ROOTDEV" "b_sector (bufs s ! i) = n" using h by (auto simp: cached_def)
  have nth: "bufs s' ! j = (if j = i then b else bufs s ! j)" for j
    using b(1) i(1) bio_len [OF inv] by auto
  have other: "b_sector (bufs s ! j) \<noteq> n" if "j < NBUF" "j \<noteq> i" "b_dev (bufs s ! j) = ROOTDEV" for j
    using bio_uniq [OF inv, of i j] i that by auto
  have "length (b_data (bufs s' ! j)) = BSIZE \<and>
      (b_flags (bufs s' ! j) \<noteq> {} \<longrightarrow> b_dev (bufs s' ! j) = ROOTDEV) \<and>
      (B_DIRTY \<in> b_flags (bufs s' ! j) \<longrightarrow> B_VALID \<in> b_flags (bufs s' ! j)) \<and>
      (b_flags (bufs s' ! j) = {B_VALID} \<longrightarrow> b_data (bufs s' ! j) = disk s' (b_sector (bufs s' ! j)))"
    if j: "j < NBUF" for j
  proof (cases "j = i")
    case True
    then show ?thesis using b(2-) by (simp add: nth)
  next
    case False
    have "b_data (bufs s ! j) = disk s' (b_sector (bufs s ! j))" if "b_flags (bufs s ! j) = {B_VALID}"
      using bio_clean [OF inv j that] bio_dev [OF inv j] other [OF j False] d(2) that by simp
    then show ?thesis
      using False bio_data [OF inv j] bio_dev [OF inv j] bio_dirty [OF inv j] by (simp add: nth)
  qed
  moreover have "j = k" if "j < NBUF" "k < NBUF" "b_dev (bufs s' ! j) = ROOTDEV" "b_dev (bufs s' ! k) = ROOTDEV"
      "b_sector (bufs s' ! j) = b_sector (bufs s' ! k)" for j k
  proof (rule ccontr)
    assume "j \<noteq> k"
    then consider "j = i" "k \<noteq> i" | "j \<noteq> i" "k = i" | "j \<noteq> i" "k \<noteq> i" by blast
    then show False
      using that(3-5) other [OF that(1)] other [OF that(2)] bio_uniq [OF inv that(1,2)] b(3) \<open>j \<noteq> k\<close>
      by cases (simp_all add: nth)
  qed
  ultimately show ?thesis
    using bio_len [OF inv] b(1) m d(1) unfolding bio_inv_def by auto
qed

text \<open>A buffer that is neither busy nor dirty is given to a block that is not cached: the
  content of every block stays.\<close>

lemma recycle:
  assumes inv: "bio_inv s" and i: "i < NBUF" "B_BUSY \<notin> b_flags (bufs s ! i)" "B_DIRTY \<notin> b_flags (bufs s ! i)"
    and n: "slot s n = None"
    and s': "bufs s' = (bufs s)[i := \<lparr>b_flags = {B_BUSY, B_VALID}, b_dev = ROOTDEV, b_sector = n, b_data = disk s n\<rparr>]"
      "mru s' = mru s" "disk s' = disk s"
  shows "bio_inv s'" and "blk s' = blk s" and "holds s' i n" and "blk s n = disk s n"
    and "flags_of s' m = (if m = n then {B_BUSY, B_VALID} else flags_of s m - (if slot s m = Some i then {B_VALID} else {}))"
proof -
  let ?b = "\<lparr>b_flags = {B_BUSY, B_VALID}, b_dev = ROOTDEV, b_sector = n, b_data = disk s n\<rparr>"
  have nth: "bufs s' ! j = (if j = i then ?b else bufs s ! j)" for j
    using s'(1) i(1) bio_len [OF inv] by auto
  have none: "\<not> (b_dev (bufs s ! j) = ROOTDEV \<and> b_sector (bufs s ! j) = n)" if "j < NBUF" for j
    using n that slot_None [of s n] by blast
  have props: "length (b_data (bufs s' ! j)) = BSIZE \<and>
      (b_flags (bufs s' ! j) \<noteq> {} \<longrightarrow> b_dev (bufs s' ! j) = ROOTDEV) \<and>
      (B_DIRTY \<in> b_flags (bufs s' ! j) \<longrightarrow> B_VALID \<in> b_flags (bufs s' ! j)) \<and>
      (b_flags (bufs s' ! j) = {B_VALID} \<longrightarrow> b_data (bufs s' ! j) = disk s' (b_sector (bufs s' ! j)))"
    if "j < NBUF" for j
    using bio_data [OF inv that] bio_dev [OF inv that] bio_dirty [OF inv that] bio_clean [OF inv that]
      bio_disk [OF inv] by (auto simp: nth s'(3))
  have uniq: "j = k" if "j < NBUF" "k < NBUF" "b_dev (bufs s' ! j) = ROOTDEV" "b_dev (bufs s' ! k) = ROOTDEV"
      "b_sector (bufs s' ! j) = b_sector (bufs s' ! k)" for j k
  proof (rule ccontr)
    assume "j \<noteq> k"
    then consider "j = i" "k \<noteq> i" | "j \<noteq> i" "k = i" | "j \<noteq> i" "k \<noteq> i" by blast
    then show False
      using that(3-5) none [OF that(1)] none [OF that(2)] bio_uniq [OF inv that(1,2)] \<open>j \<noteq> k\<close>
      by cases (simp_all add: nth)
  qed
  show inv': "bio_inv s'"
    using bio_len [OF inv] bio_mru [OF inv] bio_disk [OF inv] s' props uniq unfolding bio_inv_def by auto
  have sl: "slot s' m = (if m = n then Some i else if slot s m = Some i then None else slot s m)" for m
  proof (cases "slot s' m")
    case None
    then show ?thesis
      using slot_None [of s' m] i(1) slot_Some [OF inv, of m]
      by (cases "slot s m") (auto simp: nth split: if_splits)
  next
    case (Some j)
    then show ?thesis
      using slot_Some [OF inv', of m j] slot_Some [OF inv, of m j] none [of j] by (auto simp: nth split: if_splits)
  qed
  have fl: "b_flags (bufs s ! i) \<subseteq> {B_VALID}"
  proof
    fix f assume "f \<in> b_flags (bufs s ! i)"
    then show "f \<in> {B_VALID}" using i(2,3) by (cases f) auto
  qed
  show "blk s n = disk s n" by (simp add: blk_def n)
  show "holds s' i n" using i(1) by (simp add: holds_def cached_def nth)
  show "flags_of s' m = (if m = n then {B_BUSY, B_VALID} else flags_of s m - (if slot s m = Some i then {B_VALID} else {}))"
    using fl by (cases "slot s m") (auto simp: flags_of_def sl nth)
  show "blk s' = blk s"
  proof
    fix m
    have "b_data (bufs s ! i) = disk s m" if "slot s m = Some i" "B_VALID \<in> b_flags (bufs s ! i)"
    proof -
      have "b_flags (bufs s ! i) = {B_VALID}" using fl that(2) by blast
      then show ?thesis using bio_clean [OF inv i(1)] slot_Some [OF inv] that(1) by auto
    qed
    then show "blk s' m = blk s m"
      by (cases "slot s m") (auto simp: blk_def sl nth s'(3) n)
  qed
qed

section \<open>The operations\<close>

text \<open>How many buffers are pinned or busy: as many as there are such blocks, so that with
  fewer than \<open>NBUF\<close> of them \<open>bget\<close> finds a buffer to recycle.\<close>

lemma free_buffer:
  assumes inv: "bio_inv s" and "card (busy s \<union> pinned s) < NBUF"
  obtains i where "i < NBUF" and "B_BUSY \<notin> b_flags (bufs s ! i)" and "B_DIRTY \<notin> b_flags (bufs s ! i)"
proof -
  have "\<exists>i < NBUF. B_BUSY \<notin> b_flags (bufs s ! i) \<and> B_DIRTY \<notin> b_flags (bufs s ! i)"
  proof (rule ccontr)
    assume "\<not> ?thesis"
    then have all: "B_BUSY \<in> b_flags (bufs s ! i) \<or> B_DIRTY \<in> b_flags (bufs s ! i)" if "i < NBUF" for i
      using that by blast
    have "inj_on (\<lambda>i. b_sector (bufs s ! i)) {..<NBUF}"
    proof (rule inj_onI)
      fix i j assume ij: "i \<in> {..<NBUF}" "j \<in> {..<NBUF}" "b_sector (bufs s ! i) = b_sector (bufs s ! j)"
      then show "i = j" using all bio_dev [OF inv] bio_uniq [OF inv] by (metis empty_iff lessThan_iff)
    qed
    moreover have "(\<lambda>i. b_sector (bufs s ! i)) ` {..<NBUF} \<subseteq> busy s \<union> pinned s"
      using all bio_len [OF inv] by (auto simp: busy_def pinned_def) (metis nth_mem)
    moreover have "finite (busy s \<union> pinned s)"
      by (simp add: busy_def pinned_def)
    ultimately have "card {..<NBUF} \<le> card (busy s \<union> pinned s)"
      by (rule card_inj_on_le)
    then show False using assms(2) by simp
  qed
  then show ?thesis using that by blast
qed

text \<open>The two directions of \<open>iderw\<close>.\<close>

lemma iderw_read:
  assumes "B_BUSY \<in> b_flags (bufs s ! i)" and "B_VALID \<notin> b_flags (bufs s ! i)" and "B_DIRTY \<notin> b_flags (bufs s ! i)"
    and "b_dev (bufs s ! i) = 1" and "b_sector (bufs s ! i) < disksize s" and "i < length (bufs s)"
  shows "iderw i s = Ret () (s\<lparr>bufs := (bufs s)[i := set_flag B_VALID ((bufs s ! i)\<lparr>b_data := disk s (b_sector (bufs s ! i))\<rparr>)]\<rparr>)"
  unfolding iderw_def Let_def
  by (simp only: assms linorder_class.not_le [THEN iffD2, OF assms(5)] simp_thms if_False)
    (simp add: upd_buf_def assms(6))

lemma iderw_write:
  assumes "B_BUSY \<in> b_flags (bufs s ! i)" and "B_DIRTY \<in> b_flags (bufs s ! i)"
    and "b_dev (bufs s ! i) = 1" and "b_sector (bufs s ! i) < disksize s" and "i < length (bufs s)"
  shows "iderw i s = Ret () (s\<lparr>bufs := (bufs s)[i := set_flag B_VALID (clear_flag B_DIRTY (bufs s ! i))],
    disk := (disk s)(b_sector (bufs s ! i) := b_data (bufs s ! i)),
    writes := writes s @ [(b_sector (bufs s ! i), b_data (bufs s ! i))]\<rparr>)"
  unfolding iderw_def Let_def
  by (simp only: assms linorder_class.not_le [THEN iffD2, OF assms(4)] simp_thms if_False if_True)
    (simp add: upd_buf_def assms(5))

text \<open>What \<open>bget\<close> and \<open>bread\<close> find: the block's own buffer, or one to recycle.\<close>

lemma find_mru:
  assumes "bio_inv s"
  shows "find (\<lambda>i. b_dev (bufs s ! i) = ROOTDEV \<and> b_sector (bufs s ! i) = n) (mru s) = slot s n"
proof (cases "slot s n")
  case None
  then show ?thesis
    using slot_None [of s n] bio_mru(2) [OF assms] by (auto simp: find_None_iff)
next
  case (Some i)
  then have i: "cached s i n" using cached_slot [OF assms] by simp
  show ?thesis
  proof (cases "find (\<lambda>i. b_dev (bufs s ! i) = ROOTDEV \<and> b_sector (bufs s ! i) = n) (mru s)")
    case None
    then show ?thesis using i bio_mru(2) [OF assms] by (auto simp: find_None_iff cached_def)
  next
    case Some': (Some j)
    then have "j \<in> set (mru s)" "b_dev (bufs s ! j) = ROOTDEV" "b_sector (bufs s ! j) = n"
      by (auto simp: find_Some_iff)
    then have "slot s n = Some j" using slot_Some [OF assms] bio_mru(2) [OF assms] by auto
    then show ?thesis using Some' by simp
  qed
qed

definition bread_post :: "'z bio_state_scheme \<Rightarrow> uint \<Rightarrow> nat \<Rightarrow> 'z bio_state_scheme \<Rightarrow> bool" where
  "bread_post s n i s' \<longleftrightarrow> bio_inv s' \<and> bframe s s' \<and> holds s' i n \<and> blk s' = blk s \<and>
    busy s' = insert n (busy s) \<and> pinned s' = pinned s \<and> disk s' = disk s \<and> writes s' = writes s \<and>
    ptable s' = ptable s \<and> B_BUSY \<notin> b_flags (bufs s ! i) \<and> (\<forall>j. j \<noteq> i \<longrightarrow> bufs s' ! j = bufs s ! j)"

lemma bread_cached:
  assumes inv: "bio_inv s" and "held s = {}" and "n < disksize s" and "n \<notin> busy s" and sl: "slot s n = Some i"
  shows "wp (bread ROOTDEV n) (bread_post s n) s"
proof -
  have c: "cached s i n" using cached_slot [OF inv] sl by simp
  then have i: "i < NBUF" "b_dev (bufs s ! i) = ROOTDEV" "b_sector (bufs s ! i) = n" by (auto simp: cached_def)
  have nb: "B_BUSY \<notin> b_flags (bufs s ! i)"
    using assms(4) busy_iff [OF inv] sl by (simp add: flags_of_def)
  let ?b = "\<lparr>b_flags = insert B_BUSY (insert B_VALID (b_flags (bufs s ! i))), b_dev = ROOTDEV, b_sector = n,
    b_data = blk s n\<rparr>"
  define s' where "s' = s\<lparr>bufs := (bufs s)[i := ?b]\<rparr>"
  have len: "i < length (bufs s)" using i bio_len [OF inv] by simp
  have "bread ROOTDEV n s = Ret i s'"
  proof (cases "B_VALID \<in> b_flags (bufs s ! i)")
    case True
    then have "?b = set_flag B_BUSY (bufs s ! i)"
      using i sl by (auto simp: set_flag_def blk_def insert_absorb)
    then show ?thesis
      using True assms(2) nb len by (simp add: bread_def bget_def find_mru [OF inv] sl s'_def upd_buf_def)
  next
    case False
    have nd: "B_DIRTY \<notin> b_flags (bufs s ! i)" using bio_dirty [OF inv i(1)] False by blast
    have b: "?b = set_flag B_VALID (set_flag B_BUSY (bufs s ! i)\<lparr>b_data := disk s n\<rparr>)"
      using i sl False by (simp add: set_flag_def blk_def insert_commute)
    have "B_VALID \<notin> insert B_BUSY (b_flags (bufs s ! i))" using False by simp
    then show ?thesis
      using False nd assms(2,3) nb len i
      by (simp add: bread_def bget_def find_mru [OF inv] sl s'_def b upd_buf_def iderw_read)
  qed
  moreover have "bread_post s n i s'"
  proof -
    have b: "bufs s' = (bufs s)[i := ?b]" "mru s' = mru s" "disk s' = disk s" by (simp_all add: s'_def)
    have inv': "bio_inv s'"
      using bio_disk [OF inv] bio_mru [OF inv] bio_data [OF inv i(1)] b sl
      by (intro bio_inv_upd [OF inv c b(1)]) (auto simp: blk_def)
    have fl: "flags_of s' m = (if m = n then insert B_BUSY (insert B_VALID (flags_of s n)) else flags_of s m)" for m
      using cached_upd_flags [OF inv c b(1)] sl by (simp add: flags_of_def)
    have "blk s' = blk s"
      using cached_upd_blk [OF inv c b(1)] by (simp add: b(3))
    moreover have "busy s' = insert n (busy s)" "pinned s' = pinned s"
      by (auto simp: busy_eq [OF inv] busy_eq [OF inv'] pinned_eq [OF inv] pinned_eq [OF inv'] fl split: if_splits)
    moreover have "holds s' i n" using i len by (simp add: holds_def cached_def s'_def)
    moreover have "bframe s s'" by (simp add: bframe_def s'_def)
    ultimately show ?thesis using inv' nb by (simp add: bread_post_def s'_def)
  qed
  ultimately show ?thesis by (simp add: wp_def)
qed

lemma bread_fresh:
  assumes inv: "bio_inv s" and "held s = {}" and "n < disksize s" and sl: "slot s n = None"
    and room: "card (busy s \<union> pinned s) < NBUF"
  shows "wp (bread ROOTDEV n) (bread_post s n) s"
proof -
  let ?P = "\<lambda>i. B_BUSY \<notin> b_flags (bufs s ! i) \<and> B_DIRTY \<notin> b_flags (bufs s ! i)"
  obtain i where f: "find ?P (rev (mru s)) = Some i"
  proof (cases "find ?P (rev (mru s))")
    case None
    obtain j where "j < NBUF" "?P j" using free_buffer [OF inv room] by blast
    then show ?thesis using None bio_mru(2) [OF inv] by (auto simp: find_None_iff)
  qed auto
  then have "i \<in> set (mru s)" "?P i" by (auto simp: find_Some_iff) (metis nth_mem set_rev length_rev)
  then have i: "i < NBUF" "B_BUSY \<notin> b_flags (bufs s ! i)" "B_DIRTY \<notin> b_flags (bufs s ! i)"
    using bio_mru(2) [OF inv] by auto
  let ?b = "\<lparr>b_flags = {B_BUSY, B_VALID}, b_dev = ROOTDEV, b_sector = n, b_data = disk s n\<rparr>"
  let ?c = "(bufs s ! i)\<lparr>b_dev := ROOTDEV, b_sector := n, b_data := disk s n, b_flags := {B_BUSY, B_VALID}\<rparr>"
  define s' where "s' = s\<lparr>bufs := (bufs s)[i := ?c]\<rparr>"
  have len: "i < length (bufs s)" using i bio_len [OF inv] by simp
  have bc: "?c = ?b" by (cases "bufs s ! i") simp
  have "bread ROOTDEV n s = Ret i s'"
    using assms(2,3) f len
    by (simp add: bread_def bget_def find_mru [OF inv] sl s'_def upd_buf_def iderw_read set_flag_def insert_commute)
  moreover have "bread_post s n i s'"
  proof -
    have b: "bufs s' = (bufs s)[i := ?b]" "mru s' = mru s" "disk s' = disk s"
      unfolding s'_def bc by simp_all
    note r = recycle [OF inv i sl b]
    have old: "flags_of s n = {}" by (simp add: flags_of_def sl)
    have "busy s' = insert n (busy s)" "pinned s' = pinned s"
      using old by (auto simp: busy_eq [OF inv] busy_eq [OF r(1)] pinned_eq [OF inv] pinned_eq [OF r(1)] r(5) split: if_splits)
    moreover have "bframe s s'" by (simp add: bframe_def s'_def)
    ultimately show ?thesis using r i(2) by (simp add: bread_post_def s'_def)
  qed
  ultimately show ?thesis by (simp add: wp_def)
qed

lemma bread_spec [wp_spec]:
  assumes "bio_inv s" and "held s = {}" and "n < disksize s" and "n \<notin> busy s" and "n \<in> pinned s \<or> card (busy s \<union> pinned s) < NBUF"
  shows "wp (bread ROOTDEV n) (bread_post s n) s"
proof (cases "slot s n")
  case None
  then have "n \<notin> pinned s" using pinned_iff [OF assms(1)] by (simp add: flags_of_def)
  then show ?thesis using bread_fresh [OF assms(1-3) None] assms(5) by blast
next
  case (Some i)
  then show ?thesis using bread_cached [OF assms(1-4)] by blast
qed

text \<open>Changing the data of a held buffer changes the content of its block.\<close>

lemma holds_update:
  assumes inv: "bio_inv s" and h: "holds s i n" and b: "bufs s' = (bufs s)[i := b]"
      "b_dev b = ROOTDEV" "b_sector b = n" "length (b_data b) = BSIZE" "B_BUSY \<in> b_flags b" "B_VALID \<in> b_flags b"
    and s': "mru s' = mru s" "\<And>m. length (disk s' m) = BSIZE" "\<And>m. m \<noteq> n \<Longrightarrow> disk s' m = disk s m"
  shows "bio_inv s'" and "holds s' i n" and "blk s' = (blk s)(n := b_data b)" and "busy s' = busy s"
    and "pinned s' = (if B_DIRTY \<in> b_flags b then insert n (pinned s) else pinned s - {n})"
    and "\<And>j m. j \<noteq> i \<Longrightarrow> holds s j m \<Longrightarrow> holds s' j m"
proof -
  note c = holds_cached [OF h]
  then have i: "i < NBUF" by (simp add: cached_def)
  have fb: "b_flags b \<noteq> {B_VALID}" using b(5) by auto
  show inv': "bio_inv s'"
    using b s' bio_mru [OF inv] fb by (intro bio_inv_upd [OF inv c b(1)]) auto
  note fl = cached_upd_flags [OF inv c b(1,2,3)]
  have n: "n \<in> busy s" using holds_busy [OF inv h] .
  show "busy s' = busy s"
    using n b(5) by (auto simp: busy_eq [OF inv] busy_eq [OF inv'] fl split: if_splits)
  show "pinned s' = (if B_DIRTY \<in> b_flags b then insert n (pinned s) else pinned s - {n})"
    by (auto simp: pinned_eq [OF inv] pinned_eq [OF inv'] fl split: if_splits)
  show "blk s' = (blk s)(n := b_data b)"
    using b s' by (intro cached_upd_blk [OF inv c b(1)]) auto
  show "holds s' i n" using b i bio_len [OF inv] by (simp add: holds_def cached_def)
  show "holds s' j m" if "j \<noteq> i" "holds s j m" for j m
    using that b(1) by (simp add: holds_def cached_def)
qed

lemma set_data_spec [wp_spec]:
  assumes inv: "bio_inv s" and h: "holds s i n" and "length (f (blk s n)) = BSIZE"
  shows "wp (set_data i f) (\<lambda>_ s'. bio_inv s' \<and> bframe s s' \<and> holds s' i n \<and>
    blk s' = (blk s)(n := f (blk s n)) \<and> busy s' = busy s \<and> pinned s' = pinned s \<and> disk s' = disk s \<and>
    writes s' = writes s \<and> ptable s' = ptable s \<and> (\<forall>j m. holds s j m \<longrightarrow> holds s' j m)) s"
proof -
  let ?b = "(bufs s ! i)\<lparr>b_data := f (blk s n)\<rparr>"
  let ?s' = "s\<lparr>bufs := (bufs s)[i := ?b]\<rparr>"
  have d: "blk s n = b_data (bufs s ! i)" using holds_blk [OF inv h] .
  have i: "b_dev (bufs s ! i) = ROOTDEV" "b_sector (bufs s ! i) = n" "B_BUSY \<in> b_flags (bufs s ! i)"
      "B_VALID \<in> b_flags (bufs s ! i)"
    using h by (auto simp: holds_def cached_def)
  have p: "bufs ?s' = (bufs s)[i := ?b]" "b_dev ?b = ROOTDEV" "b_sector ?b = n" "length (b_data ?b) = BSIZE"
      "B_BUSY \<in> b_flags ?b" "B_VALID \<in> b_flags ?b" "mru ?s' = mru s" "length (disk ?s' m) = BSIZE"
      "m \<noteq> n \<Longrightarrow> disk ?s' m = disk s m" for m
    using i assms(3) bio_disk [OF inv] by simp_all
  note u = holds_update [OF inv h p]
  have pin: "B_DIRTY \<in> b_flags (bufs s ! i) \<longleftrightarrow> n \<in> pinned s"
    using pinned_iff [OF inv] holds_slot [OF inv h] by (simp add: flags_of_def)
  have pin': "pinned ?s' = pinned s" using u(5) pin by (simp add: insert_absorb split: if_splits)
  have hold: "holds ?s' j m" if "holds s j m" for j m
  proof (cases "j = i")
    case True
    then show ?thesis using u(2) that h by (simp add: holds_def cached_def)
  qed (use u(6) that in blast)
  have "set_data i f s = Ret () ?s'"
    by (simp add: set_data_def upd_buf_def d)
  moreover have "bframe s ?s'" by (simp add: bframe_def)
  ultimately show ?thesis
    using u(1-4) pin' hold unfolding wp_def by (simp add: d)
qed

lemma bwrite_spec [wp_spec]:
  assumes inv: "bio_inv s" and h: "holds s i n" and "n < disksize s"
  shows "wp (bwrite i) (\<lambda>_ s'. bio_inv s' \<and> bframe s s' \<and> holds s' i n \<and> blk s' = blk s \<and> busy s' = busy s \<and>
    pinned s' = pinned s - {n} \<and> disk s' = (disk s)(n := blk s n) \<and> writes s' = writes s @ [(n, blk s n)] \<and>
    ptable s' = ptable s \<and> (\<forall>j m. holds s j m \<longrightarrow> holds s' j m)) s"
proof -
  let ?b = "set_flag B_VALID (clear_flag B_DIRTY (set_flag B_DIRTY (bufs s ! i)))"
  define s' where "s' = s\<lparr>bufs := (bufs s)[i := ?b], disk := (disk s)(n := blk s n), writes := writes s @ [(n, blk s n)]\<rparr>"
  have d: "blk s n = b_data (bufs s ! i)" using holds_blk [OF inv h] .
  have i: "i < NBUF" "b_dev (bufs s ! i) = ROOTDEV" "b_sector (bufs s ! i) = n" "B_BUSY \<in> b_flags (bufs s ! i)"
      "B_VALID \<in> b_flags (bufs s ! i)"
    using h by (auto simp: holds_def cached_def)
  have len: "i < length (bufs s)" using i bio_len [OF inv] by simp
  have "bwrite i s = Ret () s'"
    using i len assms(3) by (simp add: bwrite_def upd_buf_def iderw_write s'_def d)
  moreover have p: "bufs s' = (bufs s)[i := ?b]" "b_dev ?b = ROOTDEV" "b_sector ?b = n" "length (b_data ?b) = BSIZE"
      "B_BUSY \<in> b_flags ?b" "B_VALID \<in> b_flags ?b" "mru s' = mru s" "length (disk s' m) = BSIZE"
      "m \<noteq> n \<Longrightarrow> disk s' m = disk s m" for m
    using i bio_disk [OF inv] bio_data [OF inv i(1)] d by (simp_all add: s'_def)
  note u = holds_update [OF inv h p]
  have "blk s' = blk s" using u(3) d by (simp add: fun_upd_idem)
  moreover have "pinned s' = pinned s - {n}" using u(5) by simp
  moreover have "holds s' j m" if "holds s j m" for j m
  proof (cases "j = i")
    case True
    then show ?thesis using u(2) that h by (simp add: holds_def cached_def)
  qed (use u(6) that in blast)
  moreover have "bframe s s'" by (simp add: bframe_def s'_def)
  ultimately show ?thesis
    using u(1,2,4) unfolding wp_def by (simp add: s'_def)
qed

text \<open>Marking a held buffer dirty pins its block (the last step of \<open>log_write\<close>).\<close>

lemma pin_spec:
  assumes inv: "bio_inv s" and h: "holds s i n"
  shows "wp (modk (upd_buf i (set_flag B_DIRTY))) (\<lambda>_ s'. bio_inv s' \<and> bframe s s' \<and> holds s' i n \<and> blk s' = blk s \<and>
    busy s' = busy s \<and> pinned s' = insert n (pinned s) \<and> disk s' = disk s \<and> writes s' = writes s \<and>
    ptable s' = ptable s \<and> (\<forall>j m. holds s j m \<longrightarrow> holds s' j m)) s"
proof -
  let ?b = "set_flag B_DIRTY (bufs s ! i)"
  define s' where "s' = upd_buf i (set_flag B_DIRTY) s"
  have d: "blk s n = b_data (bufs s ! i)" using holds_blk [OF inv h] .
  have i: "i < NBUF" "b_dev (bufs s ! i) = ROOTDEV" "b_sector (bufs s ! i) = n" "B_BUSY \<in> b_flags (bufs s ! i)"
      "B_VALID \<in> b_flags (bufs s ! i)"
    using h by (auto simp: holds_def cached_def)
  have p: "bufs s' = (bufs s)[i := ?b]" "b_dev ?b = ROOTDEV" "b_sector ?b = n" "length (b_data ?b) = BSIZE"
      "B_BUSY \<in> b_flags ?b" "B_VALID \<in> b_flags ?b" "mru s' = mru s" "length (disk s' m) = BSIZE"
      "m \<noteq> n \<Longrightarrow> disk s' m = disk s m" for m
    using i bio_disk [OF inv] bio_data [OF inv i(1)] by (simp_all add: s'_def)
  note u = holds_update [OF inv h p]
  have "blk s' = blk s" using u(3) d by (simp add: fun_upd_idem)
  moreover have "pinned s' = insert n (pinned s)" using u(5) by simp
  moreover have "holds s' j m" if "holds s j m" for j m
  proof (cases "j = i")
    case True
    then show ?thesis using u(2) that h by (simp add: holds_def cached_def)
  qed (use u(6) that in blast)
  moreover have "bframe s s'" by (simp add: bframe_def s'_def upd_buf_def)
  ultimately show ?thesis
    using u(1,2,4) unfolding wp_def by (simp add: s'_def)
qed

text \<open>Releasing a buffer that is dirty or agrees with the disk.\<close>

lemma set_cons_remove1: "i \<in> set xs \<Longrightarrow> distinct xs \<Longrightarrow> set (i # remove1 i xs) = set xs"
  by (auto simp: set_remove1_eq)

lemma brelse_spec [wp_spec]:
  assumes inv: "bio_inv s" and h: "holds s i n" and "held s = {}" and "n \<in> pinned s \<or> blk s n = disk s n"
  shows "wp (brelse i) (\<lambda>_ s'. bio_inv s' \<and> bframe s s' \<and> blk s' = blk s \<and> busy s' = busy s - {n} \<and>
    pinned s' = pinned s \<and> disk s' = disk s \<and> writes s' = writes s \<and>
    ptable s' = map (wakes (Some (ChanBuf i))) (ptable s) \<and> (\<forall>j m. j \<noteq> i \<longrightarrow> holds s j m \<longrightarrow> holds s' j m)) s"
proof -
  let ?b = "clear_flag B_BUSY (bufs s ! i)"
  define s' where "s' = s\<lparr>mru := i # remove1 i (mru s), bufs := (bufs s)[i := ?b],
    ptable := map (wakes (Some (ChanBuf i))) (ptable s)\<rparr>"
  note c = holds_cached [OF h]
  have d: "blk s n = b_data (bufs s ! i)" using holds_blk [OF inv h] .
  have i: "i < NBUF" "b_dev (bufs s ! i) = ROOTDEV" "b_sector (bufs s ! i) = n" "B_BUSY \<in> b_flags (bufs s ! i)"
      "B_VALID \<in> b_flags (bufs s ! i)"
    using h by (auto simp: holds_def cached_def)
  have pin: "B_DIRTY \<in> b_flags (bufs s ! i) \<longleftrightarrow> n \<in> pinned s"
    using pinned_iff [OF inv] holds_slot [OF inv h] by (simp add: flags_of_def)
  have bs: "bufs s' = (bufs s)[i := ?b]" by (simp add: s'_def)
  have mem: "i \<in> set (mru s)" using i bio_mru(2) [OF inv] by simp
  have "brelse i s = Ret () s'"
    using i assms(3) by (simp add: brelse_def upd_buf_def wakeup_def wakeup1_def s'_def)
  moreover have inv': "bio_inv s'"
  proof (rule bio_inv_upd [OF inv c bs])
    show "distinct (mru s')" using bio_mru(1) [OF inv] by (simp add: s'_def)
    show "set (mru s') = {..<NBUF}"
      using set_cons_remove1 [OF mem bio_mru(1) [OF inv]] bio_mru(2) [OF inv] by (simp add: s'_def)
    show "b_data ?b = disk s' n" if "b_flags ?b = {B_VALID}"
    proof -
      have "B_DIRTY \<notin> b_flags (bufs s ! i)" using that by auto
      then show ?thesis using assms(4) pin d by (simp add: s'_def)
    qed
  qed (use i bio_data [OF inv i(1)] bio_disk [OF inv] in \<open>auto simp: s'_def\<close>)
  moreover have fl: "flags_of s' m = (if m = n then flags_of s n - {B_BUSY} else flags_of s m)" for m
    using cached_upd_flags [OF inv c bs] i holds_slot [OF inv h] by (simp add: flags_of_def)
  then have "busy s' = busy s - {n}" "pinned s' = pinned s"
    by (auto simp: busy_eq [OF inv] busy_eq [OF inv'] pinned_eq [OF inv] pinned_eq [OF inv'] split: if_splits)
  moreover have "blk s' = blk s"
    using cached_upd_blk [OF inv c bs] i d by (simp add: s'_def fun_upd_idem)
  moreover have "bframe s s'" by (simp add: bframe_def s'_def)
  moreover have "holds s' j m" if "j \<noteq> i" "holds s j m" for j m
    using that bs by (simp add: holds_def cached_def)
  ultimately show ?thesis
    unfolding wp_def by (simp add: s'_def)
qed

lemma bframe_sel:
  assumes "bframe s s'"
  shows "held s' = held s" "disksize s' = disksize s" "cpus s' = cpus s" "mycpu s' = mycpu s" "mem s' = mem s"
    "bio_state.more s' = bio_state.more s" "curproc s' = curproc s"
  by (subst assms [unfolded bframe_def], simp add: curproc_def)+

text \<open>The view depends on the buffers, their list and the disk only.\<close>

lemma bio_same:
  fixes s s' :: "'z bio_state_scheme"
  assumes "bufs s' = bufs s" and "disk s' = disk s" and "mru s' = mru s"
  shows "slot s' = slot s" and "blk s' = blk s" and "busy s' = busy s" and "pinned s' = pinned s"
    and "holds s' = holds s" and "bio_inv s' = bio_inv s" and "buf_data b s' = buf_data b s"
proof -
  show slot: "slot s' = slot s" using assms by (simp add: fun_eq_iff slot_def)
  show "blk s' = blk s" using assms slot by (simp add: fun_eq_iff blk_def split: option.split)
  show "busy s' = busy s" "pinned s' = pinned s" "holds s' = holds s" "bio_inv s' = bio_inv s" "buf_data b s' = buf_data b s"
    using assms by (simp_all add: fun_eq_iff busy_def pinned_def holds_def cached_def bio_inv_def buf_data_def)
qed

section \<open>Derived rules\<close>

lemma bread_run:
  assumes "bio_inv s" and "held s = {}" and "n < disksize s" and "n \<notin> busy s" and "n \<in> pinned s \<or> card (busy s \<union> pinned s) < NBUF"
  obtains i s' where "bread ROOTDEV n s = Ret i s'" and "bio_inv s'" and "bframe s s'" and "holds s' i n"
    and "blk s' = blk s" and "busy s' = insert n (busy s)" and "pinned s' = pinned s" and "disk s' = disk s"
    and "writes s' = writes s" and "\<forall>j m. holds s j m \<longrightarrow> holds s' j m \<and> j \<noteq> i"
proof -
  obtain i s' where r: "bread ROOTDEV n s = Ret i s'" and p: "bread_post s n i s'"
    using bread_spec [OF assms] by (auto elim: wpE)
  have "holds s' j m \<and> j \<noteq> i" if "holds s j m" for j m
  proof -
    have "j \<noteq> i" using p that by (auto simp: bread_post_def holds_def)
    then show ?thesis using p that by (simp add: bread_post_def holds_def cached_def)
  qed
  then show ?thesis using r p that unfolding bread_post_def by blast
qed

lemma set_data_run:
  assumes "bio_inv s" and "holds s i n" and "length (f (blk s n)) = BSIZE"
  obtains s' where "set_data i f s = Ret () s'" and "bio_inv s'" and "bframe s s'" and "holds s' i n"
    and "blk s' = (blk s)(n := f (blk s n))" and "busy s' = busy s" and "pinned s' = pinned s" and "disk s' = disk s"
    and "writes s' = writes s" and "\<forall>j m. holds s j m \<longrightarrow> holds s' j m"
  using set_data_spec [where f = f, OF assms] by (auto elim: wpE)

lemma bwrite_run:
  assumes "bio_inv s" and "holds s i n" and "n < disksize s"
  obtains s' where "bwrite i s = Ret () s'" and "bio_inv s'" and "bframe s s'" and "holds s' i n" and "blk s' = blk s"
    and "busy s' = busy s" and "pinned s' = pinned s - {n}" and "disk s' = (disk s)(n := blk s n)"
    and "writes s' = writes s @ [(n, blk s n)]" and "\<forall>j m. holds s j m \<longrightarrow> holds s' j m"
  using bwrite_spec [OF assms] by (auto elim: wpE)

lemma brelse_run:
  assumes "bio_inv s" and "holds s i n" and "held s = {}" and "n \<in> pinned s \<or> blk s n = disk s n"
  obtains s' where "brelse i s = Ret () s'" and "bio_inv s'" and "bframe s s'" and "blk s' = blk s"
    and "busy s' = busy s - {n}" and "pinned s' = pinned s" and "disk s' = disk s" and "writes s' = writes s"
    and "\<forall>j m. holds s j m \<longrightarrow> j \<noteq> i \<longrightarrow> holds s' j m"
  using brelse_spec [OF assms] by (auto elim: wpE)

lemma pin_run:
  assumes "bio_inv s" and "holds s i n"
  obtains s' where "upd_buf i (set_flag B_DIRTY) s = s'" and "bio_inv s'" and "bframe s s'" and "holds s' i n"
    and "blk s' = blk s" and "busy s' = busy s" and "pinned s' = insert n (pinned s)" and "disk s' = disk s"
    and "writes s' = writes s" and "\<forall>j m. holds s j m \<longrightarrow> holds s' j m"
  using pin_spec [OF assms] by auto

lemma finite_busy_pinned [simp]: "finite (busy s \<union> pinned s)"
  by (simp add: busy_def pinned_def)

lemma holds_data: "bio_inv s \<Longrightarrow> holds s i n \<Longrightarrow> buf_data i s = blk s n"
  by (simp add: buf_data_def holds_blk)

lemma length_blk: "bio_inv s \<Longrightarrow> length (blk s n) = BSIZE"
  using bio_disk [of s n] bio_data [of s] slot_Some [of s n]
  by (auto simp: blk_def split: option.split)

text \<open>A block that nobody works on and that is not pinned is what is on disk.\<close>

lemma clean_blk:
  assumes inv: "bio_inv s" and "n \<notin> busy s" and "n \<notin> pinned s"
  shows "blk s n = disk s n"
proof (cases "slot s n")
  case (Some i)
  then have c: "i < NBUF" "b_sector (bufs s ! i) = n" using slot_Some [OF inv] by auto
  have f: "B_BUSY \<notin> b_flags (bufs s ! i)" "B_DIRTY \<notin> b_flags (bufs s ! i)"
    using assms Some busy_iff [OF inv] pinned_iff [OF inv] by (auto simp: flags_of_def)
  have "b_flags (bufs s ! i) = {B_VALID}" if "B_VALID \<in> b_flags (bufs s ! i)"
  proof -
    have "x = B_VALID" if "x \<in> b_flags (bufs s ! i)" for x using f that by (cases x) auto
    then show ?thesis using that by blast
  qed
  then show ?thesis using Some c bio_clean [OF inv c(1)] by (auto simp: blk_def)
qed (simp add: blk_def)

text \<open>Reading a block, and rewriting one in place.\<close>

lemma read_block:
  assumes "bio_inv s" and "held s = {}" and "n < disksize s" and "n \<notin> busy s" and "n \<in> pinned s \<or> card (busy s \<union> pinned s) < NBUF"
  shows "wp (bindk (bread ROOTDEV n) (\<lambda>bp. bindk (getk (buf_data bp)) (\<lambda>d. thenk (brelse bp) (ret (f d)))))
    (\<lambda>r s'. r = f (blk s n) \<and> bio_inv s' \<and> bframe s s' \<and> blk s' = blk s \<and> busy s' = busy s \<and>
      pinned s' = pinned s \<and> disk s' = disk s \<and> writes s' = writes s \<and>
      (\<forall>j m. holds s j m \<longrightarrow> holds s' j m)) s"
proof -
  obtain i s1 where s1: "bread ROOTDEV n s = Ret i s1" "bio_inv s1" "bframe s s1" "holds s1 i n" "blk s1 = blk s"
      "busy s1 = insert n (busy s)" "pinned s1 = pinned s" "disk s1 = disk s" "writes s1 = writes s"
      "\<forall>j m. holds s j m \<longrightarrow> holds s1 j m \<and> j \<noteq> i"
    by (rule bread_run [OF assms])
  have "n \<in> pinned s1 \<or> blk s1 n = disk s1 n" using clean_blk [OF assms(1,4)] s1 by auto
  then obtain s2 where s2: "brelse i s1 = Ret () s2" "bio_inv s2" "bframe s1 s2" "blk s2 = blk s1"
      "busy s2 = busy s1 - {n}" "pinned s2 = pinned s1" "disk s2 = disk s1" "writes s2 = writes s1"
      "\<forall>j m. holds s1 j m \<longrightarrow> j \<noteq> i \<longrightarrow> holds s2 j m"
    using brelse_run [OF s1(2,4)] bframe_sel(1) [OF s1(3)] assms(2) by metis
  have "bframe s s2" using bf.frame_trans [OF s1(3) s2(3)] .
  moreover have "busy s2 = busy s" using s1(6) s2(5) assms(4) by auto
  moreover have "holds s2 j m" if "holds s j m" for j m using that s1(10) s2(9) by blast
  ultimately show ?thesis
    using s1 s2 holds_data [OF s1(2,4)] by (simp add: wp_def)
qed

lemma rewrite_block:
  assumes "bio_inv s" and "held s = {}" and "n < disksize s" and "n \<notin> busy s" and "n \<in> pinned s \<or> card (busy s \<union> pinned s) < NBUF"
    and "length (f (blk s n)) = BSIZE"
  shows "wp (bindk (bread ROOTDEV n) (\<lambda>bp. thenk (set_data bp f) (thenk (bwrite bp) (brelse bp))))
    (\<lambda>_ s'. bio_inv s' \<and> bframe s s' \<and> blk s' = (blk s)(n := f (blk s n)) \<and> busy s' = busy s \<and>
      pinned s' = pinned s - {n} \<and> disk s' = (disk s)(n := f (blk s n)) \<and>
      writes s' = writes s @ [(n, f (blk s n))] \<and> (\<forall>j m. holds s j m \<longrightarrow> holds s' j m)) s"
proof -
  obtain i s1 where s1: "bread ROOTDEV n s = Ret i s1" "bio_inv s1" "bframe s s1" "holds s1 i n" "blk s1 = blk s"
      "busy s1 = insert n (busy s)" "pinned s1 = pinned s" "disk s1 = disk s" "writes s1 = writes s"
      "\<forall>j m. holds s j m \<longrightarrow> holds s1 j m \<and> j \<noteq> i"
    by (rule bread_run [OF assms(1-5)])
  have "length (f (blk s1 n)) = BSIZE" using assms(6) s1(5) by simp
  then obtain s2 where s2: "set_data i f s1 = Ret () s2" "bio_inv s2" "bframe s1 s2" "holds s2 i n"
      "blk s2 = (blk s1)(n := f (blk s1 n))" "busy s2 = busy s1" "pinned s2 = pinned s1" "disk s2 = disk s1"
      "writes s2 = writes s1" "\<forall>j m. holds s1 j m \<longrightarrow> holds s2 j m"
    using set_data_run [OF s1(2,4)] by metis
  have "n < disksize s2" using assms(3) bframe_sel(2) [OF s1(3)] bframe_sel(2) [OF s2(3)] by simp
  then obtain s3 where s3: "bwrite i s2 = Ret () s3" "bio_inv s3" "bframe s2 s3" "holds s3 i n" "blk s3 = blk s2"
      "busy s3 = busy s2" "pinned s3 = pinned s2 - {n}" "disk s3 = (disk s2)(n := blk s2 n)"
      "writes s3 = writes s2 @ [(n, blk s2 n)]" "\<forall>j m. holds s2 j m \<longrightarrow> holds s3 j m"
    using bwrite_run [OF s2(2,4)] by metis
  have "held s3 = {}" using assms(2) bframe_sel(1) [OF s1(3)] bframe_sel(1) [OF s2(3)] bframe_sel(1) [OF s3(3)] by simp
  moreover have "n \<in> pinned s3 \<or> blk s3 n = disk s3 n" using s3 by simp
  ultimately obtain s4 where s4: "brelse i s3 = Ret () s4" "bio_inv s4" "bframe s3 s4" "blk s4 = blk s3"
      "busy s4 = busy s3 - {n}" "pinned s4 = pinned s3" "disk s4 = disk s3" "writes s4 = writes s3"
      "\<forall>j m. holds s3 j m \<longrightarrow> j \<noteq> i \<longrightarrow> holds s4 j m"
    using brelse_run [OF s3(2,4)] by metis
  have "bframe s s4" using bf.frame_trans s1(3) s2(3) s3(3) s4(3) by blast
  moreover have "busy s4 = busy s" using s1(6) s2(6) s3(6) s4(5) assms(4) by auto
  moreover have "holds s4 j m" if "holds s j m" for j m using that s1(10) s2(10) s3(10) s4(9) by blast
  ultimately show ?thesis
    using s1 s2 s3 s4 by (simp add: wp_def)
qed

end
