(* ===== verification/Xv6_Log.thy ===== *)
theory Xv6_Log
  imports Xv6_Bio
begin

text \<open>
  log.c: the redo log. The in-memory header is kept in the state; the on-disk log is the
  header block at \<open>start\<close> (the count, then the sector numbers) followed by the copies of
  the blocks. \<open>readsb\<close> of fs.c is here because \<open>initlog\<close> calls it. The lemmas give each
  operation's effect on the content of the blocks and on the disk; the crash analysis
  is in the next theory.
\<close>

section \<open>State\<close>

abbreviation (input) LOGSIZE :: nat where "LOGSIZE \<equiv> 10"

text \<open>\<open>struct log\<close> and its \<open>struct logheader\<close>.\<close>

record log_state = bio_state +
  l_start :: uint
  l_size :: int
  l_busy :: bool
  l_dev :: uint
  lh_n :: int
  lh_sector :: "uint list"

section \<open>The super block (fs.h) and readsb (fs.c)\<close>

record superblock =
  sb_size :: uint
  sb_nblocks :: uint
  sb_ninodes :: uint
  sb_nlog :: uint

definition dec_sb :: "byte list \<Rightarrow> superblock" where
  "dec_sb d = \<lparr>sb_size = rd_at 4 dec32 d 0, sb_nblocks = rd_at 4 dec32 d 4,
    sb_ninodes = rd_at 4 dec32 d 8, sb_nlog = rd_at 4 dec32 d 12\<rparr>"

definition readsb :: "uint \<Rightarrow> (superblock, 'z bio_state_scheme) kernel" where
  "readsb dev = bindk (bread dev 1) (\<lambda>bp.
    bindk (getk (buf_data bp)) (\<lambda>d.
    thenk (brelse bp) (ret (dec_sb (take 16 d)))))"

section \<open>log.c\<close>

text \<open>The on-disk header: the count and entry \<open>i\<close> of the sector numbers.\<close>

definition hd_n :: "byte list \<Rightarrow> int" where
  "hd_n d = sint (rd_at 4 dec32 d 0)"

definition hd_sector :: "byte list \<Rightarrow> nat \<Rightarrow> uint" where
  "hd_sector d i = rd_at 4 dec32 d (4 + 4 * i)"

definition hd_fill :: "nat \<Rightarrow> uint list \<Rightarrow> byte list \<Rightarrow> byte list" where
  "hd_fill k sec d = fold (\<lambda>i d. wr_at enc32 d (4 + 4 * i) (sec ! i)) [0..<k] d"

definition hd_write :: "int \<Rightarrow> uint list \<Rightarrow> byte list \<Rightarrow> byte list" where
  "hd_write n sec d = hd_fill (nat n) sec (wr_at enc32 d 0 (word_of_int n))"

definition install_one :: "nat \<Rightarrow> (unit, 'z log_state_scheme) kernel" where
  "install_one tail = (\<lambda>s.
    bindk (bread (l_dev s) (l_start s + of_nat tail + 1)) (\<lambda>lbuf.
    bindk (bread (l_dev s) (lh_sector s ! tail)) (\<lambda>dbuf.
    bindk (getk (buf_data lbuf)) (\<lambda>d.
    thenk (set_data dbuf (\<lambda>_. d))
    (thenk (bwrite dbuf)
    (thenk (brelse lbuf)
    (brelse dbuf)))))) s)"

definition install_trans :: "(unit, 'z log_state_scheme) kernel" where
  "install_trans = (\<lambda>s. foreach [0..<nat (lh_n s)] install_one s)"

text \<open>\<open>read_head\<close> copies as many sector numbers as the disk says; beyond the array the C
  code would write out of bounds, which the model reports.\<close>

definition read_head :: "(unit, 'z log_state_scheme) kernel" where
  "read_head = (\<lambda>s. bindk (bread (l_dev s) (l_start s)) (\<lambda>bp.
    bindk (getk (buf_data bp)) (\<lambda>d.
    if hd_n d > int LOGSIZE then panic ''read_head: out of bounds''
    else thenk (modk (\<lambda>s. s\<lparr>lh_n := hd_n d,
        lh_sector := map (hd_sector d) [0..<nat (hd_n d)] @ drop (nat (hd_n d)) (lh_sector s)\<rparr>))
      (brelse bp))) s)"

definition write_head :: "(unit, 'z log_state_scheme) kernel" where
  "write_head = (\<lambda>s. bindk (bread (l_dev s) (l_start s)) (\<lambda>bp.
    thenk (\<lambda>s. set_data bp (hd_write (lh_n s) (lh_sector s)) s)
    (thenk (bwrite bp)
    (brelse bp))) s)"

definition recover_from_log :: "(unit, 'z log_state_scheme) kernel" where
  "recover_from_log = thenk read_head
    (thenk install_trans
    (thenk (modk (\<lambda>s. s\<lparr>lh_n := 0\<rparr>))
    write_head))"

definition initlog :: "(unit, 'z log_state_scheme) kernel" where
  "initlog = bindk (readsb ROOTDEV) (\<lambda>sb.
    thenk (modk (\<lambda>s. s\<lparr>l_start := sb_size sb - sb_nlog sb, l_size := sint (sb_nlog sb), l_dev := ROOTDEV\<rparr>))
    recover_from_log)"

definition begin_trans :: "(unit, 'z log_state_scheme) kernel" where
  "begin_trans = thenk (acquire LkLog) (\<lambda>s.
    if l_busy s then sleep ChanLog LkLog s
    else thenk (modk (\<lambda>s. s\<lparr>l_busy := True\<rparr>)) (release LkLog) s)"

definition commit_trans :: "(unit, 'z log_state_scheme) kernel" where
  "commit_trans = (\<lambda>s.
    thenk (whenk (lh_n s > 0)
      (thenk write_head
      (thenk install_trans
      (thenk (modk (\<lambda>s. s\<lparr>lh_n := 0\<rparr>))
      write_head))))
    (thenk (acquire LkLog)
    (thenk (modk (\<lambda>s. s\<lparr>l_busy := False\<rparr>))
    (thenk (wakeup ChanLog)
    (release LkLog)))) s)"

text \<open>The slot of the log for sector \<open>m\<close>: the one that already holds it, or the next.\<close>

definition log_index :: "uint \<Rightarrow> 'z log_state_scheme \<Rightarrow> nat" where
  "log_index m s = (case find (\<lambda>i. lh_sector s ! i = m) [0..<nat (lh_n s)] of
    Some i \<Rightarrow> i | None \<Rightarrow> nat (lh_n s))"

definition log_write :: "nat \<Rightarrow> (unit, 'z log_state_scheme) kernel" where
  "log_write b = (\<lambda>s.
    if lh_n s \<ge> int LOGSIZE \<or> lh_n s \<ge> l_size s - 1 then Panic ''too big a transaction''
    else if \<not> l_busy s then Panic ''write outside of trans''
    else let i = log_index (b_sector (bufs s ! b)) s in
      thenk (modk (\<lambda>s. s\<lparr>lh_sector := (lh_sector s)[i := b_sector (bufs s ! b)]\<rparr>))
      (bindk (bread (b_dev (bufs s ! b)) (l_start s + of_nat i + 1)) (\<lambda>lbuf.
       bindk (getk (buf_data b)) (\<lambda>d.
       thenk (set_data lbuf (\<lambda>_. d))
       (thenk (bwrite lbuf)
       (thenk (brelse lbuf)
       (thenk (modk (\<lambda>s. if int i = lh_n s then s\<lparr>lh_n := lh_n s + 1\<rparr> else s))
       (modk (upd_buf b (set_flag B_DIRTY))))))))) s)"

section \<open>Invariant\<close>

text \<open>The blocks of the log: the header and the copies.\<close>

definition log_region :: "'z log_state_scheme \<Rightarrow> uint set" where
  "log_region s = {n. unat (l_start s) \<le> unat n \<and> unat n < unat (l_start s) + nat (l_size s)}"

text \<open>The blocks written in the current transaction.\<close>

definition logged :: "'z log_state_scheme \<Rightarrow> uint list" where
  "logged s = take (nat (lh_n s)) (lh_sector s)"

text \<open>
  The invariant: the cache invariant; the log lies on the disk, nobody works on its blocks
  between log operations; the pinned blocks are the logged ones, each once, none in the
  log; the copy on disk of a logged block that nobody is working on is current; the header
  on disk says the log is empty. The log is at most \<open>LOGSIZE\<close> blocks long, header
  included: with one more, a full log would pin all \<open>NBUF\<close> buffers and \<open>commit_trans\<close> would
  find none for the header.
\<close>

definition log_inv :: "'z log_state_scheme \<Rightarrow> bool" where
  "log_inv s \<longleftrightarrow> bio_inv s \<and> l_dev s = ROOTDEV \<and> 1 < l_size s \<and> l_size s \<le> int LOGSIZE \<and>
    unat (l_start s) + nat (l_size s) \<le> unat (disksize s) \<and>
    0 \<le> lh_n s \<and> lh_n s < l_size s \<and> length (lh_sector s) = LOGSIZE \<and>
    distinct (logged s) \<and> set (logged s) \<inter> log_region s = {} \<and> busy s \<inter> log_region s = {} \<and>
    pinned s = set (logged s) \<and>
    (\<forall>m \<in> set (logged s). m < disksize s) \<and>
    (\<forall>i < nat (lh_n s). lh_sector s ! i \<notin> busy s \<longrightarrow>
      disk s (l_start s + of_nat i + 1) = blk s (lh_sector s ! i)) \<and>
    hd_n (disk s (l_start s)) = 0 \<and> hd_n (blk s (l_start s)) = 0"

section \<open>The header block\<close>

lemma length_wr32 [simp]: "off + 4 \<le> length d \<Longrightarrow> length (wr_at enc32 d off v) = length d"
  by (rule c32.length_wr) simp_all

lemma hd_fill_Suc: "hd_fill (Suc k) sec d = wr_at enc32 (hd_fill k sec d) (4 + 4 * k) (sec ! k)"
  by (simp add: hd_fill_def)

lemma hd_fill_0 [simp]: "hd_fill 0 sec d = d"
  by (simp add: hd_fill_def)

lemma length_hd_fill: "44 \<le> length d \<Longrightarrow> k \<le> 10 \<Longrightarrow> length (hd_fill k sec d) = length d"
  by (induction k) (simp_all add: hd_fill_Suc)

lemma hd_fill_n:
  assumes "44 \<le> length d"
  shows "k \<le> 10 \<Longrightarrow> rd_at 4 dec32 (hd_fill k sec d) 0 = rd_at 4 dec32 d 0"
proof (induction k)
  case (Suc k)
  have "rd_at 4 dec32 (wr_at enc32 (hd_fill k sec d) (4 + 4 * k) (sec ! k)) 0 = rd_at 4 dec32 (hd_fill k sec d) 0"
    using Suc.prems length_hd_fill [OF assms, of k sec] assms by (intro c32.rd_wr_other) auto
  then show ?case using Suc by (simp add: hd_fill_Suc)
qed simp

lemma hd_fill_sector:
  assumes "44 \<le> length d" and "j < 10"
  shows "k \<le> 10 \<Longrightarrow> hd_sector (hd_fill k sec d) j = (if j < k then sec ! j else hd_sector d j)"
proof (induction k)
  case (Suc k)
  let ?w = "hd_fill k sec d"
  have len: "length ?w = length d" using length_hd_fill [OF assms(1)] Suc.prems by simp
  have "hd_sector (wr_at enc32 ?w (4 + 4 * k) (sec ! k)) j = (if j = k then sec ! k else hd_sector ?w j)"
  proof (cases "j = k")
    case True
    then show ?thesis using Suc.prems len assms by (simp add: hd_sector_def c32.rd_wr_same)
  next
    case False
    have "rd_at 4 dec32 (wr_at enc32 ?w (4 + 4 * k) (sec ! k)) (4 + 4 * j) = rd_at 4 dec32 ?w (4 + 4 * j)"
      using Suc.prems len assms False by (intro c32.rd_wr_other) auto
    then show ?thesis using False by (simp add: hd_sector_def)
  qed
  then show ?case using Suc by (auto simp: hd_fill_Suc)
qed simp

lemma hd_write_read:
  assumes "length d = BSIZE" and "0 \<le> n" and "n \<le> int LOGSIZE"
  shows "length (hd_write n sec d) = BSIZE" and "hd_n (hd_write n sec d) = n"
    and "\<And>i. i < nat n \<Longrightarrow> hd_sector (hd_write n sec d) i = sec ! i"
proof -
  let ?d = "wr_at enc32 d 0 (word_of_int n)"
  have len: "length ?d = BSIZE" using assms(1) by simp
  have n: "nat n \<le> 10" using assms(3) by simp
  show "length (hd_write n sec d) = BSIZE" using length_hd_fill [of ?d "nat n"] len n by (simp add: hd_write_def)
  have "rd_at 4 dec32 ?d 0 = word_of_int n" using assms(1) by (intro c32.rd_wr_same) simp_all
  then have "rd_at 4 dec32 (hd_write n sec d) 0 = word_of_int n"
    using hd_fill_n [of ?d "nat n"] len n by (simp add: hd_write_def)
  then show "hd_n (hd_write n sec d) = n"
    using assms(2,3) by (simp add: hd_n_def signed_of_int signed_take_bit_int_eq_self)
  show "hd_sector (hd_write n sec d) i = sec ! i" if "i < nat n" for i
    using hd_fill_sector [of ?d i "nat n"] len n that by (simp add: hd_write_def)
qed

section \<open>Effects\<close>

lemma bframe_log:
  assumes "bframe s s'"
  shows "l_start s' = l_start s" "l_size s' = l_size s" "l_busy s' = l_busy s" "l_dev s' = l_dev s"
    "lh_n s' = lh_n s" "lh_sector s' = lh_sector s"
  by (subst assms [unfolded bframe_def], simp)+

lemma bframe_log_region: "bframe s s' \<Longrightarrow> log_region s' = log_region s"
  by (simp add: log_region_def bframe_log)

lemma bframe_logged: "bframe s s' \<Longrightarrow> logged s' = logged s"
  by (simp add: logged_def bframe_log)

text \<open>The header is written in place.\<close>

lemma write_head_spec:
  assumes "bio_inv s" and "held s = {}" and "l_dev s = ROOTDEV" and "l_start s < disksize s" and "l_start s \<notin> busy s"
    and "card (busy s \<union> pinned s) < NBUF" and "0 \<le> lh_n s" and "lh_n s \<le> int LOGSIZE" and "l_start s \<notin> pinned s"
  defines "h' \<equiv> hd_write (lh_n s) (lh_sector s) (blk s (l_start s))"
  shows "wp write_head (\<lambda>_ s'. bio_inv s' \<and> bframe s s' \<and> blk s' = (blk s)(l_start s := h') \<and> busy s' = busy s \<and>
    pinned s' = pinned s \<and> disk s' = (disk s)(l_start s := h') \<and> writes s' = writes s @ [(l_start s, h')]) s"
proof -
  have len: "length h' = BSIZE"
    unfolding h'_def using hd_write_read(1) [OF length_blk [OF assms(1)] assms(7,8)] .
  let ?f = "hd_write (lh_n s) (lh_sector s)"
  let ?m = "bindk (bread ROOTDEV (l_start s)) (\<lambda>bp. thenk (set_data bp ?f) (thenk (bwrite bp) (brelse bp)))"
  obtain bp s1 where b: "bread ROOTDEV (l_start s) s = Ret bp s1" "bframe s s1"
    by (rule bread_run [OF assms(1,2,4,5) disjI2 [OF assms(6)]])
  have eq: "write_head s = ?m s"
    using b by (simp add: write_head_def assms(3) bframe_log thenk_def bindk_def)
  have "wp ?m (\<lambda>_ s'. bio_inv s' \<and> bframe s s' \<and> blk s' = (blk s)(l_start s := h') \<and> busy s' = busy s \<and>
      pinned s' = pinned s - {l_start s} \<and> disk s' = (disk s)(l_start s := h') \<and>
      writes s' = writes s @ [(l_start s, h')] \<and> (\<forall>j m. holds s j m \<longrightarrow> holds s' j m)) s"
    unfolding h'_def by (rule rewrite_block [OF assms(1,2,4,5) disjI2 [OF assms(6)]]) (use len h'_def in simp)
  then show ?thesis
    using assms(9) by (auto simp: wp_def eq split: outcome.splits)
qed

text \<open>One turn of \<open>install_trans\<close>: the block's home location gets the log copy.\<close>

lemma install_one_spec:
  assumes inv: "bio_inv s" and h: "held s = {}" and dev: "l_dev s = ROOTDEV"
    and a: "a = l_start s + of_nat k + 1" "a < disksize s" "a \<notin> busy s" "a \<notin> pinned s"
    and d: "d = lh_sector s ! k" "d < disksize s" "d \<notin> busy s" "d \<noteq> a"
    and room: "card (busy s \<union> pinned s) < NBUF" "d \<in> pinned s \<or> Suc (card (busy s \<union> pinned s)) < NBUF"
  shows "wp (install_one k) (\<lambda>_ s'. bio_inv s' \<and> bframe s s' \<and> blk s' = (blk s)(d := blk s a) \<and> busy s' = busy s \<and>
    pinned s' = pinned s - {d} \<and> disk s' = (disk s)(d := blk s a) \<and> writes s' = writes s @ [(d, blk s a)]) s"
proof -
  obtain i s1 where s1: "bread ROOTDEV a s = Ret i s1" "bio_inv s1" "bframe s s1" "holds s1 i a" "blk s1 = blk s"
      "busy s1 = insert a (busy s)" "pinned s1 = pinned s" "disk s1 = disk s" "writes s1 = writes s"
    by (rule bread_run [OF inv h a(2,3) disjI2 [OF room(1)]])
  have f1: "d < disksize s1" "d \<notin> busy s1" "held s1 = {}"
    using d s1 h bframe_sel [OF s1(3)] by auto
  have "busy s1 \<union> pinned s1 = insert a (busy s \<union> pinned s)" using s1(6,7) by simp
  then have "card (busy s1 \<union> pinned s1) = Suc (card (busy s \<union> pinned s))"
    using a(3,4) finite_busy_pinned [of s] by (simp only: card_insert_disjoint Un_iff simp_thms not_False_eq_True)
  then have r1: "d \<in> pinned s1 \<or> card (busy s1 \<union> pinned s1) < NBUF"
    using room(2) unfolding s1(7) by presburger
  obtain j s2 where s2: "bread ROOTDEV d s1 = Ret j s2" "bio_inv s2" "bframe s1 s2" "holds s2 j d" "blk s2 = blk s1"
      "busy s2 = insert d (busy s1)" "pinned s2 = pinned s1" "disk s2 = disk s1" "writes s2 = writes s1"
      "\<forall>i m. holds s1 i m \<longrightarrow> holds s2 i m \<and> i \<noteq> j"
    by (rule bread_run [OF s1(2) f1(3,1,2) r1])
  let ?c = "blk s a"
  have ij: "holds s2 i a" "i \<noteq> j" using s2(10) s1(4) by blast+
  have data: "buf_data i s2 = ?c" using holds_data [OF s2(2) ij(1)] s1(5) s2(5) by simp
  obtain s3 where s3: "set_data j (\<lambda>_. ?c) s2 = Ret () s3" "bio_inv s3" "bframe s2 s3" "holds s3 j d"
      "blk s3 = (blk s2)(d := ?c)" "busy s3 = busy s2" "pinned s3 = pinned s2" "disk s3 = disk s2"
      "writes s3 = writes s2" "\<forall>i m. holds s2 i m \<longrightarrow> holds s3 i m"
    by (rule set_data_run [where f = "\<lambda>_. ?c", OF s2(2,4) length_blk [OF inv]])
  have "d < disksize s3" using f1(1) bframe_sel(2) [OF s2(3)] bframe_sel(2) [OF s3(3)] by simp
  then have ds3: "d < disksize s3" .
  obtain s4 where s4: "bwrite j s3 = Ret () s4" "bio_inv s4" "bframe s3 s4" "holds s4 j d" "blk s4 = blk s3"
      "busy s4 = busy s3" "pinned s4 = pinned s3 - {d}" "disk s4 = (disk s3)(d := blk s3 d)"
      "writes s4 = writes s3 @ [(d, blk s3 d)]" "\<forall>i m. holds s3 i m \<longrightarrow> holds s4 i m"
    by (rule bwrite_run [OF s3(2,4) ds3])
  have fr4: "bframe s s4" using bf.frame_trans s1(3) s2(3) s3(3) s4(3) by blast
  have i4: "holds s4 i a" using ij s3(10) s4(10) by blast
  have c4: "a \<in> pinned s4 \<or> blk s4 a = disk s4 a"
    using clean_blk [OF inv a(3,4)] s1 s2 s3 s4 d(4) by auto
  have h4: "held s4 = {}" using bframe_sel(1) [OF fr4] h by simp
  obtain s5 where s5: "brelse i s4 = Ret () s5" "bio_inv s5" "bframe s4 s5" "blk s5 = blk s4"
      "busy s5 = busy s4 - {a}" "pinned s5 = pinned s4" "disk s5 = disk s4" "writes s5 = writes s4"
      "\<forall>j m. holds s4 j m \<longrightarrow> j \<noteq> i \<longrightarrow> holds s5 j m"
    by (rule brelse_run [OF s4(2) i4 h4 c4])
  have j5: "holds s5 j d" using s5(9) s4(4) ij(2) by blast
  have c5: "d \<in> pinned s5 \<or> blk s5 d = disk s5 d" using s5(4,7) s4(5,8) by simp
  have h5: "held s5 = {}" using h4 bframe_sel(1) [OF s5(3)] by simp
  obtain s6 where s6: "brelse j s5 = Ret () s6" "bio_inv s6" "bframe s5 s6" "blk s6 = blk s5"
      "busy s6 = busy s5 - {d}" "pinned s6 = pinned s5" "disk s6 = disk s5" "writes s6 = writes s5"
    by (rule brelse_run [OF s5(2) j5 h5 c5])
  have "bframe s s6" using bf.frame_trans fr4 s5(3) s6(3) by blast
  moreover have "busy s6 = busy s" using s1(6) s2(6) s3(6) s4(6) s5(5) s6(5) a(3) d(3) by auto
  moreover have "install_one k s = Ret () s6"
    using s1(1) s2(1) s3(1) s4(1) s5(1) s6(1) data dev a(1) d(1) by (simp add: install_one_def)
  ultimately show ?thesis
    using s1 s2 s3 s4 s5 s6 by (simp add: wp_def)
qed

text \<open>A sequence of sector writes applied to the sectors.\<close>

definition apply_writes :: "(uint \<times> byte list) list \<Rightarrow> (uint \<Rightarrow> byte list) \<Rightarrow> uint \<Rightarrow> byte list" where
  "apply_writes ws d = fold (\<lambda>(n, b) d. d(n := b)) ws d"

lemma apply_writes_simps [simp]:
  "apply_writes [] d = d" "apply_writes (ws @ [(n, b)]) d = (apply_writes ws d)(n := b)"
  "apply_writes (w # ws) d = apply_writes ws (d(fst w := snd w))"
  by (simp_all add: apply_writes_def split_beta)

lemma apply_writes_append: "apply_writes (ws @ vs) d = apply_writes vs (apply_writes ws d)"
  by (simp add: apply_writes_def)

lemma apply_writes_other: "n \<notin> fst ` set ws \<Longrightarrow> apply_writes ws d n = d n"
  by (induction ws rule: rev_induct) (auto simp: apply_writes_append split: prod.splits)

text \<open>The copies of the first \<open>k\<close> log entries to their home locations.\<close>

definition log_block :: "'z log_state_scheme \<Rightarrow> nat \<Rightarrow> uint" where
  "log_block s k = l_start s + of_nat k + 1"

definition install_writes :: "'z log_state_scheme \<Rightarrow> nat \<Rightarrow> (uint \<times> byte list) list" where
  "install_writes s k = map (\<lambda>i. (lh_sector s ! i, blk s (log_block s i))) [0..<k]"

lemma unat_log_block:
  assumes "unat (l_start s) + nat (l_size s) \<le> unat (disksize s)" and "int k < l_size s - 1"
  shows "unat (log_block s k) = unat (l_start s) + k + 1"
proof -
  have k: "k + 1 < nat (l_size s)" using assms(2) by linarith
  then have lt: "unat (l_start s) + k + 1 < 4294967296" using assms(1) unat_lt_2_32 [of "disksize s"] by linarith
  then have "unat (of_nat k :: uint) = k" by simp
  then have "unat (l_start s + of_nat k) = unat (l_start s) + k" using lt by (subst unat_add_no_wrap) simp_all
  then show ?thesis unfolding log_block_def using lt by (subst unat_add_no_wrap) simp_all
qed

lemma log_block_region:
  assumes "unat (l_start s) + nat (l_size s) \<le> unat (disksize s)" and "int k < l_size s - 1"
  shows "log_block s k \<in> log_region s" and "log_block s k < disksize s" and "log_block s k \<noteq> l_start s"
proof -
  note u = unat_log_block [OF assms]
  have k: "k + 1 < nat (l_size s)" using assms(2) by linarith
  show "log_block s k \<in> log_region s" using u k by (simp add: log_region_def)
  show "log_block s k < disksize s" using u k assms(1) by (simp add: word_less_nat_alt)
  show "log_block s k \<noteq> l_start s"
  proof
    assume "log_block s k = l_start s"
    then show False using u by simp
  qed
qed

lemma log_block_inj:
  assumes "unat (l_start s) + nat (l_size s) \<le> unat (disksize s)" and "int k < l_size s - 1" and "int j < l_size s - 1"
    and "log_block s k = log_block s j"
  shows "k = j"
proof -
  have "unat (log_block s k) = unat (log_block s j)" by (rule arg_cong [OF assms(4)])
  then show ?thesis unfolding unat_log_block [OF assms(1,2)] unat_log_block [OF assms(1,3)] by linarith
qed

text \<open>The state in which \<open>install_trans\<close> can run.\<close>

definition installable :: "'z log_state_scheme \<Rightarrow> bool" where
  "installable s \<longleftrightarrow> bio_inv s \<and> held s = {} \<and> l_dev s = ROOTDEV \<and> busy s = {} \<and>
    unat (l_start s) + nat (l_size s) \<le> unat (disksize s) \<and> 0 \<le> lh_n s \<and> lh_n s < l_size s \<and>
    length (lh_sector s) = LOGSIZE \<and> lh_n s \<le> int LOGSIZE \<and> distinct (logged s) \<and>
    set (logged s) \<inter> log_region s = {} \<and> pinned s \<inter> log_region s = {} \<and>
    (\<forall>m \<in> set (logged s). m < disksize s) \<and> card (pinned s) < NBUF \<and>
    (set (logged s) \<subseteq> pinned s \<or> Suc (card (pinned s)) < NBUF)"

lemma logged_nth: "k < nat (lh_n s) \<Longrightarrow> length (lh_sector s) = LOGSIZE \<Longrightarrow> lh_n s \<le> int LOGSIZE \<Longrightarrow>
    lh_sector s ! k \<in> set (logged s)"
  unfolding logged_def by (auto simp: in_set_conv_nth intro!: exI [of _ k])

lemma logged_nth_inj:
  assumes "distinct (logged s)" and "length (lh_sector s) = LOGSIZE" and "lh_n s \<le> int LOGSIZE"
    and "i < nat (lh_n s)" and "j < nat (lh_n s)" and "lh_sector s ! i = lh_sector s ! j"
  shows "i = j"
proof -
  have "logged s ! i = logged s ! j" "i < length (logged s)" "j < length (logged s)"
    using assms(2-6) by (simp_all add: logged_def)
  then show ?thesis using nth_eq_iff_index_eq [OF assms(1)] by blast
qed

lemma install_writes_home:
  assumes "k \<le> nat (lh_n s)" and "length (lh_sector s) = LOGSIZE" and "lh_n s \<le> int LOGSIZE"
  shows "fst ` set (install_writes s k) \<subseteq> set (logged s)"
proof
  fix m assume "m \<in> fst ` set (install_writes s k)"
  then obtain i where "i < k" "m = lh_sector s ! i" by (auto simp: install_writes_def)
  then show "m \<in> set (logged s)" using logged_nth [OF _ assms(2,3), of i] assms(1) by simp
qed

lemma install_trans_spec:
  assumes ins: "installable s"
  shows "wp install_trans (\<lambda>_ s'. bio_inv s' \<and> bframe s s' \<and> busy s' = {} \<and> pinned s' = pinned s - set (logged s) \<and>
    blk s' = apply_writes (install_writes s (nat (lh_n s))) (blk s) \<and>
    disk s' = apply_writes (install_writes s (nat (lh_n s))) (disk s) \<and>
    writes s' = writes s @ install_writes s (nat (lh_n s))) s"
proof -
  let ?n = "nat (lh_n s)"
  have inv: "bio_inv s" "held s = {}" "l_dev s = ROOTDEV" "busy s = {}"
      "unat (l_start s) + nat (l_size s) \<le> unat (disksize s)" "0 \<le> lh_n s" "lh_n s < l_size s"
      "length (lh_sector s) = LOGSIZE" "lh_n s \<le> int LOGSIZE" "distinct (logged s)"
      "set (logged s) \<inter> log_region s = {}" "pinned s \<inter> log_region s = {}"
      "\<forall>m \<in> set (logged s). m < disksize s" "card (pinned s) < NBUF"
      "set (logged s) \<subseteq> pinned s \<or> Suc (card (pinned s)) < NBUF"
    using ins unfolding installable_def by blast+
  define I where "I = (\<lambda>(xs :: nat list) t. \<exists>k. xs = [k..<?n] \<and> k \<le> ?n \<and> bio_inv t \<and> bframe s t \<and> busy t = {} \<and>
    pinned t = pinned s - {lh_sector s ! i | i. i < k} \<and> blk t = apply_writes (install_writes s k) (blk s) \<and>
    disk t = apply_writes (install_writes s k) (disk s) \<and> writes t = writes s @ install_writes s k)"
  show ?thesis
    unfolding wp_run_eq [of install_trans s "foreach [0..<?n] install_one", OF install_trans_def [THEN fun_cong]]
  proof (rule wp_foreach [where I = I])
    show "I [0..<?n] s" using inv by (auto simp: I_def install_writes_def bf.frame_refl intro!: exI [of _ 0])
  next
    fix x ys t
    assume "I (x # ys) t"
    then obtain k where k: "x # ys = [k..<?n]" "k \<le> ?n" and t: "bio_inv t" "bframe s t" "busy t = {}"
        "pinned t = pinned s - {lh_sector s ! i | i. i < k}" "blk t = apply_writes (install_writes s k) (blk s)"
        "disk t = apply_writes (install_writes s k) (disk s)" "writes t = writes s @ install_writes s k"
      unfolding I_def by blast
    have xk: "x = k" "ys = [Suc k..<?n]" "k < ?n" using k(1) [symmetric] by (auto simp: upt_eq_Cons_conv)
    let ?a = "log_block s k" and ?d = "lh_sector s ! k"
    have kn: "int k < l_size s - 1" using xk(3) inv(6,7) by linarith
    note a = log_block_region [OF inv(5) kn]
    have d: "?d \<in> set (logged s)" by (rule logged_nth [OF xk(3) inv(8,9)])
    then have dr: "?d \<notin> log_region s" "?d < disksize s" using inv(11,13) by blast+
    have home: "n \<notin> fst ` set (install_writes s k)" if "n \<in> log_region s" for n
      using that install_writes_home [OF k(2) inv(8,9)] inv(11) by blast
    have fr: "l_start t = l_start s" "lh_sector t = lh_sector s" "l_dev t = ROOTDEV" "held t = {}" "disksize t = disksize s"
      using bframe_log [OF t(2)] bframe_sel [OF t(2)] inv by simp_all
    have blka: "blk t ?a = blk s ?a" unfolding t(5) by (rule apply_writes_other [OF home [OF a(1)]])
    have dp: "?d \<in> pinned t" if "set (logged s) \<subseteq> pinned s"
    proof -
      have "?d \<noteq> lh_sector s ! i" if "i < k" for i
        using logged_nth_inj [OF inv(10,8,9), of k i] xk(3) that by auto
      then show ?thesis unfolding t(4) using d that by blast
    qed
    have "card (pinned t) \<le> card (pinned s)"
      unfolding t(4) by (rule card_mono) (auto simp: pinned_def)
    then have room: "card (busy t \<union> pinned t) < NBUF" "?d \<in> pinned t \<or> Suc (card (busy t \<union> pinned t)) < NBUF"
      using inv(14,15) dp unfolding t(3) by (auto simp del: One_nat_def)
    have "wp (install_one k) (\<lambda>_ s'. bio_inv s' \<and> bframe t s' \<and> blk s' = (blk t)(?d := blk t ?a) \<and> busy s' = busy t \<and>
        pinned s' = pinned t - {?d} \<and> disk s' = (disk t)(?d := blk t ?a) \<and> writes s' = writes t @ [(?d, blk t ?a)]) t"
      by (rule install_one_spec [OF t(1) fr(4,3) _ _ _ _ _ _ _ _ room])
        (use fr a dr t(3,4) inv(12) in \<open>auto simp: log_block_def\<close>)
    then show "wp (install_one x) (\<lambda>_. I ys) t"
      unfolding xk(1)
    proof (rule wp_mono)
      fix u v
      assume v: "bio_inv v \<and> bframe t v \<and> blk v = (blk t)(?d := blk t ?a) \<and> busy v = busy t \<and>
        pinned v = pinned t - {?d} \<and> disk v = (disk t)(?d := blk t ?a) \<and> writes v = writes t @ [(?d, blk t ?a)]"
      have "bframe s v" using bf.frame_trans [OF t(2)] v by blast
      moreover have "pinned v = pinned s - {lh_sector s ! i | i. i < Suc k}"
        using v t(4) by (auto simp: less_Suc_eq)
      moreover have "install_writes s (Suc k) = install_writes s k @ [(?d, blk s ?a)]"
        by (simp add: install_writes_def)
      ultimately show "I ys v"
        unfolding I_def using v t xk blka by (intro exI [of _ "Suc k"]) simp
    qed
  next
    fix t
    assume "I [] t"
    then obtain k where "[] = [k..<?n]" "k \<le> ?n" and t: "bio_inv t" "bframe s t" "busy t = {}"
        "pinned t = pinned s - {lh_sector s ! i | i. i < k}" "blk t = apply_writes (install_writes s k) (blk s)"
        "disk t = apply_writes (install_writes s k) (disk s)" "writes t = writes s @ install_writes s k"
      unfolding I_def by blast
    then have "[k..<?n] = []" "k \<le> ?n" by simp_all
    then have "k = ?n" by (simp only: upt_eq_Nil_conv) linarith
    moreover have "{lh_sector s ! i | i. i < ?n} = set (logged s)"
      unfolding logged_def using inv(8,9) by (subst nth_image [symmetric]) auto
    ultimately show "bio_inv t \<and> bframe s t \<and> busy t = {} \<and> pinned t = pinned s - set (logged s) \<and>
      blk t = apply_writes (install_writes s ?n) (blk s) \<and> disk t = apply_writes (install_writes s ?n) (disk s) \<and>
      writes t = writes s @ install_writes s ?n"
      using t by simp
  qed
qed

section \<open>log_write\<close>

text \<open>Everything outside the cache and the log header is unchanged.\<close>

definition lframe :: "'z log_state_scheme \<Rightarrow> 'z log_state_scheme \<Rightarrow> bool" where
  "lframe s s' \<longleftrightarrow> s' = s\<lparr>ptable := ptable s', bufs := bufs s', mru := mru s', disk := disk s', writes := writes s',
    lh_n := lh_n s', lh_sector := lh_sector s'\<rparr>"

interpretation lf: frame lframe
proof
  show "lframe s s" for s :: "'z log_state_scheme"
    by (simp add: lframe_def)
  show "lframe s u" if "lframe s t" "lframe t u" for s t u :: "'z log_state_scheme"
    unfolding lframe_def
    by (rule trans [OF that(2) [unfolded lframe_def]], subst that(1) [unfolded lframe_def]) simp
qed

lemma bframe_lframe:
  assumes "bframe s s'"
  shows "lframe s s'"
proof -
  have "s\<lparr>ptable := ptable s', bufs := bufs s', mru := mru s', disk := disk s', writes := writes s',
      lh_n := lh_n s', lh_sector := lh_sector s'\<rparr> =
    s\<lparr>ptable := ptable s', bufs := bufs s', mru := mru s', disk := disk s', writes := writes s'\<rparr>"
    using bframe_log(5,6) [OF assms] by simp
  then show ?thesis using assms unfolding lframe_def bframe_def by metis
qed

lemma lframe_header: "lframe s (s\<lparr>lh_n := n, lh_sector := v\<rparr>)" "lframe s (s\<lparr>lh_sector := v\<rparr>)" "lframe s (s\<lparr>lh_n := n\<rparr>)"
  by (simp_all add: lframe_def)

lemma lframe_sel:
  assumes "lframe s s'"
  shows "held s' = held s" "disksize s' = disksize s" "cpus s' = cpus s" "mycpu s' = mycpu s" "mem s' = mem s"
    "log_state.more s' = log_state.more s" "curproc s' = curproc s" "l_start s' = l_start s" "l_size s' = l_size s"
    "l_busy s' = l_busy s" "l_dev s' = l_dev s" "log_region s' = log_region s"
  by (subst assms [unfolded lframe_def], simp add: curproc_def log_region_def)+

text \<open>The cache does not see the header.\<close>

lemma bio_header [simp]:
  "blk (s\<lparr>lh_n := n\<rparr>) = blk s" "blk (s\<lparr>lh_sector := v\<rparr>) = blk s" "blk (s\<lparr>l_busy := b\<rparr>) = blk s"
  "busy (s\<lparr>lh_n := n\<rparr>) = busy s" "busy (s\<lparr>lh_sector := v\<rparr>) = busy s" "busy (s\<lparr>l_busy := b\<rparr>) = busy s"
  "pinned (s\<lparr>lh_n := n\<rparr>) = pinned s" "pinned (s\<lparr>lh_sector := v\<rparr>) = pinned s" "pinned (s\<lparr>l_busy := b\<rparr>) = pinned s"
  "holds (s\<lparr>lh_n := n\<rparr>) = holds s" "holds (s\<lparr>lh_sector := v\<rparr>) = holds s" "holds (s\<lparr>l_busy := b\<rparr>) = holds s"
  "bio_inv (s\<lparr>lh_n := n\<rparr>) = bio_inv s" "bio_inv (s\<lparr>lh_sector := v\<rparr>) = bio_inv s" "bio_inv (s\<lparr>l_busy := b\<rparr>) = bio_inv s"
  by (rule bio_same; simp)+

lemma log_index_cases:
  assumes "length (lh_sector s) = LOGSIZE" and "lh_n s \<le> int LOGSIZE"
  obtains "m \<in> set (logged s)" and "log_index m s < nat (lh_n s)" and "lh_sector s ! log_index m s = m"
    | "m \<notin> set (logged s)" and "log_index m s = nat (lh_n s)"
proof (cases "find (\<lambda>i. lh_sector s ! i = m) [0..<nat (lh_n s)]")
  case None
  then have "lh_sector s ! i \<noteq> m" if "i < nat (lh_n s)" for i using that by (simp add: find_upt_None)
  then have "m \<notin> set (logged s)" using assms by (auto simp: logged_def in_set_conv_nth)
  then show ?thesis using None by (intro that(2)) (simp_all add: log_index_def)
next
  case (Some i)
  then have "i < nat (lh_n s)" "lh_sector s ! i = m" by (simp_all add: find_upt_Some)
  then show ?thesis using Some logged_nth [OF _ assms, of i] by (intro that(1)) (simp_all add: log_index_def)
qed

text \<open>The header after \<open>log_write\<close> of block \<open>m\<close>: it lists \<open>m\<close> besides the blocks it listed.\<close>

lemma logged_insert:
  assumes len: "length (lh_sector s) = LOGSIZE" and n: "0 \<le> lh_n s" "lh_n s < int LOGSIZE"
    and d: "distinct (logged s)" and i_def: "i = log_index m s" and v_def: "v = (lh_sector s)[i := m]"
    and n'_def: "n' = (if int i = lh_n s then lh_n s + 1 else lh_n s)"
  shows "set (take (nat n') v) = insert m (set (logged s))" and "distinct (take (nat n') v)"
    and "i < nat n'" and "v ! i = m" and "i \<le> nat (lh_n s)" and "n' \<le> lh_n s + 1" and "lh_n s \<le> n'"
    and "j < nat n' \<Longrightarrow> j \<noteq> i \<Longrightarrow> v ! j = lh_sector s ! j \<and> j < nat (lh_n s)"
proof -
  have n10: "lh_n s \<le> int LOGSIZE" using n by simp
  have "set (take (nat n') v) = insert m (set (logged s)) \<and> distinct (take (nat n') v) \<and> i < nat n' \<and> v ! i = m \<and>
    i \<le> nat (lh_n s) \<and> n' \<le> lh_n s + 1 \<and> lh_n s \<le> n' \<and>
    (j < nat n' \<longrightarrow> j \<noteq> i \<longrightarrow> v ! j = lh_sector s ! j \<and> j < nat (lh_n s))"
  proof (rule log_index_cases [OF len n10, of m])
    assume a: "m \<in> set (logged s)" "log_index m s < nat (lh_n s)" "lh_sector s ! log_index m s = m"
    have v: "v = lh_sector s" unfolding v_def i_def by (metis a(3) list_update_id)
    have "n' = lh_n s" using a(2) n unfolding n'_def i_def by simp
    then show ?thesis using a d len n unfolding v i_def by (auto simp: logged_def)
  next
    assume a: "m \<notin> set (logged s)" "log_index m s = nat (lh_n s)"
    have i: "i = nat (lh_n s)" "i < length (lh_sector s)" using a(2) len n unfolding i_def by simp_all
    have n': "n' = lh_n s + 1" using i n unfolding n'_def by simp
    have "nat n' = Suc i" using n' i n by simp
    then have t: "take (nat n') v = logged s @ [m]"
      unfolding v_def logged_def using i by (simp add: take_Suc_conv_app_nth)
    have "v ! i = m" unfolding v_def using i by simp
    then show ?thesis using a d i n' n \<open>nat n' = Suc i\<close> unfolding t by (auto simp: v_def)
  qed
  then show "set (take (nat n') v) = insert m (set (logged s))" and "distinct (take (nat n') v)"
    and "i < nat n'" and "v ! i = m" and "i \<le> nat (lh_n s)" and "n' \<le> lh_n s + 1" and "lh_n s \<le> n'"
    and "j < nat n' \<Longrightarrow> j \<noteq> i \<Longrightarrow> v ! j = lh_sector s ! j \<and> j < nat (lh_n s)"
    by simp_all
qed

lemma log_invD:
  assumes "log_inv s"
  shows "bio_inv s" and "l_dev s = ROOTDEV" and "1 < l_size s" and "l_size s \<le> int LOGSIZE"
    and "unat (l_start s) + nat (l_size s) \<le> unat (disksize s)" and "0 \<le> lh_n s" and "lh_n s < l_size s"
    and "length (lh_sector s) = LOGSIZE" and "distinct (logged s)" and "set (logged s) \<inter> log_region s = {}"
    and "busy s \<inter> log_region s = {}" and "pinned s = set (logged s)" and "\<forall>m \<in> set (logged s). m < disksize s"
    and "\<forall>i < nat (lh_n s). lh_sector s ! i \<notin> busy s \<longrightarrow> disk s (log_block s i) = blk s (lh_sector s ! i)"
    and "hd_n (disk s (l_start s)) = 0" and "hd_n (blk s (l_start s)) = 0" and "lh_n s \<le> int LOGSIZE"
    and "l_start s \<in> log_region s" and "l_start s < disksize s"
proof -
  show 3: "1 < l_size s" and 5: "unat (l_start s) + nat (l_size s) \<le> unat (disksize s)"
    using assms unfolding log_inv_def by blast+
  show "bio_inv s" "l_dev s = ROOTDEV" "l_size s \<le> int LOGSIZE" "0 \<le> lh_n s" "lh_n s < l_size s"
    "length (lh_sector s) = LOGSIZE" "distinct (logged s)" "set (logged s) \<inter> log_region s = {}"
    "busy s \<inter> log_region s = {}" "pinned s = set (logged s)" "\<forall>m \<in> set (logged s). m < disksize s"
    "\<forall>i < nat (lh_n s). lh_sector s ! i \<notin> busy s \<longrightarrow> disk s (log_block s i) = blk s (lh_sector s ! i)"
    "hd_n (disk s (l_start s)) = 0" "hd_n (blk s (l_start s)) = 0"
    using assms unfolding log_inv_def log_block_def by blast+
  then show "lh_n s \<le> int LOGSIZE" by linarith
  show "l_start s \<in> log_region s" using 3 by (simp add: log_region_def)
  show "l_start s < disksize s" using 3 5 by (simp add: word_less_nat_alt)
qed

text \<open>The copy of a logged block in the log is current.\<close>

definition log_current :: "'z log_state_scheme \<Rightarrow> uint \<Rightarrow> bool" where
  "log_current s m \<longleftrightarrow> (\<exists>i < nat (lh_n s). lh_sector s ! i = m \<and> disk s (log_block s i) = blk s m)"

definition log_write_post :: "'z log_state_scheme \<Rightarrow> nat \<Rightarrow> uint \<Rightarrow> 'z log_state_scheme \<Rightarrow> bool" where
  "log_write_post s b m s' \<longleftrightarrow> log_inv s' \<and> lframe s s' \<and> holds s' b m \<and> log_current s' m \<and> busy s' = busy s \<and>
    set (logged s') = insert m (set (logged s)) \<and>
    (\<exists>a \<in> log_region s - {l_start s}. blk s' = (blk s)(a := blk s m) \<and> disk s' = (disk s)(a := blk s m) \<and>
      writes s' = writes s @ [(a, blk s m)]) \<and>
    (\<forall>j < nat (lh_n s'). lh_sector s' ! j \<noteq> m \<longrightarrow> j < nat (lh_n s) \<and> lh_sector s' ! j = lh_sector s ! j \<and>
      disk s' (log_block s' j) = disk s (log_block s j)) \<and>
    (\<forall>j n. holds s j n \<longrightarrow> holds s' j n)"

lemma log_write_spec:
  assumes inv: "log_inv s" and h: "held s = {}" and b: "holds s b m" and m: "m \<notin> log_region s" "m < disksize s"
    and busy: "l_busy s" and n: "lh_n s < int LOGSIZE" "lh_n s < l_size s - 1"
    and room: "card (busy s \<union> pinned s) < NBUF"
  shows "wp (log_write b) (\<lambda>_. log_write_post s b m) s"
proof -
  define i where "i = log_index m s"
  define v where "v = (lh_sector s)[i := m]"
  define n' where "n' = (if int i = lh_n s then lh_n s + 1 else lh_n s)"
  define s0 where "s0 = s\<lparr>lh_sector := v\<rparr>"
  let ?a = "log_block s i"
  note I = log_invD [OF inv]
  note L = logged_insert [OF I(8,6) n(1) I(9) i_def v_def n'_def]
  have il: "int i < l_size s - 1" using L(5) n(2) I(6) by linarith
  note a = log_block_region [OF I(5) il]
  have a': "?a \<notin> busy s" "?a \<notin> pinned s" using a(1) I(10-12) by blast+
  have dev: "b_dev (bufs s ! b) = ROOTDEV" "b_sector (bufs s ! b) = m" using b by (auto simp: holds_def cached_def)
  have s0: "bio_inv s0" "held s0 = {}" "?a < disksize s0" "?a \<notin> busy s0" "card (busy s0 \<union> pinned s0) < NBUF"
    using I(1) h a(2) a' room by (simp_all add: s0_def)
  obtain l s1 where s1: "bread ROOTDEV ?a s0 = Ret l s1" "bio_inv s1" "bframe s0 s1" "holds s1 l ?a" "blk s1 = blk s0"
      "busy s1 = insert ?a (busy s0)" "pinned s1 = pinned s0" "disk s1 = disk s0" "writes s1 = writes s0"
      "\<forall>j m. holds s0 j m \<longrightarrow> holds s1 j m \<and> j \<noteq> l"
    by (rule bread_run [OF s0(1-4) disjI2 [OF s0(5)]])
  have b1: "holds s1 b m" using s1(10) b by (simp add: s0_def)
  have data: "buf_data b s1 = blk s m" using holds_data [OF s1(2) b1] s1(5) by (simp add: s0_def)
  obtain s2 where s2: "set_data l (\<lambda>_. blk s m) s1 = Ret () s2" "bio_inv s2" "bframe s1 s2" "holds s2 l ?a"
      "blk s2 = (blk s1)(?a := blk s m)" "busy s2 = busy s1" "pinned s2 = pinned s1" "disk s2 = disk s1"
      "writes s2 = writes s1" "\<forall>j m. holds s1 j m \<longrightarrow> holds s2 j m"
    by (rule set_data_run [where f = "\<lambda>_. blk s m", OF s1(2,4) length_blk [OF I(1)]])
  have "?a < disksize s2" using s0(3) bframe_sel(2) [OF s1(3)] bframe_sel(2) [OF s2(3)] by simp
  note ds2 = this
  obtain s3 where s3: "bwrite l s2 = Ret () s3" "bio_inv s3" "bframe s2 s3" "holds s3 l ?a" "blk s3 = blk s2"
      "busy s3 = busy s2" "pinned s3 = pinned s2 - {?a}" "disk s3 = (disk s2)(?a := blk s2 ?a)"
      "writes s3 = writes s2 @ [(?a, blk s2 ?a)]" "\<forall>j m. holds s2 j m \<longrightarrow> holds s3 j m"
    by (rule bwrite_run [OF s2(2,4) ds2])
  have fr3: "bframe s0 s3" using bf.frame_trans s1(3) s2(3) s3(3) by blast
  have h3: "held s3 = {}" using bframe_sel(1) [OF fr3] s0(2) by simp
  have c3: "?a \<in> pinned s3 \<or> blk s3 ?a = disk s3 ?a" using s3(5,8) by simp
  obtain s4 where s4: "brelse l s3 = Ret () s4" "bio_inv s4" "bframe s3 s4" "blk s4 = blk s3"
      "busy s4 = busy s3 - {?a}" "pinned s4 = pinned s3" "disk s4 = disk s3" "writes s4 = writes s3"
      "\<forall>j m. holds s3 j m \<longrightarrow> j \<noteq> l \<longrightarrow> holds s4 j m"
    by (rule brelse_run [OF s3(2,4) h3 c3])
  have fr4: "bframe s0 s4" using bf.frame_trans fr3 s4(3) by blast
  have keep4: "holds s4 j k" if "holds s j k" for j k
  proof -
    have "holds s1 j k \<and> j \<noteq> l" using s1(10) that by (simp add: s0_def)
    then show ?thesis using s2(10) s3(10) s4(9) by blast
  qed
  define s5 where "s5 = (if int i = lh_n s4 then s4\<lparr>lh_n := lh_n s4 + 1\<rparr> else s4)"
  have n4: "lh_n s4 = lh_n s" "lh_sector s4 = v" using bframe_log(5,6) [OF fr4] by (simp_all add: s0_def)
  have s5: "bio_inv s5" "holds s5 b m" "blk s5 = blk s4" "busy s5 = busy s4" "pinned s5 = pinned s4" "disk s5 = disk s4"
      "writes s5 = writes s4" "lh_n s5 = n'" "lh_sector s5 = v"
    using s4(2) keep4 [OF b] n4 by (simp_all add: s5_def n'_def)
  obtain s6 where s6: "upd_buf b (set_flag B_DIRTY) s5 = s6" "bio_inv s6" "bframe s5 s6" "holds s6 b m"
      "blk s6 = blk s5" "busy s6 = busy s5" "pinned s6 = insert m (pinned s5)" "disk s6 = disk s5"
      "writes s6 = writes s5" "\<forall>j m. holds s5 j m \<longrightarrow> holds s6 j m"
    by (rule pin_run [OF s5(1,2)])
  have run: "log_write b s = Ret () s6"
  proof -
    have "\<not> (lh_n s \<ge> int LOGSIZE \<or> lh_n s \<ge> l_size s - 1)" using n by linarith
    then have "log_write b s = thenk (modk (\<lambda>s. s\<lparr>lh_sector := (lh_sector s)[i := b_sector (bufs s ! b)]\<rparr>))
      (bindk (bread ROOTDEV ?a) (\<lambda>lbuf. bindk (getk (buf_data b)) (\<lambda>d. thenk (set_data lbuf (\<lambda>_. d))
       (thenk (bwrite lbuf) (thenk (brelse lbuf)
       (thenk (modk (\<lambda>s. if int i = lh_n s then s\<lparr>lh_n := lh_n s + 1\<rparr> else s))
       (modk (upd_buf b (set_flag B_DIRTY))))))))) s"
      using busy dev unfolding log_write_def i_def log_block_def Let_def by (simp only: if_False if_True simp_thms)
    also have "\<dots> = Ret () s6"
      using s1(1) s2(1) s3(1) s4(1) s6(1) data dev by (simp add: s0_def [symmetric] v_def [symmetric] s5_def [symmetric])
    finally show ?thesis .
  qed
  have fr: "lframe s s6"
  proof -
    have "lframe s s0" unfolding s0_def by (rule lframe_header(2))
    moreover have "lframe s0 s4" using bframe_lframe [OF fr4] .
    moreover have "lframe s4 s5" unfolding s5_def using lframe_header(3) lf.frame_refl by auto
    moreover have "lframe s5 s6" using bframe_lframe [OF s6(3)] .
    ultimately show ?thesis using lf.frame_trans by blast
  qed
  have hdr: "lh_n s6 = n'" "lh_sector s6 = v" using bframe_log(5,6) [OF s6(3)] s5(8,9) by simp_all
  have blk6: "blk s6 = (blk s)(?a := blk s m)" and disk6: "disk s6 = (disk s)(?a := blk s m)"
    and writes6: "writes s6 = writes s @ [(?a, blk s m)]" and busy6: "busy s6 = busy s"
    and pinned6: "pinned s6 = insert m (pinned s)"
    using s6 s5 s4 s3 s2 s1 a' by (auto simp: s0_def)
  have am: "?a \<noteq> m" using a(1) m(1) by blast
  have fs: "l_start s6 = l_start s" "l_size s6 = l_size s" "l_dev s6 = l_dev s" "disksize s6 = disksize s"
      "log_region s6 = log_region s"
    using lframe_sel [OF fr] by blast+
  have lb: "log_block s6 k = log_block s k" for k by (simp add: log_block_def fs)
  have logged6: "logged s6 = take (nat n') v" by (simp add: logged_def hdr)
  have other: "lh_sector s6 ! j = lh_sector s ! j" "j < nat (lh_n s)" "disk s6 (log_block s6 j) = disk s (log_block s j)"
    if j: "j < nat n'" "lh_sector s6 ! j \<noteq> m" for j
  proof -
    have "j \<noteq> i" using j(2) L(4) hdr(2) by auto
    then show "lh_sector s6 ! j = lh_sector s ! j" "j < nat (lh_n s)" using L(8) [OF j(1)] hdr(2) by simp_all
    then have jl: "int j < l_size s - 1" using n(2) I(6) by linarith
    have "log_block s j \<noteq> ?a" by (rule notI, drule log_block_inj [OF I(5) jl il]) (use \<open>j \<noteq> i\<close> in simp)
    then show "disk s6 (log_block s6 j) = disk s (log_block s j)" unfolding lb disk6 by (rule fun_upd_other)
  qed
  have cur: "disk s6 (log_block s6 j) = blk s6 (lh_sector s6 ! j)" if j: "j < nat n'" "lh_sector s6 ! j \<notin> busy s" for j
  proof -
    have "lh_sector s6 ! j \<noteq> m" using j(2) holds_busy [OF I(1) b] by auto
    note jj = other [OF j(1) this]
    have 2: "lh_sector s ! j \<noteq> ?a"
      by (rule notI) (use logged_nth [OF jj(2) I(8,17)] a(1) I(10) in \<open>simp add: disjoint_iff\<close>)
    have "disk s (log_block s j) = blk s (lh_sector s ! j)" using I(14) jj j(2) by simp
    then show ?thesis unfolding jj(3) blk6 jj(1) fun_upd_other [OF 2] .
  qed
  have "log_inv s6"
    unfolding log_inv_def logged6 fs pinned6 busy6 hdr
  proof (intro conjI)
    show "0 \<le> n'" "n' < l_size s" using L(6,7) I(6) n(2) by linarith+
    show "length v = LOGSIZE" using I(8) by (simp add: v_def)
    show "set (take (nat n') v) \<inter> log_region s = {}" unfolding L(1) using m(1) I(10) by blast
    show "insert m (pinned s) = set (take (nat n') v)" unfolding L(1) I(12) ..
    show "\<forall>m \<in> set (take (nat n') v). m < disksize s" unfolding L(1) using m(2) I(13) by blast
    show "\<forall>i < nat n'. v ! i \<notin> busy s \<longrightarrow> disk s6 (l_start s + of_nat i + 1) = blk s6 (v ! i)"
      using cur unfolding lb unfolding log_block_def hdr by blast
    show "hd_n (disk s6 (l_start s)) = 0" "hd_n (blk s6 (l_start s)) = 0"
      using I(15,16) a(3) unfolding disk6 blk6 by simp_all
  qed (use I(2-5,11) L(2) s6(2) in blast)+
  moreover have "log_current s6 m"
    unfolding log_current_def lb hdr disk6 blk6 using L(3,4) am by (intro exI [of _ i]) simp
  moreover have "set (logged s6) = insert m (set (logged s))" unfolding logged6 by (rule L(1))
  moreover have "holds s6 j k" if "holds s j k" for j k
    using s6(10) keep4 [OF that] by (simp add: s5_def split: if_splits)
  moreover have "?a \<in> log_region s - {l_start s}" using a(1,3) by blast
  ultimately show ?thesis
    unfolding wp_def run log_write_post_def using fr s6(4) busy6 blk6 disk6 writes6 other hdr(1) by auto
qed

end
