(* ===== verification/Xv6_Crash.thy ===== *)
theory Xv6_Crash
  imports Xv6_Log
begin

text \<open>
  Commit and recovery of log.c, and what a crash leaves behind. The first part gives the
  sequence of sector writes of \<open>commit_trans\<close> and of \<open>initlog\<close>. The second part shows on
  such sequences that a crash after any of the writes, and further crashes during
  recovery, lead to the contents before or after the transaction and nothing in between.
\<close>

section \<open>Commit\<close>

definition commit_writes :: "'z log_state_scheme \<Rightarrow> (uint \<times> byte list) list" where
  "commit_writes s =
    (let h = hd_write (lh_n s) (lh_sector s) (blk s (l_start s)) in
     (l_start s, h) # install_writes s (nat (lh_n s)) @ [(l_start s, hd_write 0 (lh_sector s) h)])"

text \<open>The part of \<open>commit_trans\<close> that works on the disk.\<close>

definition commit_log :: "(unit, 'z log_state_scheme) kernel" where
  "commit_log = thenk write_head (thenk install_trans (thenk (modk (\<lambda>s. s\<lparr>lh_n := 0\<rparr>)) write_head))"

lemma commit_trans_eq:
  "commit_trans s = thenk (whenk (lh_n s > 0) commit_log)
    (thenk (acquire LkLog) (thenk (modk (\<lambda>s. s\<lparr>l_busy := False\<rparr>)) (thenk (wakeup ChanLog) (release LkLog)))) s"
  by (simp add: commit_trans_def commit_log_def)

lemma install_writes_cong:
  assumes "lh_sector s' = lh_sector s" and "l_start s' = l_start s"
    and "\<And>i. i < k \<Longrightarrow> blk s' (log_block s i) = blk s (log_block s i)"
  shows "install_writes s' k = install_writes s k"
  unfolding install_writes_def log_block_def using assms by (simp add: log_block_def)

lemma card_logged:
  assumes "log_inv s"
  shows "card (pinned s) < NBUF" and "card (pinned s) = nat (lh_n s)"
proof -
  note I = log_invD [OF assms]
  show eq: "card (pinned s) = nat (lh_n s)"
    unfolding I(12) using distinct_card [OF I(9)] I(8,17) by (simp add: logged_def)
  show "card (pinned s) < NBUF" unfolding eq using I(4,7) by simp
qed

text \<open>The current copies, for a state in which nobody works on a block.\<close>

lemma log_copy:
  assumes "log_inv s" and "busy s = {}" and "i < nat (lh_n s)"
  shows "blk s (log_block s i) = blk s (lh_sector s ! i)"
proof -
  note I = log_invD [OF assms(1)]
  have "int i < l_size s - 1" using assms(3) I(6,7) by linarith
  note a = log_block_region [OF I(5) this]
  have "log_block s i \<notin> pinned s" using a(1) I(10,12) by blast
  then have "blk s (log_block s i) = disk s (log_block s i)" using clean_blk [OF I(1)] assms(2) by blast
  then show ?thesis using I(14) assms(2,3) by simp
qed

lemma apply_install_writes:
  assumes "distinct (logged s)" and "length (lh_sector s) = LOGSIZE" and "lh_n s \<le> int LOGSIZE" and "i < k" and "k \<le> nat (lh_n s)"
  shows "apply_writes (install_writes s k) d (lh_sector s ! i) = blk s (log_block s i)"
  using assms(4,5)
proof (induction k)
  case (Suc k)
  have e: "install_writes s (Suc k) = install_writes s k @ [(lh_sector s ! k, blk s (log_block s k))]"
    by (simp add: install_writes_def)
  show ?case
  proof (cases "i = k")
    case False
    then have "i < k" using Suc.prems by simp
    moreover have "lh_sector s ! i \<noteq> lh_sector s ! k"
      using logged_nth_inj [OF assms(1-3), of i k] Suc.prems False by auto
    ultimately show ?thesis unfolding e using Suc by simp
  qed (simp add: e)
qed simp

lemma commit_log_spec:
  assumes inv: "log_inv s" and h: "held s = {}" and b: "busy s = {}"
  shows "wp commit_log (\<lambda>_ s'. log_inv s' \<and> lframe s s' \<and> lh_n s' = 0 \<and> busy s' = {} \<and> pinned s' = {} \<and>
    writes s' = writes s @ commit_writes s \<and> disk s' = apply_writes (commit_writes s) (disk s) \<and>
    blk s' = apply_writes (commit_writes s) (blk s)) s"
proof -
  note I = log_invD [OF inv]
  let ?n = "nat (lh_n s)"
  have room: "card (busy s \<union> pinned s) < NBUF" using card_logged [OF inv] b by simp
  have st: "l_start s \<notin> busy s" "l_start s \<notin> pinned s" using I(10-12,18) by blast+
  define h1 where "h1 = hd_write (lh_n s) (lh_sector s) (blk s (l_start s))"
  obtain s1 where s1: "write_head s = Ret () s1" "bio_inv s1" "bframe s s1" "blk s1 = (blk s)(l_start s := h1)"
      "busy s1 = busy s" "pinned s1 = pinned s" "disk s1 = (disk s)(l_start s := h1)" "writes s1 = writes s @ [(l_start s, h1)]"
    using write_head_spec [OF I(1) h I(2,19) st(1) room I(6,17) st(2)] unfolding h1_def by (auto elim: wpE)
  note f1 = bframe_log [OF s1(3)] bframe_sel [OF s1(3)] bframe_logged [OF s1(3)] bframe_log_region [OF s1(3)]
  have ins: "installable s1"
    unfolding installable_def s1(5,6) f1 using s1(2) h b I(2,5-13,17) card_logged(1) [OF inv] by auto
  have lb: "log_block s i \<noteq> l_start s" if "i < ?n" for i
    using log_block_region(3) [OF I(5), of i] that I(6,7) by linarith
  have iw: "install_writes s1 ?n = install_writes s ?n"
    using lb by (intro install_writes_cong) (simp_all add: f1 s1(4))
  let ?w = "install_writes s ?n"
  obtain s2 where s2: "install_trans s1 = Ret () s2" "bio_inv s2" "bframe s1 s2" "busy s2 = {}"
      "pinned s2 = pinned s1 - set (logged s1)" "blk s2 = apply_writes ?w (blk s1)" "disk s2 = apply_writes ?w (disk s1)"
      "writes s2 = writes s1 @ ?w"
    using install_trans_spec [OF ins] unfolding f1 iw by (auto elim: wpE)
  have fr2: "bframe s s2" using bf.frame_trans s1(3) s2(3) by blast
  define s3 where "s3 = s2\<lparr>lh_n := 0\<rparr>"
  note f2 = bframe_log [OF fr2] bframe_sel [OF fr2]
  have start: "l_start s \<notin> fst ` set ?w"
    using install_writes_home [OF le_refl I(8,17)] I(10,18) by blast
  have p2: "pinned s2 = {}" unfolding s2(5) f1 s1(6) I(12) by simp
  have b3: "blk s3 (l_start s) = h1" unfolding s3_def
    using apply_writes_other [OF start] by (simp add: s2(6) s1(4))
  define h0 where "h0 = hd_write 0 (lh_sector s) h1"
  have st3: "bio_inv s3" "held s3 = {}" "l_dev s3 = ROOTDEV" "l_start s3 < disksize s3" "l_start s3 \<notin> busy s3"
      "card (busy s3 \<union> pinned s3) < NBUF" "0 \<le> lh_n s3" "lh_n s3 \<le> int LOGSIZE" "l_start s3 \<notin> pinned s3"
    using s2(2,4) p2 f2 h I(2,19) by (simp_all add: s3_def)
  have l3: "l_start s3 = l_start s" "lh_sector s3 = lh_sector s" "lh_n s3 = 0" using f2 by (simp_all add: s3_def)
  obtain s4 where s4: "write_head s3 = Ret () s4" "bio_inv s4" "bframe s3 s4" "blk s4 = (blk s3)(l_start s := h0)"
      "busy s4 = busy s3" "pinned s4 = pinned s3" "disk s4 = (disk s3)(l_start s := h0)" "writes s4 = writes s3 @ [(l_start s, h0)]"
    using write_head_spec [OF st3] unfolding l3 b3 h0_def by (auto elim: wpE)
  have cw: "commit_writes s = (l_start s, h1) # ?w @ [(l_start s, h0)]"
    by (simp add: commit_writes_def h1_def h0_def Let_def)
  have run: "commit_log s = Ret () s4"
    using s1(1) s2(1) s4(1) by (simp add: commit_log_def s3_def)
  have fr: "lframe s s4"
    using bframe_lframe [OF fr2] lframe_header(3) [of s2 0] bframe_lframe [OF s4(3)] unfolding s3_def
    using lf.frame_trans by blast
  have len: "length h1 = BSIZE" unfolding h1_def by (rule hd_write_read(1) [OF length_blk [OF I(1)] I(6,17)])
  have h0n: "hd_n h0 = 0" unfolding h0_def using hd_write_read(2) [OF len, of 0] by simp
  note f4 = lframe_sel [OF fr]
  have e4: "lh_n s4 = 0" "lh_sector s4 = lh_sector s" using bframe_log(5,6) [OF s4(3)] l3 by simp_all
  have sets: "busy s4 = {}" "pinned s4 = {}" "logged s4 = []"
    using s4(5,6) s2(4) p2 e4 by (simp_all add: s3_def logged_def)
  have "log_inv s4"
    unfolding log_inv_def f4 e4 sets using s4(2,4,7) h0n I(2-5,8) by simp
  then show ?thesis
    unfolding wp_def run cw using fr e4(1) sets s4 s2 s1 by (simp add: s3_def apply_writes_append)
qed

section \<open>The log as it is on a disk\<close>

text \<open>
  For a disk of \<open>ds\<close> sectors with contents \<open>D\<close> and a log of \<open>sz\<close> blocks at \<open>st\<close>: the blocks
  of the log, what \<open>initlog\<close> finds in the super block, the blocks the header lists, and when
  the log is sound.
\<close>

definition region :: "uint \<Rightarrow> int \<Rightarrow> uint set" where
  "region st sz = {n. unat st \<le> unat n \<and> unat n < unat st + nat sz}"

definition sb_log :: "(uint \<Rightarrow> byte list) \<Rightarrow> uint \<times> int" where
  "sb_log D = (let sb = dec_sb (take 16 (D 1)) in (sb_size sb - sb_nlog sb, sint (sb_nlog sb)))"

definition disk_logged :: "uint \<Rightarrow> (uint \<Rightarrow> byte list) \<Rightarrow> uint list" where
  "disk_logged st D = map (hd_sector (D st)) [0..<nat (hd_n (D st))]"

definition disk_log_ok :: "uint \<Rightarrow> uint \<Rightarrow> int \<Rightarrow> (uint \<Rightarrow> byte list) \<Rightarrow> bool" where
  "disk_log_ok ds st sz D \<longleftrightarrow> sb_log D = (st, sz) \<and> 1 < sz \<and> sz \<le> int LOGSIZE \<and> unat st + nat sz \<le> unat ds \<and>
    1 < ds \<and> 1 \<notin> region st sz \<and> (\<forall>n. length (D n) = BSIZE) \<and> 0 \<le> hd_n (D st) \<and> hd_n (D st) < sz \<and>
    distinct (disk_logged st D) \<and> 1 \<notin> set (disk_logged st D) \<and>
    (\<forall>m \<in> set (disk_logged st D). m \<notin> region st sz \<and> m < ds)"

text \<open>The contents of the file system once the log is replayed, and the writes that do it.\<close>

definition recovered :: "uint \<Rightarrow> (uint \<Rightarrow> byte list) \<Rightarrow> uint \<Rightarrow> byte list" where
  "recovered st D n = (case find (\<lambda>i. hd_sector (D st) i = n) [0..<nat (hd_n (D st))] of
    Some i \<Rightarrow> D (st + of_nat i + 1) | None \<Rightarrow> D n)"

definition replay_writes :: "uint \<Rightarrow> (uint \<Rightarrow> byte list) \<Rightarrow> nat \<Rightarrow> (uint \<times> byte list) list" where
  "replay_writes st D k = map (\<lambda>i. (hd_sector (D st) i, D (st + of_nat i + 1))) [0..<k]"

definition recover_writes :: "uint \<Rightarrow> (uint \<Rightarrow> byte list) \<Rightarrow> (uint \<times> byte list) list" where
  "recover_writes st D = replay_writes st D (nat (hd_n (D st))) @ [(st, wr_at enc32 (D st) 0 0)]"

lemma hd_write_0: "hd_write 0 sec d = wr_at enc32 d 0 0"
  by (simp add: hd_write_def)

lemma hd_n_cleared:
  assumes "length d = BSIZE"
  shows "hd_n (wr_at enc32 d 0 0) = 0" and "length (wr_at enc32 d 0 0) = BSIZE"
  using hd_write_read(1,2) [OF assms, of 0 "[]"] by (simp_all add: hd_write_0)

lemma disk_log_block:
  assumes ok: "disk_log_ok ds st sz D" and k: "k < nat (hd_n (D st))"
  shows "st + of_nat k + 1 \<in> region st sz" and "st + of_nat k + 1 \<noteq> st"
proof -
  have sz: "unat st + nat sz \<le> unat ds" "hd_n (D st) < sz" using ok by (simp_all add: disk_log_ok_def)
  then have lt: "unat st + k + 1 < 4294967296" "k + 1 < nat sz" using k unat_lt_2_32 [of ds] by linarith+
  then have "unat (of_nat k :: uint) = k" by simp
  then have "unat (st + of_nat k) = unat st + k" using lt by (subst unat_add_no_wrap) simp_all
  then have u: "unat (st + of_nat k + 1) = unat st + k + 1" using lt by (subst unat_add_no_wrap) simp_all
  then show "st + of_nat k + 1 \<in> region st sz" using lt by (simp add: region_def)
  show "st + of_nat k + 1 \<noteq> st"
  proof
    assume "st + of_nat k + 1 = st"
    then have "unat (st + of_nat k + 1) = unat st" by (rule arg_cong)
    then show False unfolding u by linarith
  qed
qed

lemma replay_home: "k \<le> nat (hd_n (D st)) \<Longrightarrow> fst ` set (replay_writes st D k) \<subseteq> set (disk_logged st D)"
  by (auto simp: replay_writes_def disk_logged_def)

lemma replay_region:
  assumes "disk_log_ok ds st sz D" and "k \<le> nat (hd_n (D st))" and "n \<in> region st sz \<or> n = 1"
  shows "apply_writes (replay_writes st D k) D n = D n"
proof (rule apply_writes_other, rule notI)
  assume "n \<in> fst ` set (replay_writes st D k)"
  then have "n \<in> set (disk_logged st D)" using replay_home [where D = D and st = st, OF assms(2)] by blast
  then show False using assms(1,3) by (auto simp: disk_log_ok_def)
qed

lemma apply_replay:
  assumes d: "distinct (disk_logged st D)"
  shows "i < k \<Longrightarrow> k \<le> nat (hd_n (D st)) \<Longrightarrow>
    apply_writes (replay_writes st D k) D (hd_sector (D st) i) = D (st + of_nat i + 1)"
proof (induction k)
  case (Suc k)
  have e: "replay_writes st D (Suc k) = replay_writes st D k @ [(hd_sector (D st) k, D (st + of_nat k + 1))]"
    by (simp add: replay_writes_def)
  show ?case
  proof (cases "i = k")
    case False
    then have "i < k" using Suc.prems by simp
    moreover have "hd_sector (D st) i \<noteq> hd_sector (D st) k"
      using nth_eq_iff_index_eq [OF d, of i k] Suc.prems False by (simp add: disk_logged_def)
    ultimately show ?thesis unfolding e using Suc by simp
  qed (simp add: e)
qed simp

lemma recovered_nth:
  assumes "distinct (disk_logged st D)" and "i < nat (hd_n (D st))"
  shows "recovered st D (hd_sector (D st) i) = D (st + of_nat i + 1)"
proof -
  have "hd_sector (D st) j \<noteq> hd_sector (D st) i" if "j < i" for j
    using nth_eq_iff_index_eq [OF assms(1), of j i] assms(2) that by (simp add: disk_logged_def)
  then have "find (\<lambda>j. hd_sector (D st) j = hd_sector (D st) i) [0..<nat (hd_n (D st))] = Some i"
    using assms(2) by (simp add: find_upt_Some)
  then show ?thesis by (simp add: recovered_def)
qed

lemma recovered_other: "n \<notin> set (disk_logged st D) \<Longrightarrow> recovered st D n = D n"
proof -
  assume "n \<notin> set (disk_logged st D)"
  then have "find (\<lambda>j. hd_sector (D st) j = n) [0..<nat (hd_n (D st))] = None"
    by (auto simp: find_upt_None disk_logged_def)
  then show ?thesis by (simp add: recovered_def)
qed

lemma disk_loggedE:
  assumes "n \<in> set (disk_logged st D)"
  obtains i where "i < nat (hd_n (D st))" and "n = hd_sector (D st) i"
  using assms by (auto simp: disk_logged_def)

text \<open>All installs done: the disk is what recovery promises.\<close>

lemma replay_all:
  assumes "distinct (disk_logged st D)"
  shows "apply_writes (replay_writes st D (nat (hd_n (D st)))) D n = recovered st D n"
proof (cases "n \<in> set (disk_logged st D)")
  case True
  then obtain i where "i < nat (hd_n (D st))" "n = hd_sector (D st) i" by (rule disk_loggedE)
  then show ?thesis using apply_replay [OF assms] recovered_nth [OF assms] by simp
next
  case False
  then have "n \<notin> fst ` set (replay_writes st D (nat (hd_n (D st))))" using replay_home [of "nat (hd_n (D st))" D st] by blast
  then show ?thesis using recovered_other [OF False] apply_writes_other by metis
qed

text \<open>A recovery cut short after any number of writes leaves a sound log that stands for
  the same contents.\<close>

lemma recovery_prefix:
  assumes ok: "disk_log_ok ds st sz D" and D': "D' = apply_writes (take k (recover_writes st D)) D"
  shows "disk_log_ok ds st sz D'" and "n \<notin> region st sz \<Longrightarrow> recovered st D' n = recovered st D n"
proof -
  let ?n = "nat (hd_n (D st))"
  have d: "distinct (disk_logged st D)" and st: "st \<in> region st sz" and len: "\<And>n. length (D n) = BSIZE"
    and one: "1 \<notin> region st sz"
    using ok by (auto simp: disk_log_ok_def region_def)
  have lenw: "length (apply_writes (replay_writes st D j) D m) = BSIZE" if "j \<le> ?n" for j m
  proof (cases "m \<in> fst ` set (replay_writes st D j)")
    case True
    then obtain i where "i < j" "m = hd_sector (D st) i" by (auto simp: replay_writes_def)
    then show ?thesis using apply_replay [OF d, of i j] that len by simp
  next
    case False
    then show ?thesis using apply_writes_other len by metis
  qed
  show "disk_log_ok ds st sz D'" and "n \<notin> region st sz \<Longrightarrow> recovered st D' n = recovered st D n"
  proof (atomize (full), cases "k \<le> ?n")
    case True
    then have e: "take k (recover_writes st D) = replay_writes st D k"
      by (simp add: recover_writes_def replay_writes_def take_map)
    have same: "D' m = D m" if "m \<in> region st sz \<or> m = 1" for m
      unfolding D' e by (rule replay_region [OF ok True that])
    have hd: "D' st = D st" "disk_logged st D' = disk_logged st D" "sb_log D' = sb_log D"
      using same [of st] same [of 1] st by (simp_all add: disk_logged_def sb_log_def)
    have "recovered st D' m = recovered st D m" for m
    proof (cases "m \<in> set (disk_logged st D)")
      case m: True
      then obtain i where i: "i < ?n" "m = hd_sector (D st) i" by (rule disk_loggedE)
      have "recovered st D' m = D' (st + of_nat i + 1)"
        using recovered_nth [of st D' i] d i hd by simp
      then show ?thesis
        using same disk_log_block(1) [OF ok i(1)] recovered_nth [OF d i(1)] i(2) by simp
    next
      case m: False
      then have "m \<notin> fst ` set (replay_writes st D k)" using replay_home [where D = D and st = st, OF True] by blast
      then have "D' m = D m" unfolding D' e by (rule apply_writes_other)
      then show ?thesis using m recovered_other hd(2) by metis
    qed
    moreover have "length (D' m) = BSIZE" for m using lenw [OF True] unfolding D' e .
    then have "disk_log_ok ds st sz D'" using ok unfolding disk_log_ok_def hd by blast
    ultimately show "disk_log_ok ds st sz D' \<and> (n \<notin> region st sz \<longrightarrow> recovered st D' n = recovered st D n)" by blast
  next
    case False
    then have e: "take k (recover_writes st D) = recover_writes st D"
      by (simp add: recover_writes_def replay_writes_def)
    have D'2: "D' = (apply_writes (replay_writes st D ?n) D)(st := wr_at enc32 (D st) 0 0)"
      unfolding D' e unfolding recover_writes_def by simp
    have h: "hd_n (D' st) = 0" "length (D' st) = BSIZE" unfolding D'2 using hd_n_cleared [OF len] by simp_all
    then have none: "disk_logged st D' = []" by (simp add: disk_logged_def)
    have "D' 1 = D 1" unfolding D'2 using replay_region [OF ok le_refl, of 1] st one by auto
    then have sb: "sb_log D' = sb_log D" by (simp add: sb_log_def)
    have "length (D' m) = BSIZE" for m using h(2) lenw [OF le_refl, of m] unfolding D'2 by simp
    then have "disk_log_ok ds st sz D'" using ok h(1) unfolding disk_log_ok_def none sb by simp
    moreover have "recovered st D' n = recovered st D n" if "n \<notin> region st sz"
    proof -
      have "n \<noteq> st" using that st by blast
      then show ?thesis using recovered_other [of n st D'] none replay_all [OF d, of n] unfolding D'2 by simp
    qed
    ultimately show "disk_log_ok ds st sz D' \<and> (n \<notin> region st sz \<longrightarrow> recovered st D' n = recovered st D n)" by blast
  qed
qed

section \<open>Recovery\<close>

text \<open>The kernel after a reboot of a machine whose disk has contents \<open>D\<close>: nothing cached.\<close>

definition rebooted :: "uint \<Rightarrow> (uint \<Rightarrow> byte list) \<Rightarrow> 'z log_state_scheme \<Rightarrow> bool" where
  "rebooted ds D s \<longleftrightarrow> bio_inv s \<and> held s = {} \<and> busy s = {} \<and> pinned s = {} \<and> disk s = D \<and> disksize s = ds \<and>
    length (lh_sector s) = LOGSIZE"

lemma blk_disk: "bio_inv s \<Longrightarrow> busy s = {} \<Longrightarrow> pinned s = {} \<Longrightarrow> blk s = disk s"
  by (rule ext) (simp add: clean_blk)

lemma read_head_spec:
  assumes t: "bio_inv t" "held t = {}" "busy t = {}" "pinned t = {}" "l_dev t = ROOTDEV" "l_start t < disksize t"
    and d: "d = disk t (l_start t)" "hd_n d \<le> int LOGSIZE"
  shows "wp read_head (\<lambda>_ t'. bio_inv t' \<and> lframe t t' \<and> busy t' = {} \<and> pinned t' = {} \<and> disk t' = disk t \<and>
    writes t' = writes t \<and> lh_n t' = hd_n d \<and>
    lh_sector t' = map (hd_sector d) [0..<nat (hd_n d)] @ drop (nat (hd_n d)) (lh_sector t)) t"
proof -
  have room: "l_start t \<in> pinned t \<or> card (busy t \<union> pinned t) < NBUF" and nb: "l_start t \<notin> busy t"
    using t by simp_all
  obtain b s1 where s1: "bread ROOTDEV (l_start t) t = Ret b s1" "bio_inv s1" "bframe t s1" "holds s1 b (l_start t)"
      "blk s1 = blk t" "busy s1 = insert (l_start t) (busy t)" "pinned s1 = pinned t" "disk s1 = disk t" "writes s1 = writes t"
    by (rule bread_run [OF t(1,2,6) nb room])
  have data: "buf_data b s1 = d" using holds_data [OF s1(2,4)] s1(5) blk_disk [OF t(1,3,4)] d(1) by simp
  define v where "v = map (hd_sector d) [0..<nat (hd_n d)] @ drop (nat (hd_n d)) (lh_sector t)"
  define s2 where "s2 = s1\<lparr>lh_n := hd_n d, lh_sector := v\<rparr>"
  have s2: "bio_inv s2" "holds s2 b (l_start t)" "held s2 = {}" "l_start t \<in> pinned s2 \<or> blk s2 (l_start t) = disk s2 (l_start t)"
      "busy s2 = {l_start t}" "pinned s2 = {}" "disk s2 = disk t" "writes s2 = writes t"
    using s1 t bframe_sel(1) [OF s1(3)] blk_disk [OF t(1,3,4)] by (simp_all add: s2_def)
  obtain s3 where s3: "brelse b s2 = Ret () s3" "bio_inv s3" "bframe s2 s3" "blk s3 = blk s2"
      "busy s3 = busy s2 - {l_start t}" "pinned s3 = pinned s2" "disk s3 = disk s2" "writes s3 = writes s2"
    by (rule brelse_run [OF s2(1-4)])
  have run: "read_head t = Ret () s3"
    using s1(1) s3(1) data d(2) t(5) bframe_log(6) [OF s1(3)] by (simp add: read_head_def s2_def v_def not_less)
  have "lframe t s3"
    using bframe_lframe [OF s1(3)] lframe_header(1) [where s = s1 and n = "hd_n d" and v = v] bframe_lframe [OF s3(3)] unfolding s2_def
    using lf.frame_trans by blast
  then show ?thesis
    unfolding wp_def run using s3 s2 bframe_log(5,6) [OF s3(3)] by (simp add: s2_def v_def)
qed

lemma initlog_spec:
  assumes t: "rebooted ds D t" and ok: "disk_log_ok ds st sz D"
  shows "wp initlog (\<lambda>_ t'. log_inv t' \<and> lh_n t' = 0 \<and> busy t' = {} \<and> held t' = {} \<and> l_start t' = st \<and> l_size t' = sz \<and>
    disksize t' = ds \<and> disk t' = apply_writes (recover_writes st D) D \<and> blk t' = disk t' \<and>
    writes t' = writes t @ recover_writes st D) t"
proof -
  have T: "bio_inv t" "held t = {}" "busy t = {}" "pinned t = {}" "disk t = D" "disksize t = ds" "length (lh_sector t) = LOGSIZE"
    using t by (simp_all add: rebooted_def)
  have K: "sb_log D = (st, sz)" "1 < sz" "sz \<le> int LOGSIZE" "unat st + nat sz \<le> unat ds" "1 < ds" "0 \<le> hd_n (D st)"
      "hd_n (D st) < sz" "distinct (disk_logged st D)" "\<forall>m \<in> set (disk_logged st D). m \<notin> region st sz \<and> m < ds"
    using ok by (simp_all add: disk_log_ok_def)
  have n10: "hd_n (D st) \<le> int LOGSIZE" using K(3,7) by linarith
  let ?n = "nat (hd_n (D st))"
  \<comment> \<open>the super block\<close>
  have "wp (readsb ROOTDEV) (\<lambda>r s'. r = dec_sb (take 16 (blk t 1)) \<and> bio_inv s' \<and> bframe t s' \<and> blk s' = blk t \<and>
      busy s' = busy t \<and> pinned s' = pinned t \<and> disk s' = disk t \<and> writes s' = writes t \<and>
      (\<forall>j m. holds t j m \<longrightarrow> holds s' j m)) t"
    unfolding readsb_def using read_block [OF T(1,2), of 1 "\<lambda>d. dec_sb (take 16 d)"] T K(5) by simp
  then obtain sb s1 where s1: "readsb ROOTDEV t = Ret sb s1" "sb = dec_sb (take 16 (D 1))" "bio_inv s1" "bframe t s1"
      "busy s1 = {}" "pinned s1 = {}" "disk s1 = D" "writes s1 = writes t"
    using blk_disk [OF T(1,3,4)] T by (auto elim!: wpE)
  have sbl: "sb_size sb - sb_nlog sb = st" "sint (sb_nlog sb) = sz" using K(1) s1(2) by (simp_all add: sb_log_def Let_def)
  define s2 where "s2 = s1\<lparr>l_start := st, l_size := sz, l_dev := ROOTDEV\<rparr>"
  have same: "bufs s2 = bufs s1" "disk s2 = disk s1" "mru s2 = mru s1" by (simp_all add: s2_def)
  have f1: "held s1 = {}" "disksize s1 = ds" "lh_sector s1 = lh_sector t"
    using bframe_sel [OF s1(4)] bframe_log [OF s1(4)] T by simp_all
  have s2: "bio_inv s2" "held s2 = {}" "busy s2 = {}" "pinned s2 = {}" "l_dev s2 = ROOTDEV" "l_start s2 < disksize s2"
      "D st = disk s2 (l_start s2)"
    using bio_same [OF same] s1 f1 K(2,4) by (simp_all add: s2_def word_less_nat_alt)
  \<comment> \<open>the header\<close>
  obtain s3 where s3: "read_head s2 = Ret () s3" "bio_inv s3" "lframe s2 s3" "busy s3 = {}" "pinned s3 = {}" "disk s3 = disk s2"
      "writes s3 = writes s2" "lh_n s3 = hd_n (D st)"
      "lh_sector s3 = map (hd_sector (D st)) [0..<?n] @ drop ?n (lh_sector s2)"
    using read_head_spec [OF s2 n10] by (auto elim!: wpE)
  note f3 = lframe_sel [OF s3(3)]
  have l3: "l_start s3 = st" "l_size s3 = sz" "l_dev s3 = ROOTDEV" "held s3 = {}" "disksize s3 = ds" "disk s3 = D"
      "writes s3 = writes t"
    using f3 s1 f1 s3 s2(2) by (simp_all add: s2_def)
  have n10': "?n \<le> 10" using n10 by simp
  have len3: "length (lh_sector s3) = LOGSIZE" unfolding s3(9) using T(7) f1(3) n10' by (simp add: s2_def)
  have lg: "logged s3 = disk_logged st D" unfolding logged_def s3(8,9) disk_logged_def by simp
  have rg: "log_region s3 = region st sz" by (simp add: log_region_def region_def l3)
  have ins: "installable s3"
    unfolding installable_def lg rg l3 s3(4,5,8) using s3(2) K n10 len3 by auto
  have b3: "blk s3 = D" using blk_disk [OF s3(2,4,5)] l3 by simp
  have "i < ?n \<Longrightarrow> lh_sector s3 ! i = hd_sector (D st) i" for i unfolding s3(9) by (simp add: nth_append)
  then have iw: "install_writes s3 ?n = replay_writes st D ?n"
    unfolding install_writes_def replay_writes_def log_block_def b3 l3 by simp
  \<comment> \<open>the copies\<close>
  obtain s4 where s4: "install_trans s3 = Ret () s4" "bio_inv s4" "bframe s3 s4" "busy s4 = {}" "pinned s4 = {}"
      "disk s4 = apply_writes (replay_writes st D ?n) D" "writes s4 = writes t @ replay_writes st D ?n"
    using install_trans_spec [OF ins] unfolding s3(8) iw l3 s3(5) by (auto elim!: wpE)
  define s5 where "s5 = s4\<lparr>lh_n := 0\<rparr>"
  note f4 = bframe_sel [OF s4(3)] bframe_log [OF s4(3)]
  have s5: "bio_inv s5" "held s5 = {}" "l_dev s5 = ROOTDEV" "l_start s5 < disksize s5" "l_start s5 \<notin> busy s5"
      "card (busy s5 \<union> pinned s5) < NBUF" "0 \<le> lh_n s5" "lh_n s5 \<le> int LOGSIZE" "l_start s5 \<notin> pinned s5"
    using s4 f4 l3 K(2,4) by (simp_all add: s5_def word_less_nat_alt)
  have l5: "l_start s5 = st" "lh_n s5 = 0" "busy s5 = {}" "pinned s5 = {}" "disk s5 = disk s4" "writes s5 = writes s4"
    using s4 f4 l3 by (simp_all add: s5_def)
  have st_in: "st \<in> region st sz" using K(2) by (simp add: region_def)
  have "blk s5 st = D st"
    using blk_disk [OF s5(1) l5(3,4)] replay_region [OF ok le_refl, of st] st_in s4(6) by (simp add: l5)
  note b5 = this
  let ?h = "wr_at enc32 (D st) 0 0"
  \<comment> \<open>the empty header\<close>
  obtain s6 where s6: "write_head s5 = Ret () s6" "bio_inv s6" "bframe s5 s6" "blk s6 = (blk s5)(st := ?h)" "busy s6 = {}"
      "pinned s6 = {}" "disk s6 = (disk s4)(st := ?h)" "writes s6 = writes s4 @ [(st, ?h)]"
    using write_head_spec [OF s5] unfolding l5 hd_write_0 b5 by (auto elim!: wpE)
  have run: "initlog t = Ret () s6"
    using s1(1) s3(1) s4(1) s6(1) sbl
    by (simp add: initlog_def recover_from_log_def s2_def s5_def)
  note f6 = bframe_sel [OF s6(3)] bframe_log [OF s6(3)]
  have l6: "l_start s6 = st" "l_size s6 = sz" "l_dev s6 = ROOTDEV" "held s6 = {}" "disksize s6 = ds" "lh_n s6 = 0"
      "length (lh_sector s6) = LOGSIZE"
    using f6 f4 l3 len3 s5(2) by (simp_all add: s5_def)
  have lenD: "length (D st) = BSIZE" using ok by (simp add: disk_log_ok_def)
  have lg6: "logged s6 = []" by (simp add: logged_def l6)
  have "log_inv s6"
    unfolding log_inv_def l6 lg6 s6(5,6) using s6(2,4,7) K(2-4) hd_n_cleared(1) [OF lenD] by simp
  moreover have "disk s6 = apply_writes (recover_writes st D) D"
    unfolding s6(7) s4(6) recover_writes_def by simp
  moreover have "writes s6 = writes t @ recover_writes st D"
    unfolding s6(8) s4(7) recover_writes_def by simp
  moreover have "blk s6 = disk s6" using blk_disk [OF s6(2,5,6)] .
  ultimately show ?thesis unfolding wp_def run using l6 s6(5) by simp
qed

section \<open>Crashes\<close>

text \<open>The running system has its log where the super block says, and no transaction has
  touched the super block.\<close>

definition log_mounted :: "'z log_state_scheme \<Rightarrow> bool" where
  "log_mounted s \<longleftrightarrow> log_inv s \<and> sb_log (disk s) = (l_start s, l_size s) \<and> 1 < disksize s \<and>
    1 \<notin> log_region s \<and> 1 \<notin> set (logged s)"

lemma mounted_disk_ok:
  assumes "log_mounted s"
  shows "disk_log_ok (disksize s) (l_start s) (l_size s) (disk s)"
proof -
  have "log_inv s" using assms by (simp add: log_mounted_def)
  note I = log_invD [OF this]
  have "disk_logged (l_start s) (disk s) = []" by (simp add: disk_logged_def I(15))
  moreover have "length (disk s n) = BSIZE" for n using bio_disk [OF I(1)] .
  ultimately show ?thesis
    using assms I by (simp add: disk_log_ok_def log_mounted_def log_region_def region_def)
qed

text \<open>Once the header is on disk, the log stands for the transaction.\<close>

lemma commit_point:
  assumes m: "log_mounted s" and b: "busy s = {}"
  defines "D \<equiv> (disk s)(l_start s := hd_write (lh_n s) (lh_sector s) (blk s (l_start s)))"
  shows "disk_log_ok (disksize s) (l_start s) (l_size s) D" and "n \<notin> log_region s \<Longrightarrow> recovered (l_start s) D n = blk s n"
    and "commit_writes s = (l_start s, D (l_start s)) # recover_writes (l_start s) D"
proof -
  have inv: "log_inv s" using m by (simp add: log_mounted_def)
  note I = log_invD [OF inv]
  let ?st = "l_start s" and ?n = "nat (lh_n s)"
  have hd: "hd_n (D ?st) = lh_n s" "length (D ?st) = BSIZE" "\<And>i. i < ?n \<Longrightarrow> hd_sector (D ?st) i = lh_sector s ! i"
    unfolding D_def using hd_write_read [OF length_blk [OF I(1)] I(6,17)] by simp_all
  have lg: "disk_logged ?st D = logged s"
    unfolding disk_logged_def logged_def hd(1)
    by (rule nth_equalityI) (use I(8,17) hd(3) in simp_all)
  have D1: "D 1 = disk s 1" unfolding D_def using m I(18) by (auto simp: log_mounted_def)
  have "length (D n) = BSIZE" for n unfolding D_def using bio_disk [OF I(1)] hd(2) by (simp add: D_def)
  then show ok: "disk_log_ok (disksize s) ?st (l_size s) D"
    using m I D1 lg hd(1) by (auto simp: disk_log_ok_def log_mounted_def log_region_def region_def sb_log_def)
  have copy: "D (?st + of_nat i + 1) = blk s (lh_sector s ! i)" if i: "i < ?n" for i
  proof -
    have "D (?st + of_nat i + 1) = disk s (log_block s i)"
      using disk_log_block(2) [OF ok, of i] i hd(1) unfolding D_def log_block_def by simp
    then show ?thesis using I(14) b i by simp
  qed
  have d: "distinct (disk_logged ?st D)" unfolding lg by (rule I(9))
  show "recovered ?st D n = blk s n" if n: "n \<notin> log_region s"
  proof (cases "n \<in> set (disk_logged ?st D)")
    case True
    then obtain i where i: "i < ?n" "n = hd_sector (D ?st) i" using hd(1) by (auto elim: disk_loggedE)
    then show ?thesis using recovered_nth [OF d, of i] copy [OF i(1)] hd by simp
  next
    case False
    then have "recovered ?st D n = disk s n" using recovered_other [OF False] n I(18) by (auto simp: D_def)
    then show ?thesis using clean_blk [OF I(1), of n] b False unfolding lg I(12) by simp
  qed
  have "install_writes s ?n = replay_writes ?st D ?n"
    unfolding install_writes_def replay_writes_def using log_copy [OF inv b] copy hd(3) by simp
  moreover have "hd_write (lh_n s) (lh_sector s) (blk s ?st) = D ?st" by (simp add: D_def)
  ultimately show "commit_writes s = (?st, D ?st) # recover_writes ?st D"
    by (simp add: commit_writes_def recover_writes_def hd_write_0 hd(1) Let_def)
qed

lemma commit_prefix:
  assumes m: "log_mounted s" and b: "busy s = {}" and D: "D = apply_writes (take k (commit_writes s)) (disk s)"
  shows "disk_log_ok (disksize s) (l_start s) (l_size s) D"
    and "(\<forall>n. n \<notin> log_region s \<longrightarrow> recovered (l_start s) D n = disk s n) \<or>
      (\<forall>n. n \<notin> log_region s \<longrightarrow> recovered (l_start s) D n = blk s n)"
proof -
  have rg: "log_region s = region (l_start s) (l_size s)" by (simp add: log_region_def region_def)
  have "disk_log_ok (disksize s) (l_start s) (l_size s) D \<and>
    ((\<forall>n. n \<notin> log_region s \<longrightarrow> recovered (l_start s) D n = disk s n) \<or>
      (\<forall>n. n \<notin> log_region s \<longrightarrow> recovered (l_start s) D n = blk s n))"
  proof (cases k)
    case 0
    have "hd_n (disk s (l_start s)) = 0" using m log_invD(15) by (auto simp: log_mounted_def)
    then show ?thesis using mounted_disk_ok [OF m] D 0 by (simp add: recovered_def)
  next
    case (Suc j)
    let ?D = "(disk s)(l_start s := hd_write (lh_n s) (lh_sector s) (blk s (l_start s)))"
    note P = commit_point [OF m b]
    have e: "D = apply_writes (take j (recover_writes (l_start s) ?D)) ?D"
      unfolding D Suc P(3) by simp
    show ?thesis using recovery_prefix [OF P(1) e] P(2) unfolding rg by simp
  qed
  then show "disk_log_ok (disksize s) (l_start s) (l_size s) D"
    and "(\<forall>n. n \<notin> log_region s \<longrightarrow> recovered (l_start s) D n = disk s n) \<or>
      (\<forall>n. n \<notin> log_region s \<longrightarrow> recovered (l_start s) D n = blk s n)" by blast+
qed

text \<open>The disk when the power fails after some of the writes of a run, and the disks that
  a sequence of reboots, each cut short during recovery, can leave.\<close>

definition crash_during :: "(unit, 'z log_state_scheme) kernel \<Rightarrow> 'z log_state_scheme \<Rightarrow> (uint \<Rightarrow> byte list) \<Rightarrow> bool" where
  "crash_during m s D \<longleftrightarrow> (\<exists>s' k. m s = Ret () s' \<and>
    D = apply_writes (take k (drop (length (writes s)) (writes s'))) (disk s))"

inductive crashed :: "uint \<Rightarrow> 'z log_state_scheme itself \<Rightarrow> (uint \<Rightarrow> byte list) \<Rightarrow> (uint \<Rightarrow> byte list) \<Rightarrow> bool"
  for ds :: uint and T :: "'z log_state_scheme itself" and D :: "uint \<Rightarrow> byte list" where
  none: "crashed ds T D D"
| again: "crashed ds T D D' \<Longrightarrow> rebooted ds D' (t :: 'z log_state_scheme) \<Longrightarrow> crash_during initlog t D'' \<Longrightarrow>
    crashed ds T D D''"

lemma crashed_recovered:
  assumes "crashed ds T D D'" and "disk_log_ok ds st sz D"
  shows "disk_log_ok ds st sz D' \<and> (\<forall>n. n \<notin> region st sz \<longrightarrow> recovered st D' n = recovered st D n)"
  using assms(1)
proof induction
  case none
  then show ?case using assms(2) by blast
next
  case (again D' t D'')
  then have ok: "disk_log_ok ds st sz D'" by blast
  obtain t' k where t': "initlog t = Ret () t'" "D'' = apply_writes (take k (drop (length (writes t)) (writes t'))) (disk t)"
    using again.hyps(3) by (auto simp: crash_during_def)
  have "disk t = D'" using again.hyps(2) by (simp add: rebooted_def)
  moreover have "writes t' = writes t @ recover_writes st D'"
    using initlog_spec [OF again.hyps(2) ok] t'(1) by (auto elim!: wpE)
  ultimately have e: "D'' = apply_writes (take k (recover_writes st D')) D'" using t'(2) by simp
  then show ?case using recovery_prefix [OF ok e] again.IH by simp
qed

lemma initlog_recovers:
  assumes "rebooted ds D t" and "disk_log_ok ds st sz D"
  obtains t' where "initlog t = Ret () t'" and "log_inv t'" and "\<And>n. n \<notin> region st sz \<Longrightarrow> disk t' n = recovered st D n"
    and "blk t' = disk t'"
proof -
  have d: "distinct (disk_logged st D)" using assms(2) by (simp add: disk_log_ok_def)
  have st: "st \<in> region st sz" using assms(2) by (simp add: disk_log_ok_def region_def)
  obtain t' where t': "initlog t = Ret () t'" "log_inv t'" "disk t' = apply_writes (recover_writes st D) D" "blk t' = disk t'"
    using initlog_spec [OF assms] by (auto elim!: wpE)
  have "disk t' n = recovered st D n" if "n \<notin> region st sz" for n
  proof -
    have "n \<noteq> st" using that st by blast
    then show ?thesis using replay_all [OF d, of n] unfolding t'(3) recover_writes_def by simp
  qed
  then show ?thesis using that t' by blast
qed

text \<open>The writes of \<open>commit_trans\<close>.\<close>

lemma commit_trans_run:
  assumes inv: "log_inv s" and h: "held s = {}" and b: "busy s = {}"
  obtains s' where "commit_trans s = Ret () s'" and "log_inv s'" and "lh_n s' = 0" and "busy s' = {}" and "\<not> l_busy s'"
    and "writes s' = writes s @ (if lh_n s > 0 then commit_writes s else [])"
    and "disk s' = apply_writes (if lh_n s > 0 then commit_writes s else []) (disk s)"
    and "blk s' = apply_writes (if lh_n s > 0 then commit_writes s else []) (blk s)"
proof -
  let ?w = "if lh_n s > 0 then commit_writes s else []"
  obtain s1 where s1: "whenk (lh_n s > 0) commit_log s = Ret () s1" "log_inv s1" "lframe s s1" "lh_n s1 = 0" "busy s1 = {}"
      "writes s1 = writes s @ ?w" "disk s1 = apply_writes ?w (disk s)" "blk s1 = apply_writes ?w (blk s)"
  proof (cases "lh_n s > 0")
    case True
    then show ?thesis using that commit_log_spec [OF assms] by (auto elim!: wpE)
  next
    case False
    then have "lh_n s = 0" using log_invD(6) [OF inv] by linarith
    then show ?thesis using that [of s] inv b lf.frame_refl [of s] by simp
  qed
  define s' where "s' = s1\<lparr>l_busy := False, ptable := map (wakes (Some ChanLog)) (ptable s1)\<rparr>"
  have h1: "held s1 = {}" using lframe_sel(1) [OF s1(3)] h by simp
  have "commit_trans s = Ret () s'"
    unfolding commit_trans_eq using s1(1) h1 by (simp add: thenk_def s'_def wakeup_def wakeup1_def)
  moreover have same: "bufs s' = bufs s1" "disk s' = disk s1" "mru s' = mru s1" by (simp_all add: s'_def)
  moreover have "log_inv s'"
  proof -
    have "log_region s' = log_region s1" "logged s' = logged s1" by (simp_all add: s'_def log_region_def logged_def)
    then show ?thesis using s1(2) bio_same [OF same] unfolding log_inv_def by (simp add: s'_def)
  qed
  ultimately show ?thesis
    using that s1(4-8) bio_same [OF same] by (simp add: s'_def)
qed

text \<open>A small system: 20 sectors, the log in the last ten, a transaction that has written
  block 5.\<close>

definition block_of :: "byte \<Rightarrow> byte list" where
  "block_of b = replicate BSIZE b"

definition small_disk :: "uint \<Rightarrow> byte list" where
  "small_disk n = (if n = 1 then enc32 20 @ enc32 0 @ enc32 4 @ enc32 10 @ replicate 496 0
    else if n = 11 then block_of 7 else block_of 0)"

definition small_bufs :: "buf list" where
  "small_bufs = \<lparr>b_flags = {B_VALID, B_DIRTY}, b_dev = 1, b_sector = 5, b_data = block_of 7\<rparr> #
    replicate 9 \<lparr>b_flags = {}, b_dev = -1, b_sector = 0, b_data = block_of 0\<rparr>"

definition small_state :: "log_state" where
  "small_state = \<lparr>held = {}, mem = \<lambda>_. 0, freelist = 0, use_lock = True, kend = 0x80110000,
    ptable = boot_table, nextpid = 2, initproc = Some 0, cpus = [\<lparr>c_proc = None, c_esp0 = 0, c_cr3 = 0\<rparr>], mycpu = 0,
    kpgdir = 0, trapret = 0, forkret_addr = 0, kdata = 0,
    bufs = small_bufs, mru = [0..<NBUF], disk = small_disk, disksize = 20, writes = [],
    l_start = 10, l_size = 10, l_busy = True, l_dev = 1, lh_n = 1, lh_sector = 5 # replicate 9 0\<rparr>"

definition empty_cache :: "log_state \<Rightarrow> log_state" where
  "empty_cache s = s\<lparr>bufs := replicate NBUF \<lparr>b_flags = {}, b_dev = -1, b_sector = 0, b_data = block_of 0\<rparr>,
    mru := [0..<NBUF]\<rparr>"

lemma small_nth: "i < 10 \<Longrightarrow> small_bufs ! i =
  (if i = 0 then \<lparr>b_flags = {B_VALID, B_DIRTY}, b_dev = 1, b_sector = 5, b_data = block_of 7\<rparr>
   else \<lparr>b_flags = {}, b_dev = -1, b_sector = 0, b_data = block_of 0\<rparr>)"
  by (cases i) (simp_all add: small_bufs_def)

lemma length_small_disk [simp]: "length (small_disk n) = BSIZE" "length (block_of b) = BSIZE"
  by (simp_all add: small_disk_def block_of_def)

lemma hd_n_block_of: "hd_n (block_of 0) = 0"
  by (simp add: hd_n_def block_of_def rd_at_def dec32_def numeral_eq_Suc)

lemma length_small_bufs: "length small_bufs = NBUF"
  by (simp add: small_bufs_def)

lemma small_sel: "bufs small_state = small_bufs" "mru small_state = [0..<NBUF]" "disk small_state = small_disk"
    "disksize small_state = 20" "held small_state = {}" "writes small_state = []" "l_start small_state = 10"
    "l_size small_state = 10" "l_dev small_state = 1" "lh_n small_state = 1" "lh_sector small_state = 5 # replicate 9 0"
  by (simp_all add: small_state_def)

lemma small_bio: "bio_inv small_state" "busy small_state = {}" "pinned small_state = {5}" "blk small_state = small_disk(5 := block_of 7)"
proof -
  show inv: "bio_inv small_state"
    unfolding bio_inv_def small_sel
  proof (intro conjI allI impI)
    show "length small_bufs = NBUF" by (rule length_small_bufs)
    show "distinct [0..<NBUF]" "set [0..<NBUF] = {..<NBUF}" by (auto simp: atLeast0LessThan)
    show "length (small_disk n) = BSIZE" for n by simp
    fix i assume i: "i < NBUF"
    show "length (b_data (small_bufs ! i)) = BSIZE" "b_flags (small_bufs ! i) \<noteq> {} \<Longrightarrow> b_dev (small_bufs ! i) = ROOTDEV"
      "B_DIRTY \<in> b_flags (small_bufs ! i) \<Longrightarrow> B_VALID \<in> b_flags (small_bufs ! i)"
      unfolding small_nth [OF i] by (simp_all split: if_splits)
    show "b_data (small_bufs ! i) = small_disk (b_sector (small_bufs ! i))" if "b_flags (small_bufs ! i) = {B_VALID}"
      using that unfolding small_nth [OF i] by (auto split: if_splits)
    fix j assume j: "j < NBUF"
    show "i = j" if "b_dev (small_bufs ! i) = ROOTDEV \<and> b_dev (small_bufs ! j) = ROOTDEV \<and>
        b_sector (small_bufs ! i) = b_sector (small_bufs ! j)"
      using that unfolding small_nth [OF i] small_nth [OF j] by (simp split: if_splits)
  qed
  have slot: "slot small_state n = (if n = 5 then Some 0 else None)" for n
  proof (cases "slot small_state n")
    case None
    then show ?thesis using slot_Some [OF inv, of n 0] small_nth [of 0] by (auto simp: small_sel)
  next
    case (Some i)
    then have "i < 10" "b_dev (small_bufs ! i) = ROOTDEV" "b_sector (small_bufs ! i) = n"
      using slot_Some [OF inv, of n i] by (simp_all add: small_sel)
    then show ?thesis using Some by (simp add: small_nth split: if_splits)
  qed
  have "flags_of small_state n = (if n = 5 then {B_VALID, B_DIRTY} else {})" for n
    using small_nth [of 0] by (simp add: flags_of_def slot small_sel)
  then show "busy small_state = {}" "pinned small_state = {5}" using busy_eq [OF inv] pinned_eq [OF inv] by auto
  show "blk small_state = small_disk(5 := block_of 7)"
    using small_nth [of 0] by (intro ext) (simp add: blk_def slot small_sel)
qed

lemma small_mounted: "log_mounted small_state"
proof -
  have lg: "logged small_state = [5]" by (simp add: logged_def small_sel)
  have rg: "n \<in> log_region small_state \<longleftrightarrow> 10 \<le> unat n \<and> unat n < 20" for n
    by (simp add: log_region_def small_sel)
  have d: "small_disk 10 = block_of 0" "small_disk 11 = block_of 7" by (simp_all add: small_disk_def)
  have "log_inv small_state"
    unfolding log_inv_def lg small_bio(2,3) using small_bio(1)
    by (auto simp: small_sel rg small_bio(4) d hd_n_block_of)
  moreover have "sb_log small_disk = (10, 10)"
    by (simp add: sb_log_def small_disk_def dec_sb_def rd_at_def)
  ultimately show ?thesis by (simp add: log_mounted_def lg rg small_sel)
qed

lemma empty_cache_rebooted:
  assumes "\<And>n. length (D n) = BSIZE"
  shows "rebooted 20 D ((empty_cache small_state)\<lparr>disk := D\<rparr>)"
proof -
  let ?t = "(empty_cache small_state)\<lparr>disk := D\<rparr>"
  have sel: "bufs ?t = replicate NBUF \<lparr>b_flags = {}, b_dev = -1, b_sector = 0, b_data = block_of 0\<rparr>" "mru ?t = [0..<NBUF]"
    "disk ?t = D" "held ?t = {}" "disksize ?t = 20" "lh_sector ?t = 5 # replicate 9 0"
    by (simp_all add: empty_cache_def small_sel)
  have "bio_inv ?t" unfolding bio_inv_def sel using assms by (auto simp: atLeast0LessThan)
  then show ?thesis unfolding rebooted_def using sel by (auto simp: busy_def pinned_def)
qed

end
