(* ===== verification/Xv6_Tx.thy ===== *)
theory Xv6_Tx
  imports Xv6_Crash
begin

text \<open>
  Transactions as the file system sees them: the interface between fs.c and the layers
  below it (bio.c and log.c). fs.c reads a block with \<open>bread\<close>, may change it and then calls
  \<open>log_write\<close> before anything else, and gives it back with \<open>brelse\<close>. The locale states what
  these three steps do to the contents of the blocks; the interpretation shows it for the
  code. A transaction that follows this discipline is atomic with respect to crashes.
\<close>

section \<open>The interface\<close>

locale blockstore =
  fixes ok :: "'s \<Rightarrow> bool" and content :: "'s \<Rightarrow> uint \<Rightarrow> byte list" and working :: "'s \<Rightarrow> uint set"
    and dirty :: "'s \<Rightarrow> uint set" and has :: "'s \<Rightarrow> nat \<Rightarrow> uint \<Rightarrow> bool" and data :: "nat \<Rightarrow> 's \<Rightarrow> byte list"
    and readable :: "'s \<Rightarrow> uint \<Rightarrow> bool" and usable :: "'s \<Rightarrow> uint \<Rightarrow> bool" and room :: "'s \<Rightarrow> uint set \<Rightarrow> bool" and writable :: "'s \<Rightarrow> bool"
    and keeps :: "'s \<Rightarrow> 's \<Rightarrow> bool"
    and rd :: "uint \<Rightarrow> (nat, 's) kernel" and upd :: "nat \<Rightarrow> (byte list \<Rightarrow> byte list) \<Rightarrow> (unit, 's) kernel"
    and rel :: "nat \<Rightarrow> (unit, 's) kernel"
  assumes rd: "ok s \<Longrightarrow> readable s n \<Longrightarrow> n \<notin> working s \<Longrightarrow> room s {n} \<Longrightarrow>
      wp (rd n) (\<lambda>i s'. ok s' \<and> keeps s s' \<and> has s' i n \<and> data i s' = content s n \<and> content s' = content s \<and>
        working s' = insert n (working s) \<and> dirty s' = dirty s \<and> (\<forall>j m. has s j m \<longrightarrow> has s' j m \<and> j \<noteq> i)) s"
    and upd: "ok s \<Longrightarrow> usable s n \<Longrightarrow> has s i n \<Longrightarrow> writable s \<Longrightarrow> room s {n} \<Longrightarrow> length (f (content s n)) = BSIZE \<Longrightarrow>
      wp (upd i f) (\<lambda>_ s'. ok s' \<and> keeps s s' \<and> (\<forall>m. readable s m \<longrightarrow> content s' m = ((content s)(n := f (content s n))) m) \<and>
        working s' = working s \<and> dirty s' = insert n (dirty s) \<and> (\<forall>j m. has s j m \<longrightarrow> has s' j m)) s"
    and rel: "ok s \<Longrightarrow> readable s n \<Longrightarrow> has s i n \<Longrightarrow>
      wp (rel i) (\<lambda>_ s'. ok s' \<and> keeps s s' \<and> content s' = content s \<and> working s' = working s - {n} \<and>
        dirty s' = dirty s \<and> (\<forall>j m. has s j m \<longrightarrow> j \<noteq> i \<longrightarrow> has s' j m)) s"
    and usable_readable: "usable s n \<Longrightarrow> readable s n"
    and data: "ok s \<Longrightarrow> has s i n \<Longrightarrow> data i s = content s n"
    and keeps_refl: "keeps s s" and keeps_trans: "keeps s t \<Longrightarrow> keeps t u \<Longrightarrow> keeps s u"
    and keeps_readable: "keeps s t \<Longrightarrow> readable t n = readable s n"
    and keeps_usable: "keeps s t \<Longrightarrow> usable t n = usable s n" and keeps_writable: "keeps s t \<Longrightarrow> writable t = writable s"
    and room_mono: "keeps s t \<Longrightarrow> working t \<union> dirty t \<subseteq> working s \<union> dirty s \<union> T \<Longrightarrow> dirty t \<subseteq> dirty s \<union> T \<Longrightarrow>
      T' \<subseteq> T \<Longrightarrow> room s T \<Longrightarrow> room t T'"
begin

text \<open>Looking at a block.\<close>

lemma inspect:
  assumes "ok s" and "readable s n" and "n \<notin> working s" and "room s {n}"
  shows "wp (bindk (rd n) (\<lambda>bp. bindk (getk (data bp)) (\<lambda>d. thenk (rel bp) (ret (g d)))))
    (\<lambda>r s'. r = g (content s n) \<and> ok s' \<and> keeps s s' \<and> content s' = content s \<and> working s' = working s \<and>
      dirty s' = dirty s \<and> (\<forall>j m. has s j m \<longrightarrow> has s' j m)) s"
proof -
  obtain i s1 where s1: "rd n s = Ret i s1" "ok s1" "keeps s s1" "has s1 i n" "data i s1 = content s n"
      "content s1 = content s" "working s1 = insert n (working s)" "dirty s1 = dirty s"
      "\<forall>j m. has s j m \<longrightarrow> has s1 j m \<and> j \<noteq> i"
    using rd [OF assms] by (elim wpE) blast
  have "readable s1 n" using keeps_readable [OF s1(3)] assms(2) by simp
  then obtain s2 where s2: "rel i s1 = Ret () s2" "ok s2" "keeps s1 s2" "content s2 = content s1"
      "working s2 = working s1 - {n}" "dirty s2 = dirty s1" "\<forall>j m. has s1 j m \<longrightarrow> j \<noteq> i \<longrightarrow> has s2 j m"
    using rel [OF s1(2) _ s1(4)] by (auto elim!: wpE)
  have "keeps s s2" using keeps_trans [OF s1(3) s2(3)] .
  moreover have "has s2 j m" if "has s j m" for j m using s1(9) s2(7) that by blast
  moreover have "working s2 = working s" using s1(7) s2(5) assms(3) by auto
  ultimately show ?thesis using s1 s2 by (auto intro!: wpI)
qed

text \<open>Changing a block.\<close>

lemma modify:
  assumes "ok s" and "usable s n" and "n \<notin> working s" and "room s {n}" and "writable s" and "length (f (content s n)) = BSIZE"
  shows "wp (bindk (rd n) (\<lambda>bp. thenk (upd bp f) (rel bp)))
    (\<lambda>_ s'. ok s' \<and> keeps s s' \<and> (\<forall>m. readable s m \<longrightarrow> content s' m = ((content s)(n := f (content s n))) m) \<and>
      working s' = working s \<and> dirty s' = insert n (dirty s) \<and> (\<forall>j m. has s j m \<longrightarrow> has s' j m)) s"
proof -
  obtain i s1 where s1: "rd n s = Ret i s1" "ok s1" "keeps s s1" "has s1 i n" "data i s1 = content s n"
      "content s1 = content s" "working s1 = insert n (working s)" "dirty s1 = dirty s"
      "\<forall>j m. has s j m \<longrightarrow> has s1 j m \<and> j \<noteq> i"
    using rd [OF assms(1) usable_readable [OF assms(2)] assms(3,4)] by (elim wpE) blast
  have u1: "usable s1 m = usable s m" "writable s1" "readable s1 m = readable s m" for m
    using keeps_usable [OF s1(3)] keeps_writable [OF s1(3)] keeps_readable [OF s1(3)] assms(5) by simp_all
  have r1: "room s1 {n}" using room_mono [OF s1(3) _ _ subset_refl assms(4)] s1(7,8) by auto
  have n1: "usable s1 n" "length (f (content s1 n)) = BSIZE" using u1 assms(2,6) s1(6) by simp_all
  obtain s2 where s2: "upd i f s1 = Ret () s2" "ok s2" "keeps s1 s2"
      "\<forall>m. readable s1 m \<longrightarrow> content s2 m = ((content s1)(n := f (content s1 n))) m"
      "working s2 = working s1" "dirty s2 = insert n (dirty s1)" "\<forall>j m. has s1 j m \<longrightarrow> has s2 j m"
    using upd [where f = f, OF s1(2) n1(1) s1(4) u1(2) r1 n1(2)] by (elim wp_unitE) blast
  have n2: "readable s2 n" "has s2 i n" using keeps_readable [OF s2(3)] u1 usable_readable [OF assms(2)] s2(7) s1(4) by auto
  obtain s3 where s3: "rel i s2 = Ret () s3" "ok s3" "keeps s2 s3" "content s3 = content s2"
      "working s3 = working s2 - {n}" "dirty s3 = dirty s2" "\<forall>j m. has s2 j m \<longrightarrow> j \<noteq> i \<longrightarrow> has s3 j m"
    using rel [OF s2(2) n2] by (elim wp_unitE) blast
  have "keeps s s3" using keeps_trans s1(3) s2(3) s3(3) by blast
  moreover have "has s3 j m" if "has s j m" for j m using s1(9) s2(7) s3(7) that by blast
  moreover have "working s3 = working s" using s1(7) s2(5) s3(5) assms(3) by auto
  ultimately show ?thesis using s1 s2 s3 u1(3) by (auto intro!: wpI)
qed

end

section \<open>The code provides it\<close>

text \<open>What fs.c does to a block it holds: change it and call \<open>log_write\<close>.\<close>

definition log_update :: "nat \<Rightarrow> (byte list \<Rightarrow> byte list) \<Rightarrow> (unit, 'z log_state_scheme) kernel" where
  "log_update i f = thenk (set_data i f) (log_write i)"

text \<open>
  Between two such steps, no lock is held, the log copies of all logged blocks are current,
  and every other block is as on disk; the blocks that may be read are those on the disk and
  outside the log, the super block, block 1, is never written; and there is room for some
  more blocks in the cache and in the log.
\<close>

definition tx_ok :: "'z log_state_scheme \<Rightarrow> bool" where
  "tx_ok s \<longleftrightarrow> log_mounted s \<and> held s = {} \<and>
    (\<forall>i < nat (lh_n s). disk s (log_block s i) = blk s (lh_sector s ! i)) \<and>
    (\<forall>n. n \<notin> set (logged s) \<longrightarrow> blk s n = disk s n)"

definition fs_readable :: "'z log_state_scheme \<Rightarrow> uint \<Rightarrow> bool" where
  "fs_readable s n \<longleftrightarrow> n < disksize s \<and> n \<notin> log_region s"

definition fs_block :: "'z log_state_scheme \<Rightarrow> uint \<Rightarrow> bool" where
  "fs_block s n \<longleftrightarrow> n < disksize s \<and> n \<notin> log_region s \<and> n \<noteq> 1"

definition tx_room :: "'z log_state_scheme \<Rightarrow> uint set \<Rightarrow> bool" where
  "tx_room s T \<longleftrightarrow> finite T \<and> card (busy s \<union> set (logged s) \<union> T) < NBUF \<and> int (card (set (logged s) \<union> T)) < l_size s - 1"

definition logset :: "'z log_state_scheme \<Rightarrow> uint set" where
  "logset s = set (logged s)"

lemma tx_okD:
  assumes "tx_ok s"
  shows "log_inv s" and "bio_inv s" and "held s = {}" and "log_mounted s"
    and "\<And>i. i < nat (lh_n s) \<Longrightarrow> disk s (log_block s i) = blk s (lh_sector s ! i)"
    and "\<And>n. n \<notin> set (logged s) \<Longrightarrow> blk s n = disk s n"
  using assms log_invD(1) by (auto simp: tx_ok_def log_mounted_def)

text \<open>The super block is never written, so the log stays mounted.\<close>

lemma log_mounted_step:
  assumes "log_mounted s" and "lframe s s'" and "log_inv s'" and "disk s' 1 = disk s 1" and "1 \<notin> set (logged s')"
  shows "log_mounted s'"
  using assms lframe_sel [OF assms(2)] by (simp add: log_mounted_def sb_log_def)

lemma tx_bread:
  assumes ok: "tx_ok s" and n: "n < disksize s" and nb: "n \<notin> busy s" and nr: "n \<notin> log_region s"
    and room: "card (busy s \<union> set (logged s) \<union> {n}) < NBUF"
  shows "wp (bread ROOTDEV n) (\<lambda>i s'. tx_ok s' \<and> bframe s s' \<and> holds s' i n \<and> buf_data i s' = blk s n \<and> blk s' = blk s \<and>
    disk s' = disk s \<and> writes s' = writes s \<and>
    busy s' = insert n (busy s) \<and> set (logged s') = set (logged s) \<and> (\<forall>j m. holds s j m \<longrightarrow> holds s' j m \<and> j \<noteq> i)) s"
proof -
  note O = tx_okD [OF ok]
  note I = log_invD [OF O(1)]
  have "finite (busy s \<union> set (logged s) \<union> {n})" by (simp add: busy_def)
  then have "card (busy s \<union> pinned s) \<le> card (busy s \<union> set (logged s) \<union> {n})"
    unfolding I(12) by (rule card_mono) blast
  then have "card (busy s \<union> pinned s) < NBUF" using room by linarith
  then obtain i s' where s': "bread ROOTDEV n s = Ret i s'" "bio_inv s'" "bframe s s'" "holds s' i n" "blk s' = blk s"
      "busy s' = insert n (busy s)" "pinned s' = pinned s" "disk s' = disk s" "writes s' = writes s"
      "\<forall>j m. holds s j m \<longrightarrow> holds s' j m \<and> j \<noteq> i"
    using bread_run [OF O(2,3) n nb disjI2] by metis
  note f = bframe_log [OF s'(3)] bframe_sel [OF s'(3)] bframe_logged [OF s'(3)] bframe_log_region [OF s'(3)]
  have lb: "log_block s' k = log_block s k" for k by (simp add: log_block_def f)
  have "log_inv s'"
    unfolding log_inv_def f s'(5-8) using s'(2) I nr O(5) by (auto simp: log_block_def)
  then have "log_mounted s'" using log_mounted_step [OF O(4) bframe_lframe [OF s'(3)]] O(4) s'(8) f by (auto simp: log_mounted_def)
  then have "tx_ok s'" using O(3,5,6) unfolding tx_ok_def f s'(5,8) lb by auto
  then show ?thesis
    using s' f holds_data [OF s'(2,4)] by (auto intro!: wpI)
qed

lemma tx_brelse:
  assumes ok: "tx_ok s" and h: "holds s i n"
  shows "wp (brelse i) (\<lambda>_ s'. tx_ok s' \<and> bframe s s' \<and> blk s' = blk s \<and> busy s' = busy s - {n} \<and>
    disk s' = disk s \<and> writes s' = writes s \<and>
    set (logged s') = set (logged s) \<and> (\<forall>j m. holds s j m \<longrightarrow> j \<noteq> i \<longrightarrow> holds s' j m)) s"
proof -
  note O = tx_okD [OF ok]
  note I = log_invD [OF O(1)]
  have "n \<in> pinned s \<or> blk s n = disk s n" using O(6) unfolding I(12) by blast
  then obtain s' where s': "brelse i s = Ret () s'" "bio_inv s'" "bframe s s'" "blk s' = blk s"
      "busy s' = busy s - {n}" "pinned s' = pinned s" "disk s' = disk s" "writes s' = writes s"
      "\<forall>j m. holds s j m \<longrightarrow> j \<noteq> i \<longrightarrow> holds s' j m"
    using brelse_run [OF O(2) h O(3)] by metis
  note f = bframe_log [OF s'(3)] bframe_sel [OF s'(3)] bframe_logged [OF s'(3)] bframe_log_region [OF s'(3)]
  have lb: "log_block s' k = log_block s k" for k by (simp add: log_block_def f)
  have "log_inv s'"
    unfolding log_inv_def f s'(4-7) using s'(2) I O(5) by (auto simp: log_block_def)
  then have "log_mounted s'" using log_mounted_step [OF O(4) bframe_lframe [OF s'(3)]] O(4) s'(7) f by (auto simp: log_mounted_def)
  then have "tx_ok s'" using O(3,5,6) unfolding tx_ok_def f s'(4,7) lb by auto
  then show ?thesis using s' f by (auto intro!: wpI)
qed

lemma tx_log_update:
  assumes ok: "tx_ok s" and u: "fs_block s n" and h: "holds s i n" and b: "l_busy s" and room: "tx_room s {n}"
    and len: "length (f (blk s n)) = BSIZE"
  shows "wp (log_update i f) (\<lambda>_ s'. tx_ok s' \<and> lframe s s' \<and>
    (\<forall>m. m \<notin> log_region s \<longrightarrow> blk s' m = ((blk s)(n := f (blk s n))) m) \<and> busy s' = busy s \<and>
    (\<forall>m. m \<notin> log_region s \<longrightarrow> disk s' m = disk s m) \<and>
    set (logged s') = insert n (set (logged s)) \<and> (\<forall>j m. holds s j m \<longrightarrow> holds s' j m) \<and>
    (\<exists>a \<in> log_region s - {l_start s}. writes s' = writes s @ [(a, f (blk s n))] \<and> disk s' = (disk s)(a := f (blk s n)))) s"
proof -
  note O = tx_okD [OF ok]
  note I = log_invD [OF O(1)]
  have nb: "n \<in> busy s" by (rule holds_busy [OF O(2) h])
  have u': "n < disksize s" "n \<notin> log_region s" "n \<noteq> 1" using u by (simp_all add: fs_block_def)
  obtain s1 where s1: "set_data i f s = Ret () s1" "bio_inv s1" "bframe s s1" "holds s1 i n"
      "blk s1 = (blk s)(n := f (blk s n))" "busy s1 = busy s" "pinned s1 = pinned s" "disk s1 = disk s"
      "writes s1 = writes s" "\<forall>j m. holds s j m \<longrightarrow> holds s1 j m"
    by (rule set_data_run [where f = f, OF O(2) h len])
  note f = bframe_log [OF s1(3)] bframe_sel [OF s1(3)] bframe_logged [OF s1(3)] bframe_log_region [OF s1(3)]
  have sn: "l_start s \<noteq> n" using u'(2) I(18) by auto
  have inv1: "log_inv s1"
    unfolding log_inv_def f s1(5-8) using s1(2) I nb sn by (auto simp: log_block_def)
  have fin: "finite (busy s \<union> set (logged s) \<union> {n})" by (simp add: busy_def)
  have c1: "card (busy s \<union> set (logged s) \<union> {n}) < NBUF" and c2: "int (card (set (logged s) \<union> {n})) < l_size s - 1"
    using room by (simp_all add: tx_room_def)
  have "card (busy s \<union> pinned s) \<le> card (busy s \<union> set (logged s) \<union> {n})"
    unfolding I(12) by (rule card_mono [OF fin]) blast
  then have r: "card (busy s1 \<union> pinned s1) < NBUF" unfolding s1(6,7) using c1 by linarith
  have "card (pinned s) \<le> card (set (logged s) \<union> {n})" unfolding I(12) by (rule card_mono) auto
  then have n1: "lh_n s1 < l_size s1 - 1" using c2 card_logged(2) [OF O(1)] I(6) unfolding f by linarith
  then have n2: "lh_n s1 < int LOGSIZE" using I(4) unfolding f by linarith
  have pre: "held s1 = {}" "n \<notin> log_region s1" "n < disksize s1" "l_busy s1" unfolding f using O(3) u' b by simp_all
  obtain s2 where s2: "log_write i s1 = Ret () s2" "log_write_post s1 i n s2"
    using log_write_spec [OF inv1 pre(1) s1(4) pre(2,3,4) n2 n1 r] by (auto elim!: wpE)
  obtain a where a: "a \<in> log_region s - {l_start s}" "blk s2 = (blk s1)(a := blk s1 n)" "disk s2 = (disk s1)(a := blk s1 n)"
      "writes s2 = writes s1 @ [(a, blk s1 n)]"
    using s2(2) unfolding log_write_post_def f by blast
  have p: "log_inv s2" "lframe s1 s2" "log_current s2 n" "busy s2 = busy s" "set (logged s2) = insert n (set (logged s))"
      "\<forall>j m. holds s1 j m \<longrightarrow> holds s2 j m"
    using s2(2) s1(6) unfolding log_write_post_def f by simp_all
  have fr: "lframe s s2" using lf.frame_trans [OF bframe_lframe [OF s1(3)] p(2)] .
  note g = lframe_sel [OF fr]
  note I2 = log_invD [OF p(1)]
  have blk2: "blk s2 m = ((blk s)(n := f (blk s n))) m" and disk2: "disk s2 m = disk s m" if "m \<notin> log_region s" for m
    using that a s1(5,8) by auto
  have "1 \<notin> log_region s" "1 \<notin> set (logged s)" using O(4) by (simp_all add: log_mounted_def)
  then have m2: "log_mounted s2"
    using log_mounted_step [OF O(4) fr p(1)] disk2 [of 1] p(5) u'(3) by auto
  have "disk s2 (log_block s2 j) = blk s2 (lh_sector s2 ! j)" if j: "j < nat (lh_n s2)" for j
  proof (cases "lh_sector s2 ! j \<in> busy s2")
    case False
    then show ?thesis using I2(14) j by blast
  next
    case True
    let ?m = "lh_sector s2 ! j"
    show ?thesis
    proof (cases "?m = n")
      case True
      obtain k where k: "k < nat (lh_n s2)" "lh_sector s2 ! k = n" "disk s2 (log_block s2 k) = blk s2 n"
        using p(3) by (auto simp: log_current_def)
      then have "k = j" using logged_nth_inj [OF I2(9,8,17) k(1) j] True by simp
      then show ?thesis using k True by simp
    next
      case mn: False
      have mem: "?m \<in> set (logged s2)" by (rule logged_nth [OF j I2(8,17)])
      then have ml: "?m \<in> set (logged s)" using p(5) mn by blast
      have o: "j < nat (lh_n s)" "?m = lh_sector s ! j" "disk s2 (log_block s2 j) = disk s (log_block s j)"
        using s2(2) j mn unfolding log_write_post_def f s1(8) by (auto simp: log_block_def f)
      have "blk s2 ?m = blk s ?m" using blk2 [of ?m] mn ml I(10) by auto
      then show ?thesis using o O(5) [OF o(1)] by simp
    qed
  qed
  moreover have "blk s2 m = disk s2 m" if "m \<notin> set (logged s2)" for m
  proof (cases "m = a")
    case True
    then show ?thesis using a(2,3) by simp
  next
    case False
    then show ?thesis using that p(5) O(6) [of m] a(2,3) s1(5,8) by auto
  qed
  ultimately have "tx_ok s2" using m2 O(3) g by (simp add: tx_ok_def)
  moreover have "log_update i f s = Ret () s2" using s1(1) s2(1) by (simp add: log_update_def)
  moreover have "holds s2 j m" if "holds s j m" for j m using that s1(10) p(6) by blast
  moreover have "\<exists>a \<in> log_region s - {l_start s}. writes s2 = writes s @ [(a, f (blk s n))] \<and> disk s2 = (disk s)(a := f (blk s n))"
    using a(1,3,4) s1(5,8,9) by auto
  ultimately show ?thesis using fr p(4,5) blk2 disk2 by (auto intro!: wpI)
qed

lemma tx_room_mono:
  assumes "lframe s t" and "busy t \<union> logset t \<subseteq> busy s \<union> logset s \<union> T" and "logset t \<subseteq> logset s \<union> T" and "T' \<subseteq> T"
    and "tx_room s T"
  shows "tx_room t T'"
proof -
  have fin: "finite T" "finite (busy s)" using assms(5) by (simp_all add: tx_room_def busy_def)
  have "card (busy t \<union> set (logged t) \<union> T') \<le> card (busy s \<union> set (logged s) \<union> T)"
    using fin assms(2-4) by (intro card_mono) (auto simp: logset_def)
  moreover have "card (set (logged t) \<union> T') \<le> card (set (logged s) \<union> T)"
    using fin assms(3,4) by (intro card_mono) (auto simp: logset_def)
  ultimately show ?thesis
    using assms(5) finite_subset [OF assms(4) fin(1)] lframe_sel(9) [OF assms(1)] by (simp add: tx_room_def)
qed

interpretation tx: blockstore tx_ok blk busy logset holds buf_data fs_readable fs_block tx_room l_busy lframe "bread ROOTDEV" log_update brelse
proof
  fix s t u :: "'z log_state_scheme" and n i f T T'
  show "wp (bread ROOTDEV n) (\<lambda>i s'. tx_ok s' \<and> lframe s s' \<and> holds s' i n \<and> buf_data i s' = blk s n \<and> blk s' = blk s \<and>
      busy s' = insert n (busy s) \<and> logset s' = logset s \<and> (\<forall>j m. holds s j m \<longrightarrow> holds s' j m \<and> j \<noteq> i)) s"
    if a: "tx_ok s" "fs_readable s n" "n \<notin> busy s" "tx_room s {n}"
    by (rule wp_mono [OF tx_bread [OF a(1) _ a(3)]])
      (use a in \<open>auto simp: fs_readable_def tx_room_def logset_def dest: bframe_lframe\<close>)
  show "wp (log_update i f) (\<lambda>_ s'. tx_ok s' \<and> lframe s s' \<and>
      (\<forall>m. fs_readable s m \<longrightarrow> blk s' m = ((blk s)(n := f (blk s n))) m) \<and> busy s' = busy s \<and>
      logset s' = insert n (logset s) \<and> (\<forall>j m. holds s j m \<longrightarrow> holds s' j m)) s"
    if a: "tx_ok s" "fs_block s n" "holds s i n" "l_busy s" "tx_room s {n}" "length (f (blk s n)) = BSIZE"
    by (rule wp_mono [OF tx_log_update [where f = f, OF a]]) (auto simp: fs_readable_def logset_def)
  show "fs_readable s n" if "fs_block s n" using that by (simp add: fs_block_def fs_readable_def)
  show "wp (brelse i) (\<lambda>_ s'. tx_ok s' \<and> lframe s s' \<and> blk s' = blk s \<and> busy s' = busy s - {n} \<and> logset s' = logset s \<and>
      (\<forall>j m. holds s j m \<longrightarrow> j \<noteq> i \<longrightarrow> holds s' j m)) s" if "tx_ok s" "fs_readable s n" "holds s i n"
    by (rule wp_mono [OF tx_brelse [OF that(1,3)]]) (auto simp: logset_def dest: bframe_lframe)
  show "buf_data i s = blk s n" if "tx_ok s" "holds s i n" using holds_data [OF tx_okD(2) [OF that(1)] that(2)] .
  show "lframe s s" by (rule lf.frame_refl)
  show "lframe s u" if "lframe s t" "lframe t u" using lf.frame_trans that by blast
  show "fs_readable t n = fs_readable s n" if "lframe s t" using lframe_sel [OF that] by (simp add: fs_readable_def)
  show "fs_block t n = fs_block s n" if "lframe s t" using lframe_sel [OF that] by (simp add: fs_block_def)
  show "l_busy t = l_busy s" if "lframe s t" using lframe_sel [OF that] by simp
  show "tx_room t T'" if "lframe s t" "busy t \<union> logset t \<subseteq> busy s \<union> logset s \<union> T" "logset t \<subseteq> logset s \<union> T" "T' \<subseteq> T"
      "tx_room s T"
    using tx_room_mono that by blast
qed

section \<open>Whole transactions\<close>

text \<open>What happens between \<open>begin_trans\<close> and \<open>commit_trans\<close>: reading, updating and releasing
  blocks of the file system.\<close>

inductive tx_step :: "'z log_state_scheme \<Rightarrow> 'z log_state_scheme \<Rightarrow> bool" where
  read: "fs_block s n \<Longrightarrow> n \<notin> busy s \<Longrightarrow> tx_room s {n} \<Longrightarrow> bread ROOTDEV n s = Ret i s' \<Longrightarrow> tx_step s s'"
| update: "fs_block s n \<Longrightarrow> holds s i n \<Longrightarrow> l_busy s \<Longrightarrow> tx_room s {n} \<Longrightarrow> length (f (blk s n)) = BSIZE \<Longrightarrow>
    log_update i f s = Ret () s' \<Longrightarrow> tx_step s s'"
| release: "holds s i n \<Longrightarrow> brelse i s = Ret () s' \<Longrightarrow> tx_step s s'"

text \<open>The writes of an unfinished transaction go to the log copies only.\<close>

definition log_writes_only :: "'z log_state_scheme \<Rightarrow> (uint \<times> byte list) list \<Rightarrow> bool" where
  "log_writes_only s W \<longleftrightarrow> (\<forall>(n, d) \<in> set W. n \<in> log_region s - {l_start s} \<and> length d = BSIZE)"

lemma log_writes_only_Nil: "log_writes_only s []"
  by (simp add: log_writes_only_def)

lemma tx_step_ok:
  assumes "tx_step s s'" and "tx_ok s"
  shows "tx_ok s' \<and> lframe s s' \<and> (\<exists>W. writes s' = writes s @ W \<and> disk s' = apply_writes W (disk s) \<and> log_writes_only s W)"
  using assms(1)
proof cases
  case (read n i)
  have "n < disksize s" "n \<notin> log_region s" "card (busy s \<union> set (logged s) \<union> {n}) < NBUF"
    using read(1,3) by (simp_all add: fs_block_def tx_room_def)
  then have "tx_ok s'" "bframe s s'" "writes s' = writes s @ []" "disk s' = apply_writes [] (disk s)"
    using wp_runD [OF tx_bread [OF assms(2) _ read(2)] read(4)] by simp_all
  then show ?thesis using bframe_lframe [of s s'] by (metis log_writes_only_Nil)
next
  case (update n i f)
  obtain a where "tx_ok s'" "lframe s s'" "a \<in> log_region s - {l_start s}" "writes s' = writes s @ [(a, f (blk s n))]"
      "disk s' = (disk s)(a := f (blk s n))"
    using wp_runD [OF tx_log_update [where f = f, OF assms(2) update(1-5)] update(6)] by blast
  then show ?thesis using update(5) by (auto intro!: exI [of _ "[(a, f (blk s n))]"] simp: log_writes_only_def)
next
  case (release i n)
  then have "tx_ok s'" "bframe s s'" "writes s' = writes s @ []" "disk s' = apply_writes [] (disk s)"
    using wp_runD [OF tx_brelse [OF assms(2) release(1)] release(2)] by simp_all
  then show ?thesis using bframe_lframe [of s s'] by (metis log_writes_only_Nil)
qed

lemma tx_steps_ok:
  assumes "tx_step\<^sup>*\<^sup>* s s'" and "tx_ok s"
  shows "tx_ok s' \<and> lframe s s' \<and> (\<exists>W. writes s' = writes s @ W \<and> disk s' = apply_writes W (disk s) \<and> log_writes_only s W)"
  using assms(1)
proof induction
  case base
  then show ?case using assms(2) lf.frame_refl [of s] by (auto intro!: exI [of _ "[]"] simp: log_writes_only_def)
next
  case (step t u)
  then obtain W where W: "tx_ok t" "lframe s t" "writes t = writes s @ W" "disk t = apply_writes W (disk s)" "log_writes_only s W"
    by blast
  obtain V where V: "tx_ok u" "lframe t u" "writes u = writes t @ V" "disk u = apply_writes V (disk t)" "log_writes_only t V"
    using tx_step_ok [OF step.hyps(2) W(1)] by blast
  have "log_writes_only s (W @ V)" using W(5) V(5) lframe_sel [OF W(2)] by (auto simp: log_writes_only_def)
  moreover have "lframe s u" using lf.frame_trans [OF W(2) V(2)] .
  ultimately show ?case using W V by (intro conjI exI [of _ "W @ V"]) (simp_all add: apply_writes_append)
qed

text \<open>A disk on which only log copies were written stands for the old contents.\<close>

lemma log_writes_invisible:
  assumes m: "log_mounted s" and W: "log_writes_only s W"
  shows "disk_log_ok (disksize s) (l_start s) (l_size s) (apply_writes W (disk s))"
    and "n \<notin> log_region s \<Longrightarrow> recovered (l_start s) (apply_writes W (disk s)) n = disk s n"
proof -
  note ok = mounted_disk_ok [OF m]
  have inv: "log_inv s" and one: "1 \<notin> log_region s" using m by (simp_all add: log_mounted_def)
  note I = log_invD [OF inv]
  let ?D = "apply_writes W (disk s)"
  have same: "?D k = disk s k" if "k \<notin> log_region s - {l_start s}" for k
    by (rule apply_writes_other) (use that W in \<open>auto simp: log_writes_only_def\<close>)
  have "length (apply_writes W (disk s) k) = BSIZE" for k
    using W
  proof (induction W rule: rev_induct)
    case Nil
    then show ?case using bio_disk [OF I(1)] by simp
  next
    case (snoc w W)
    then show ?case by (cases w) (auto simp: log_writes_only_def)
  qed
  moreover have e: "?D (l_start s) = disk s (l_start s)" "?D 1 = disk s 1" using same one I(18) by auto
  moreover have "disk_logged (l_start s) ?D = []" by (simp add: disk_logged_def e I(15))
  ultimately show "disk_log_ok (disksize s) (l_start s) (l_size s) ?D"
    using ok I(15) by (simp add: disk_log_ok_def sb_log_def)
  show "recovered (l_start s) ?D n = disk s n" if "n \<notin> log_region s"
    using same [of n] that by (simp add: recovered_def e I(15))
qed

text \<open>The disk when the power fails after some of the writes between two states of a run.\<close>

definition crash_between :: "'z log_state_scheme \<Rightarrow> 'z log_state_scheme \<Rightarrow> (uint \<Rightarrow> byte list) \<Rightarrow> bool" where
  "crash_between s s' D \<longleftrightarrow> (\<exists>k. D = apply_writes (take k (drop (length (writes s)) (writes s'))) (disk s))"

text \<open>C1. A transaction is atomic with respect to crashes. It starts in \<open>s0\<close> with an empty
  log, reads, changes and releases blocks, and commits. The power fails after any number
  of its sector writes; the machine reboots, and the power may fail again, any number of
  times, after any number of the writes of the recovery in \<open>initlog\<close>. When \<open>initlog\<close>
  finally runs to its end it returns, the log is in order, and outside the log the disk
  has either everywhere the contents of before the transaction, or everywhere those the
  transaction left in the cache.\<close>

theorem transaction_atomic:
  fixes s0 t :: "'z log_state_scheme"
  assumes "tx_ok s0" and "lh_n s0 = 0" and "tx_step\<^sup>*\<^sup>* s0 s" and "busy s = {}" and "commit_trans s = Ret () s'"
    and "crash_between s0 s' D" and "crashed (disksize s0) TYPE('z log_state_scheme) D D'" and "rebooted (disksize s0) D' t"
  shows "\<exists>t'. initlog t = Ret () t' \<and> log_inv t' \<and>
    ((\<forall>n. n \<notin> log_region s0 \<longrightarrow> disk t' n = blk s0 n) \<or> (\<forall>n. n \<notin> log_region s0 \<longrightarrow> disk t' n = blk s n))"
proof -
  have m0: "log_mounted s0" and h0: "held s0 = {}" using assms(1) by (simp_all add: tx_ok_def)
  obtain W where W: "tx_ok s" "lframe s0 s" "writes s = writes s0 @ W" "disk s = apply_writes W (disk s0)" "log_writes_only s0 W"
    using tx_steps_ok [OF assms(3,1)] by blast
  note f = lframe_sel [OF W(2)]
  have old: "disk s0 = blk s0" using tx_okD(6) [OF assms(1)] assms(2) by (auto simp: logged_def)
  have ds: "disk s n = disk s0 n" if "n \<notin> log_region s0" for n
    unfolding W(4) by (rule apply_writes_other) (use W(5) that in \<open>auto simp: log_writes_only_def\<close>)
  obtain k where D: "D = apply_writes (take k (drop (length (writes s0)) (writes s'))) (disk s0)"
    using assms(6) by (auto simp: crash_between_def)
  define V where "V = (if lh_n s > 0 then commit_writes s else [])"
  obtain c where "commit_trans s = Ret () c" "writes c = writes s @ (if lh_n s > 0 then commit_writes s else [])"
    by (rule commit_trans_run [OF tx_okD(1,3) [OF W(1)] assms(4)]) (rule that)
  then have V: "writes s' = writes s @ V" using assms(5) by (simp add: V_def)
  have rg: "log_region s0 = region (l_start s0) (l_size s0)" by (simp add: log_region_def region_def)
  have P: "disk_log_ok (disksize s0) (l_start s0) (l_size s0) D \<and>
    ((\<forall>n. n \<notin> log_region s0 \<longrightarrow> recovered (l_start s0) D n = blk s0 n) \<or>
     (\<forall>n. n \<notin> log_region s0 \<longrightarrow> recovered (l_start s0) D n = blk s n))"
  proof (cases "k \<le> length W")
    case True
    then have D: "D = apply_writes (take k W) (disk s0)" using D V W(3) by simp
    have "log_writes_only s0 (take k W)" using W(5) set_take_subset [of k W] by (auto simp: log_writes_only_def)
    from log_writes_invisible [OF m0 this] show ?thesis unfolding D old by blast
  next
    case False
    then have "D = apply_writes (take (k - length W) V) (disk s)"
      using D V(1) W(3,4) by (simp add: apply_writes_append)
    then obtain j where D: "D = apply_writes (take j (commit_writes s)) (disk s)"
      using V_def by (cases "lh_n s > 0") (auto intro: that [of 0])
    note C = commit_prefix [OF tx_okD(4) [OF W(1)] assms(4) D, unfolded f]
    from C(2) have "(\<forall>n. n \<notin> log_region s0 \<longrightarrow> recovered (l_start s0) D n = blk s0 n) \<or>
      (\<forall>n. n \<notin> log_region s0 \<longrightarrow> recovered (l_start s0) D n = blk s n)"
      by (rule disj_forward) (simp_all add: ds old)
    then show ?thesis using C(1) by blast
  qed
  then have ok: "disk_log_ok (disksize s0) (l_start s0) (l_size s0) D" by blast
  have Q: "disk_log_ok (disksize s0) (l_start s0) (l_size s0) D'"
      "\<And>n. n \<notin> log_region s0 \<Longrightarrow> recovered (l_start s0) D' n = recovered (l_start s0) D n"
    using crashed_recovered [OF assms(7) ok] unfolding rg by blast+
  obtain t' where t': "initlog t = Ret () t'" "log_inv t'"
      "\<And>n. n \<notin> region (l_start s0) (l_size s0) \<Longrightarrow> disk t' n = recovered (l_start s0) D' n"
    by (rule initlog_recovers [OF assms(8) Q(1)]) (rule that)
  from P [THEN conjunct2] have "(\<forall>n. n \<notin> log_region s0 \<longrightarrow> disk t' n = blk s0 n) \<or>
      (\<forall>n. n \<notin> log_region s0 \<longrightarrow> disk t' n = blk s n)"
    by (rule disj_forward) (simp_all add: Q(2) t'(3) [folded rg])
  then show ?thesis using t'(1,2) by blast
qed

text \<open>A transaction on the small system with an empty cache and some disk: block 5 is overwritten,
  and the power fails right after the commit record.\<close>

definition small_fs :: "(uint \<Rightarrow> byte list) \<Rightarrow> log_state" where
  "small_fs D = (empty_cache small_state)\<lparr>disk := D, lh_n := 0\<rparr>"

lemma small_fs_ok:
  assumes "\<And>n. length (D n) = BSIZE" and "D 1 = small_disk 1" and "D 10 = block_of 0"
  shows "tx_ok (small_fs D)" "lh_n (small_fs D) = 0" "busy (small_fs D) = {}" "log_region (small_fs D) = log_region small_state"
    "disksize (small_fs D) = 20" "l_busy (small_fs D)" "logged (small_fs D) = []" "blk (small_fs D) = D" "writes (small_fs D) = []"
    "disk (small_fs D) = D" "l_start (small_fs D) = 10" "l_size (small_fs D) = 10"
proof -
  have b: "bio_inv (small_fs D)" "busy (small_fs D) = {}" "pinned (small_fs D) = {}" "held (small_fs D) = {}"
      "disk (small_fs D) = D" "disksize (small_fs D) = 20" "length (lh_sector (small_fs D)) = LOGSIZE"
    using empty_cache_rebooted [OF assms(1)] by (simp_all add: rebooted_def small_fs_def)
  show lg: "lh_n (small_fs D) = 0" "logged (small_fs D) = []" and "busy (small_fs D) = {}" "disksize (small_fs D) = 20"
      "disk (small_fs D) = D"
    using b by (simp_all add: small_fs_def logged_def)
  show rg: "log_region (small_fs D) = log_region small_state" and "l_busy (small_fs D)" and "writes (small_fs D) = []"
    by (simp_all add: small_fs_def empty_cache_def log_region_def) (simp_all add: small_state_def)
  show l: "l_start (small_fs D) = 10" "l_size (small_fs D) = 10" by (simp_all add: small_fs_def empty_cache_def small_sel)
  have ld: "l_dev (small_fs D) = 1" by (simp add: small_fs_def empty_cache_def small_sel)
  show bd: "blk (small_fs D) = D" using blk_disk [OF b(1-3)] b(5) by simp
  have "log_inv (small_fs D)"
    unfolding log_inv_def lg l ld b(2,3,6) bd b(5) using b(1,7) assms(3) by (simp add: hd_n_block_of)
  moreover have "sb_log small_disk = (10, 10)" "1 \<notin> log_region small_state"
    using small_mounted by (simp_all add: log_mounted_def small_sel)
  then have "sb_log D = (10, 10)" "1 \<notin> log_region small_state" using assms(2) by (simp_all add: sb_log_def)
  ultimately show "tx_ok (small_fs D)"
    using b(4) by (simp add: tx_ok_def log_mounted_def lg l b(5,6) bd rg)
qed

theorem transaction_atomic_witness:
  "\<exists>s s' D t'. tx_step\<^sup>*\<^sup>* (small_fs small_disk) s \<and> blk s 5 = block_of 7 \<and> commit_trans s = Ret () s' \<and> crash_between (small_fs small_disk) s' D \<and>
    initlog ((empty_cache small_state)\<lparr>disk := D\<rparr>) = Ret () t' \<and> log_inv t' \<and>
    ((\<forall>n. n \<notin> log_region (small_fs small_disk) \<longrightarrow> disk t' n = small_disk n) \<or>
     (\<forall>n. n \<notin> log_region (small_fs small_disk) \<longrightarrow> disk t' n = blk s n))"
proof -
  have "small_disk 10 = block_of 0" by (simp add: small_disk_def)
  note S = small_fs_ok [OF length_small_disk(1) refl this]
  have u: "fs_block (small_fs small_disk) 5" "5 \<notin> busy (small_fs small_disk)" "tx_room (small_fs small_disk) {5}"
    using S by (simp_all add: fs_block_def tx_room_def log_region_def small_sel)
  obtain i s1 where s1: "bread ROOTDEV 5 (small_fs small_disk) = Ret i s1" "tx_ok s1" "lframe (small_fs small_disk) s1" "holds s1 i 5"
      "blk s1 = blk (small_fs small_disk)" "busy s1 = insert 5 (busy (small_fs small_disk))" "logset s1 = logset (small_fs small_disk)"
    using tx.rd [OF S(1) tx.usable_readable [OF u(1)] u(2,3)] by (elim wpE) blast
  have u1: "fs_block s1 5" "l_busy s1" "tx_room s1 {5}"
    using tx.keeps_usable [OF s1(3)] tx.keeps_writable [OF s1(3)] u(1) S(6)
      tx.room_mono [OF s1(3) _ _ subset_refl u(3)] s1(6,7) by auto
  obtain s2 where s2: "log_update i (\<lambda>_. block_of 7) s1 = Ret () s2" "tx_ok s2" "lframe s1 s2"
      "\<forall>m. fs_readable s1 m \<longrightarrow> blk s2 m = ((blk s1)(5 := block_of 7)) m" "busy s2 = busy s1" "holds s2 i 5"
    using tx.upd [OF s1(2) u1(1) s1(4) u1(2,3), of "\<lambda>_. block_of 7"] s1(4) by (auto elim!: wp_unitE)
  have u2: "fs_block s2 5" using tx.keeps_usable [OF s2(3)] u1(1) by simp
  obtain s where s: "brelse i s2 = Ret () s" "tx_ok s" "blk s = blk s2" "busy s = busy s2 - {5}" "lframe s2 s"
    using tx.rel [OF s2(2) tx.usable_readable [OF u2] s2(6)] by (elim wp_unitE) blast
  have st: "tx_step (small_fs small_disk) s1" "tx_step s1 s2" "tx_step s2 s"
    using tx_step.read [OF u s1(1)] tx_step.update [OF u1(1) s1(4) u1(2,3) _ s2(1)] tx_step.release [OF s2(6) s(1)] by simp_all
  have run: "tx_step\<^sup>*\<^sup>* (small_fs small_disk) s"
    by (rule converse_rtranclp_into_rtranclp, rule st(1), rule converse_rtranclp_into_rtranclp, rule st(2), rule r_into_rtranclp, rule st(3))
  have busy: "busy s = {}" using s(4) s2(5) s1(6) S(3) by simp
  have five: "blk s 5 = block_of 7" using s(3) s2(4) tx.usable_readable [OF u1(1)] by simp
  obtain s' where s': "commit_trans s = Ret () s'" "log_inv s'" "disk s' = apply_writes (if lh_n s > 0 then commit_writes s else []) (disk s)"
      "writes s' = writes s @ (if lh_n s > 0 then commit_writes s else [])"
    by (rule commit_trans_run [OF tx_okD(1,3) [OF s(2)] busy]) (rule that)
  obtain W where W: "writes s = writes (small_fs small_disk) @ W" "disk s = apply_writes W (disk (small_fs small_disk))"
    using tx_steps_ok [OF run S(1)] by blast
  define D where "D = disk s'"
  have c: "crash_between (small_fs small_disk) s' D"
    unfolding crash_between_def D_def s'(3,4) W by (auto simp: apply_writes_append intro!: exI [of _ "length W + length (commit_writes s)"])
  have "rebooted (disksize (small_fs small_disk)) D ((empty_cache small_state)\<lparr>disk := D\<rparr>)"
    unfolding S(5) by (rule empty_cache_rebooted) (simp add: D_def bio_disk [OF log_invD(1) [OF s'(2)]])
  from transaction_atomic [OF S(1,2) run busy s'(1) c crashed.none this]
  show ?thesis using run five s'(1) c unfolding S(8) by blast
qed

end
