(* ===== verification/Xv6_Inode.thy ===== *)
theory Xv6_Inode
  imports Xv6_Tx
begin

text \<open>
  The lower half of fs.c: the block bitmap, the inodes on disk, the inode cache, and the
  mapping from the blocks of a file to disk blocks. A pointer to an inode is its index
  in \<open>icache.inode\<close>. The upper half (file contents, directories, paths), which also
  reaches the console, is in a later theory.
\<close>

section \<open>fs.h\<close>

abbreviation (input) NINODE :: nat where "NINODE \<equiv> 50"
abbreviation (input) NDIRECT :: nat where "NDIRECT \<equiv> 12"
abbreviation (input) NINDIRECT :: nat where "NINDIRECT \<equiv> 128"
abbreviation (input) MAXFILE :: nat where "MAXFILE \<equiv> 140"
abbreviation (input) BPB :: nat where "BPB \<equiv> 4096"
abbreviation (input) IPB :: uint where "IPB \<equiv> 8"
abbreviation (input) ROOTINO :: uint where "ROOTINO \<equiv> 1"

abbreviation (input) T_DIR :: ushort where "T_DIR \<equiv> 1"
abbreviation (input) T_FILE :: ushort where "T_FILE \<equiv> 2"
abbreviation (input) T_DEV :: ushort where "T_DEV \<equiv> 3"

definition IBLOCK :: "uint \<Rightarrow> uint" where
  "IBLOCK i = i div IPB + 2"

definition BBLOCK :: "uint \<Rightarrow> uint \<Rightarrow> uint" where
  "BBLOCK b ninodes = b div 4096 + ninodes div IPB + 3"

text \<open>The inode on disk: four \<open>short\<close> fields, the size, and 13 block numbers, 64 bytes.
  A \<open>short\<close> is kept as its 16 bits.\<close>

record dinode =
  d_type :: ushort
  d_major :: ushort
  d_minor :: ushort
  d_nlink :: ushort
  d_size :: uint
  d_addrs :: "uint list"

definition dec_dinode :: "byte list \<Rightarrow> dinode" where
  "dec_dinode bs = \<lparr>d_type = rd_at 2 dec16 bs 0, d_major = rd_at 2 dec16 bs 2, d_minor = rd_at 2 dec16 bs 4,
    d_nlink = rd_at 2 dec16 bs 6, d_size = rd_at 4 dec32 bs 8, d_addrs = rd_at 52 (dec32s 13) bs 12\<rparr>"

definition enc_dinode :: "dinode \<Rightarrow> byte list" where
  "enc_dinode d = enc16 (d_type d) @ enc16 (d_major d) @ enc16 (d_minor d) @ enc16 (d_nlink d) @
    enc32 (d_size d) @ enc32s (d_addrs d)"

text \<open>\<open>(struct dinode*)bp->data + inum%IPB\<close>.\<close>

definition dinode_off :: "uint \<Rightarrow> nat" where
  "dinode_off inum = 64 * unat (inum mod IPB)"

section \<open>State\<close>

datatype iflag = I_BUSY | I_VALID

record inode =
  i_dev :: uint
  i_inum :: uint
  i_ref :: int
  i_flags :: "iflag set"
  i_type :: ushort
  i_major :: ushort
  i_minor :: ushort
  i_nlink :: ushort
  i_size :: uint
  i_addrs :: "uint list"

record icache_state = log_state +
  icache :: "inode list"

definition upd_inode :: "nat \<Rightarrow> (inode \<Rightarrow> inode) \<Rightarrow> 'z icache_state_scheme \<Rightarrow> 'z icache_state_scheme" where
  "upd_inode i f s = s\<lparr>icache := (icache s)[i := f (icache s ! i)]\<rparr>"

text \<open>The copies between the inode in memory and on disk.\<close>

definition inode_load :: "dinode \<Rightarrow> inode \<Rightarrow> inode" where
  "inode_load d ip = ip\<lparr>i_type := d_type d, i_major := d_major d, i_minor := d_minor d, i_nlink := d_nlink d,
    i_size := d_size d, i_addrs := d_addrs d\<rparr>"

definition inode_store :: "inode \<Rightarrow> dinode" where
  "inode_store ip = \<lparr>d_type = i_type ip, d_major = i_major ip, d_minor = i_minor ip, d_nlink = i_nlink ip,
    d_size = i_size ip, d_addrs = i_addrs ip\<rparr>"

section \<open>Blocks\<close>

definition bzero :: "uint \<Rightarrow> uint \<Rightarrow> (unit, 'z log_state_scheme) kernel" where
  "bzero dev bno = bindk (bread dev bno) (\<lambda>bp.
    thenk (set_data bp (\<lambda>_. replicate BSIZE 0))
    (thenk (log_write bp)
    (brelse bp)))"

text \<open>Bit \<open>bi\<close> of a bitmap block, set and cleared with the mask \<open>1 << (bi % 8)\<close>.\<close>

definition bm_mask :: "nat \<Rightarrow> byte" where
  "bm_mask bi = push_bit (bi mod 8) 1"

definition bm_test :: "nat \<Rightarrow> byte list \<Rightarrow> bool" where
  "bm_test bi d \<longleftrightarrow> d ! (bi div 8) AND bm_mask bi \<noteq> 0"

definition bm_set :: "nat \<Rightarrow> byte list \<Rightarrow> byte list" where
  "bm_set bi d = d[bi div 8 := d ! (bi div 8) OR bm_mask bi]"

definition bm_clear :: "nat \<Rightarrow> byte list \<Rightarrow> byte list" where
  "bm_clear bi d = d[bi div 8 := d ! (bi div 8) AND NOT (bm_mask bi)]"

text \<open>\<open>balloc\<close> goes through the bitmap blocks (the list of their first bit numbers).\<close>

primrec balloc_scan :: "nat list \<Rightarrow> uint \<Rightarrow> superblock \<Rightarrow> (uint, 'z log_state_scheme) kernel" where
  "balloc_scan [] dev sb = panic ''balloc: out of blocks''"
| "balloc_scan (b # bs) dev sb = bindk (bread dev (BBLOCK (of_nat b) (sb_ninodes sb))) (\<lambda>bp s.
    case find (\<lambda>bi. \<not> bm_test bi (buf_data bp s)) [0..<min BPB (unat (sb_size sb) - b)] of
      Some bi \<Rightarrow>
        thenk (set_data bp (bm_set bi))
        (thenk (log_write bp)
        (thenk (brelse bp)
        (thenk (bzero dev (of_nat (b + bi)))
        (ret (of_nat (b + bi)))))) s
    | None \<Rightarrow> thenk (brelse bp) (balloc_scan bs dev sb) s)"

definition balloc :: "uint \<Rightarrow> (uint, 'z log_state_scheme) kernel" where
  "balloc dev = bindk (readsb dev) (\<lambda>sb.
    balloc_scan (map (\<lambda>k. BPB * k) [0..<(unat (sb_size sb) + BPB - 1) div BPB]) dev sb)"

definition bfree :: "uint \<Rightarrow> uint \<Rightarrow> (unit, 'z log_state_scheme) kernel" where
  "bfree dev b = bindk (readsb dev) (\<lambda>sb.
    bindk (bread dev (BBLOCK b (sb_ninodes sb))) (\<lambda>bp s.
    let bi = unat b mod BPB in
    if \<not> bm_test bi (buf_data bp s) then Panic ''freeing free block''
    else thenk (set_data bp (bm_clear bi))
      (thenk (log_write bp)
      (brelse bp)) s))"

section \<open>Inodes\<close>

definition iget :: "uint \<Rightarrow> uint \<Rightarrow> (nat, 'z icache_state_scheme) kernel" where
  "iget dev inum = thenk (acquire LkIcache) (\<lambda>s.
    case find (\<lambda>i. i_ref (icache s ! i) > 0 \<and> i_dev (icache s ! i) = dev \<and> i_inum (icache s ! i) = inum) [0..<NINODE] of
      Some i \<Rightarrow>
        thenk (modk (upd_inode i (\<lambda>ip. ip\<lparr>i_ref := i_ref ip + 1\<rparr>)))
        (thenk (release LkIcache) (ret i)) s
    | None \<Rightarrow>
        \<comment> \<open>recycle an inode cache entry\<close>
        (case find (\<lambda>i. i_ref (icache s ! i) = 0) [0..<NINODE] of
          None \<Rightarrow> Panic ''iget: no inodes''
        | Some i \<Rightarrow>
            thenk (modk (upd_inode i (\<lambda>ip. ip\<lparr>i_dev := dev, i_inum := inum, i_ref := 1, i_flags := {}\<rparr>)))
            (thenk (release LkIcache) (ret i)) s))"

primrec ialloc_scan :: "nat list \<Rightarrow> uint \<Rightarrow> ushort \<Rightarrow> (nat, 'z icache_state_scheme) kernel" where
  "ialloc_scan [] dev type = panic ''ialloc: no inodes''"
| "ialloc_scan (i # is) dev type = (let inum = of_nat i in
    bindk (bread dev (IBLOCK inum)) (\<lambda>bp s.
    if d_type (rd_at 64 dec_dinode (buf_data bp s) (dinode_off inum)) = 0 then
      thenk (set_data bp (\<lambda>d. wr_at enc_dinode d (dinode_off inum)
        \<lparr>d_type = type, d_major = 0, d_minor = 0, d_nlink = 0, d_size = 0, d_addrs = replicate 13 0\<rparr>))
      (thenk (log_write bp)
      (thenk (brelse bp)
      (iget dev inum))) s
    else thenk (brelse bp) (ialloc_scan is dev type) s))"

definition ialloc :: "uint \<Rightarrow> ushort \<Rightarrow> (nat, 'z icache_state_scheme) kernel" where
  "ialloc dev type = bindk (readsb dev) (\<lambda>sb. ialloc_scan [1..<unat (sb_ninodes sb)] dev type)"

definition iupdate :: "nat \<Rightarrow> (unit, 'z icache_state_scheme) kernel" where
  "iupdate i = (\<lambda>s. let ip = icache s ! i in
    bindk (bread (i_dev ip) (IBLOCK (i_inum ip))) (\<lambda>bp.
    thenk (set_data bp (\<lambda>d. wr_at enc_dinode d (dinode_off (i_inum ip)) (inode_store ip)))
    (thenk (log_write bp)
    (brelse bp))) s)"

definition idup :: "nat \<Rightarrow> (nat, 'z icache_state_scheme) kernel" where
  "idup i = thenk (acquire LkIcache)
    (thenk (modk (upd_inode i (\<lambda>ip. ip\<lparr>i_ref := i_ref ip + 1\<rparr>)))
    (thenk (release LkIcache)
    (ret i)))"

text \<open>The part of \<open>ilock\<close> that reads the inode from disk.\<close>

definition ilock_read :: "nat \<Rightarrow> (unit, 'z icache_state_scheme) kernel" where
  "ilock_read i = (\<lambda>s. let ip = icache s ! i in
    bindk (bread (i_dev ip) (IBLOCK (i_inum ip))) (\<lambda>bp.
    bindk (getk (buf_data bp)) (\<lambda>d.
    thenk (modk (upd_inode i (inode_load (rd_at 64 dec_dinode d (dinode_off (i_inum ip))))))
    (thenk (brelse bp)
    (thenk (modk (upd_inode i (\<lambda>ip. ip\<lparr>i_flags := insert I_VALID (i_flags ip)\<rparr>)))
    (\<lambda>s. if i_type (icache s ! i) = 0 then Panic ''ilock: no type'' else Ret () s))))) s)"

definition ilock :: "nat \<Rightarrow> (unit, 'z icache_state_scheme) kernel" where
  "ilock i = (\<lambda>s.
    if i_ref (icache s ! i) < 1 then Panic ''ilock''
    else thenk (acquire LkIcache)
      (thenk (\<lambda>s. if I_BUSY \<in> i_flags (icache s ! i) then sleep (ChanInode i) LkIcache s else Ret () s)
      (thenk (modk (upd_inode i (\<lambda>ip. ip\<lparr>i_flags := insert I_BUSY (i_flags ip)\<rparr>)))
      (thenk (release LkIcache)
      (\<lambda>s. if I_VALID \<notin> i_flags (icache s ! i) then ilock_read i s else Ret () s)))) s)"

definition iunlock :: "nat \<Rightarrow> (unit, 'z icache_state_scheme) kernel" where
  "iunlock i = (\<lambda>s.
    if I_BUSY \<notin> i_flags (icache s ! i) \<or> i_ref (icache s ! i) < 1 then Panic ''iunlock''
    else thenk (acquire LkIcache)
      (thenk (modk (upd_inode i (\<lambda>ip. ip\<lparr>i_flags := i_flags ip - {I_BUSY}\<rparr>)))
      (thenk (wakeup (ChanInode i))
      (release LkIcache))) s)"

section \<open>The blocks of an inode\<close>

text \<open>\<open>bmap\<close>: the direct blocks; the indirect block is itself allocated on demand.\<close>

definition set_addr :: "nat \<Rightarrow> nat \<Rightarrow> uint \<Rightarrow> (unit, 'z icache_state_scheme) kernel" where
  "set_addr i k a = modk (upd_inode i (\<lambda>ip. ip\<lparr>i_addrs := (i_addrs ip)[k := a]\<rparr>))"

definition bmap_slot :: "nat \<Rightarrow> nat \<Rightarrow> (uint, 'z icache_state_scheme) kernel" where
  "bmap_slot i k = (\<lambda>s. let addr = i_addrs (icache s ! i) ! k in
    if addr = 0 then bindk (balloc (i_dev (icache s ! i))) (\<lambda>addr. thenk (set_addr i k addr) (ret addr)) s
    else Ret addr s)"

definition bmap_indirect :: "uint \<Rightarrow> uint \<Rightarrow> nat \<Rightarrow> (uint, 'z icache_state_scheme) kernel" where
  "bmap_indirect dev ind bn = bindk (bread dev ind) (\<lambda>bp s.
    let addr = rd_at 4 dec32 (buf_data bp s) (4 * bn) in
    if addr = 0 then
      bindk (balloc dev) (\<lambda>addr.
      thenk (set_data bp (\<lambda>d. wr_at enc32 d (4 * bn) addr))
      (thenk (log_write bp)
      (thenk (brelse bp)
      (ret addr)))) s
    else thenk (brelse bp) (ret addr) s)"

definition bmap :: "nat \<Rightarrow> uint \<Rightarrow> (uint, 'z icache_state_scheme) kernel" where
  "bmap i bn =
    (if unat bn < NDIRECT then bmap_slot i (unat bn)
     else let bn = unat bn - NDIRECT in
     if bn < NINDIRECT then bindk (bmap_slot i NDIRECT) (\<lambda>addr s. bmap_indirect (i_dev (icache s ! i)) addr bn s)
     else panic ''bmap: out of range'')"

definition itrunc :: "nat \<Rightarrow> (unit, 'z icache_state_scheme) kernel" where
  "itrunc i =
    thenk (foreach [0..<NDIRECT] (\<lambda>k s. let ip = icache s ! i in
      if i_addrs ip ! k \<noteq> 0 then thenk (bfree (i_dev ip) (i_addrs ip ! k)) (set_addr i k 0) s else Ret () s))
    (thenk (\<lambda>s. let ip = icache s ! i; ind = i_addrs ip ! NDIRECT in
      if ind \<noteq> 0 then
        bindk (bread (i_dev ip) ind) (\<lambda>bp.
        thenk (foreach [0..<NINDIRECT] (\<lambda>j s. let a = rd_at 4 dec32 (buf_data bp s) (4 * j) in
          if a \<noteq> 0 then bfree (i_dev ip) a s else Ret () s))
        (thenk (brelse bp)
        (thenk (bfree (i_dev ip) ind)
        (set_addr i NDIRECT 0)))) s
      else Ret () s)
    (thenk (modk (upd_inode i (\<lambda>ip. ip\<lparr>i_size := 0\<rparr>)))
    (iupdate i)))"

definition iput :: "nat \<Rightarrow> (unit, 'z icache_state_scheme) kernel" where
  "iput i = thenk (acquire LkIcache)
    (thenk (\<lambda>s. let ip = icache s ! i in
      if i_ref ip = 1 \<and> I_VALID \<in> i_flags ip \<and> i_nlink ip = 0 then
        \<comment> \<open>inode has no links: truncate and free inode\<close>
        if I_BUSY \<in> i_flags ip then Panic ''iput busy''
        else thenk (modk (upd_inode i (\<lambda>ip. ip\<lparr>i_flags := insert I_BUSY (i_flags ip)\<rparr>)))
          (thenk (release LkIcache)
          (thenk (itrunc i)
          (thenk (modk (upd_inode i (\<lambda>ip. ip\<lparr>i_type := 0\<rparr>)))
          (thenk (iupdate i)
          (thenk (acquire LkIcache)
          (thenk (modk (upd_inode i (\<lambda>ip. ip\<lparr>i_flags := {}\<rparr>)))
          (wakeup (ChanInode i)))))))) s
      else Ret () s)
    (thenk (modk (upd_inode i (\<lambda>ip. ip\<lparr>i_ref := i_ref ip - 1\<rparr>)))
    (release LkIcache)))"

definition iunlockput :: "nat \<Rightarrow> (unit, 'z icache_state_scheme) kernel" where
  "iunlockput i = thenk (iunlock i) (iput i)"

text \<open>\<open>struct stat\<close> of stat.h.\<close>

record stat =
  st_type :: ushort
  st_dev :: uint
  st_ino :: uint
  st_nlink :: ushort
  st_size :: uint

definition stati :: "nat \<Rightarrow> 'z icache_state_scheme \<Rightarrow> stat" where
  "stati i s = (let ip = icache s ! i in
    \<lparr>st_type = i_type ip, st_dev = i_dev ip, st_ino = i_inum ip, st_nlink = i_nlink ip, st_size = i_size ip\<rparr>)"

end
