(* ===== verification/Xv6_Device.thy ===== *)
theory Xv6_Device
  imports Xv6_Inode
begin

text \<open>
  The devices: port and memory-mapped I/O, and the drivers that only need those:
  picirq.c, timer.c, lapic.c, the register access of ioapic.c, the serial port uart.c
  and the keyboard kbd.c. The hardware is a parameter of the state: \<open>dev_in\<close> and
  \<open>dev_mmio\<close> give the value a read returns, depending on all the I/O done so far, which
  \<open>trace\<close> records.
\<close>

section \<open>Input and output (x86.h)\<close>

datatype io_event = Out ushort byte | In ushort byte | MOut uint uint | MIn uint uint
  | OutL ushort uint | InL ushort uint

record io_state = icache_state +
  dev_in :: "io_event list \<Rightarrow> ushort \<Rightarrow> byte"
  dev_mmio :: "io_event list \<Rightarrow> uint \<Rightarrow> uint"
  trace :: "io_event list"
  irqmask :: ushort
  ismp :: bool
  ioapicid :: byte
  lapic :: uint
  uart :: bool
  kbd_shift :: uint

definition outb :: "ushort \<Rightarrow> byte \<Rightarrow> (unit, 'z io_state_scheme) kernel" where
  "outb port v = modk (\<lambda>s. s\<lparr>trace := trace s @ [Out port v]\<rparr>)"

definition inb :: "ushort \<Rightarrow> (byte, 'z io_state_scheme) kernel" where
  "inb port = (\<lambda>s. let v = dev_in s (trace s) port in Ret v (s\<lparr>trace := trace s @ [In port v]\<rparr>))"

definition mmio_write :: "uint \<Rightarrow> uint \<Rightarrow> (unit, 'z io_state_scheme) kernel" where
  "mmio_write a v = modk (\<lambda>s. s\<lparr>trace := trace s @ [MOut a v]\<rparr>)"

definition mmio_read :: "uint \<Rightarrow> (uint, 'z io_state_scheme) kernel" where
  "mmio_read a = (\<lambda>s. let v = dev_mmio s (trace s) a in Ret v (s\<lparr>trace := trace s @ [MIn a v]\<rparr>))"

definition outbs :: "(ushort \<times> byte) list \<Rightarrow> (unit, 'z io_state_scheme) kernel" where
  "outbs pvs = foreach pvs (\<lambda>(p, v). outb p v)"

section \<open>traps.h\<close>

abbreviation (input) T_IRQ0 :: uint where "T_IRQ0 \<equiv> 32"
abbreviation (input) T_SYSCALL :: uint where "T_SYSCALL \<equiv> 64"
abbreviation (input) IRQ_TIMER :: nat where "IRQ_TIMER \<equiv> 0"
abbreviation (input) IRQ_KBD :: nat where "IRQ_KBD \<equiv> 1"
abbreviation (input) IRQ_COM1 :: nat where "IRQ_COM1 \<equiv> 4"
abbreviation (input) IRQ_IDE :: nat where "IRQ_IDE \<equiv> 14"
abbreviation (input) IRQ_ERROR :: nat where "IRQ_ERROR \<equiv> 19"
abbreviation (input) IRQ_SPURIOUS :: nat where "IRQ_SPURIOUS \<equiv> 31"

section \<open>picirq.c and timer.c\<close>

definition picsetmask :: "ushort \<Rightarrow> (unit, 'z io_state_scheme) kernel" where
  "picsetmask m = thenk (modk (\<lambda>s. s\<lparr>irqmask := m\<rparr>))
    (thenk (outb 0x21 (ucast m))
    (outb 0xA1 (ucast (drop_bit 8 m))))"

definition picenable :: "nat \<Rightarrow> (unit, 'z io_state_scheme) kernel" where
  "picenable irq = (\<lambda>s. picsetmask (irqmask s AND NOT (push_bit irq 1)) s)"

definition picinit :: "(unit, 'z io_state_scheme) kernel" where
  "picinit = thenk (outbs
      [(0x21, 0xFF), (0xA1, 0xFF),
       \<comment> \<open>the master\<close>
       (0x20, 0x11), (0x21, 32), (0x21, 4), (0x21, 3),
       \<comment> \<open>the slave\<close>
       (0xA0, 0x11), (0xA1, 40), (0xA1, 2), (0xA1, 3),
       (0x20, 0x68), (0x20, 0x0a), (0xA0, 0x68), (0xA0, 0x0a)])
    (\<lambda>s. if irqmask s \<noteq> 0xFFFF then picsetmask (irqmask s) s else Ret () s)"

definition TIMER_DIV :: "nat \<Rightarrow> nat" where
  "TIMER_DIV x = (1193182 + x div 2) div x"

definition timerinit :: "(unit, 'z io_state_scheme) kernel" where
  "timerinit = thenk (outb 0x43 0x34)
    (thenk (outb 0x40 (of_nat (TIMER_DIV 100 mod 256)))
    (thenk (outb 0x40 (of_nat (TIMER_DIV 100 div 256)))
    (picenable IRQ_TIMER)))"

section \<open>ioapic.c: register access\<close>

abbreviation (input) IOAPIC :: uint where "IOAPIC \<equiv> 0xFEC00000"
abbreviation (input) REG_TABLE :: uint where "REG_TABLE \<equiv> 0x10"

definition ioapicread :: "uint \<Rightarrow> (uint, 'z io_state_scheme) kernel" where
  "ioapicread reg = thenk (mmio_write IOAPIC reg) (mmio_read (IOAPIC + 16))"

definition ioapicwrite :: "uint \<Rightarrow> uint \<Rightarrow> (unit, 'z io_state_scheme) kernel" where
  "ioapicwrite reg data = thenk (mmio_write IOAPIC reg) (mmio_write (IOAPIC + 16) data)"

definition ioapicenable :: "nat \<Rightarrow> uint \<Rightarrow> (unit, 'z io_state_scheme) kernel" where
  "ioapicenable irq cpunum = (\<lambda>s. if \<not> ismp s then Ret () s
    else thenk (ioapicwrite (REG_TABLE + 2 * of_nat irq) (T_IRQ0 + of_nat irq))
      (ioapicwrite (REG_TABLE + 2 * of_nat irq + 1) (push_bit 24 cpunum)) s)"

section \<open>lapic.c\<close>

text \<open>The registers, as byte offsets.\<close>

abbreviation (input) LAPIC_ID :: uint where "LAPIC_ID \<equiv> 0x20"
abbreviation (input) LAPIC_VER :: uint where "LAPIC_VER \<equiv> 0x30"
abbreviation (input) LAPIC_TPR :: uint where "LAPIC_TPR \<equiv> 0x80"
abbreviation (input) LAPIC_EOI :: uint where "LAPIC_EOI \<equiv> 0xB0"
abbreviation (input) LAPIC_SVR :: uint where "LAPIC_SVR \<equiv> 0xF0"
abbreviation (input) LAPIC_ESR :: uint where "LAPIC_ESR \<equiv> 0x280"
abbreviation (input) LAPIC_ICRLO :: uint where "LAPIC_ICRLO \<equiv> 0x300"
abbreviation (input) LAPIC_ICRHI :: uint where "LAPIC_ICRHI \<equiv> 0x310"
abbreviation (input) LAPIC_TIMER :: uint where "LAPIC_TIMER \<equiv> 0x320"
abbreviation (input) LAPIC_PCINT :: uint where "LAPIC_PCINT \<equiv> 0x340"
abbreviation (input) LAPIC_LINT0 :: uint where "LAPIC_LINT0 \<equiv> 0x350"
abbreviation (input) LAPIC_LINT1 :: uint where "LAPIC_LINT1 \<equiv> 0x360"
abbreviation (input) LAPIC_ERROR :: uint where "LAPIC_ERROR \<equiv> 0x370"
abbreviation (input) LAPIC_TICR :: uint where "LAPIC_TICR \<equiv> 0x380"
abbreviation (input) LAPIC_TDCR :: uint where "LAPIC_TDCR \<equiv> 0x3E0"

definition lapicw :: "uint \<Rightarrow> uint \<Rightarrow> (unit, 'z io_state_scheme) kernel" where
  "lapicw reg v = (\<lambda>s. thenk (mmio_write (lapic s + reg) v)
    (thenk (mmio_read (lapic s + LAPIC_ID)) (ret ())) s)"

text \<open>The polling loop on the delivery status; \<open>fuel\<close> bounds the number of reads, and
  running out of it means the bit never cleared.\<close>

primrec lapic_poll :: "nat \<Rightarrow> (unit, 'z io_state_scheme) kernel" where
  "lapic_poll 0 = panic ''lapicinit: no delivery''"
| "lapic_poll (Suc fuel) = (\<lambda>s. bindk (mmio_read (lapic s + LAPIC_ICRLO)) (\<lambda>v.
    if v AND 0x1000 \<noteq> 0 then lapic_poll fuel else ret ()) s)"

definition lapicinit :: "nat \<Rightarrow> (unit, 'z io_state_scheme) kernel" where
  "lapicinit fuel = (\<lambda>s. if lapic s = 0 then Ret () s else
    thenk (lapicw LAPIC_SVR (0x100 OR (T_IRQ0 + of_nat IRQ_SPURIOUS)))
    (thenk (lapicw LAPIC_TDCR 0xB)
    (thenk (lapicw LAPIC_TIMER (0x20000 OR (T_IRQ0 + of_nat IRQ_TIMER)))
    (thenk (lapicw LAPIC_TICR 10000000)
    (thenk (lapicw LAPIC_LINT0 0x10000)
    (thenk (lapicw LAPIC_LINT1 0x10000)
    (thenk (bindk (mmio_read (lapic s + LAPIC_VER)) (\<lambda>v.
       whenk (drop_bit 16 v AND 0xFF \<ge> 4) (lapicw LAPIC_PCINT 0x10000)))
    (thenk (lapicw LAPIC_ERROR (T_IRQ0 + of_nat IRQ_ERROR))
    (thenk (lapicw LAPIC_ESR 0)
    (thenk (lapicw LAPIC_ESR 0)
    (thenk (lapicw LAPIC_EOI 0)
    (thenk (lapicw LAPIC_ICRHI 0)
    (thenk (lapicw LAPIC_ICRLO (0x80000 OR 0x500 OR 0x8000))
    (thenk (lapic_poll fuel)
    (lapicw LAPIC_TPR 0)))))))))))))) s)"

text \<open>The number of the executing CPU (interrupts are off when it is called).\<close>

definition cpunum :: "(uint, 'z io_state_scheme) kernel" where
  "cpunum = (\<lambda>s. if lapic s \<noteq> 0 then bindk (mmio_read (lapic s + LAPIC_ID)) (\<lambda>v. ret (drop_bit 24 v)) s
    else Ret 0 s)"

definition lapiceoi :: "(unit, 'z io_state_scheme) kernel" where
  "lapiceoi = (\<lambda>s. if lapic s \<noteq> 0 then lapicw LAPIC_EOI 0 s else Ret () s)"

definition store16 :: "uint \<Rightarrow> ushort \<Rightarrow> memory \<Rightarrow> memory" where
  "store16 a v m = m(a := ucast v, a + 1 := ucast (drop_bit 8 v))"

definition lapicstartap :: "byte \<Rightarrow> uint \<Rightarrow> (unit, 'z io_state_scheme) kernel" where
  "lapicstartap apicid addr =
    thenk (outb 0x70 0xF)
    (thenk (outb 0x71 0x0A)
    (thenk (modk (\<lambda>s. s\<lparr>mem := store16 (p2v 0x467 + 2) (ucast (drop_bit 4 addr)) (store16 (p2v 0x467) 0 (mem s))\<rparr>))
    (thenk (lapicw LAPIC_ICRHI (push_bit 24 (ucast apicid)))
    (thenk (lapicw LAPIC_ICRLO (0x500 OR 0x8000 OR 0x4000))
    (thenk (lapicw LAPIC_ICRLO (0x500 OR 0x8000))
    (foreach [0..<2] (\<lambda>i :: nat.
      thenk (lapicw LAPIC_ICRHI (push_bit 24 (ucast apicid)))
      (lapicw LAPIC_ICRLO (0x600 OR drop_bit 12 addr)))))))))"

section \<open>uart.c\<close>

abbreviation (input) COM1 :: ushort where "COM1 \<equiv> 0x3f8"

text \<open>\<open>uartputc\<close> waits, 128 turns at most, for the transmitter.\<close>

primrec uart_wait :: "nat \<Rightarrow> (unit, 'z io_state_scheme) kernel" where
  "uart_wait 0 = ret ()"
| "uart_wait (Suc k) = bindk (inb (COM1 + 5)) (\<lambda>v. if v AND 0x20 = 0 then uart_wait k else ret ())"

definition uartputc :: "uint \<Rightarrow> (unit, 'z io_state_scheme) kernel" where
  "uartputc c = (\<lambda>s. if \<not> uart s then Ret () s
    else thenk (uart_wait 128) (outb COM1 (ucast c)) s)"

definition uartgetc :: "(int, 'z io_state_scheme) kernel" where
  "uartgetc = (\<lambda>s. if \<not> uart s then Ret (-1) s
    else bindk (inb (COM1 + 5)) (\<lambda>v.
      if v AND 1 = 0 then ret (-1)
      else bindk (inb COM1) (\<lambda>c. ret (uint c))) s)"

abbreviation str :: "string \<Rightarrow> byte list" where
  "str cs \<equiv> map of_char cs"

definition uartinit :: "(unit, 'z io_state_scheme) kernel" where
  "uartinit = thenk (outbs [(COM1 + 2, 0), (COM1 + 3, 0x80), (COM1, 12), (COM1 + 1, 0),
      (COM1 + 3, 3), (COM1 + 4, 0), (COM1 + 1, 1)])
    (bindk (inb (COM1 + 5)) (\<lambda>v.
      if v = 0xFF then ret ()
      else thenk (modk (\<lambda>s. s\<lparr>uart := True\<rparr>))
        (thenk (inb (COM1 + 2))
        (thenk (inb COM1)
        (thenk (picenable IRQ_COM1)
        (thenk (ioapicenable IRQ_COM1 0)
        (foreach (str ''xv6...'' @ [10]) (\<lambda>c. uartputc (ucast c)))))))))"

section \<open>kbd.h and kbd.c\<close>

abbreviation (input) SHIFT :: uint where "SHIFT \<equiv> 1"
abbreviation (input) CTL :: uint where "CTL \<equiv> 2"
abbreviation (input) ALT :: uint where "ALT \<equiv> 4"
abbreviation (input) CAPSLOCK :: uint where "CAPSLOCK \<equiv> 8"
abbreviation (input) NUMLOCK :: uint where "NUMLOCK \<equiv> 16"
abbreviation (input) SCROLLLOCK :: uint where "SCROLLLOCK \<equiv> 32"
abbreviation (input) E0ESC :: uint where "E0ESC \<equiv> 64"

text \<open>A table of 256 bytes given by its first elements and by designated ones.\<close>

definition key_table :: "byte list \<Rightarrow> (nat \<times> byte) list \<Rightarrow> nat \<Rightarrow> byte" where
  "key_table base des i = (case map_of des i of Some v \<Rightarrow> v
    | None \<Rightarrow> if i < length base then base ! i else 0)"

definition shiftcode :: "nat \<Rightarrow> byte" where
  "shiftcode = key_table [] [(0x1D, 2), (0x2A, 1), (0x36, 1), (0x38, 4), (0x9D, 2), (0xB8, 4)]"

definition togglecode :: "nat \<Rightarrow> byte" where
  "togglecode = key_table [] [(0x3A, 8), (0x45, 16), (0x46, 32)]"

definition key_special :: "byte \<Rightarrow> byte \<Rightarrow> (nat \<times> byte) list" where
  "key_special enter divk = [(0x9C, enter), (0xB5, divk), (0xC8, 0xE2), (0xD0, 0xE3), (0xC9, 0xE6), (0xD1, 0xE7),
    (0xCB, 0xE4), (0xCD, 0xE5), (0x97, 0xE0), (0xCF, 0xE1), (0xD2, 0xE8), (0xD3, 0xE9)]"

definition normalmap :: "nat \<Rightarrow> byte" where
  "normalmap = key_table
    ([0, 0x1B] @ str ''1234567890-='' @ [8, 9] @ str ''qwertyuiop[]'' @ [10, 0] @ str ''asdfghjkl;'' @
     [0x27, 0x60, 0, 0x5C] @ str ''zxcvbnm,./'' @ [0] @ str ''*'' @ [0] @ str '' '' @ replicate 13 0 @
     str ''789-456+1230.'')
    (key_special 10 0x2F)"

definition shiftmap :: "nat \<Rightarrow> byte" where
  "shiftmap = key_table
    ([0, 0x1B] @ str ''!@#$%^&*()_+'' @ [8, 9] @ str ''QWERTYUIOP{}'' @ [10, 0] @ str ''ASDFGHJKL:'' @
     [0x22, 0x7E, 0, 0x7C] @ str ''ZXCVBNM<>?'' @ [0] @ str ''*'' @ [0] @ str '' '' @ replicate 13 0 @
     str ''789-456+1230.'')
    (key_special 10 0x2F)"

text \<open>\<open>C(x)\<close> is \<open>x - '@'\<close>.\<close>

definition ctl :: "string \<Rightarrow> byte list" where
  "ctl cs = map (\<lambda>c. of_char c - 0x40) cs"

definition ctlmap :: "nat \<Rightarrow> byte" where
  "ctlmap = key_table
    (replicate 16 0 @ ctl ''QWERTYUIOP'' @ [0, 0, 13, 0] @ ctl ''ASDFGHJKL'' @ [0, 0, 0, 0] @ [0x5C - 0x40] @
     ctl ''ZXCVBNM'' @ [0, 0] @ ctl ''/'' @ [0, 0])
    (key_special 13 (0x2F - 0x40))"

definition charcode :: "uint \<Rightarrow> nat \<Rightarrow> byte" where
  "charcode k = (if k = 0 then normalmap else if k = 1 then shiftmap else ctlmap)"

definition kbdgetc :: "(int, 'z io_state_scheme) kernel" where
  "kbdgetc = bindk (inb 0x64) (\<lambda>st.
    if st AND 1 = 0 then ret (-1)
    else bindk (inb 0x60) (\<lambda>data s.
      let shift = kbd_shift s; data = (ucast data :: uint) in
      if data = 0xE0 then Ret 0 (s\<lparr>kbd_shift := shift OR E0ESC\<rparr>)
      else if data AND 0x80 \<noteq> 0 then
        \<comment> \<open>key released\<close>
        let data = (if shift AND E0ESC \<noteq> 0 then data else data AND 0x7F) in
        Ret 0 (s\<lparr>kbd_shift := shift AND NOT (ucast (shiftcode (unat data)) OR E0ESC)\<rparr>)
      else
        let (data, shift) = (if shift AND E0ESC \<noteq> 0 then (data OR 0x80, shift AND NOT E0ESC) else (data, shift));
            shift = (shift OR ucast (shiftcode (unat data))) XOR ucast (togglecode (unat data));
            c = (ucast (charcode (shift AND (CTL OR SHIFT)) (unat data)) :: uint);
            c = (if shift AND CAPSLOCK \<noteq> 0 then
                   if 0x61 \<le> c \<and> c \<le> 0x7A then c - 32
                   else if 0x41 \<le> c \<and> c \<le> 0x5A then c + 32 else c
                 else c) in
        Ret (uint c) (s\<lparr>kbd_shift := shift\<rparr>)))"

end
