(* ===== verification/Xv6_User.thy ===== *)
theory Xv6_User
  imports Xv6_Proc
begin

text \<open>
  The user memory of the running process, as the kernel reads and writes it through
  pointers the process passed: the processor translates the address through the page
  table in \<open>%cr3\<close>, and an access to a page that is not there (or, for a write, not
  writable: \<open>CR0_WP\<close> is set in entry.S) is a page fault in kernel mode, for which
  \<open>trap\<close> panics. The buffers of \<open>readi\<close>, \<open>writei\<close> and the device functions are
  destinations and sources of the types below: a local variable of the caller, user
  memory, or a kernel address.
\<close>

section \<open>Address translation\<close>

definition translate :: "bool \<Rightarrow> uint \<Rightarrow> 'z proc_state_scheme \<Rightarrow> uint option" where
  "translate write va s =
    (let ok = (\<lambda>e. e AND PTE_P \<noteq> 0 \<and> (write \<longrightarrow> e AND PTE_W \<noteq> 0));
         pde = load32 (entry (p2v (c_cr3 (cpus s ! mycpu s))) (PDX va)) (mem s) in
     if \<not> ok pde then None
     else let pte = load32 (entry (p2v (PTE_ADDR pde)) (PTX va)) (mem s) in
       if \<not> ok pte then None else Some (p2v (PTE_ADDR pte) + (va AND 0xFFF)))"

primrec uread :: "uint \<Rightarrow> nat \<Rightarrow> (byte list, 'z proc_state_scheme) kernel" where
  "uread va 0 = ret []"
| "uread va (Suc n) = (\<lambda>s. case translate False va s of
      None \<Rightarrow> Panic ''trap''
    | Some a \<Rightarrow> bindk (uread (va + 1) n) (\<lambda>bs. ret (mem s a # bs)) s)"

primrec uwrite :: "uint \<Rightarrow> byte list \<Rightarrow> (unit, 'z proc_state_scheme) kernel" where
  "uwrite va [] = ret ()"
| "uwrite va (b # bs) = (\<lambda>s. case translate True va s of
      None \<Rightarrow> Panic ''trap''
    | Some a \<Rightarrow> uwrite (va + 1) bs (s\<lparr>mem := (mem s)(a := b)\<rparr>))"

text \<open>The bytes the process has at an address, if all their pages are there.\<close>

primrec ubytes :: "uint \<Rightarrow> nat \<Rightarrow> 'z proc_state_scheme \<Rightarrow> byte list option" where
  "ubytes va 0 s = Some []"
| "ubytes va (Suc n) s = (case translate False va s of None \<Rightarrow> None
    | Some a \<Rightarrow> map_option ((#) (mem s a)) (ubytes (va + 1) n s))"

lemma uread_eq: "uread va n s = (case ubytes va n s of None \<Rightarrow> Panic ''trap'' | Some bs \<Rightarrow> Ret bs s)"
  by (induction n arbitrary: va s) (auto simp: bindk_def split: option.split)

lemma length_ubytes: "ubytes va n s = Some bs \<Longrightarrow> length bs = n"
  by (induction n arbitrary: va bs) (auto split: option.splits)

text \<open>What user memory is depends on the memory and the page table register only.\<close>

lemma translate_cong:
  assumes "mem t = mem s" and "cpus t = cpus s" and "mycpu t = mycpu s"
  shows "translate w va t = translate w va s"
  using assms by (simp add: translate_def Let_def)

lemma ubytes_cong:
  assumes "mem t = mem s" and "cpus t = cpus s" and "mycpu t = mycpu s"
  shows "ubytes va n t = ubytes va n s"
  using translate_cong [OF assms] assms(1) by (induction n arbitrary: va) (simp_all cong: option.case_cong)

text \<open>
  A buffer that can be written: the kernel addresses of its bytes, which are distinct and
  are not bytes of the page table entries that map the buffer.
\<close>

primrec uaddrs :: "bool \<Rightarrow> uint \<Rightarrow> nat \<Rightarrow> 'z proc_state_scheme \<Rightarrow> uint list option" where
  "uaddrs w va 0 s = Some []"
| "uaddrs w va (Suc n) s = (case translate w va s of None \<Rightarrow> None | Some a \<Rightarrow> map_option ((#) a) (uaddrs w (va + 1) n s))"

definition pt_addrs :: "uint \<Rightarrow> 'z proc_state_scheme \<Rightarrow> uint set" where
  "pt_addrs va s =
    (let e = entry (p2v (c_cr3 (cpus s ! mycpu s))) (PDX va);
         f = entry (p2v (PTE_ADDR (load32 e (mem s)))) (PTX va) in
     {e, e + 1, e + 2, e + 3, f, f + 1, f + 2, f + 3})"

definition user_buffer :: "uint \<Rightarrow> nat \<Rightarrow> 'z proc_state_scheme \<Rightarrow> uint list \<Rightarrow> bool" where
  "user_buffer va n s as \<longleftrightarrow> uaddrs True va n s = Some as \<and> distinct as \<and>
    (\<forall>i < n. pt_addrs (va + of_nat i) s \<inter> set as = {})"

lemma load32_cong: "m a = m' a \<Longrightarrow> m (a + 1) = m' (a + 1) \<Longrightarrow> m (a + 2) = m' (a + 2) \<Longrightarrow> m (a + 3) = m' (a + 3) \<Longrightarrow>
    load32 a m = load32 a m'"
  by (simp add: load32_def)

lemma translate_frame:
  assumes "\<And>a. a \<in> pt_addrs va s \<Longrightarrow> mem t a = mem s a" and "cpus t = cpus s" and "mycpu t = mycpu s"
  shows "translate w va t = translate w va s" and "pt_addrs va t = pt_addrs va s"
proof -
  let ?e = "entry (p2v (c_cr3 (cpus s ! mycpu s))) (PDX va)"
  let ?f = "entry (p2v (PTE_ADDR (load32 ?e (mem s)))) (PTX va)"
  have "load32 ?e (mem t) = load32 ?e (mem s)" "load32 ?f (mem t) = load32 ?f (mem s)"
    by (rule load32_cong; rule assms(1); simp add: pt_addrs_def Let_def)+
  then show "translate w va t = translate w va s" "pt_addrs va t = pt_addrs va s"
    using assms(2,3) by (simp_all add: translate_def pt_addrs_def Let_def)
qed

lemma uaddrs_frame:
  assumes "\<And>i a. i < n \<Longrightarrow> a \<in> pt_addrs (va + of_nat i) s \<Longrightarrow> mem t a = mem s a" and "cpus t = cpus s" and "mycpu t = mycpu s"
  shows "uaddrs w va n t = uaddrs w va n s"
  using assms(1)
proof (induction n arbitrary: va)
  case (Suc n)
  have "translate w va t = translate w va s"
    by (rule translate_frame(1) [OF _ assms(2,3)]) (use Suc.prems [of 0] in simp)
  moreover have "uaddrs w (va + 1) n t = uaddrs w (va + 1) n s"
    by (rule Suc.IH) (use Suc.prems [of "Suc i" for i] in \<open>simp add: ac_simps\<close>)
  ultimately show ?case by (simp cong: option.case_cong)
qed simp

lemma ubytes_uaddrs: "ubytes va n s = map_option (map (mem s)) (uaddrs False va n s)"
  by (induction n arbitrary: va) (auto split: option.split simp: option.map_comp comp_def)

lemma uaddrs_read: "uaddrs True va n s = Some as \<Longrightarrow> uaddrs False va n s = Some as"
proof (induction n arbitrary: va as)
  case (Suc n)
  obtain a bs where a: "translate True va s = Some a" "uaddrs True (va + 1) n s = Some bs" "as = a # bs"
    using Suc.prems by (auto split: option.splits)
  have "translate False va s = Some a" using a(1) by (auto simp: translate_def Let_def split: if_splits)
  then show ?case using a Suc.IH by simp
qed simp

lemma user_buffer_Suc:
  fixes s :: "'z proc_state_scheme"
  assumes "user_buffer va (Suc n) s as"
  obtains a bs where "as = a # bs" and "translate True va s = Some a" and "a \<notin> set bs"
    and "\<And>(t :: 'z proc_state_scheme) b. mem t = (mem s)(a := b) \<Longrightarrow> cpus t = cpus s \<Longrightarrow> mycpu t = mycpu s \<Longrightarrow> user_buffer (va + 1) n t bs"
proof -
  obtain a bs where as: "as = a # bs" "translate True va s = Some a" "uaddrs True (va + 1) n s = Some bs" "a \<notin> set bs" "distinct bs"
    using assms by (auto simp: user_buffer_def split: option.splits)
  have pt: "pt_addrs (va + 1 + of_nat i) s \<inter> set as = {}" if "i < n" for i
  proof -
    have "Suc i < Suc n" using that by simp
    then have "pt_addrs (va + of_nat (Suc i)) s \<inter> set as = {}" using assms unfolding user_buffer_def by blast
    then show ?thesis by (simp add: ac_simps)
  qed
  have "user_buffer (va + 1) n t bs" if "mem t = (mem s)(a := b)" "cpus t = cpus s" "mycpu t = mycpu s" for t :: "'z proc_state_scheme" and b
  proof -
    have m: "mem t x = mem s x" if "i < n" "x \<in> pt_addrs (va + 1 + of_nat i) s" for i x
      using pt [OF that(1)] that(2) as(1) \<open>mem t = (mem s)(a := b)\<close> by auto
    have "pt_addrs (va + 1 + of_nat i) t = pt_addrs (va + 1 + of_nat i) s" if "i < n" for i
      using m [OF that] by (rule translate_frame(2) [OF _ \<open>cpus t = cpus s\<close> \<open>mycpu t = mycpu s\<close>])
    moreover have "uaddrs True (va + 1) n t = uaddrs True (va + 1) n s"
      using m by (rule uaddrs_frame [OF _ \<open>cpus t = cpus s\<close> \<open>mycpu t = mycpu s\<close>])
    ultimately show ?thesis using as pt unfolding user_buffer_def by auto
  qed
  then show thesis by (rule that [OF as(1,2,4)])
qed

lemma user_buffer_cong:
  assumes "mem t = mem s" and "cpus t = cpus s" and "mycpu t = mycpu s"
  shows "user_buffer va n t as = user_buffer va n s as"
  using uaddrs_frame [OF _ assms(2,3)] translate_frame(2) [OF _ assms(2,3)] assms(1)
  by (simp add: user_buffer_def)

text \<open>What a buffer holds after its addresses have been stored to.\<close>

lemma user_buffer_read:
  assumes "user_buffer va n s as" and "\<And>a. a \<notin> set as \<Longrightarrow> mem t a = mem s a" and "cpus t = cpus s" and "mycpu t = mycpu s"
  shows "ubytes va n t = Some (map (mem t) as)"
proof -
  have "uaddrs True va n t = uaddrs True va n s"
    by (rule uaddrs_frame) (use assms in \<open>auto simp: user_buffer_def\<close>)
  then show ?thesis using assms(1) uaddrs_read [of va n t as] by (simp add: ubytes_uaddrs user_buffer_def)
qed

section \<open>Buffers\<close>

datatype dest = Local | User uint | Kern uint

text \<open>Copying to offset \<open>off\<close> of the buffer. What goes to a local variable is also the
  result of the function that copies, so nothing is stored here.\<close>

definition copy_to :: "dest \<Rightarrow> nat \<Rightarrow> byte list \<Rightarrow> (unit, 'z proc_state_scheme) kernel" where
  "copy_to d off bs = (case d of
      Local \<Rightarrow> ret ()
    | User va \<Rightarrow> uwrite (va + of_nat off) bs
    | Kern a \<Rightarrow> modk (\<lambda>s. s\<lparr>mem := store_bytes bs (a + of_nat off) (mem s)\<rparr>))"

datatype source = LocalBytes "byte list" | UserBytes uint

definition copy_from :: "source \<Rightarrow> nat \<Rightarrow> nat \<Rightarrow> (byte list, 'z proc_state_scheme) kernel" where
  "copy_from src off n = (case src of
      LocalBytes bs \<Rightarrow> ret (take n (drop off bs))
    | UserBytes va \<Rightarrow> uread (va + of_nat off) n)"

end
