(* ===== verification/Xv6_Digits.thy ===== *)
theory Xv6_Digits
  imports Xv6_Bytes
begin

text \<open>
  The digit loop that \<open>printint\<close> of console.c and \<open>printint\<close> of printf.c share, how many
  characters it produces, and that reading the digits back gives the number.
\<close>

lemma unat_div_less:
  assumes "x div base \<noteq> 0" and "1 < (base :: uint)"
  shows "unat x div unat base < unat x"
proof -
  have "x \<noteq> 0" using assms(1) by auto
  then have "1 < unat base" "unat x \<noteq> 0" using assms(2) by (auto simp: word_less_nat_alt unat_eq_0)
  then show ?thesis by simp
qed

text \<open>\<open>do buf[i++] = digits[x % base]; while((x /= base) != 0)\<close>: the last digit first. The
  callers use base 10 and 16.\<close>

function digit_loop :: "(uint \<Rightarrow> byte) \<Rightarrow> uint \<Rightarrow> uint \<Rightarrow> byte list" where
  "digit_loop dg x base =
    dg (x mod base) # (if x div base \<noteq> 0 \<and> 1 < base then digit_loop dg (x div base) base else [])"
  by pat_completeness auto

termination
  by (relation "measure (\<lambda>(dg, x, base). unat x)") (auto simp: unat_div unat_div_less)

declare digit_loop.simps [simp del]

lemma digit_loop_induct [case_names step]:
  assumes "\<And>x. (x div base \<noteq> 0 \<Longrightarrow> P (x div base)) \<Longrightarrow> P x" and "1 < (base :: uint)"
  shows "P x"
proof (induction x rule: measure_induct_rule [of unat])
  case (less x)
  show ?case
    by (rule assms(1), rule less) (use unat_div_less assms(2) in \<open>simp add: unat_div\<close>)
qed

lemma digit_loop_step: "1 < base \<Longrightarrow>
    digit_loop dg x base = dg (x mod base) # (if x div base \<noteq> 0 then digit_loop dg (x div base) base else [])"
  by (subst digit_loop.simps) simp

text \<open>A number below \<open>base ^ k\<close> has at most \<open>k\<close> digits.\<close>

lemma length_digit_loop:
  assumes "1 < base" and "unat x < unat base ^ k" and "0 < k"
  shows "length (digit_loop dg x base) \<le> k"
  using assms(2,3)
proof (induction x arbitrary: k rule: digit_loop_induct [OF _ assms(1)])
  case (1 x k)
  show ?case
  proof (cases "x div base = 0")
    case True
    then show ?thesis using 1(3) assms(1) by (simp add: digit_loop_step)
  next
    case False
    obtain j where k: "k = Suc j" using 1(3) by (cases k) auto
    have b: "1 < unat base" using assms(1) by (simp add: word_less_nat_alt)
    have "unat (x div base) < unat base ^ j"
      using 1(2) b unfolding k by (simp add: unat_div div_less_iff_less_mult mult.commute)
    moreover have "0 < unat (x div base)" using False by (simp add: unat_gt_0)
    ultimately have "0 < j" by (cases j) auto
    then have "length (digit_loop dg (x div base) base) \<le> j"
      using 1(1) False \<open>unat (x div base) < unat base ^ j\<close> by blast
    then show ?thesis using False assms(1) k by (simp add: digit_loop_step)
  qed
qed

text \<open>Reading digits, most significant first.\<close>

definition digits_value :: "(byte \<Rightarrow> uint) \<Rightarrow> uint \<Rightarrow> byte list \<Rightarrow> uint" where
  "digits_value rd base cs = fold (\<lambda>c n. n * base + rd c) cs 0"

lemma digits_value_digit_loop:
  assumes "1 < base" and "\<And>d. d < base \<Longrightarrow> rd (dg d) = d"
  shows "digits_value rd base (rev (digit_loop dg x base)) = x"
proof (induction x rule: digit_loop_induct [OF _ assms(1)])
  case (1 x)
  have "x mod base < base" using assms(1) by (auto simp: word_less_nat_alt unat_mod)
  then have rd: "rd (dg (x mod base)) = x mod base" by (rule assms(2))
  show ?case
  proof (cases "x div base = 0")
    case True
    then have "x mod base = x" by (metis mult_zero_left add_0 div_mult_mod_eq)
    then show ?thesis using True assms(1) rd by (simp add: digit_loop_step digits_value_def)
  next
    case False
    then show ?thesis
      using 1 rd assms(1) div_mult_mod_eq [of x base] by (simp add: digit_loop_step digits_value_def)
  qed
qed

end
