(* ===== verification/Xv6_Console.thy ===== *)
theory Xv6_Console
  imports Xv6_Device Xv6_User Xv6_Digits
begin

text \<open>
  console.c: the screen, \<open>cprintf\<close>, line editing in the input buffer, and the console's
  entries of the device switch. The screen memory is part of the kernel's memory; the
  cursor is read from the controller's registers. \<open>procdump\<close> of proc.c is here because
  it prints.
\<close>

section \<open>State\<close>

abbreviation (input) INPUT_BUF :: nat where "INPUT_BUF \<equiv> 128"
abbreviation (input) BACKSPACE :: uint where "BACKSPACE \<equiv> 0x100"
abbreviation (input) CONSOLE :: nat where "CONSOLE \<equiv> 1"
abbreviation (input) NDEV :: nat where "NDEV \<equiv> 10"

text \<open>The entries \<open>devsw[i].read\<close> and \<open>devsw[i].write\<close>: the only device is the console.\<close>

datatype device = ConsoleDev

record cons_state = io_state +
  panicked :: bool
  cons_locking :: bool
  in_buf :: "byte list"
  in_r :: uint
  in_w :: uint
  in_e :: uint
  devsw :: "nat \<Rightarrow> device option"

section \<open>Output\<close>

abbreviation (input) CRT :: uint where "CRT \<equiv> 0x800B8000"

text \<open>\<open>cgaputc\<close> in four parts: read the cursor position, put the character, scroll up when
  the last line is full, and write the position back with a blank under the cursor.\<close>

definition cga_getpos :: "(uint, 'z cons_state_scheme) kernel" where
  "cga_getpos = thenk (outb 0x3d4 14) (bindk (inb 0x3d5) (\<lambda>hi.
    thenk (outb 0x3d4 15) (bindk (inb 0x3d5) (\<lambda>lo.
    ret (push_bit 8 (ucast hi) OR ucast lo)))))"

definition cga_char :: "uint \<Rightarrow> uint \<Rightarrow> (uint, 'z cons_state_scheme) kernel" where
  "cga_char c pos =
    (if c = 10 then ret (pos + (80 - pos mod 80))
     else if c = BACKSPACE then ret (if pos > 0 then pos - 1 else pos)
     else thenk (modk (\<lambda>s. s\<lparr>mem := store16 (CRT + 2 * pos) (ucast (c AND 0xff OR 0x0700)) (mem s)\<rparr>))
       (ret (pos + 1)))"

definition cga_scroll :: "uint \<Rightarrow> (uint, 'z cons_state_scheme) kernel" where
  "cga_scroll pos =
    (if pos div 80 \<ge> 24 then
       thenk (modk (\<lambda>s. s\<lparr>mem := memmove CRT (CRT + 160) (2 * 23 * 80) (mem s)\<rparr>))
       (let pos = pos - 80 in
        thenk (modk (\<lambda>s. s\<lparr>mem := memset (CRT + 2 * pos) 0 (2 * (24 * 80 - pos)) (mem s)\<rparr>))
        (ret pos))
     else ret pos)"

definition cga_setpos :: "uint \<Rightarrow> (unit, 'z cons_state_scheme) kernel" where
  "cga_setpos pos =
    thenk (outbs [(0x3d4, 14), (0x3d5, ucast (drop_bit 8 pos)), (0x3d4, 15), (0x3d5, ucast pos)])
    (modk (\<lambda>s. s\<lparr>mem := store16 (CRT + 2 * pos) (0x20 OR 0x0700) (mem s)\<rparr>))"

definition cgaputc :: "uint \<Rightarrow> (unit, 'z cons_state_scheme) kernel" where
  "cgaputc c = bindk cga_getpos (\<lambda>pos. bindk (cga_char c pos) (\<lambda>pos. bindk (cga_scroll pos) cga_setpos))"

text \<open>After a panic every CPU that prints stops for good.\<close>

definition consputc :: "uint \<Rightarrow> (unit, 'z cons_state_scheme) kernel" where
  "consputc c = (\<lambda>s. if panicked s then Panic ''frozen'' else
    thenk
      (if c = BACKSPACE then thenk (uartputc 8) (thenk (uartputc 0x20) (uartputc 8)) else uartputc c)
      (cgaputc c) s)"

text \<open>The digits of \<open>printint\<close>, last one first: the loop \<open>do ... while((x /= base) != 0)\<close>.
  The two callers use base 10 and 16.\<close>

definition digit :: "uint \<Rightarrow> byte" where
  "digit d = str ''0123456789abcdef'' ! unat d"

definition printint_digits :: "uint \<Rightarrow> uint \<Rightarrow> byte list" where
  "printint_digits x base = digit_loop digit x base"

definition printint_chars :: "uint \<Rightarrow> uint \<Rightarrow> bool \<Rightarrow> byte list" where
  "printint_chars xx base sign =
    (let neg = (sign \<and> sint xx < 0); x = (if neg then - xx else xx) in
     (if neg then [0x2D] else []) @ rev (printint_digits x base))"

definition printint :: "uint \<Rightarrow> uint \<Rightarrow> bool \<Rightarrow> (unit, 'z cons_state_scheme) kernel" where
  "printint xx base sign = foreach (printint_chars xx base sign) (\<lambda>c. consputc (ucast c))"

text \<open>The arguments of \<open>cprintf\<close>: a word, or a pointer to a string (null is \<open>None\<close>).\<close>

datatype fmt_arg = Num uint | Str "byte list option"

definition puts :: "byte list \<Rightarrow> (unit, 'z cons_state_scheme) kernel" where
  "puts cs = foreach cs (\<lambda>c. consputc (ucast c))"

fun cprintf_loop :: "byte list \<Rightarrow> fmt_arg list \<Rightarrow> (unit, 'z cons_state_scheme) kernel" where
  "cprintf_loop [] args = ret ()"
| "cprintf_loop (c # cs) args =
    (if c \<noteq> 0x25 then thenk (consputc (ucast c)) (cprintf_loop cs args)
     else case cs of
       [] \<Rightarrow> ret ()
     | d # ds \<Rightarrow>
         if d = 0x64 then
           (case args of Num x # as \<Rightarrow> thenk (printint x 10 True) (cprintf_loop ds as)
            | _ \<Rightarrow> panic ''cprintf: bad argument'')
         else if d = 0x78 \<or> d = 0x70 then
           (case args of Num x # as \<Rightarrow> thenk (printint x 16 False) (cprintf_loop ds as)
            | _ \<Rightarrow> panic ''cprintf: bad argument'')
         else if d = 0x73 then
           (case args of Str p # as \<Rightarrow>
              thenk (puts (case p of None \<Rightarrow> str ''(null)'' | Some b \<Rightarrow> b)) (cprintf_loop ds as)
            | _ \<Rightarrow> panic ''cprintf: bad argument'')
         else if d = 0x25 then thenk (consputc 0x25) (cprintf_loop ds args)
         else thenk (consputc 0x25) (thenk (consputc (ucast d)) (cprintf_loop ds args)))"

definition cprintf :: "byte list \<Rightarrow> fmt_arg list \<Rightarrow> (unit, 'z cons_state_scheme) kernel" where
  "cprintf fmt args = (\<lambda>s. let locking = cons_locking s in
    thenk (whenk locking (acquire LkCons))
    (thenk (cprintf_loop fmt args)
    (whenk locking (release LkCons))) s)"

text \<open>What \<open>panic\<close> does before its final loop; \<open>v\<close> is the address of its argument, from
  which the call stack is walked. (Elsewhere a panic is the outcome \<open>Panic\<close>.)\<close>

definition panic_report :: "uint \<Rightarrow> string \<Rightarrow> uint \<Rightarrow> (unit, 'z cons_state_scheme) kernel" where
  "panic_report cpuid msg v =
    thenk (modk (\<lambda>s. s\<lparr>cons_locking := False\<rparr>))
    (thenk (cprintf (str ''cpu%d: panic: '') [Num cpuid])
    (thenk (cprintf (str msg) [])
    (thenk (cprintf [10] [])
    (bindk (getk (\<lambda>s. getcallerpcs (mem s) v)) (\<lambda>pcs.
    thenk (foreach pcs (\<lambda>p. cprintf (str '' %p'') [Num p]))
    (modk (\<lambda>s. s\<lparr>panicked := True\<rparr>)))))))"

section \<open>procdump (proc.c)\<close>

definition state_name :: "procstate \<Rightarrow> byte list" where
  "state_name st = str (case st of UNUSED \<Rightarrow> ''unused'' | EMBRYO \<Rightarrow> ''embryo'' | SLEEPING \<Rightarrow> ''sleep ''
    | RUNNABLE \<Rightarrow> ''runble'' | RUNNING \<Rightarrow> ''run   '' | ZOMBIE \<Rightarrow> ''zombie'')"

definition procdump :: "(unit, 'z cons_state_scheme) kernel" where
  "procdump = foreach [0..<NPROC] (\<lambda>i s. let p = ptable s ! i in
    if p_state p = UNUSED then Ret () s
    else thenk (cprintf (str ''%d %s %s'') [Num (p_pid p), Str (Some (state_name (p_state p))),
        Str (Some (takeWhile (\<lambda>c. c \<noteq> 0) (p_name p)))])
      (thenk (\<lambda>s. if p_state p = SLEEPING then
          foreach (takeWhile (\<lambda>pc. pc \<noteq> 0) (getcallerpcs (mem s) (load32 (p_context p + 12) (mem s) + 8)))
            (\<lambda>pc. cprintf (str '' %p'') [Num pc]) s
        else Ret () s)
      (cprintf [10] [])) s)"

section \<open>Input\<close>

text \<open>Kill line: \<open>k\<close> is the number of characters that may still be erased.\<close>

definition erase_char :: "(unit, 'z cons_state_scheme) kernel" where
  "erase_char = thenk (modk (\<lambda>s. s\<lparr>in_e := in_e s - 1\<rparr>)) (consputc BACKSPACE)"

primrec kill_line :: "nat \<Rightarrow> (unit, 'z cons_state_scheme) kernel" where
  "kill_line 0 = ret ()"
| "kill_line (Suc k) = (\<lambda>s.
    if in_e s \<noteq> in_w s \<and> in_buf s ! (unat (in_e s - 1) mod INPUT_BUF) \<noteq> 10
    then thenk erase_char (kill_line k) s else Ret () s)"

text \<open>One turn of the loop of \<open>consoleintr\<close>, for character \<open>c\<close>.\<close>

definition consoleintr_char :: "int \<Rightarrow> (unit, 'z cons_state_scheme) kernel" where
  "consoleintr_char c = (\<lambda>s.
    if c = 0x10 then procdump s
    else if c = 0x15 then kill_line (unat (in_e s - in_w s)) s
    else if c = 8 \<or> c = 0x7F then whenk (in_e s \<noteq> in_w s) erase_char s
    else if c \<noteq> 0 \<and> in_e s - in_r s < of_nat INPUT_BUF then
      let c = (if c = 13 then 10 else word_of_int c :: uint) in
      thenk (modk (\<lambda>s. s\<lparr>in_buf := (in_buf s)[unat (in_e s) mod INPUT_BUF := ucast c], in_e := in_e s + 1\<rparr>))
      (thenk (consputc c)
      (\<lambda>s. if c = 10 \<or> c = 4 \<or> in_e s = in_r s + of_nat INPUT_BUF then
         thenk (modk (\<lambda>s. s\<lparr>in_w := in_e s\<rparr>)) (wakeup ChanInput) s
       else Ret () s)) s
    else Ret () s)"

text \<open>The interrupt handler takes characters for as long as the device delivers them;
  \<open>fuel\<close> bounds their number.\<close>

primrec consoleintr_loop :: "nat \<Rightarrow> (int, 'z cons_state_scheme) kernel \<Rightarrow> (unit, 'z cons_state_scheme) kernel" where
  "consoleintr_loop 0 getc = panic ''consoleintr: fuel''"
| "consoleintr_loop (Suc fuel) getc = bindk getc (\<lambda>c.
    if c \<ge> 0 then thenk (consoleintr_char c) (consoleintr_loop fuel getc) else ret ())"

definition consoleintr :: "nat \<Rightarrow> (int, 'z cons_state_scheme) kernel \<Rightarrow> (unit, 'z cons_state_scheme) kernel" where
  "consoleintr fuel getc = thenk (acquire LkInput)
    (thenk (consoleintr_loop fuel getc)
    (release LkInput))"

definition kbdintr :: "nat \<Rightarrow> (unit, 'z cons_state_scheme) kernel" where
  "kbdintr fuel = consoleintr fuel kbdgetc"

definition uartintr :: "nat \<Rightarrow> (unit, 'z cons_state_scheme) kernel" where
  "uartintr fuel = consoleintr fuel uartgetc"

text \<open>
  The loop of \<open>consoleread\<close>, with \<open>n\<close> characters still wanted of \<open>target\<close> and \<open>acc\<close>
  stored. The result is \<open>None\<close> if the process was killed while it waited, else the
  characters stored. A process that sleeps in the loop continues there with the same
  \<open>n\<close> and \<open>acc\<close>.
\<close>

primrec consoleread_loop :: "nat \<Rightarrow> nat \<Rightarrow> dest \<Rightarrow> byte list \<Rightarrow> (byte list option, 'z cons_state_scheme) kernel" where
  "consoleread_loop 0 target dst acc = ret (Some acc)"
| "consoleread_loop (Suc n) target dst acc = bindk myproc (\<lambda>me s.
    if in_r s = in_w s then
      if p_killed (ptable s ! me) then Ret None s else sleep ChanInput LkInput s
    else
      let c = in_buf s ! (unat (in_r s) mod INPUT_BUF) in
      if c = 4 then
        \<comment> \<open>end of file; kept for the next call if characters were read\<close>
        Ret (Some acc) (if Suc n < target then s else s\<lparr>in_r := in_r s + 1\<rparr>)
      else thenk (modk (\<lambda>s. s\<lparr>in_r := in_r s + 1\<rparr>))
        (thenk (copy_to dst (length acc) [c])
        (if c = 10 then ret (Some (acc @ [c])) else consoleread_loop n target dst (acc @ [c]))) s)"

definition consoleread :: "nat \<Rightarrow> dest \<Rightarrow> int \<Rightarrow> (int \<times> byte list, 'z cons_state_scheme) kernel" where
  "consoleread ip dst n = thenk (iunlock ip)
    (thenk (acquire LkInput)
    (bindk (consoleread_loop (nat n) (nat n) dst []) (\<lambda>r.
    thenk (release LkInput)
    (thenk (ilock ip)
    (ret (case r of None \<Rightarrow> (-1, []) | Some acc \<Rightarrow> (int (length acc), acc)))))))"

definition consolewrite :: "nat \<Rightarrow> source \<Rightarrow> int \<Rightarrow> (int, 'z cons_state_scheme) kernel" where
  "consolewrite ip src n = thenk (iunlock ip)
    (thenk (acquire LkCons)
    (thenk (foreach [0..<nat n] (\<lambda>i. bindk (copy_from src i 1) (\<lambda>b. consputc (ucast (hd b)))))
    (thenk (release LkCons)
    (thenk (ilock ip)
    (ret n)))))"

definition consoleinit :: "(unit, 'z cons_state_scheme) kernel" where
  "consoleinit = thenk (modk (\<lambda>s. s\<lparr>devsw := (devsw s)(CONSOLE := Some ConsoleDev), cons_locking := True\<rparr>))
    (thenk (picenable IRQ_KBD)
    (ioapicenable IRQ_KBD 0))"

section \<open>What printing changes\<close>

text \<open>The screen is 25 lines of 80 characters of two bytes.\<close>

definition on_screen :: "uint \<Rightarrow> bool" where
  "on_screen a \<longleftrightarrow> unat (a - CRT) < 4000"

text \<open>Whenever the cursor's position is read from the controller, it is on the screen.\<close>

definition cursor_on_screen :: "'z cons_state_scheme \<Rightarrow> bool" where
  "cursor_on_screen s \<longleftrightarrow> (\<forall>tr. let hi = dev_in s (tr @ [Out 0x3d4 14]) 0x3d5;
      lo = dev_in s (tr @ [Out 0x3d4 14, In 0x3d5 hi, Out 0x3d4 15]) 0x3d5 in
    (push_bit 8 (ucast hi) OR ucast lo :: uint) < 2000)"

definition can_print :: "'z cons_state_scheme \<Rightarrow> bool" where
  "can_print s \<longleftrightarrow> cursor_on_screen s \<and> \<not> panicked s"

text \<open>\<open>t\<close> is \<open>s\<close> after some input and output, with at most the screen changed in memory.\<close>

definition printed :: "'z cons_state_scheme \<Rightarrow> 'z cons_state_scheme \<Rightarrow> bool" where
  "printed s t \<longleftrightarrow> (\<exists>tr m. t = s\<lparr>mem := m, trace := tr\<rparr> \<and> (\<forall>a. \<not> on_screen a \<longrightarrow> m a = mem s a))"

definition prints :: "(unit, 'z cons_state_scheme) kernel \<Rightarrow> bool" where
  "prints f \<longleftrightarrow> (\<forall>s. can_print s \<longrightarrow> (\<exists>t. f s = Ret () t \<and> printed s t))"

lemma printed_refl: "printed s s"
  unfolding printed_def by (intro exI [of _ "trace s"] exI [of _ "mem s"]) simp

lemma printed_trans: "printed s t \<Longrightarrow> printed t u \<Longrightarrow> printed s u"
  unfolding printed_def by fastforce

lemma printed_trace: "printed s (s\<lparr>trace := tr\<rparr>)"
  unfolding printed_def by (intro exI [of _ tr] exI [of _ "mem s"]) simp

lemma printed_mem: "(\<And>a. \<not> on_screen a \<Longrightarrow> m a = mem s a) \<Longrightarrow> printed s (s\<lparr>mem := m\<rparr>)"
  unfolding printed_def by (intro exI [of _ "trace s"] exI [of _ m]) simp

lemma printed_can_print: "printed s t \<Longrightarrow> can_print s \<Longrightarrow> can_print t"
  by (auto simp: printed_def can_print_def cursor_on_screen_def)

lemma prints_ret: "prints (ret ())"
  by (simp add: prints_def printed_refl)

lemma prints_thenk: "prints f \<Longrightarrow> prints g \<Longrightarrow> prints (thenk f g)"
  unfolding prints_def thenk_def bindk_def
  by (metis (no_types, lifting) outcome.case(1) printed_can_print printed_trans)

lemma prints_foreach: "(\<And>x. prints (f x)) \<Longrightarrow> prints (foreach xs f)"
  by (induction xs) (auto intro: prints_ret prints_thenk)

lemma prints_uart_wait: "prints (uart_wait k)"
proof (induction k)
  case (Suc k)
  show ?case
    unfolding prints_def
  proof (intro allI impI)
    fix s :: "'a cons_state_scheme"
    assume s: "can_print s"
    define u where "u = s\<lparr>trace := trace s @ [In (COM1 + 5) (dev_in s (trace s) (COM1 + 5))]\<rparr>"
    have u: "printed s u" unfolding u_def by (rule printed_trace)
    then have "\<exists>t. uart_wait k u = Ret () t \<and> printed u t"
      using Suc printed_can_print [OF u s] by (simp add: prints_def)
    then show "\<exists>t. uart_wait (Suc k) s = Ret () t \<and> printed s t"
      using u printed_trans by (auto simp: bindk_def inb_def Let_def u_def)
  qed
qed (simp add: prints_ret)

lemma prints_outb: "prints (outb p v)"
  by (simp add: prints_def outb_def printed_trace)

lemma prints_uartputc: "prints (uartputc c)"
proof -
  have "prints (thenk (uart_wait 128) (outb COM1 (ucast c)))"
    by (intro prints_thenk prints_uart_wait prints_outb)
  then show ?thesis by (auto simp: prints_def uartputc_def printed_refl)
qed

lemma store16_screen:
  fixes pos :: uint
  assumes "pos < 2000" and "\<not> on_screen a"
  shows "store16 (CRT + 2 * pos) v m a = m a"
proof -
  have "unat (2 * pos) = 2 * unat pos" "unat (1 + 2 * pos) = 2 * unat pos + 1" "unat pos < 2000"
    using assms(1) by (simp_all add: unat_word_ariths word_less_nat_alt)
  then have "on_screen (CRT + 2 * pos)" "on_screen (CRT + 2 * pos + 1)"
    by (simp_all add: on_screen_def)
  then have "a \<noteq> CRT + 2 * pos" "a \<noteq> CRT + 2 * pos + 1" using assms(2) by auto
  then show ?thesis by (simp add: store16_def)
qed

lemma cga_getpos_printed:
  assumes "can_print s"
  shows "\<exists>pos u. cga_getpos s = Ret pos u \<and> printed s u \<and> pos < 2000"
proof -
  have "let hi = dev_in s (trace s @ [Out 0x3d4 14]) 0x3d5;
      lo = dev_in s (trace s @ [Out 0x3d4 14, In 0x3d5 hi, Out 0x3d4 15]) 0x3d5 in
    (push_bit 8 (ucast hi) OR ucast lo :: uint) < 2000"
    using assms by (simp add: can_print_def cursor_on_screen_def)
  then show ?thesis
    by (simp add: cga_getpos_def thenk_def bindk_def outb_def inb_def Let_def printed_trace)
qed

lemma cga_char_printed:
  assumes "pos < 2000"
  shows "\<exists>pos' u. cga_char c pos s = Ret pos' u \<and> printed s u \<and> pos' \<le> 2000"
proof -
  have *: "unat pos < 2000" using assms by (simp add: word_less_nat_alt)
  have "unat pos + (80 - unat pos mod 80) \<le> 2000"
  proof -
    have "unat pos div 80 \<le> 24" using * by linarith
    moreover have "unat pos = 80 * (unat pos div 80) + unat pos mod 80" "unat pos mod 80 < 80" by simp_all
    ultimately show ?thesis by linarith
  qed
  moreover have "unat (80 - pos mod 80) = 80 - unat pos mod 80"
    by (subst unat_sub) (simp_all add: word_le_nat_alt unat_mod less_imp_le)
  ultimately have "pos + (80 - pos mod 80) \<le> 2000"
    by (simp add: word_le_nat_alt unat_word_ariths(1))
  moreover have "pos + 1 \<le> 2000" "pos - 1 \<le> 2000 \<or> pos = 0" "pos \<le> 2000"
    using * unat_minus_one [of pos] by (auto simp: word_le_nat_alt unat_word_ariths(1) word_less_nat_alt)
  moreover have "printed s (s\<lparr>mem := store16 (CRT + 2 * pos) v (mem s)\<rparr>)" for v
    by (rule printed_mem) (simp add: store16_screen assms)
  ultimately show ?thesis
    by (auto simp: cga_char_def thenk_def bindk_def printed_refl)
qed

lemma cga_scroll_printed:
  assumes "pos \<le> 2000"
  shows "\<exists>pos' u. cga_scroll pos s = Ret pos' u \<and> printed s u \<and> pos' < 2000"
proof (cases "pos div 80 \<ge> 24")
  case True
  then have "24 \<le> unat pos div 80" by (simp add: word_le_nat_alt unat_div)
  then have p: "1920 \<le> unat pos" "unat pos \<le> 2000" using assms by (simp_all add: word_le_nat_alt)
  then have q: "unat (pos - 80) = unat pos - 80" by (subst unat_sub) (simp_all add: word_le_nat_alt)
  define q where "q = pos - 80"
  have q: "1840 \<le> unat q" "unat q \<le> 1920" using p q by (simp_all add: q_def)
  have n: "unat (2 * (24 * 80 - q)) = 3840 - 2 * unat q"
    using q by (simp add: unat_word_ariths(2) unat_sub word_le_nat_alt)
  have at: "unat (a - CRT) = unat (a - (CRT + 2 * q)) + 2 * unat q" if "unat (a - (CRT + 2 * q)) < 4000" for a
  proof -
    have "unat (2 * q) = 2 * unat q" using q by (simp add: unat_word_ariths(2))
    then have "unat ((a - (CRT + 2 * q)) + 2 * q) = unat (a - (CRT + 2 * q)) + 2 * unat q"
      using that q by (simp only: unat_word_ariths(1)) simp
    then show ?thesis by simp
  qed
  let ?u = "s\<lparr>mem := memmove CRT (CRT + 160) (2 * 23 * 80) (mem s)\<rparr>"
  have "printed s ?u"
    by (rule printed_mem) (simp add: memmove_eq on_screen_def)
  moreover have "printed ?u (?u\<lparr>mem := memset (CRT + 2 * q) 0 (2 * (24 * 80 - q)) (mem ?u)\<rparr>)"
    by (rule printed_mem) (use n at q in \<open>fastforce simp: memset_eq stosb_eq on_screen_def\<close>)
  ultimately have "printed s (?u\<lparr>mem := memset (CRT + 2 * q) 0 (2 * (24 * 80 - q)) (mem ?u)\<rparr>)"
    by (rule printed_trans)
  moreover have "q < 2000" using q by (simp add: word_less_nat_alt)
  ultimately show ?thesis
    using True by (simp add: cga_scroll_def thenk_def bindk_def q_def [symmetric] Let_def)
next
  case False
  then have "unat pos < 1920" by (simp add: word_le_nat_alt unat_div)
  then show ?thesis using False by (simp add: cga_scroll_def printed_refl word_less_nat_alt)
qed

lemma cga_setpos_printed:
  assumes "pos < 2000"
  shows "\<exists>u. cga_setpos pos s = Ret () u \<and> printed s u"
proof -
  have "printed s (s\<lparr>trace := tr, mem := store16 (CRT + 2 * pos) v (mem s)\<rparr>)" for tr v
    by (rule printed_trans [OF printed_trace [of s tr]]) (rule printed_mem, simp add: store16_screen assms)
  then show ?thesis
    by (simp add: cga_setpos_def outbs_def thenk_def bindk_def outb_def)
qed

lemma prints_cgaputc: "prints (cgaputc c)"
  unfolding prints_def
proof (intro allI impI)
  fix s :: "'a cons_state_scheme"
  assume "can_print s"
  then obtain pos u where u: "cga_getpos s = Ret pos u" "printed s u" "pos < 2000"
    using cga_getpos_printed by blast
  obtain pos2 v where v: "cga_char c pos u = Ret pos2 v" "printed u v" "pos2 \<le> 2000"
    using cga_char_printed [OF u(3)] by blast
  obtain pos3 w where w: "cga_scroll pos2 v = Ret pos3 w" "printed v w" "pos3 < 2000"
    using cga_scroll_printed [OF v(3)] by blast
  obtain t where t: "cga_setpos pos3 w = Ret () t" "printed w t"
    using cga_setpos_printed [OF w(3)] by blast
  have "printed s t" by (intro printed_trans [OF u(2)] printed_trans [OF v(2)] printed_trans [OF w(2)] t(2))
  moreover have "cgaputc c s = Ret () t" using u(1) v(1) w(1) t(1) by (simp add: cgaputc_def bindk_def)
  ultimately show "\<exists>t. cgaputc c s = Ret () t \<and> printed s t" by blast
qed

lemma prints_consputc: "prints (consputc c)"
proof -
  have "prints (thenk (if c = BACKSPACE then thenk (uartputc 8) (thenk (uartputc 0x20) (uartputc 8)) else uartputc c) (cgaputc c))"
    by (auto intro: prints_thenk prints_uartputc prints_cgaputc)
  then show ?thesis by (auto simp: prints_def consputc_def can_print_def)
qed

lemma prints_printint: "prints (printint x b sg)"
  unfolding printint_def by (intro prints_foreach prints_consputc)

text \<open>\<open>cprintf\<close> of a message whose loop prints, when the console's lock is free.\<close>

lemma cprintf_printed:
  fixes s :: "'z cons_state_scheme"
  assumes "prints (cprintf_loop fmt args :: (unit, 'z cons_state_scheme) kernel)" and "can_print s" and "cons_locking s \<longrightarrow> LkCons \<notin> held s"
  shows "\<exists>t. cprintf fmt args s = Ret () t \<and> printed s t"
proof (cases "cons_locking s")
  case True
  define u where "u = s\<lparr>held := insert LkCons (held s)\<rparr>"
  have "can_print u" using assms(2) by (simp add: u_def can_print_def cursor_on_screen_def)
  then obtain tr m where t: "cprintf_loop fmt args u = Ret () (u\<lparr>mem := m, trace := tr\<rparr>)"
      and m: "\<forall>a. \<not> on_screen a \<longrightarrow> m a = mem u a"
    using assms(1) [unfolded prints_def, rule_format, of u] unfolding printed_def by blast
  have "cprintf fmt args s = Ret () (s\<lparr>mem := m, trace := tr\<rparr>)"
    using t True assms(3) by (simp add: cprintf_def thenk_def bindk_def acquire_def release_def u_def)
  moreover have "printed s (s\<lparr>mem := m, trace := tr\<rparr>)"
    using m by (auto simp: printed_def u_def)
  ultimately show ?thesis by blast
next
  case False
  then show ?thesis using assms(1,2) by (auto simp: prints_def cprintf_def thenk_def bindk_def)
qed

end
