(* ===== verification/Xv6_Fs.thy ===== *)
theory Xv6_Fs
  imports Xv6_Console
begin

text \<open>
  The upper half of fs.c: file contents, directories and path names. A path or a name is
  the list of its bytes before the NUL. \<open>readi\<close> and \<open>writei\<close> pass device files on to the
  device switch.
\<close>

abbreviation (input) DIRSIZ :: nat where "DIRSIZ \<equiv> 14"

section \<open>Contents\<close>

text \<open>The loop of \<open>readi\<close>: \<open>left\<close> bytes to go from offset \<open>off\<close>, \<open>acc\<close> copied so far.\<close>

function readi_loop :: "nat \<Rightarrow> dest \<Rightarrow> uint \<Rightarrow> nat \<Rightarrow> byte list \<Rightarrow> (byte list, 'z cons_state_scheme) kernel" where
  "readi_loop i dst off left acc =
    (if left = 0 then ret acc
     else let k = unat off mod BSIZE; m = min left (BSIZE - k) in
       bindk (bmap i (off div of_nat BSIZE)) (\<lambda>a s.
       bindk (bread (i_dev (icache s ! i)) a) (\<lambda>bp.
       bindk (getk (\<lambda>s. take m (drop k (buf_data bp s)))) (\<lambda>d.
       thenk (copy_to dst (length acc) d)
       (thenk (brelse bp)
       (readi_loop i dst (off + of_nat m) (left - m) (acc @ d))))) s))"
  by pat_completeness auto
termination by (relation "measure (\<lambda>(i, dst, off, left, acc). left)") auto

declare readi_loop.simps [simp del]

definition readi :: "nat \<Rightarrow> dest \<Rightarrow> uint \<Rightarrow> uint \<Rightarrow> (int \<times> byte list, 'z cons_state_scheme) kernel" where
  "readi i dst off n = (\<lambda>s. let ip = icache s ! i in
    if i_type ip = T_DEV then
      if sint (i_major ip) < 0 \<or> sint (i_major ip) \<ge> int NDEV then Ret (-1, []) s
      else (case devsw s (unat (i_major ip)) of
        None \<Rightarrow> Ret (-1, []) s
      | Some ConsoleDev \<Rightarrow> consoleread i dst (sint n) s)
    else if off > i_size ip \<or> off + n < off then Ret (-1, []) s
    else let n = (if off + n > i_size ip then i_size ip - off else n) in
      bindk (readi_loop i dst off (unat n) []) (\<lambda>bs. ret (sint n, bs)) s)"

function writei_loop :: "nat \<Rightarrow> source \<Rightarrow> uint \<Rightarrow> nat \<Rightarrow> nat \<Rightarrow> (uint, 'z cons_state_scheme) kernel" where
  "writei_loop i src off tot left =
    (if left = 0 then ret off
     else let k = unat off mod BSIZE; m = min left (BSIZE - k) in
       bindk (bmap i (off div of_nat BSIZE)) (\<lambda>a s.
       bindk (bread (i_dev (icache s ! i)) a) (\<lambda>bp.
       bindk (copy_from src tot m) (\<lambda>d.
       thenk (set_data bp (splice_at k d))
       (thenk (log_write bp)
       (thenk (brelse bp)
       (writei_loop i src (off + of_nat m) (tot + m) (left - m)))))) s))"
  by pat_completeness auto
termination by (relation "measure (\<lambda>(i, src, off, tot, left). left)") auto

declare writei_loop.simps [simp del]

definition writei :: "nat \<Rightarrow> source \<Rightarrow> uint \<Rightarrow> uint \<Rightarrow> (int, 'z cons_state_scheme) kernel" where
  "writei i src off n = (\<lambda>s. let ip = icache s ! i in
    if i_type ip = T_DEV then
      if sint (i_major ip) < 0 \<or> sint (i_major ip) \<ge> int NDEV then Ret (-1) s
      else (case devsw s (unat (i_major ip)) of
        None \<Rightarrow> Ret (-1) s
      | Some ConsoleDev \<Rightarrow> consolewrite i src (sint n) s)
    else if off > i_size ip \<or> off + n < off then Ret (-1) s
    else if off + n > of_nat (MAXFILE * BSIZE) then Ret (-1) s
    else bindk (writei_loop i src off 0 (unat n)) (\<lambda>off s.
      thenk (whenk (n > 0 \<and> off > i_size (icache s ! i))
        (thenk (modk (upd_inode i (\<lambda>ip. ip\<lparr>i_size := off\<rparr>))) (iupdate i)))
      (ret (sint n)) s) s)"

section \<open>Directories\<close>

record dirent =
  de_inum :: ushort
  de_name :: "byte list"

definition dec_dirent :: "byte list \<Rightarrow> dirent" where
  "dec_dirent bs = \<lparr>de_inum = rd_at 2 dec16 bs 0, de_name = take DIRSIZ (drop 2 bs)\<rparr>"

definition enc_dirent :: "dirent \<Rightarrow> byte list" where
  "enc_dirent de = enc16 (de_inum de) @ de_name de"

definition namecmp :: "byte list \<Rightarrow> byte list \<Rightarrow> int" where
  "namecmp s t = strncmp_l DIRSIZ s t"

text \<open>The offsets \<open>off = 0; off < dp->size; off += sizeof(de)\<close> (from entry \<open>k\<close> on).\<close>

definition dir_offs :: "nat \<Rightarrow> uint \<Rightarrow> uint list" where
  "dir_offs k sz = map (\<lambda>j. of_nat (16 * j)) [k..<(unat sz + 15) div 16]"

definition read_dirent :: "string \<Rightarrow> nat \<Rightarrow> uint \<Rightarrow> (dirent, 'z cons_state_scheme) kernel" where
  "read_dirent msg dp off = bindk (readi dp Local off 16) (\<lambda>(r, bs).
    if r \<noteq> 16 then panic msg else ret (dec_dirent bs))"

primrec dirlookup_scan :: "uint list \<Rightarrow> nat \<Rightarrow> byte list \<Rightarrow> ((nat \<times> uint) option, 'z cons_state_scheme) kernel" where
  "dirlookup_scan [] dp name = ret None"
| "dirlookup_scan (off # offs) dp name = bindk (read_dirent ''dirlink read'' dp off) (\<lambda>de s.
    if de_inum de = 0 then dirlookup_scan offs dp name s
    else if namecmp name (de_name de) = 0 then
      bindk (iget (i_dev (icache s ! dp)) (ucast (de_inum de))) (\<lambda>ip. ret (Some (ip, off))) s
    else dirlookup_scan offs dp name s)"

text \<open>The result is the inode and the offset of its entry (\<open>*poff\<close>).\<close>

definition dirlookup :: "nat \<Rightarrow> byte list \<Rightarrow> ((nat \<times> uint) option, 'z cons_state_scheme) kernel" where
  "dirlookup dp name = (\<lambda>s.
    if i_type (icache s ! dp) \<noteq> T_DIR then Panic ''dirlookup not DIR''
    else dirlookup_scan (dir_offs 0 (i_size (icache s ! dp))) dp name s)"

text \<open>The offset of the first empty entry, or the first offset past the end.\<close>

primrec dir_empty_scan :: "uint list \<Rightarrow> uint \<Rightarrow> nat \<Rightarrow> (uint, 'z cons_state_scheme) kernel" where
  "dir_empty_scan [] past dp = ret past"
| "dir_empty_scan (off # offs) past dp = bindk (read_dirent ''dirlink read'' dp off) (\<lambda>de.
    if de_inum de = 0 then ret off else dir_empty_scan offs past dp)"

definition dirlink :: "nat \<Rightarrow> byte list \<Rightarrow> uint \<Rightarrow> (int, 'z cons_state_scheme) kernel" where
  "dirlink dp name inum = bindk (dirlookup dp name) (\<lambda>r. case r of
      Some (ip, _) \<Rightarrow> thenk (iput ip) (ret (-1))
    | None \<Rightarrow> (\<lambda>s. let sz = i_size (icache s ! dp) in
        bindk (dir_empty_scan (dir_offs 0 sz) (of_nat (16 * ((unat sz + 15) div 16))) dp) (\<lambda>off.
        let de = \<lparr>de_inum = ucast inum, de_name = strncpy_l DIRSIZ name\<rparr> in
        bindk (writei dp (LocalBytes (enc_dirent de)) off 16) (\<lambda>r.
        if r \<noteq> 16 then panic ''dirlink'' else ret 0)) s))"

section \<open>Paths\<close>

abbreviation (input) SLASH :: byte where "SLASH \<equiv> 0x2F"

text \<open>\<open>skipelem\<close>: the rest of the path and the name, or nothing. The name keeps its first
  \<open>DIRSIZ\<close> bytes.\<close>

definition skip_slashes :: "byte list \<Rightarrow> byte list" where
  "skip_slashes path = dropWhile (\<lambda>c. c = SLASH) path"

definition skipelem :: "byte list \<Rightarrow> (byte list \<times> byte list) option" where
  "skipelem path = (let s = skip_slashes path in
    if s = [] then None
    else let elem = takeWhile (\<lambda>c. c \<noteq> SLASH) s; rest = dropWhile (\<lambda>c. c \<noteq> SLASH) s in
      Some (skip_slashes rest, take DIRSIZ elem))"

lemma length_skip_slashes: "length (skip_slashes p) \<le> length p"
  unfolding skip_slashes_def by (rule length_dropWhile_le)

lemma length_skipelem:
  assumes "skipelem path = Some (rest, name)"
  shows "length rest < length path"
proof -
  let ?s = "skip_slashes path"
  have s: "?s \<noteq> []" and rest: "rest = skip_slashes (dropWhile (\<lambda>c. c \<noteq> SLASH) ?s)"
    using assms by (auto simp: skipelem_def Let_def split: if_splits)
  have "hd ?s \<noteq> SLASH" using s hd_dropWhile [of "\<lambda>c. c = SLASH" path] unfolding skip_slashes_def by blast
  then have "length (dropWhile (\<lambda>c. c \<noteq> SLASH) ?s) < length ?s"
    using s by (cases ?s) (auto simp: le_imp_less_Suc length_dropWhile_le)
  then show ?thesis
    using rest length_skip_slashes [of "dropWhile (\<lambda>c. c \<noteq> SLASH) ?s"] length_skip_slashes [of path] by simp
qed

text \<open>The loop of \<open>namex\<close>. The result is the inode and the last path element read.\<close>

function namex_loop :: "bool \<Rightarrow> nat \<Rightarrow> byte list \<Rightarrow> byte list \<Rightarrow> ((nat \<times> byte list) option, 'z cons_state_scheme) kernel" where
  "namex_loop parent ip path name = (case skipelem path of
      None \<Rightarrow> if parent then thenk (iput ip) (ret None) else ret (Some (ip, name))
    | Some (path, name) \<Rightarrow> thenk (ilock ip) (\<lambda>s.
        if i_type (icache s ! ip) \<noteq> T_DIR then thenk (iunlockput ip) (ret None) s
        else if parent \<and> path = [] then thenk (iunlock ip) (ret (Some (ip, name))) s
        else bindk (dirlookup ip name) (\<lambda>r. case r of
            None \<Rightarrow> thenk (iunlockput ip) (ret None)
          | Some (next, _) \<Rightarrow> thenk (iunlockput ip) (namex_loop parent next path name)) s))"
  by pat_completeness auto
termination
  by (relation "measure (\<lambda>(parent, ip, path, name). length path)") (auto dest: length_skipelem)

declare namex_loop.simps [simp del]

definition namex :: "byte list \<Rightarrow> bool \<Rightarrow> ((nat \<times> byte list) option, 'z cons_state_scheme) kernel" where
  "namex path parent = bindk
    (if path \<noteq> [] \<and> hd path = SLASH then iget ROOTDEV ROOTINO
     else bindk myproc (\<lambda>me s. case p_cwd (ptable s ! me) of
         None \<Rightarrow> Panic ''null pointer: cwd''
       | Some cwd \<Rightarrow> idup cwd s))
    (\<lambda>ip. namex_loop parent ip path [])"

definition namei :: "byte list \<Rightarrow> (nat option, 'z cons_state_scheme) kernel" where
  "namei path = bindk (namex path False) (\<lambda>r. ret (map_option fst r))"

definition nameiparent :: "byte list \<Rightarrow> ((nat \<times> byte list) option, 'z cons_state_scheme) kernel" where
  "nameiparent path = namex path True"

end
