(* ===== verification/Xv6_File.thy ===== *)
theory Xv6_File
  imports Xv6_Fs
begin

text \<open>
  file.c and pipe.c: the table of open files and the pipes. A pointer to an open file is
  its index in \<open>ftable.file\<close>; a pointer to a pipe is the address of the page it lies in,
  and \<open>pipes\<close> is the content of the \<open>struct pipe\<close> at each such address.
\<close>

section \<open>State\<close>

abbreviation (input) NFILE :: nat where "NFILE \<equiv> 100"
abbreviation (input) PIPESIZE :: nat where "PIPESIZE \<equiv> 512"

datatype fdtype = FD_NONE | FD_PIPE | FD_INODE

record kfile =
  f_type :: fdtype
  f_ref :: int
  f_readable :: bool
  f_writable :: bool
  f_pipe :: uint
  f_ip :: nat
  f_off :: uint

record pipe =
  pi_data :: "byte list"
  pi_nread :: uint
  pi_nwrite :: uint
  pi_readopen :: bool
  pi_writeopen :: bool

record file_state = cons_state +
  ftable :: "kfile list"
  pipes :: "uint \<Rightarrow> pipe"

definition upd_file :: "nat \<Rightarrow> (kfile \<Rightarrow> kfile) \<Rightarrow> 'z file_state_scheme \<Rightarrow> 'z file_state_scheme" where
  "upd_file i f s = s\<lparr>ftable := (ftable s)[i := f (ftable s ! i)]\<rparr>"

definition upd_pipe :: "uint \<Rightarrow> (pipe \<Rightarrow> pipe) \<Rightarrow> 'z file_state_scheme \<Rightarrow> 'z file_state_scheme" where
  "upd_pipe p f s = s\<lparr>pipes := (pipes s)(p := f (pipes s p))\<rparr>"

section \<open>pipe.c: closing, writing, reading\<close>

definition pipeclose :: "uint \<Rightarrow> bool \<Rightarrow> (unit, 'z file_state_scheme) kernel" where
  "pipeclose p writable = thenk (acquire (LkPipe p))
    (thenk
      (if writable then thenk (modk (upd_pipe p (\<lambda>x. x\<lparr>pi_writeopen := False\<rparr>))) (wakeup (ChanPipeRead p))
       else thenk (modk (upd_pipe p (\<lambda>x. x\<lparr>pi_readopen := False\<rparr>))) (wakeup (ChanPipeWrite p)))
    (\<lambda>s. if \<not> pi_readopen (pipes s p) \<and> \<not> pi_writeopen (pipes s p) then
        thenk (release (LkPipe p)) (kfree p) s
      else release (LkPipe p) s))"

text \<open>One byte into the ring and one byte out of it.\<close>

definition pipe_put :: "byte \<Rightarrow> pipe \<Rightarrow> pipe" where
  "pipe_put b x = x\<lparr>pi_data := (pi_data x)[unat (pi_nwrite x) mod PIPESIZE := b], pi_nwrite := pi_nwrite x + 1\<rparr>"

definition pipe_next :: "pipe \<Rightarrow> byte" where
  "pipe_next x = pi_data x ! (unat (pi_nread x) mod PIPESIZE)"

definition pipe_take :: "pipe \<Rightarrow> pipe" where
  "pipe_take x = x\<lparr>pi_nread := pi_nread x + 1\<rparr>"

text \<open>The loop of \<open>pipewrite\<close> with \<open>k\<close> bytes to go, the next one at index \<open>i\<close>; the result is
  \<open>False\<close> if it gave up. A process that sleeps in the loop continues there with the same
  \<open>i\<close> and \<open>k\<close>.\<close>

primrec pipewrite_loop :: "nat \<Rightarrow> uint \<Rightarrow> uint \<Rightarrow> nat \<Rightarrow> (bool, 'z file_state_scheme) kernel" where
  "pipewrite_loop 0 p addr i = ret True"
| "pipewrite_loop (Suc k) p addr i = bindk myproc (\<lambda>me s. let x = pipes s p in
    if pi_nwrite x = pi_nread x + of_nat PIPESIZE then
      if \<not> pi_readopen x \<or> p_killed (ptable s ! me) then Ret False s
      else thenk (wakeup (ChanPipeRead p)) (sleep (ChanPipeWrite p) (LkPipe p)) s
    else bindk (uread (addr + of_nat i) 1) (\<lambda>b.
      thenk (modk (upd_pipe p (pipe_put (hd b))))
      (pipewrite_loop k p addr (Suc i))) s)"

definition pipewrite_rest :: "uint \<Rightarrow> uint \<Rightarrow> int \<Rightarrow> nat \<Rightarrow> nat \<Rightarrow> (int, 'z file_state_scheme) kernel" where
  "pipewrite_rest p addr n k i = bindk (pipewrite_loop k p addr i) (\<lambda>ok.
    if \<not> ok then thenk (release (LkPipe p)) (ret (-1))
    else thenk (wakeup (ChanPipeRead p)) (thenk (release (LkPipe p)) (ret n)))"

definition pipewrite :: "uint \<Rightarrow> uint \<Rightarrow> int \<Rightarrow> (int, 'z file_state_scheme) kernel" where
  "pipewrite p addr n = thenk (acquire (LkPipe p)) (pipewrite_rest p addr n (nat n) 0)"

primrec piperead_loop :: "nat \<Rightarrow> uint \<Rightarrow> uint \<Rightarrow> nat \<Rightarrow> (nat, 'z file_state_scheme) kernel" where
  "piperead_loop 0 p addr i = ret i"
| "piperead_loop (Suc k) p addr i = (\<lambda>s. let x = pipes s p in
    if pi_nread x = pi_nwrite x then Ret i s
    else thenk (modk (upd_pipe p pipe_take))
      (thenk (uwrite (addr + of_nat i) [pipe_next x])
      (piperead_loop k p addr (Suc i))) s)"

text \<open>A process that sleeps until there is something to read continues with \<open>piperead_rest\<close>.\<close>

definition piperead_rest :: "uint \<Rightarrow> uint \<Rightarrow> int \<Rightarrow> (int, 'z file_state_scheme) kernel" where
  "piperead_rest p addr n = bindk myproc (\<lambda>me s. let x = pipes s p in
    if pi_nread x = pi_nwrite x \<and> pi_writeopen x then
      if p_killed (ptable s ! me) then thenk (release (LkPipe p)) (ret (-1)) s
      else sleep (ChanPipeRead p) (LkPipe p) s
    else bindk (piperead_loop (nat n) p addr 0) (\<lambda>i.
      thenk (wakeup (ChanPipeWrite p))
      (thenk (release (LkPipe p))
      (ret (int i)))) s)"

definition piperead :: "uint \<Rightarrow> uint \<Rightarrow> int \<Rightarrow> (int, 'z file_state_scheme) kernel" where
  "piperead p addr n = thenk (acquire (LkPipe p)) (piperead_rest p addr n)"

section \<open>file.c\<close>

definition filealloc :: "(nat option, 'z file_state_scheme) kernel" where
  "filealloc = thenk (acquire LkFtable) (\<lambda>s.
    case find (\<lambda>i. f_ref (ftable s ! i) = 0) [0..<NFILE] of
      Some f \<Rightarrow> thenk (modk (upd_file f (\<lambda>x. x\<lparr>f_ref := 1\<rparr>))) (thenk (release LkFtable) (ret (Some f))) s
    | None \<Rightarrow> thenk (release LkFtable) (ret None) s)"

definition filedup :: "nat \<Rightarrow> (nat, 'z file_state_scheme) kernel" where
  "filedup f = thenk (acquire LkFtable) (\<lambda>s.
    if f_ref (ftable s ! f) < 1 then Panic ''filedup''
    else thenk (modk (upd_file f (\<lambda>x. x\<lparr>f_ref := f_ref x + 1\<rparr>)))
      (thenk (release LkFtable)
      (ret f)) s)"

definition fileclose :: "nat \<Rightarrow> (unit, 'z file_state_scheme) kernel" where
  "fileclose f = thenk (acquire LkFtable) (\<lambda>s.
    if f_ref (ftable s ! f) < 1 then Panic ''fileclose''
    else let ff = (ftable s ! f)\<lparr>f_ref := f_ref (ftable s ! f) - 1\<rparr> in
      thenk (modk (upd_file f (\<lambda>_. ff)))
      (if f_ref ff > 0 then release LkFtable
       else thenk (modk (upd_file f (\<lambda>x. x\<lparr>f_ref := 0, f_type := FD_NONE\<rparr>)))
         (thenk (release LkFtable)
         (case f_type ff of
            FD_PIPE \<Rightarrow> pipeclose (f_pipe ff) (f_writable ff)
          | FD_INODE \<Rightarrow> thenk begin_trans (thenk (iput (f_ip ff)) commit_trans)
          | FD_NONE \<Rightarrow> ret ()))) s)"

text \<open>The fields of \<open>struct stat\<close> at their offsets.\<close>

definition write_stat :: "uint \<Rightarrow> stat \<Rightarrow> (unit, 'z proc_state_scheme) kernel" where
  "write_stat st v =
    thenk (uwrite (st + 4) (enc32 (st_dev v)))
    (thenk (uwrite (st + 8) (enc32 (st_ino v)))
    (thenk (uwrite st (enc16 (st_type v)))
    (thenk (uwrite (st + 12) (enc16 (st_nlink v)))
    (uwrite (st + 16) (enc32 (st_size v))))))"

definition filestat :: "nat \<Rightarrow> uint \<Rightarrow> (int, 'z file_state_scheme) kernel" where
  "filestat f st = (\<lambda>s. let x = ftable s ! f in
    if f_type x = FD_INODE then
      thenk (ilock (f_ip x))
      (thenk (\<lambda>s. write_stat st (stati (f_ip x) s) s)
      (thenk (iunlock (f_ip x))
      (ret 0))) s
    else Ret (-1) s)"

definition fileread :: "nat \<Rightarrow> uint \<Rightarrow> int \<Rightarrow> (int, 'z file_state_scheme) kernel" where
  "fileread f addr n = (\<lambda>s. let x = ftable s ! f in
    if \<not> f_readable x then Ret (-1) s
    else case f_type x of
      FD_PIPE \<Rightarrow> piperead (f_pipe x) addr n s
    | FD_INODE \<Rightarrow>
        thenk (ilock (f_ip x))
        (\<lambda>s. bindk (readi (f_ip x) (User addr) (f_off (ftable s ! f)) (word_of_int n)) (\<lambda>(r, _).
          thenk (whenk (r > 0) (modk (upd_file f (\<lambda>x. x\<lparr>f_off := f_off x + word_of_int r\<rparr>))))
          (thenk (iunlock (f_ip x))
          (ret r))) s) s
    | FD_NONE \<Rightarrow> Panic ''fileread'')"

text \<open>The loop of \<open>filewrite\<close>: \<open>left\<close> bytes to go from index \<open>i\<close>, at most three blocks in one
  transaction; the result is the final \<open>i\<close>.\<close>

abbreviation (input) WRITEMAX :: nat where "WRITEMAX \<equiv> 1536"

function filewrite_loop :: "nat \<Rightarrow> uint \<Rightarrow> nat \<Rightarrow> nat \<Rightarrow> (nat, 'z file_state_scheme) kernel" where
  "filewrite_loop f addr i left =
    (if left = 0 then ret i
     else let n1 = min left WRITEMAX in
       thenk begin_trans (\<lambda>s. let ip = f_ip (ftable s ! f) in
       thenk (ilock ip)
       (\<lambda>s. bindk (writei ip (UserBytes (addr + of_nat i)) (f_off (ftable s ! f)) (of_nat n1)) (\<lambda>r.
         thenk (whenk (r > 0) (modk (upd_file f (\<lambda>x. x\<lparr>f_off := f_off x + word_of_int r\<rparr>))))
         (thenk (iunlock ip)
         (thenk commit_trans
         (if r < 0 then ret i
          else if r \<noteq> int n1 then panic ''short filewrite''
          else filewrite_loop f addr (i + n1) (left - n1))))) s) s))"
  by pat_completeness auto
termination by (relation "measure (\<lambda>(f, addr, i, left). left)") auto

declare filewrite_loop.simps [simp del]

definition filewrite :: "nat \<Rightarrow> uint \<Rightarrow> int \<Rightarrow> (int, 'z file_state_scheme) kernel" where
  "filewrite f addr n = (\<lambda>s. let x = ftable s ! f in
    if \<not> f_writable x then Ret (-1) s
    else case f_type x of
      FD_PIPE \<Rightarrow> pipewrite (f_pipe x) addr n s
    | FD_INODE \<Rightarrow> bindk (filewrite_loop f addr 0 (nat n)) (\<lambda>i. ret (if int i = n then n else -1)) s
    | FD_NONE \<Rightarrow> Panic ''filewrite'')"

section \<open>pipealloc\<close>

definition pipealloc_bad :: "nat option \<Rightarrow> nat option \<Rightarrow> ((nat \<times> nat) option, 'z file_state_scheme) kernel" where
  "pipealloc_bad f0 f1 =
    thenk (case f0 of Some f \<Rightarrow> fileclose f | None \<Rightarrow> ret ())
    (thenk (case f1 of Some f \<Rightarrow> fileclose f | None \<Rightarrow> ret ())
    (ret None))"

definition pipealloc :: "((nat \<times> nat) option, 'z file_state_scheme) kernel" where
  "pipealloc = bindk filealloc (\<lambda>r0. case r0 of None \<Rightarrow> pipealloc_bad None None | Some f0 \<Rightarrow>
    bindk filealloc (\<lambda>r1. case r1 of None \<Rightarrow> pipealloc_bad (Some f0) None | Some f1 \<Rightarrow>
    bindk kalloc (\<lambda>p. if p = 0 then pipealloc_bad (Some f0) (Some f1) else
      thenk (modk (upd_pipe p (\<lambda>x. x\<lparr>pi_readopen := True, pi_writeopen := True, pi_nwrite := 0, pi_nread := 0\<rparr>)))
      (thenk (modk (upd_file f0 (\<lambda>x. x\<lparr>f_type := FD_PIPE, f_readable := True, f_writable := False, f_pipe := p\<rparr>)))
      (thenk (modk (upd_file f1 (\<lambda>x. x\<lparr>f_type := FD_PIPE, f_readable := False, f_writable := True, f_pipe := p\<rparr>)))
      (ret (Some (f0, f1))))))))"

end
