(* ===== verification/Xv6_Ring.thy ===== *)
theory Xv6_Ring
  imports Xv6_Prelude
begin

text \<open>
  Ring buffers with free-running 32-bit counters, as pipe.c and console.c use them: the
  element at count \<open>k\<close> lies at index \<open>k % N\<close>, counters are never reset and wrap around.
  The content is the sequence of elements between the read and the write counter. It
  behaves as a queue because the capacity divides \<open>2^32\<close>, so that wrapping around keeps
  the indices in step.
\<close>

definition ring :: "nat \<Rightarrow> 'a list \<Rightarrow> uint \<Rightarrow> uint \<Rightarrow> 'a list" where
  "ring N buf r w = map (\<lambda>k. buf ! ((unat r + k) mod N)) [0..<unat (w - r)]"

lemma length_ring [simp]: "length (ring N buf r w) = unat (w - r)"
  by (simp add: ring_def)

lemma ring_empty_iff: "ring N buf r w = [] \<longleftrightarrow> r = w"
proof -
  have "unat (w - r) = 0 \<longleftrightarrow> w = r" by (simp add: unat_eq_0)
  then show ?thesis by (auto simp: ring_def)
qed

locale ringbuf =
  fixes N :: nat
  assumes N_dvd: "N dvd 2 ^ 32" and N_pos: "0 < N" and N_lt: "N < 2 ^ 32"
begin

lemma mod_wrap: "unat (r + d :: uint) mod N = (unat r + unat d) mod N"
proof -
  have "unat (r + d) = (unat r + unat d) mod 2 ^ 32" by (simp add: unat_word_ariths)
  then show ?thesis using N_dvd by (simp add: mod_mod_cancel)
qed

text \<open>The slot of the write counter is the one after the content.\<close>

lemma write_slot: "unat (w :: uint) mod N = (unat r + unat (w - r)) mod N"
  using mod_wrap [of r "w - r"] by simp

text \<open>Storing at the write counter appends, as long as the buffer is not full.\<close>

lemma ring_put:
  assumes "length buf = N" and "unat (w - r) < N"
  shows "ring N (buf[unat w mod N := b]) r (w + 1) = ring N buf r w @ [b]"
proof -
  let ?d = "unat (w - r)"
  have "unat (w - r + 1) = ?d + 1" using assms(2) N_lt by (subst unat_add_no_wrap) simp_all
  then have d: "unat (w + 1 - r) = Suc ?d" by (simp add: algebra_simps)
  have "buf[unat w mod N := b] ! ((unat r + k) mod N) = buf ! ((unat r + k) mod N)" if k: "k < ?d" for k
  proof -
    have "(unat r + k) mod N \<noteq> (unat r + ?d) mod N"
    proof
      assume "(unat r + k) mod N = (unat r + ?d) mod N"
      then have "N dvd (unat r + ?d) - (unat r + k)" by (metis mod_eq_dvd_iff_nat add_le_cancel_left k less_imp_le)
      then have "N dvd ?d - k" by simp
      then show False using k assms(2) by (auto dest: dvd_imp_le)
    qed
    then show ?thesis unfolding write_slot [of w r] by simp
  qed
  moreover have "buf[unat w mod N := b] ! ((unat r + ?d) mod N) = b"
    unfolding write_slot [of w r] using assms(1) N_pos by simp
  ultimately show ?thesis unfolding ring_def d by simp
qed

text \<open>Reading at the read counter takes the first element.\<close>

lemma ring_get:
  assumes "r \<noteq> w"
  shows "ring N buf r w = buf ! (unat r mod N) # ring N buf (r + 1) w"
proof -
  have "0 < unat (w - r)" using assms by (simp add: unat_gt_0)
  then obtain n where n: "unat (w - r) = Suc n" by (cases "unat (w - r)") auto
  then have "unat (w - r - 1) = n"
    by (metis diff_Suc_1 measure_unat n nat.distinct(1) unat_0 unat_minus_one)
  then have n': "unat (w - (r + 1)) = n" by (simp add: algebra_simps)
  have "(unat (r + 1) + k) mod N = (unat r + Suc k) mod N" for k
  proof -
    have "(unat (r + 1) + k) mod N = (unat (r + 1) mod N + k) mod N" by (simp add: mod_add_left_eq)
    also have "\<dots> = ((unat r + 1) mod N + k) mod N" using mod_wrap [of r 1] by simp
    also have "\<dots> = (unat r + Suc k) mod N" by (simp add: mod_add_left_eq)
    finally show ?thesis .
  qed
  then show ?thesis unfolding ring_def n n' by (simp add: upt_conv_Cons map_Suc_upt [symmetric] del: upt_Suc)
qed

text \<open>The buffer is full exactly when the counters are \<open>N\<close> apart.\<close>

lemma full_iff: "(w :: uint) = r + of_nat N \<longleftrightarrow> unat (w - r) = N"
proof -
  have N: "unat (of_nat N :: uint) = N" using N_lt by (simp add: unat_of_nat)
  have "w = r + of_nat N \<longleftrightarrow> w - r = of_nat N" by (auto simp: algebra_simps)
  also have "\<dots> \<longleftrightarrow> unat (w - r) = unat (of_nat N :: uint)" by (simp add: word_unat_eq_iff)
  finally show ?thesis unfolding N .
qed

end

end
