(* ===== verification/Xv6_Pipe.thy ===== *)
theory Xv6_Pipe
  imports Xv6_File Xv6_Ring
begin

text \<open>
  What pipe.c guarantees: a pipe is a first-in-first-out queue of at most 512 bytes, also
  when its counters wrap around, and neither a reader nor a writer misses a wakeup
  (with one exception, which is shown).
\<close>

interpretation pring: ringbuf 512
  by unfold_locales simp_all

section \<open>The pipe as a queue\<close>

definition pipe_content :: "pipe \<Rightarrow> byte list" where
  "pipe_content x = ring PIPESIZE (pi_data x) (pi_nread x) (pi_nwrite x)"

definition pipe_wf :: "pipe \<Rightarrow> bool" where
  "pipe_wf x \<longleftrightarrow> length (pi_data x) = PIPESIZE \<and> length (pipe_content x) \<le> PIPESIZE"

lemma pipe_full: "pi_nwrite x = pi_nread x + of_nat PIPESIZE \<longleftrightarrow> length (pipe_content x) = PIPESIZE"
  using pring.full_iff by (simp add: pipe_content_def)

lemma pipe_empty: "pi_nread x = pi_nwrite x \<longleftrightarrow> pipe_content x = []"
  by (simp add: pipe_content_def ring_empty_iff)

lemma pipe_put:
  assumes "pipe_wf x" and "length (pipe_content x) \<noteq> PIPESIZE"
  shows "pipe_content (pipe_put b x) = pipe_content x @ [b]" and "pipe_wf (pipe_put b x)"
proof -
  have len: "length (pi_data x) = 512" "unat (pi_nwrite x - pi_nread x) < 512"
    using assms by (auto simp: pipe_wf_def pipe_content_def)
  show c: "pipe_content (pipe_put b x) = pipe_content x @ [b]"
    using pring.ring_put [OF len] by (simp add: pipe_content_def pipe_put_def)
  show "pipe_wf (pipe_put b x)"
    unfolding pipe_wf_def c using assms by (simp add: pipe_wf_def pipe_put_def)
qed

lemma pipe_take:
  assumes "pipe_wf x" and "pipe_content x \<noteq> []"
  shows "pipe_content x = pipe_next x # pipe_content (pipe_take x)" and "pipe_wf (pipe_take x)"
proof -
  show c: "pipe_content x = pipe_next x # pipe_content (pipe_take x)"
    using assms(2) pring.ring_get [of "pi_nread x" "pi_nwrite x" "pi_data x"]
    by (simp add: pipe_empty [symmetric]) (simp add: pipe_content_def pipe_take_def pipe_next_def)
  show "pipe_wf (pipe_take x)"
    using assms(1) arg_cong [OF c, of length] by (simp add: pipe_wf_def) (simp add: pipe_take_def)
qed

lemma pipe_put_sel [simp]:
  "pi_readopen (pipe_put b x) = pi_readopen x" "pi_writeopen (pipe_put b x) = pi_writeopen x"
  "pi_readopen (pipe_take x) = pi_readopen x" "pi_writeopen (pipe_take x) = pi_writeopen x"
  by (simp_all add: pipe_put_def pipe_take_def)

lemma upd_pipe_sel [simp]:
  "pipes (upd_pipe p f s) = (pipes s)(p := f (pipes s p))" "held (upd_pipe p f s) = held s"
  "ptable (upd_pipe p f s) = ptable s" "cpus (upd_pipe p f s) = cpus s" "mycpu (upd_pipe p f s) = mycpu s"
  "mem (upd_pipe p f s) = mem s" "curproc (upd_pipe p f s) = curproc s"
  by (simp_all add: upd_pipe_def curproc_def)

section \<open>The loops\<close>

text \<open>Only the pipe changes.\<close>

definition pipe_set :: "uint \<Rightarrow> pipe \<Rightarrow> 'z file_state_scheme \<Rightarrow> 'z file_state_scheme" where
  "pipe_set p x s = s\<lparr>pipes := (pipes s)(p := x)\<rparr>"

lemma pipe_set_sel [simp]:
  "pipes (pipe_set p x s) = (pipes s)(p := x)" "held (pipe_set p x s) = held s" "ptable (pipe_set p x s) = ptable s"
  "cpus (pipe_set p x s) = cpus s" "mycpu (pipe_set p x s) = mycpu s" "mem (pipe_set p x s) = mem s"
  "curproc (pipe_set p x s) = curproc s" "pipe_set p y (pipe_set p x s) = pipe_set p y s" "upd_pipe p f s = pipe_set p (f (pipes s p)) s"
  by (simp_all add: pipe_set_def curproc_def upd_pipe_def)

lemma pipe_set_self [simp]: "pipe_set p (pipes s p) s = s"
  by (simp add: pipe_set_def)

lemma pipe_set_mem: "s\<lparr>pipes := x, mem := m\<rparr> = s\<lparr>mem := m, pipes := x\<rparr>" for s :: "'z file_state_scheme"
  by (cases s) simp

lemma ubytes_pipe_set [simp]: "ubytes va n (pipe_set p x s) = ubytes va n s"
  by (rule ubytes_cong) simp_all

text \<open>
  What the loop of \<open>pipewrite\<close> does with \<open>k\<close> bytes \<open>bs\<close>: all of them fit; or the pipe
  fills up, and then it gives up if there is no reader any more or the process has been
  killed, and otherwise wakes the readers and sleeps.
\<close>

lemma pipewrite_loop_run:
  assumes "pipe_wf (pipes s p)" and "curproc s = Some me" and "ubytes (addr + of_nat i) k s = Some bs"
  defines "q \<equiv> pipe_content (pipes s p)"
  shows "\<exists>x. pipe_wf x \<and> pipe_content x = q @ take (PIPESIZE - length q) bs \<and>
    pi_readopen x = pi_readopen (pipes s p) \<and> pi_writeopen x = pi_writeopen (pipes s p) \<and>
    pipewrite_loop k p addr i s =
      (if length q + k \<le> PIPESIZE then Ret True (pipe_set p x s)
       else if \<not> pi_readopen (pipes s p) \<or> p_killed (ptable s ! me) then Ret False (pipe_set p x s)
       else thenk (wakeup (ChanPipeRead p)) (sleep (ChanPipeWrite p) (LkPipe p)) (pipe_set p x s))"
  using assms(1-3) unfolding q_def
proof (induction k arbitrary: i s bs)
  case 0
  then show ?case by (auto simp: pipe_wf_def intro!: exI [of _ "pipes s p"])
next
  case (Suc k)
  let ?x = "pipes s p" and ?q = "pipe_content (pipes s p)"
  obtain a cs where bs: "bs = mem s a # cs" "translate False (addr + of_nat i) s = Some a"
      "ubytes (addr + of_nat (Suc i)) k s = Some cs"
    using Suc.prems(3) by (auto simp: ac_simps split: option.splits)
  have me: "myproc s = Ret me s" using Suc.prems(2) by (simp add: myproc_def)
  show ?case
  proof (cases "length ?q = PIPESIZE")
    case True
    then show ?thesis
      using Suc.prems(1) me pipe_full [of ?x] by (intro exI [of _ ?x]) auto
  next
    case False
    let ?b = "mem s a" and ?s = "pipe_set p (pipe_put (mem s a) (pipes s p)) s"
    have lt: "length ?q < PIPESIZE" using False Suc.prems(1) by (simp add: pipe_wf_def)
    note put = pipe_put [OF Suc.prems(1) False, of ?b]
    have run: "pipewrite_loop (Suc k) p addr i s = pipewrite_loop k p addr (Suc i) ?s"
      using False me pipe_full [of ?x] bs(2) by (simp add: uread_eq bindk_def thenk_def)
    obtain x where x: "pipe_wf x" "pipe_content x = pipe_content (pipes ?s p) @ take (PIPESIZE - length (pipe_content (pipes ?s p))) cs"
      "pi_readopen x = pi_readopen (pipes ?s p)" "pi_writeopen x = pi_writeopen (pipes ?s p)"
      "pipewrite_loop k p addr (Suc i) ?s =
        (if length (pipe_content (pipes ?s p)) + k \<le> PIPESIZE then Ret True (pipe_set p x ?s)
         else if \<not> pi_readopen (pipes ?s p) \<or> p_killed (ptable ?s ! me) then Ret False (pipe_set p x ?s)
         else thenk (wakeup (ChanPipeRead p)) (sleep (ChanPipeWrite p) (LkPipe p)) (pipe_set p x ?s))"
      using Suc.IH [of ?s "Suc i" cs] put Suc.prems(2) bs(3) by auto
    have t: "take (PIPESIZE - length ?q) bs = ?b # take (PIPESIZE - Suc (length ?q)) cs"
      using lt bs(1) by (simp add: take_Cons')
    show ?thesis
      using x put run t by (intro exI [of _ x]) auto
  qed
qed

text \<open>The loop of \<open>piperead\<close> takes what there is, at most \<open>k\<close> bytes, from the front.\<close>

lemma piperead_loop_run:
  assumes "pipe_wf (pipes s p)" and "user_buffer (addr + of_nat i) (min k (length (pipe_content (pipes s p)))) s as"
  defines "q \<equiv> pipe_content (pipes s p)"
  shows "\<exists>x m. pipe_wf x \<and> pipe_content x = drop k q \<and>
    pi_readopen x = pi_readopen (pipes s p) \<and> pi_writeopen x = pi_writeopen (pipes s p) \<and>
    map m as = take k q \<and> (\<forall>a. a \<notin> set as \<longrightarrow> m a = mem s a) \<and>
    piperead_loop k p addr i s = Ret (i + min k (length q)) (pipe_set p x (s\<lparr>mem := m\<rparr>))"
  using assms(1-2) unfolding q_def
proof (induction k arbitrary: i s as)
  case 0
  then show ?case by (auto simp: user_buffer_def intro!: exI [of _ "pipes s p"] exI [of _ "mem s"])
next
  case (Suc k)
  let ?x = "pipes s p"
  show ?case
  proof (cases "pipe_content ?x = []")
    case True
    then show ?thesis
      using Suc.prems by (auto simp: user_buffer_def pipe_empty intro!: exI [of _ ?x] exI [of _ "mem s"])
  next
    case False
    note tk = pipe_take [OF Suc.prems(1) False]
    let ?b = "pipe_next ?x" and ?n = "min k (length (pipe_content (pipe_take ?x)))"
    have n: "min (Suc k) (length (pipe_content ?x)) = Suc ?n" using arg_cong [OF tk(1), of length] by simp
    obtain a bs where as: "as = a # bs" "translate True (addr + of_nat i) s = Some a" "a \<notin> set bs"
      and ub: "\<And>(t :: 'a file_state_scheme) b. mem t = (mem s)(a := b) \<Longrightarrow> cpus t = cpus s \<Longrightarrow> mycpu t = mycpu s \<Longrightarrow>
        user_buffer (addr + of_nat i + 1) ?n t bs"
      using Suc.prems(2) unfolding n by (rule user_buffer_Suc) (rule that)
    let ?s = "pipe_set p (pipe_take ?x) (s\<lparr>mem := (mem s)(a := ?b)\<rparr>)"
    have run: "piperead_loop (Suc k) p addr i s = piperead_loop k p addr (Suc i) ?s"
      using False as(2) translate_cong [of "pipe_set p (pipe_take ?x) s" s True "addr + of_nat i"]
      by (simp add: pipe_empty [symmetric] thenk_def bindk_def pipe_set_def pipe_set_mem Let_def)
    have "user_buffer (addr + of_nat (Suc i)) (min k (length (pipe_content (pipes ?s p)))) ?s bs"
      using ub [of ?s ?b] by (simp add: ac_simps)
    then obtain x m where x: "pipe_wf x" "pipe_content x = drop k (pipe_content (pipe_take ?x))"
      "pi_readopen x = pi_readopen ?x" "pi_writeopen x = pi_writeopen ?x"
      "map m bs = take k (pipe_content (pipe_take ?x))" "\<forall>a'. a' \<notin> set bs \<longrightarrow> m a' = mem ?s a'"
      "piperead_loop k p addr (Suc i) ?s = Ret (Suc i + ?n) (pipe_set p x (?s\<lparr>mem := m\<rparr>))"
      using Suc.IH [of ?s "Suc i" bs] tk(2) by auto
    have "m a = ?b" using x(6) as(3) by simp
    moreover have "pipe_set p x (?s\<lparr>mem := m\<rparr>) = pipe_set p x (s\<lparr>mem := m\<rparr>)" by (simp add: pipe_set_def)
    ultimately show ?thesis
      using x run n tk(1) as by (intro exI [of _ x] exI [of _ m]) auto
  qed
qed

section \<open>First in, first out\<close>

lemma pipewrite_all:
  assumes "pipe_wf (pipes s p)" and "curproc s = Some me" and "held s = {}"
    and "ubytes addr n s = Some bs" and "length (pipe_content (pipes s p)) + n \<le> PIPESIZE"
  obtains t where "pipewrite p addr (int n) s = Ret (int n) t" and "pipe_wf (pipes t p)"
    and "pipe_content (pipes t p) = pipe_content (pipes s p) @ bs" and "held t = {}" and "curproc t = Some me"
    and "mem t = mem s" and "cpus t = cpus s" and "mycpu t = mycpu s" and "ptable t = map (wakes (Some (ChanPipeRead p))) (ptable s)"
    and "pi_writeopen (pipes t p) = pi_writeopen (pipes s p)"
proof -
  let ?s = "s\<lparr>held := {LkPipe p}\<rparr>" and ?q = "pipe_content (pipes s p)"
  have "ubytes (addr + of_nat 0) n ?s = Some bs" using assms(4) ubytes_cong [of ?s s addr n] by simp
  then obtain x where x: "pipe_wf x" "pipe_content x = ?q @ take (PIPESIZE - length ?q) bs"
      "pi_writeopen x = pi_writeopen (pipes s p)" "pipewrite_loop n p addr 0 ?s = Ret True (pipe_set p x ?s)"
    using pipewrite_loop_run [of ?s p me addr 0 n bs] assms(1,2,5) by auto
  have bs: "take (PIPESIZE - length ?q) bs = bs" using length_ubytes [OF assms(4)] assms(5) by simp
  let ?t = "(pipe_set p x s)\<lparr>ptable := map (wakes (Some (ChanPipeRead p))) (ptable s)\<rparr>"
  have "pipewrite p addr (int n) s = Ret (int n) ?t"
    using x(4) assms(3)
    by (simp add: pipewrite_def pipewrite_rest_def thenk_def bindk_def acquire_def release_def wakeup_run pipe_set_def)
  then show thesis
    by (rule that) (use x bs assms(2,3) in \<open>simp_all add: pipe_set_def curproc_def\<close>)
qed

lemma piperead_some:
  assumes "pipe_wf (pipes s p)" and "curproc s = Some me" and "held s = {}"
    and "pipe_content (pipes s p) \<noteq> [] \<or> \<not> pi_writeopen (pipes s p)"
    and "user_buffer addr (min n (length (pipe_content (pipes s p)))) s as"
  defines "q \<equiv> pipe_content (pipes s p)"
  obtains t where "piperead p addr (int n) s = Ret (int (min n (length q))) t" and "pipe_wf (pipes t p)"
    and "pipe_content (pipes t p) = drop n q" and "ubytes addr (min n (length q)) t = Some (take n q)"
proof -
  let ?s = "s\<lparr>held := {LkPipe p}\<rparr>"
  have ub: "user_buffer addr (min n (length q)) ?s as"
    using assms(5) uaddrs_frame [of "min n (length q)" addr s ?s True] translate_frame(2) [of _ s ?s]
    by (simp add: user_buffer_def q_def)
  then obtain x m where x: "pipe_wf x" "pipe_content x = drop n q" "map m as = take n q"
      "\<forall>a. a \<notin> set as \<longrightarrow> m a = mem s a" "piperead_loop n p addr 0 ?s = Ret (min n (length q)) (pipe_set p x (?s\<lparr>mem := m\<rparr>))"
    using piperead_loop_run [of ?s p addr 0 n as] assms(1) by (auto simp: q_def)
  let ?t = "(pipe_set p x (s\<lparr>mem := m\<rparr>))\<lparr>ptable := map (wakes (Some (ChanPipeWrite p))) (ptable s)\<rparr>"
  have run: "piperead p addr (int n) s = Ret (int (min n (length q))) ?t"
    using x(5) assms(2,3,4)
    by (auto simp: piperead_def piperead_rest_def thenk_def bindk_def acquire_def release_def wakeup_run pipe_set_def
        myproc_def curproc_def pipe_empty Let_def)
  have "ubytes addr (min n (length q)) ?t = Some (map (mem ?t) as)"
    by (rule user_buffer_read [OF assms(5) [folded q_def]]) (use x(4) in simp_all)
  then show thesis
    by (intro that [OF run]) (use x(1-3) in simp_all)
qed

text \<open>C2. A pipe is a first-in-first-out queue: after \<open>pipewrite\<close> has written \<open>n\<close> bytes that
  fit, \<open>piperead\<close> of \<open>m\<close> bytes into a mapped buffer returns without blocking, and the buffer
  holds the first \<open>m\<close> bytes of what was in the pipe followed by what was written; the
  rest stays in the pipe in order. The counters \<open>nread\<close> and \<open>nwrite\<close> may have any values,
  so this includes their wrapping around.\<close>

theorem pipe_fifo:
  assumes "pipe_wf (pipes s p)" and "curproc s = Some me" and "held s = {}"
    and "ubytes src n s = Some bs" and "0 < n" and "length (pipe_content (pipes s p)) + n \<le> PIPESIZE"
  defines "q \<equiv> pipe_content (pipes s p) @ bs"
  shows "\<exists>t. pipewrite p src (int n) s = Ret (int n) t \<and> pipe_content (pipes t p) = q \<and>
    (\<forall>dst m as. user_buffer dst (min m (length q)) s as \<longrightarrow>
      (\<exists>u. piperead p dst (int m) t = Ret (int (min m (length q))) u \<and>
        ubytes dst (min m (length q)) u = Some (take m q) \<and> pipe_content (pipes u p) = drop m q \<and> pipe_wf (pipes u p)))"
proof -
  obtain t where t: "pipewrite p src (int n) s = Ret (int n) t" "pipe_wf (pipes t p)" "pipe_content (pipes t p) = q"
      "held t = {}" "curproc t = Some me" "mem t = mem s" "cpus t = cpus s" "mycpu t = mycpu s"
    by (rule pipewrite_all [OF assms(1-4,6), folded q_def]) (rule that)
  have ne: "q \<noteq> []" using length_ubytes [OF assms(4)] assms(5) by (auto simp: q_def)
  have "\<exists>u. piperead p dst (int m) t = Ret (int (min m (length q))) u \<and>
        ubytes dst (min m (length q)) u = Some (take m q) \<and> pipe_content (pipes u p) = drop m q \<and> pipe_wf (pipes u p)"
    if "user_buffer dst (min m (length q)) s as" for dst m as
    by (rule piperead_some [OF t(2,5,4), of dst m as]) (use that ne t(3) user_buffer_cong [OF t(6-8)] in auto)
  then show ?thesis using t(1,3) by blast
qed

section \<open>No wakeup is lost\<close>

text \<open>A process that sleeps for data sleeps because there is none and there can be some; a
  process that sleeps for room sleeps because there is none and somebody can read.\<close>

definition sleeper_ok :: "uint \<Rightarrow> pipe \<Rightarrow> proc \<Rightarrow> bool" where
  "sleeper_ok p x q \<longleftrightarrow> (p_state q = SLEEPING \<longrightarrow>
    (p_chan q = Some (ChanPipeRead p) \<longrightarrow> pipe_content x = [] \<and> pi_writeopen x \<and> pi_readopen x) \<and>
    (p_chan q = Some (ChanPipeWrite p) \<longrightarrow> length (pipe_content x) = PIPESIZE \<and> pi_readopen x))"

definition pipe_ok :: "uint \<Rightarrow> pipe \<Rightarrow> proc list \<Rightarrow> bool" where
  "pipe_ok p x pt \<longleftrightarrow> pipe_wf x \<and> (\<forall>q \<in> set pt. sleeper_ok p x q)"

definition pipe_inv :: "uint \<Rightarrow> 'z file_state_scheme \<Rightarrow> bool" where
  "pipe_inv p s \<longleftrightarrow> held s = {} \<and> pipe_ok p (pipes s p) (ptable s)"

text \<open>
  The steps of the processes that use a pipe, on any CPU. A call runs until it returns or
  until the process sleeps and the scheduler takes over; a sleeping process that has been
  woken and picked goes on in \<open>sleep\<close> and repeats the test. \<open>other\<close> is any other code. Two
  things are assumed of the callers. A process that goes to sleep in \<open>piperead\<close> has the read end
  open, and when the read end is closed nobody sleeps in \<open>piperead\<close>: \<open>ftable\<close> counts
  references, and \<open>fileclose\<close> calls \<open>pipeclose\<close> for the last one only. And a killed writer does
  not give up on a full pipe (answer -1) while a reader sleeps; that this does happen in the
  code, and strands the reader, is shown separately below.
\<close>

definition no_reader_asleep :: "uint \<Rightarrow> proc list \<Rightarrow> bool" where
  "no_reader_asleep p pt \<longleftrightarrow> (\<forall>q \<in> set pt. p_state q = SLEEPING \<longrightarrow> p_chan q \<noteq> Some (ChanPipeRead p))"

inductive pipe_step :: "uint \<Rightarrow> 'z file_state_scheme \<Rightarrow> 'z file_state_scheme \<Rightarrow> bool" for p where
  writing: "curproc (on_cpu c s) = Some me \<Longrightarrow> p_killed (ptable s ! me) \<longrightarrow> r \<noteq> -1 \<or> no_reader_asleep p (ptable s) \<Longrightarrow>
    pipewrite p addr n (on_cpu c s) = Ret r s' \<Longrightarrow> pipe_step p s s'"
| write_sleep: "curproc (on_cpu c s) = Some me \<Longrightarrow>
    pipewrite p addr n (on_cpu c s) = Block t \<Longrightarrow> off_cpu t = Ret () s' \<Longrightarrow> pipe_step p s s'"
| write_more: "curproc (on_cpu c s) = Some me \<Longrightarrow> p_killed (ptable s ! me) \<longrightarrow> r \<noteq> -1 \<or> no_reader_asleep p (ptable s) \<Longrightarrow>
    thenk (sleep_resume (LkPipe p)) (pipewrite_rest p addr n k i) ((on_cpu c s)\<lparr>held := {LkPtable}\<rparr>) = Ret r s' \<Longrightarrow> pipe_step p s s'"
| write_more_sleep: "curproc (on_cpu c s) = Some me \<Longrightarrow>
    thenk (sleep_resume (LkPipe p)) (pipewrite_rest p addr n k i) ((on_cpu c s)\<lparr>held := {LkPtable}\<rparr>) = Block t \<Longrightarrow>
    off_cpu t = Ret () s' \<Longrightarrow> pipe_step p s s'"
| reading: "curproc (on_cpu c s) = Some me \<Longrightarrow> piperead p addr n (on_cpu c s) = Ret r s' \<Longrightarrow> pipe_step p s s'"
| read_sleep: "curproc (on_cpu c s) = Some me \<Longrightarrow> pi_readopen (pipes s p) \<Longrightarrow>
    piperead p addr n (on_cpu c s) = Block t \<Longrightarrow> off_cpu t = Ret () s' \<Longrightarrow> pipe_step p s s'"
| read_more: "curproc (on_cpu c s) = Some me \<Longrightarrow>
    thenk (sleep_resume (LkPipe p)) (piperead_rest p addr n) ((on_cpu c s)\<lparr>held := {LkPtable}\<rparr>) = Ret r s' \<Longrightarrow> pipe_step p s s'"
| read_more_sleep: "curproc (on_cpu c s) = Some me \<Longrightarrow> pi_readopen (pipes s p) \<Longrightarrow>
    thenk (sleep_resume (LkPipe p)) (piperead_rest p addr n) ((on_cpu c s)\<lparr>held := {LkPtable}\<rparr>) = Block t \<Longrightarrow>
    off_cpu t = Ret () s' \<Longrightarrow> pipe_step p s s'"
| close_read: "no_reader_asleep p (ptable s) \<Longrightarrow>
    pipeclose p False (on_cpu c s) = Ret () s' \<Longrightarrow> pipe_step p s s'"
| close_write: "pipeclose p True (on_cpu c s) = Ret () s' \<Longrightarrow> pipe_step p s s'"
| other: "pipes s' p = pipes s p \<Longrightarrow> held s' = {} \<Longrightarrow>
    (\<And>q ch. q \<in> set (ptable s') \<Longrightarrow> p_state q = SLEEPING \<Longrightarrow> p_chan q = Some ch \<Longrightarrow> ch \<in> {ChanPipeRead p, ChanPipeWrite p} \<Longrightarrow>
      \<exists>q' \<in> set (ptable s). p_state q' = SLEEPING \<and> p_chan q' = p_chan q) \<Longrightarrow> pipe_step p s s'"

text \<open>What the loops may do, whatever user memory is.\<close>

lemma pipewrite_loop_cases:
  assumes "pipe_wf (pipes s p)" and "curproc s = Some me"
  obtains (fault) msg where "pipewrite_loop k p addr i s = Panic msg"
  | (run) x where "pipe_wf x" and "length (pipe_content (pipes s p)) \<le> length (pipe_content x)"
      and "pi_readopen x = pi_readopen (pipes s p)" and "pi_writeopen x = pi_writeopen (pipes s p)"
      and "pipewrite_loop k p addr i s = Ret True (pipe_set p x s) \<or>
        length (pipe_content x) = PIPESIZE \<and>
          (if \<not> pi_readopen x \<or> p_killed (ptable s ! me) then pipewrite_loop k p addr i s = Ret False (pipe_set p x s)
           else pipewrite_loop k p addr i s = thenk (wakeup (ChanPipeRead p)) (sleep (ChanPipeWrite p) (LkPipe p)) (pipe_set p x s))"
  using assms
proof (induction k arbitrary: i s thesis)
  case 0
  then show ?case by (intro "0.prems"(2) [of "pipes s p"]) simp_all
next
  case (Suc k)
  let ?x = "pipes s p"
  have me: "myproc s = Ret me s" using Suc.prems(4) by (simp add: myproc_def)
  show ?case
  proof (cases "length (pipe_content ?x) = PIPESIZE")
    case True
    show ?thesis
      by (rule Suc.prems(2) [of ?x]) (use True Suc.prems(3) me pipe_full [of ?x] in auto)
  next
    case False
    show ?thesis
    proof (cases "translate False (addr + of_nat i) s")
      case None
      show ?thesis by (rule Suc.prems(1)) (use None False me pipe_full [of ?x] in \<open>simp add: bindk_def\<close>)
    next
      case (Some a)
      let ?s = "pipe_set p (pipe_put (mem s a) ?x) s"
      have run: "pipewrite_loop (Suc k) p addr i s = pipewrite_loop k p addr (Suc i) ?s"
        using False me pipe_full [of ?x] Some by (simp add: bindk_def thenk_def)
      note put = pipe_put [OF Suc.prems(3) False, of "mem s a"]
      show ?thesis
      proof (rule Suc.IH [where s = ?s and i = "Suc i", folded run])
        show "pipe_wf (pipes ?s p)" "curproc ?s = Some me" using put Suc.prems(4) by simp_all
        show thesis if "pipewrite_loop (Suc k) p addr i s = Panic msg" for msg by (rule Suc.prems(1) [OF that])
      qed (erule Suc.prems(2), (use put in \<open>simp del: pipewrite_loop.simps cong del: if_weak_cong\<close>)+)
    qed
  qed
qed

lemma piperead_loop_cases:
  assumes "pipe_wf (pipes s p)"
  obtains (fault) msg where "piperead_loop k p addr i s = Panic msg"
  | (run) j x m where "pipe_wf x" and "piperead_loop k p addr i s = Ret j (pipe_set p x (s\<lparr>mem := m\<rparr>))"
      and "pi_readopen x = pi_readopen (pipes s p)" and "pi_writeopen x = pi_writeopen (pipes s p)"
  using assms
proof (induction k arbitrary: i s thesis)
  case 0
  then show ?case by (intro "0.prems"(2) [of "pipes s p" i "mem s"]) simp_all
next
  case (Suc k)
  let ?x = "pipes s p"
  show ?case
  proof (cases "pipe_content ?x = []")
    case True
    show ?thesis
      by (rule Suc.prems(2) [of ?x i "mem s"]) (use True Suc.prems(3) pipe_empty [of ?x] in simp_all)
  next
    case False
    have tr: "translate True (addr + of_nat i) (pipe_set p (pipe_take ?x) s) = translate True (addr + of_nat i) s"
      by (rule translate_cong) simp_all
    show ?thesis
    proof (cases "translate True (addr + of_nat i) s")
      case None
      show ?thesis by (rule Suc.prems(1)) (use None tr False pipe_empty [of ?x] in \<open>simp add: thenk_def bindk_def Let_def\<close>)
    next
      case (Some a)
      let ?s = "pipe_set p (pipe_take ?x) (s\<lparr>mem := (mem s)(a := pipe_next ?x)\<rparr>)"
      have run: "piperead_loop (Suc k) p addr i s = piperead_loop k p addr (Suc i) ?s"
        using False Some tr by (simp add: pipe_empty [symmetric] thenk_def bindk_def Let_def pipe_set_def pipe_set_mem)
      have st: "pipe_set p x (?s\<lparr>mem := m\<rparr>) = pipe_set p x (s\<lparr>mem := m\<rparr>)" for x m by (simp add: pipe_set_def pipe_set_mem)
      show ?thesis
      proof (rule Suc.IH [where s = ?s and i = "Suc i", folded run, unfolded st])
        show "pipe_wf (pipes ?s p)" using pipe_take(2) [OF Suc.prems(3) False] by simp
        show thesis if "piperead_loop (Suc k) p addr i s = Panic msg" for msg by (rule Suc.prems(1) [OF that])
      qed (erule Suc.prems(2), (assumption | simp del: piperead_loop.simps)+)
    qed
  qed
qed

text \<open>How the functions change the pipe and the process table.\<close>

lemma pipe_ok_wake_read:
  assumes "pipe_ok p y pt" and "pipe_wf x" and "length (pipe_content y) \<le> length (pipe_content x)"
    and "pi_readopen x = pi_readopen y"
  shows "pipe_ok p x (map (wakes (Some (ChanPipeRead p))) pt)"
  using assms unfolding pipe_ok_def by (auto simp: wakes_def pipe_wf_def sleeper_ok_def)

lemma pipe_ok_wake_write:
  assumes "pipe_ok p y pt" and "pipe_wf x" and "pipe_content y \<noteq> [] \<or> \<not> pi_writeopen y"
  shows "pipe_ok p x (map (wakes (Some (ChanPipeWrite p))) pt)"
  using assms unfolding pipe_ok_def by (auto simp: wakes_def sleeper_ok_def)

lemma pipe_ok_upd:
  assumes "pipe_ok p x pt" and "sleeper_ok p x q"
  shows "pipe_ok p x (pt[i := q])"
  using assms set_update_subset_insert [of pt i q] unfolding pipe_ok_def by blast

lemma pipe_ok_no_reader:
  assumes "pipe_ok p y pt" and "pipe_wf x" and "\<not> pi_readopen y"
  shows "pipe_ok p x pt"
  using assms unfolding pipe_ok_def sleeper_ok_def by blast

lemma sched_not_Ret: "sched s \<noteq> Ret r t"
  by (simp add: sched_def bindk_def myproc_def split: option.split)

lemma sleep_not_Ret: "sleep ch lk s \<noteq> Ret r t"
  by (auto simp: sleep_def thenk_def bindk_def sched_not_Ret split: option.splits outcome.splits)

definition pipe_locked :: "uint \<Rightarrow> 'z file_state_scheme \<Rightarrow> bool" where
  "pipe_locked p u \<longleftrightarrow> held u = {LkPipe p} \<and> pipe_ok p (pipes u p) (ptable u)"

text \<open>The process goes to sleep, and the scheduler of its CPU takes over.\<close>

lemma pipe_sleep:
  assumes "sleep ch (LkPipe p) u = Block t" and "held u = {LkPipe p}" and "pipe_ok p (pipes u p) (ptable u)"
    and "\<And>q :: proc. sleeper_ok p (pipes u p) (q\<lparr>p_chan := Some ch, p_state := SLEEPING\<rparr>)"
    and "off_cpu t = Ret () s'"
  shows "pipe_inv p s'"
proof -
  obtain me where t: "t = upd_proc me (\<lambda>q. q\<lparr>p_chan := Some ch, p_state := SLEEPING\<rparr>) (u\<lparr>held := {LkPtable}\<rparr>)"
    using assms(1,2) by (auto elim: sleep_Block)
  have "ptable s' = ptable t" "pipes s' = pipes t" "held s' = {}"
    using assms(5) t by (auto simp: off_cpu_def scheduler_back_def switchkvm_def release_def upd_mycpu_def thenk_def bindk_def upd_proc_def)
  then show ?thesis
    using assms(3,4) t by (auto simp: pipe_inv_def upd_proc_def intro!: pipe_ok_upd)
qed

lemma pipewrite_rest_ok:
  fixes u :: "'z file_state_scheme"
  assumes "pipe_locked p u" and "curproc u = Some me"
  shows "pipewrite_rest p addr n k i u = Ret r t \<Longrightarrow> p_killed (ptable u ! me) \<longrightarrow> r \<noteq> -1 \<or> no_reader_asleep p (ptable u) \<Longrightarrow> pipe_inv p t"
      (is "?ret \<Longrightarrow> ?quiet \<Longrightarrow> _")
    and "pipewrite_rest p addr n k i u = Block t \<Longrightarrow> off_cpu t = Ret () s' \<Longrightarrow> pipe_inv p s'" (is "?block \<Longrightarrow> _ \<Longrightarrow> _")
proof -
  have u: "held u = {LkPipe p}" "pipe_ok p (pipes u p) (ptable u)" "pipe_wf (pipes u p)"
    using assms(1) by (auto simp: pipe_locked_def pipe_ok_def)
  have full: "pipe_inv p s'" if x: "pipe_wf x" "length (pipe_content (pipes u p)) \<le> length (pipe_content x)"
      "pi_readopen x = pi_readopen (pipes u p)" "pi_readopen x" "length (pipe_content x) = PIPESIZE"
    and run: "thenk (wakeup (ChanPipeRead p)) (sleep (ChanPipeWrite p) (LkPipe p)) (pipe_set p x u) = (Block t :: (bool, 'z file_state_scheme) outcome)" "off_cpu t = Ret () s'" for x
    by (rule pipe_sleep [OF _ _ _ _ run(2), where ch = "ChanPipeWrite p" and u = "(pipe_set p x u)\<lparr>ptable := map (wakes (Some (ChanPipeRead p))) (ptable u)\<rparr>"])
      (use run x u(1) in \<open>simp_all add: thenk_def bindk_def wakeup_run pipe_ok_wake_read [OF u(2)] sleeper_ok_def\<close>)
  show "pipe_inv p t" if ret: ?ret ?quiet
  proof (rule pipewrite_loop_cases [OF u(3) assms(2), of k addr i], goal_cases)
    case (2 x)
    note x = this
    from x(5) consider "pipewrite_loop k p addr i u = Ret True (pipe_set p x u)"
      | "pipewrite_loop k p addr i u = Ret False (pipe_set p x u)" "\<not> pi_readopen x"
      | "pipewrite_loop k p addr i u = Ret False (pipe_set p x u)" "p_killed (ptable u ! me)" "length (pipe_content x) = PIPESIZE"
      | "pipewrite_loop k p addr i u = thenk (wakeup (ChanPipeRead p)) (sleep (ChanPipeWrite p) (LkPipe p)) (pipe_set p x u)"
      by (auto split: if_splits)
    then show ?case
    proof cases
      case 1
      then have "t = (pipe_set p x u)\<lparr>ptable := map (wakes (Some (ChanPipeRead p))) (ptable u), held := {}\<rparr>"
        using ret(1) u(1) by (simp add: pipewrite_rest_def bindk_def thenk_def wakeup_run release_def)
      then show ?thesis using pipe_ok_wake_read [OF u(2) x(1-3)] by (simp add: pipe_inv_def)
    next
      case 2
      then have "t = (pipe_set p x u)\<lparr>held := {}\<rparr>"
        using ret(1) u(1) by (simp add: pipewrite_rest_def bindk_def thenk_def release_def)
      then show ?thesis using pipe_ok_no_reader [OF u(2) x(1)] x(3) 2(2) by (simp add: pipe_inv_def)
    next
      case 3
      then have t: "t = (pipe_set p x u)\<lparr>held := {}\<rparr>" "r = -1"
        using ret(1) u(1) by (simp_all add: pipewrite_rest_def bindk_def thenk_def release_def)
      then have "no_reader_asleep p (ptable u)" using ret(2) 3(2) by simp
      then show ?thesis
        using u(2) x(1,3) 3(3) unfolding t pipe_inv_def by (auto simp: pipe_ok_def sleeper_ok_def no_reader_asleep_def)
    next
      case 4
      then show ?thesis
        using ret(1) u(1)
        by (auto simp: pipewrite_rest_def bindk_def thenk_def wakeup_run sleep_not_Ret split: outcome.splits)
    qed
  qed (use ret in \<open>simp add: pipewrite_rest_def bindk_def\<close>)
  show "pipe_inv p s'" if block: ?block "off_cpu t = Ret () s'"
  proof (rule pipewrite_loop_cases [OF u(3) assms(2), of k addr i], goal_cases)
    case (2 x)
    note x = this
    from x(5) consider b where "pipewrite_loop k p addr i u = Ret b (pipe_set p x u)"
      | "pipewrite_loop k p addr i u = thenk (wakeup (ChanPipeRead p)) (sleep (ChanPipeWrite p) (LkPipe p)) (pipe_set p x u)"
        "pi_readopen x" "length (pipe_content x) = PIPESIZE"
      by (auto split: if_splits)
    then show ?case
    proof cases
      case 1
      then show ?thesis
        using block(1) u(1) by (cases b) (simp_all add: pipewrite_rest_def bindk_def thenk_def wakeup_run release_def)
    next
      case 2
      have "thenk (wakeup (ChanPipeRead p)) (sleep (ChanPipeWrite p) (LkPipe p)) (pipe_set p x u) = (Block t :: (bool, 'z file_state_scheme) outcome)"
        using block(1) u(1) unfolding pipewrite_rest_def bindk_def 2(1)
        by (simp add: thenk_def bindk_def wakeup_run sleep_not_Ret split: outcome.splits)
      then show ?thesis by (rule full [OF x(1-3) 2(2,3) _ block(2)])
    qed
  qed (use block in \<open>simp add: pipewrite_rest_def bindk_def\<close>)
qed

lemma piperead_rest_ok:
  fixes u :: "'z file_state_scheme"
  assumes "pipe_locked p u" and "curproc u = Some me"
  shows "piperead_rest p addr n u = Ret r t \<Longrightarrow> pipe_inv p t" (is "?ret \<Longrightarrow> _")
    and "piperead_rest p addr n u = Block t \<Longrightarrow> pi_readopen (pipes u p) \<Longrightarrow> off_cpu t = Ret () s' \<Longrightarrow> pipe_inv p s'" (is "?block \<Longrightarrow> _ \<Longrightarrow> _ \<Longrightarrow> _")
proof -
  let ?x = "pipes u p"
  have u: "held u = {LkPipe p}" "pipe_ok p ?x (ptable u)" "pipe_wf ?x"
    using assms(1) by (auto simp: pipe_locked_def pipe_ok_def)
  have me: "myproc u = Ret me u" using assms(2) by (simp add: myproc_def)
  show "pipe_inv p t" if ret: ?ret
  proof (cases "pipe_content ?x = [] \<and> pi_writeopen ?x")
    case True
    then have "t = u\<lparr>held := {}\<rparr>"
      using ret me u(1) by (auto simp: piperead_rest_def bindk_def thenk_def release_def Let_def pipe_empty sleep_not_Ret split: if_splits)
    then show ?thesis using u(2) by (simp add: pipe_inv_def)
  next
    case False
    show ?thesis
    proof (rule piperead_loop_cases [OF u(3), of "nat n" addr 0], goal_cases)
      case (2 j x m)
      then have "t = (pipe_set p x (u\<lparr>mem := m\<rparr>))\<lparr>ptable := map (wakes (Some (ChanPipeWrite p))) (ptable u), held := {}\<rparr>"
        using ret me u(1) False by (simp add: piperead_rest_def bindk_def thenk_def release_def Let_def pipe_empty wakeup_run)
      then show ?thesis using pipe_ok_wake_write [OF u(2) 2(1)] False by (simp add: pipe_inv_def)
    qed (use ret me False in \<open>simp add: piperead_rest_def bindk_def thenk_def Let_def pipe_empty\<close>)
  qed
  show "pipe_inv p s'" if block: ?block and rd: "pi_readopen ?x" and off: "off_cpu t = Ret () s'"
  proof (cases "pipe_content ?x = [] \<and> pi_writeopen ?x")
    case True
    then have "(sleep (ChanPipeRead p) (LkPipe p) :: (int, 'z file_state_scheme) kernel) u = Block t"
      using block me u(1) by (auto simp: piperead_rest_def bindk_def thenk_def release_def Let_def pipe_empty split: if_splits)
    then show ?thesis
      by (rule pipe_sleep [OF _ u(1,2) _ off]) (use True rd in \<open>simp add: sleeper_ok_def\<close>)
  next
    case False
    show ?thesis
      by (rule piperead_loop_cases [OF u(3), of "nat n" addr 0])
        (use block me u(1) False in \<open>simp_all add: piperead_rest_def bindk_def thenk_def release_def Let_def pipe_empty wakeup_run\<close>)
  qed
qed

text \<open>Entering a function of pipe.c, or going on in one after sleeping, with the lock taken.\<close>

lemma pipe_enter:
  assumes "pipe_inv p s"
  shows "thenk (acquire (LkPipe p)) m (on_cpu c s) = m ((on_cpu c s)\<lparr>held := {LkPipe p}\<rparr>)"
    and "pipe_locked p ((on_cpu c s)\<lparr>held := {LkPipe p}\<rparr>)"
  using assms by (simp_all add: pipe_inv_def pipe_locked_def acquire_def thenk_def bindk_def on_cpu_def)

lemma pipe_resume:
  assumes "pipe_inv p s" and "curproc (on_cpu c s) = Some me"
  defines "u \<equiv> (upd_proc me (\<lambda>q. q\<lparr>p_chan := None\<rparr>) (on_cpu c s))\<lparr>held := {LkPipe p}\<rparr>"
  shows "thenk (sleep_resume (LkPipe p)) m ((on_cpu c s)\<lparr>held := {LkPtable}\<rparr>) = m u"
    and "pipe_locked p u" and "curproc u = Some me" and "pipes u p = pipes s p"
    and "p_killed (ptable u ! me) = p_killed (ptable s ! me)"
    and "no_reader_asleep p (ptable s) \<Longrightarrow> no_reader_asleep p (ptable u)"
proof -
  show "no_reader_asleep p (ptable u)" if "no_reader_asleep p (ptable s)"
    using that by (auto simp: u_def on_cpu_def upd_proc_def no_reader_asleep_def dest!: set_update_subset_insert [THEN subsetD])
  show "thenk (sleep_resume (LkPipe p)) m ((on_cpu c s)\<lparr>held := {LkPtable}\<rparr>) = m u"
    using assms(2)
    by (simp add: u_def sleep_resume_def myproc_def thenk_def bindk_def release_def acquire_def upd_proc_def curproc_def)
  show "pipe_locked p u"
    using assms(1) by (auto simp: u_def pipe_inv_def pipe_locked_def upd_proc_def on_cpu_def sleeper_ok_def intro!: pipe_ok_upd)
  show "curproc u = Some me" "pipes u p = pipes s p"
    using assms(2) by (simp_all add: u_def on_cpu_def curproc_def upd_proc_def)
  show "p_killed (ptable u ! me) = p_killed (ptable s ! me)"
    by (cases "me < length (ptable s)") (simp_all add: u_def on_cpu_def upd_proc_def list_update_beyond)
qed

lemma pipeclose_ok:
  assumes "pipe_inv p s" and "pipeclose p w (on_cpu c s) = Ret () s'"
    and "\<not> w \<Longrightarrow> no_reader_asleep p (ptable s)"
  shows "pipe_inv p s'"
proof -
  let ?x = "if w then (pipes s p)\<lparr>pi_writeopen := False\<rparr> else (pipes s p)\<lparr>pi_readopen := False\<rparr>"
  let ?ch = "if w then ChanPipeRead p else ChanPipeWrite p"
  define t where "t = (pipe_set p ?x (on_cpu c s))\<lparr>ptable := map (wakes (Some ?ch)) (ptable s)\<rparr>"
  have c: "pipe_content ?x = pipe_content (pipes s p)" "pipe_wf ?x = pipe_wf (pipes s p)"
    by (auto simp: pipe_content_def pipe_wf_def)
  have "pipe_inv p t"
    using assms(1,3) c unfolding t_def pipe_inv_def pipe_ok_def
    by (auto simp: sleeper_ok_def wakes_def on_cpu_def no_reader_asleep_def)
  moreover have "kframe t s'"
  proof -
    have h: "held s = {}" using assms(1) by (simp add: pipe_inv_def)
    consider "s' = t" | "kfree p t = Ret () s'"
      using assms(2) h unfolding pipeclose_def t_def
      by (cases w) (auto simp: thenk_def bindk_def acquire_def release_def wakeup_run pipe_set_def on_cpu_def split: if_splits)
    then show ?thesis
    proof cases
      case 2
      have "within kframe t (kfree p t)" using kfree_pres unfolding pres_def by blast
      then show ?thesis unfolding 2 by simp
    qed (simp add: kf.frame_refl)
  qed
  then obtain m f where "s' = t\<lparr>mem := m, freelist := f\<rparr>" unfolding kframe_def by blast
  ultimately show ?thesis by (simp add: pipe_inv_def)
qed

lemma pipe_step_ok:
  assumes "pipe_step p s s'" and inv: "pipe_inv p s"
  shows "pipe_inv p s'"
  using assms(1)
proof cases
  case (writing c me addr n r)
  show ?thesis
    by (rule pipewrite_rest_ok(1) [OF pipe_enter(2) [OF inv] _ writing(3) [unfolded pipewrite_def pipe_enter(1) [OF inv]]])
      (use writing(1,2) in simp_all)
next
  case (write_sleep c me addr n t)
  show ?thesis
    by (rule pipewrite_rest_ok(2) [OF pipe_enter(2) [OF inv] _ write_sleep(2) [unfolded pipewrite_def pipe_enter(1) [OF inv]] write_sleep(3)])
      (use write_sleep(1) in simp)
next
  case (write_more c me addr n k i r)
  note res = pipe_resume [OF inv write_more(1)]
  show ?thesis
    by (rule pipewrite_rest_ok(1) [OF res(2,3) write_more(3) [unfolded res(1)]]) (use write_more(2) res(5,6) in auto)
next
  case (write_more_sleep c me addr n k i t)
  note res = pipe_resume [OF inv write_more_sleep(1)]
  show ?thesis
    by (rule pipewrite_rest_ok(2) [OF res(2,3) write_more_sleep(2) [unfolded res(1)] write_more_sleep(3)])
next
  case (reading c me addr n r)
  show ?thesis
    by (rule piperead_rest_ok(1) [OF pipe_enter(2) [OF inv] _ reading(2) [unfolded piperead_def pipe_enter(1) [OF inv]]])
      (use reading(1) in simp)
next
  case (read_sleep c me addr n t)
  show ?thesis
    by (rule piperead_rest_ok(2) [OF pipe_enter(2) [OF inv] _ read_sleep(3) [unfolded piperead_def pipe_enter(1) [OF inv]] _ read_sleep(4)])
      (use read_sleep(1,2) in \<open>simp_all add: on_cpu_def\<close>)
next
  case (read_more c me addr n r)
  note res = pipe_resume [OF inv read_more(1)]
  show ?thesis by (rule piperead_rest_ok(1) [OF res(2,3) read_more(2) [unfolded res(1)]])
next
  case (read_more_sleep c me addr n t)
  note res = pipe_resume [OF inv read_more_sleep(1)]
  show ?thesis
    by (rule piperead_rest_ok(2) [OF res(2,3) read_more_sleep(3) [unfolded res(1)] _ read_more_sleep(4)])
      (use read_more_sleep(2) res(4) in simp)
next
  case (close_read c)
  then show ?thesis using pipeclose_ok [OF inv] by blast
next
  case (close_write c)
  then show ?thesis using pipeclose_ok [OF inv] by blast
next
  case other
  have "sleeper_ok p (pipes s p) q" if "q \<in> set (ptable s')" for q
    using other(3) [OF that] inv unfolding pipe_inv_def pipe_ok_def sleeper_ok_def by fastforce
  then show ?thesis using other(1,2) inv unfolding pipe_inv_def pipe_ok_def by simp
qed

text \<open>C3. No wakeup of a pipe is lost in the interleavings of readers, writers and closing
  processes that keep two conditions: the read end is not closed while a process sleeps in
  \<open>piperead\<close>, which the reference counts of file.c ensure, and no killed writer gives up on a
  full pipe while a reader sleeps, which the code does not ensure (the next statement). Then a
  process asleep in \<open>piperead\<close> waits for a pipe that is empty and still has a writer, and a
  process asleep in \<open>pipewrite\<close> for one that is full and still has a reader.\<close>

theorem pipe_no_lost_wakeup:
  assumes "(pipe_step p)\<^sup>*\<^sup>* s t" and "held s = {}" and "pipe_wf (pipes s p)"
    and "\<And>r. r \<in> set (ptable s) \<Longrightarrow> p_state r = SLEEPING \<Longrightarrow> p_chan r \<notin> {Some (ChanPipeRead p), Some (ChanPipeWrite p)}"
    and "q \<in> set (ptable t)" and "p_state q = SLEEPING"
  shows "(p_chan q = Some (ChanPipeRead p) \<longrightarrow> pipe_content (pipes t p) = [] \<and> pi_writeopen (pipes t p)) \<and>
    (p_chan q = Some (ChanPipeWrite p) \<longrightarrow> length (pipe_content (pipes t p)) = PIPESIZE \<and> pi_readopen (pipes t p))"
proof -
  have "pipe_inv p s" using assms(2-4) by (auto simp: pipe_inv_def pipe_ok_def sleeper_ok_def)
  with assms(1) have "pipe_inv p t" by (induction rule: rtranclp_induct) (auto intro: pipe_step_ok)
  then show ?thesis using assms(5,6) unfolding pipe_inv_def pipe_ok_def sleeper_ok_def by blast
qed

text \<open>C15. A killed writer strands the readers: when a process that has been killed writes more
  than fits, \<open>pipewrite\<close> fills the pipe and returns -1 without waking anybody, so that a
  reader that was asleep stays asleep although the pipe is full. (It is woken only if
  the killed process held the last reference to the write end, by \<open>pipeclose\<close>.)\<close>

theorem killed_writer_strands_reader:
  assumes "pipe_wf (pipes s p)" and "curproc s = Some me" and "held s = {}" and "p_killed (ptable s ! me)"
    and "ubytes addr n s = Some bs" and "PIPESIZE < length (pipe_content (pipes s p)) + n"
  shows "\<exists>t. pipewrite p addr (int n) s = Ret (-1) t \<and> length (pipe_content (pipes t p)) = PIPESIZE \<and> ptable t = ptable s"
proof -
  let ?s = "s\<lparr>held := {LkPipe p}\<rparr>" and ?q = "pipe_content (pipes s p)"
  have "ubytes (addr + of_nat 0) n ?s = Some bs" using assms(5) ubytes_cong [of ?s s addr n] by simp
  then obtain x where x: "pipe_content x = ?q @ take (PIPESIZE - length ?q) bs"
      "pipewrite_loop n p addr 0 ?s = Ret False (pipe_set p x ?s)"
    using pipewrite_loop_run [of ?s p me addr 0 n bs] assms(1,2,4,6) by auto
  have "length (pipe_content x) = PIPESIZE"
    using x(1) length_ubytes [OF assms(5)] assms(1,6) by (simp add: pipe_wf_def)
  moreover have "pipewrite p addr (int n) s = Ret (-1) (pipe_set p x s)"
    using x(2) assms(3)
    by (simp add: pipewrite_def pipewrite_rest_def thenk_def bindk_def acquire_def release_def pipe_set_def)
  ultimately show ?thesis by (intro exI [of _ "pipe_set p x s"]) simp
qed

section \<open>A concrete machine\<close>

text \<open>One CPU running process 0, whose first page is mapped at physical page 0x402000; an
  empty pipe whose counters are about to wrap around.\<close>

definition demo_mem :: memory where
  "demo_mem a = (if a \<in> {0x80400000, 0x80401000} then 7 else if a = 0x80400001 then 0x10 else if a = 0x80401001 then 0x20
    else if a \<in> {0x80400002, 0x80401002} then 0x40 else if a = 0x80402000 then 72 else if a = 0x80402001 then 105 else 0)"

abbreviation (input) demo_pipe :: uint where "demo_pipe \<equiv> 0x80500000"

definition demo_state :: "bool \<Rightarrow> file_state" where
  "demo_state kl = \<lparr>held = {}, mem = demo_mem, freelist = 0, use_lock = True, kend = 0x80110000,
    ptable = proc0\<lparr>p_state := RUNNING, p_pid := 1, p_killed := kl\<rparr> # proc0\<lparr>p_state := SLEEPING, p_pid := 2,
      p_chan := Some (if kl then ChanPipeRead demo_pipe else ChanTicks)\<rparr> # replicate 62 proc0,
    nextpid = 3, initproc = Some 0, cpus = [\<lparr>c_proc = Some 0, c_esp0 = 0, c_cr3 = 0x400000\<rparr>], mycpu = 0,
    kpgdir = 0, trapret = 0, forkret_addr = 0, kdata = 0,
    bufs = [], mru = [], disk = \<lambda>_. [], disksize = 0, writes = [],
    l_start = 0, l_size = 0, l_busy = False, l_dev = 1, lh_n = 0, lh_sector = [], icache = [],
    dev_in = \<lambda>_ _. 0, dev_mmio = \<lambda>_ _. 0, trace = [], irqmask = 0, ismp = False, ioapicid = 0, lapic = 0, uart = False,
    kbd_shift = 0, panicked = False, cons_locking = True, in_buf = replicate 128 0, in_r = 0, in_w = 0, in_e = 0,
    devsw = \<lambda>_. None, ftable = [],
    pipes = \<lambda>_. \<lparr>pi_data = replicate 512 0, pi_nread = 0xFFFFFFFF, pi_nwrite = 0xFFFFFFFF, pi_readopen = True, pi_writeopen = True\<rparr>\<rparr>"

lemma demo_sel [simp]: "held (demo_state kl) = {}" "mem (demo_state kl) = demo_mem" "mycpu (demo_state kl) = 0"
    "cpus (demo_state kl) = [\<lparr>c_proc = Some 0, c_esp0 = 0, c_cr3 = 0x400000\<rparr>]" "curproc (demo_state kl) = Some 0"
    "p_killed (ptable (demo_state kl) ! 0) = kl" "pi_writeopen (pipes (demo_state kl) p)" "pi_readopen (pipes (demo_state kl) p)"
  by (simp_all add: demo_state_def curproc_def)

lemma demo_pipe_empty [simp]: "pipe_content (pipes (demo_state kl) p) = []" "pipe_wf (pipes (demo_state kl) p)"
proof -
  show "pipe_content (pipes (demo_state kl) p) = []"
    unfolding pipe_empty [symmetric] by (simp add: demo_state_def)
  then show "pipe_wf (pipes (demo_state kl) p)" unfolding pipe_wf_def by (simp add: demo_state_def)
qed

lemma demo_page:
  assumes "i < 4096"
  shows "PDX (of_nat i) = 0" and "PTX (of_nat i) = 0" and "of_nat i AND 0xFFF = (of_nat i :: uint)"
proof -
  have u: "unat (of_nat i :: uint) = i" using assms by (simp add: unat_of_nat)
  have "unat (drop_bit 12 (of_nat i :: uint)) = 0" "unat (drop_bit 22 (of_nat i :: uint)) = 0"
    using assms by (simp_all add: unat_drop_bit_eq u del: drop_bit_of_nat) (simp_all add: drop_bit_eq_div)
  then have d: "drop_bit 12 (of_nat i :: uint) = 0" "drop_bit 22 (of_nat i :: uint) = 0" by (simp_all add: unat_eq_0)
  show "PDX (of_nat i) = 0" "PTX (of_nat i) = 0" by (simp_all add: PDX_def PTX_def d)
  have "(of_nat i :: uint) AND 0xFFF = take_bit 12 (of_nat i)" by (simp add: take_bit_eq_mask mask_numeral)
  also have "\<dots> = of_nat (take_bit 12 i)" by (rule take_bit_of_nat)
  also have "\<dots> = of_nat i" using assms by (simp add: take_bit_nat_eq_self)
  finally show "of_nat i AND 0xFFF = (of_nat i :: uint)" .
qed

lemma demo_entries: "load32 0x80400000 demo_mem = 0x401007" "load32 0x80401000 demo_mem = 0x402007"
  by (simp_all add: load32_def dec32_def demo_mem_def)

lemma demo_translate: "i < 4096 \<Longrightarrow> translate w (of_nat i) (demo_state kl) = Some (0x80402000 + of_nat i)"
  by (simp add: translate_def demo_page demo_entries entry_def p2v_def PTE_ADDR_def)

lemma demo_uaddrs: "i + n \<le> 4096 \<Longrightarrow>
    uaddrs w (of_nat i) n (demo_state kl) = Some (map (\<lambda>j. 0x80402000 + of_nat j) [i..<i + n])"
proof (induction n arbitrary: i)
  case (Suc n)
  have "uaddrs w (of_nat (Suc i)) n (demo_state kl) = Some (map (\<lambda>j. 0x80402000 + of_nat j) [Suc i..<Suc i + n])"
    by (rule Suc.IH) (use Suc.prems in simp)
  then show ?case using demo_translate [of i w kl] Suc.prems by (simp add: upt_conv_Cons ac_simps del: upt_Suc)
qed simp

theorem pipe_fifo_witness:
  "\<exists>t u. pipewrite demo_pipe 0 2 (demo_state False) = Ret 2 t \<and> piperead demo_pipe 0x100 5 t = Ret 2 u \<and>
    ubytes 0x100 2 u = Some [72, 105]"
proof -
  have "uaddrs False 0 2 (demo_state False) = Some [0x80402000, 0x80402001]"
    using demo_uaddrs [of 0 2 False False] by (simp add: upt_rec)
  then have src: "ubytes 0 2 (demo_state False) = Some [72, 105]" by (simp add: ubytes_uaddrs demo_mem_def)
  have "uaddrs True 0x100 2 (demo_state False) = Some [0x80402100, 0x80402101]"
    using demo_uaddrs [of 256 2 True False] by (simp add: upt_rec)
  moreover have "pt_addrs (0x100 + of_nat i) (demo_state False) \<inter> set [0x80402100, 0x80402101] = {}" if "i < 2" for i
    using demo_page [of "256 + i"] that by (simp add: pt_addrs_def demo_entries entry_def p2v_def PTE_ADDR_def)
  ultimately have dst: "user_buffer 0x100 (min 5 2) (demo_state False) [0x80402100, 0x80402101]"
    by (simp add: user_buffer_def)
  obtain t where t: "pipewrite demo_pipe 0 (int 2) (demo_state False) = Ret (int 2) t"
      "\<forall>dst m as. user_buffer dst (min m 2) (demo_state False) as \<longrightarrow>
        (\<exists>u. piperead demo_pipe dst (int m) t = Ret (int (min m 2)) u \<and> ubytes dst (min m 2) u = Some (take m [72, 105]) \<and>
          pipe_content (pipes u demo_pipe) = drop m [72, 105] \<and> pipe_wf (pipes u demo_pipe))"
    using pipe_fifo [of "demo_state False" demo_pipe 0 0 2 "[72, 105]", OF _ _ _ src] by (auto simp: numeral_2_eq_2)
  from t(2) dst obtain u where "piperead demo_pipe 0x100 (int 5) t = Ret (int (min 5 2)) u" "ubytes 0x100 (min 5 2) u = Some (take 5 [72, 105])"
    by blast
  then show ?thesis using t(1) by auto
qed

theorem pipe_no_lost_wakeup_witness:
  "\<exists>t. pipe_step demo_pipe (demo_state False) t \<and> p_state (ptable t ! 0) = SLEEPING \<and>
    p_chan (ptable t ! 0) = Some (ChanPipeRead demo_pipe) \<and> pipe_content (pipes t demo_pipe) = []"
proof -
  let ?t = "upd_proc 0 (\<lambda>q. q\<lparr>p_chan := Some (ChanPipeRead demo_pipe), p_state := SLEEPING\<rparr>) ((demo_state False)\<lparr>held := {LkPtable}\<rparr>)"
  have "piperead demo_pipe 0 1 (on_cpu 0 (demo_state False)) = Block ?t"
    by (simp add: piperead_def piperead_rest_def thenk_def bindk_def acquire_def release_def myproc_def sleep_def sched_def
        holding_def demo_state_def on_cpu_def curproc_def upd_proc_def insert_Diff_if)
  moreover obtain t where t: "off_cpu ?t = Ret () t" "ptable t = ptable ?t"
    by (simp add: off_cpu_def scheduler_back_def switchkvm_def release_def thenk_def bindk_def upd_mycpu_def)
  ultimately have st: "pipe_step demo_pipe (demo_state False) t"
    by (intro pipe_step.read_sleep [where c = 0 and me = 0]) simp_all
  have awake: "p_chan r \<notin> {Some (ChanPipeRead demo_pipe), Some (ChanPipeWrite demo_pipe)}" if "r \<in> set (ptable (demo_state False))" "p_state r = SLEEPING" for r
    using that by (auto simp: demo_state_def proc0_def)
  have q: "ptable t ! 0 \<in> set (ptable t)" "p_state (ptable t ! 0) = SLEEPING" "p_chan (ptable t ! 0) = Some (ChanPipeRead demo_pipe)"
    using t(2) by (simp_all add: demo_state_def upd_proc_def)
  have "pipe_content (pipes t demo_pipe) = []"
    using pipe_no_lost_wakeup [OF r_into_rtranclp [of "pipe_step demo_pipe", OF st] demo_sel(1) demo_pipe_empty(2) awake q(1,2)] q(3)
    by simp
  then show ?thesis using st q by blast
qed

theorem killed_writer_strands_reader_witness:
  "\<exists>t. pipewrite demo_pipe 0 513 (demo_state True) = Ret (-1) t \<and> p_state (ptable t ! 1) = SLEEPING \<and>
    p_chan (ptable t ! 1) = Some (ChanPipeRead demo_pipe) \<and> length (pipe_content (pipes t demo_pipe)) = 512"
proof -
  obtain bs where "ubytes 0 513 (demo_state True) = Some bs"
    using demo_uaddrs [of 0 513 False True] by (simp add: ubytes_uaddrs)
  then obtain t where "pipewrite demo_pipe 0 513 (demo_state True) = Ret (-1) t" "length (pipe_content (pipes t demo_pipe)) = 512"
      "ptable t = ptable (demo_state True)"
    using killed_writer_strands_reader [of "demo_state True" demo_pipe 0 0 513 bs] by auto
  moreover have "p_state (ptable (demo_state True) ! 1) = SLEEPING" "p_chan (ptable (demo_state True) ! 1) = Some (ChanPipeRead demo_pipe)"
    by (simp_all add: demo_state_def)
  ultimately show ?thesis by metis
qed

end
