(* ===== verification/Xv6_Alloc.thy ===== *)
theory Xv6_Alloc
  imports Xv6_Inode
begin

text \<open>
  The block bitmap: what \<open>balloc\<close>, \<open>bfree\<close> and \<open>bzero\<close> do inside a transaction, from the laws of
  the block store. A transaction has room for a few blocks only, in the cache and in the log;
  a budget says how many more blocks an operation may touch.
\<close>

section \<open>One step of a transaction\<close>

text \<open>From \<open>s\<close> to \<open>t\<close> the blocks \<open>N\<close> were changed and logged; nothing else has changed.\<close>

definition tx_after :: "uint set \<Rightarrow> 'z log_state_scheme \<Rightarrow> 'z log_state_scheme \<Rightarrow> bool" where
  "tx_after N s t \<longleftrightarrow> tx_ok t \<and> lframe s t \<and> busy t = busy s \<and> logset t = logset s \<union> N \<and>
    (\<forall>j m. holds s j m \<longrightarrow> holds t j m) \<and> (\<forall>m. fs_readable s m \<longrightarrow> m \<notin> N \<longrightarrow> blk t m = blk s m)"

lemma tx_afterD:
  assumes "tx_after N s t"
  shows "tx_ok t" and "lframe s t" and "busy t = busy s" and "logset t = logset s \<union> N"
    and "\<And>j m. holds s j m \<Longrightarrow> holds t j m" and "\<And>m. fs_readable s m \<Longrightarrow> m \<notin> N \<Longrightarrow> blk t m = blk s m"
    and "\<And>m. fs_readable t m = fs_readable s m" and "\<And>m. fs_block t m = fs_block s m" and "l_busy t = l_busy s"
    and "l_start t = l_start s" and "l_size t = l_size s"
  using assms tx.keeps_readable [of s t] tx.keeps_usable [of s t] tx.keeps_writable [of s t] lframe_sel [of s t]
  unfolding tx_after_def by blast+

lemma tx_after_refl: "tx_ok s \<Longrightarrow> tx_after {} s s"
  by (simp add: tx_after_def lf.frame_refl)

lemma tx_after_trans:
  assumes "tx_after N s t" and "tx_after M t u"
  shows "tx_after (N \<union> M) s u"
  using tx_afterD [OF assms(1)] tx_afterD [OF assms(2)] lf.frame_trans [of s t u]
  unfolding tx_after_def by (simp add: Un_assoc)

lemma tx_after_eq: "tx_after N s t \<Longrightarrow> N = M \<Longrightarrow> tx_after M s t"
  by simp

section \<open>The budget of a transaction\<close>

text \<open>Room for the blocks \<open>B\<close> and for \<open>k\<close> more.\<close>

definition tx_budget :: "uint set \<Rightarrow> nat \<Rightarrow> 'z log_state_scheme \<Rightarrow> bool" where
  "tx_budget B k s \<longleftrightarrow> finite B \<and> card (busy s \<union> logset s \<union> B) + k < NBUF \<and> int (card (logset s \<union> B) + k) < l_size s - 1"

lemma finite_logset: "finite (logset s)"
  by (simp add: logset_def)

lemma finite_busy: "finite (busy s)"
  by (simp add: busy_def)

lemma budget_room:
  assumes "tx_budget B k s" and "n \<in> B \<or> n \<in> logset s \<or> 0 < k"
  shows "tx_room s {n}"
proof -
  have fin: "finite B" using assms(1) by (simp add: tx_budget_def)
  define j where "j = (if n \<in> B \<or> n \<in> logset s then 0 else 1 :: nat)"
  have j: "j \<le> k" using assms(2) by (auto simp: j_def)
  have "card (busy s \<union> logset s \<union> {n}) \<le> card (insert n (busy s \<union> logset s \<union> B))"
    by (rule card_mono) (use fin finite_logset finite_busy in auto)
  also have "\<dots> \<le> card (busy s \<union> logset s \<union> B) + j"
    using fin finite_logset [of s] finite_busy [of s] by (auto simp: j_def card_insert_if insert_absorb)
  finally have 1: "card (busy s \<union> logset s \<union> {n}) < NBUF" using assms(1) j by (simp add: tx_budget_def)
  have "card (logset s \<union> {n}) \<le> card (insert n (logset s \<union> B))"
    by (rule card_mono) (use fin finite_logset in auto)
  also have "\<dots> \<le> card (logset s \<union> B) + j"
    using fin finite_logset [of s] by (auto simp: j_def card_insert_if insert_absorb)
  finally have "int (card (logset s \<union> {n})) < l_size s - 1" using assms(1) j by (simp add: tx_budget_def)
  then show ?thesis using 1 by (simp add: tx_room_def logset_def)
qed

text \<open>Blocks of \<open>B\<close> and blocks that are in the log already cost nothing.\<close>

lemma budget_after:
  assumes "tx_after N s t" and "tx_budget B k s" and "finite N" and "card (N - B - logset s) \<le> j" and "j \<le> k"
  shows "tx_budget B (k - j) t"
proof -
  note A = tx_afterD [OF assms(1)]
  have fin: "finite B" using assms(2) by (simp add: tx_budget_def)
  have le: "card (X \<union> logset t \<union> B) \<le> card (X \<union> logset s \<union> B) + j" if "finite X" for X
  proof -
    have "X \<union> logset t \<union> B = (X \<union> logset s \<union> B) \<union> (N - B - logset s)" using A(4) by auto
    then have "card (X \<union> logset t \<union> B) \<le> card (X \<union> logset s \<union> B) + card (N - B - logset s)" by (simp add: card_Un_le)
    then show ?thesis using assms(4) by linarith
  qed
  have "card (busy t \<union> logset t \<union> B) \<le> card (busy s \<union> logset s \<union> B) + j" unfolding A(3) by (rule le) (rule finite_busy)
  moreover have "card (logset t \<union> B) \<le> card (logset s \<union> B) + j" using le [of "{}"] by simp
  ultimately show ?thesis using assms(2,5) fin unfolding tx_budget_def A(11) by linarith
qed

lemma budget_mono: "tx_budget B k s \<Longrightarrow> j \<le> k \<Longrightarrow> tx_budget B j s"
  by (simp add: tx_budget_def)

section \<open>The two uses of a block\<close>

lemma log_update_then: "thenk (set_data i f) (thenk (log_write i) m) = thenk (log_update i f) m"
  by (rule ext) (simp add: log_update_def thenk_def bindk_def split: outcome.split)

lemma inspect_after:
  assumes "tx_ok s" and "fs_readable s n" and "n \<notin> busy s" and "tx_room s {n}"
  shows "wp (bindk (bread ROOTDEV n) (\<lambda>bp. bindk (getk (buf_data bp)) (\<lambda>d. thenk (brelse bp) (ret (g d)))))
    (\<lambda>r t. r = g (blk s n) \<and> tx_after {} s t \<and> blk t = blk s) s"
  by (rule wp_mono [OF tx.inspect [where g = g, OF assms]]) (simp add: tx_after_def)

lemma modify_after:
  assumes "tx_ok s" and "fs_block s n" and "n \<notin> busy s" and "tx_room s {n}" and "l_busy s" and "length (f (blk s n)) = BSIZE"
  shows "wp (bindk (bread ROOTDEV n) (\<lambda>bp. thenk (log_update bp f) (brelse bp)))
    (\<lambda>_ t. tx_after {n} s t \<and> blk t n = f (blk s n)) s"
  by (rule wp_mono [OF tx.modify [where f = f, OF assms]])
    (use tx.usable_readable [OF assms(2)] in \<open>simp add: tx_after_def\<close>)

text \<open>Code that reads a block and then only releases it, or changes it and releases it, before it
  goes on with \<open>m\<close>.\<close>

lemma thenk_assoc: "thenk (thenk a b) c = thenk a (thenk b c)"
  by (rule ext) (simp add: thenk_def bindk_def split: outcome.split)

lemma thenk_unit: "thenk m (ret ()) = m"
  by (rule ext) (simp add: thenk_def bindk_def split: outcome.split)

lemma inspect_then:
  assumes "tx_ok s" and "fs_readable s n" and "n \<notin> busy s" and "tx_room s {n}"
    and F: "\<And>i s1. buf_data i s1 = blk s n \<Longrightarrow> lframe s s1 \<Longrightarrow> F i s1 = thenk (brelse i) m s1"
  shows "\<exists>t. bindk (bread ROOTDEV n) F s = m t \<and> tx_after {} s t \<and> blk t = blk s"
proof -
  obtain i s1 where s1: "bread ROOTDEV n s = Ret i s1" "buf_data i s1 = blk s n" "lframe s s1"
    using tx.rd [OF assms(1-4)] by (elim wpE) blast
  obtain t where t: "bindk (bread ROOTDEV n) (\<lambda>bp. bindk (getk (buf_data bp)) (\<lambda>d. thenk (brelse bp) (ret ()))) s = Ret () t"
      "tx_after {} s t" "blk t = blk s"
    using inspect_after [where g = "\<lambda>_. ()", OF assms(1-4)] by (elim wp_unitE) blast
  have "thenk (brelse i) (ret ()) s1 = Ret () t" using t(1) s1(1) by simp
  then have "thenk (brelse i) m s1 = m t" by (auto simp: thenk_Ret_iff)
  then show ?thesis using t(2,3) s1(1) F [OF s1(2,3)] by (intro exI [of _ t]) simp
qed

lemma modify_then:
  assumes "tx_ok s" and "fs_block s n" and "n \<notin> busy s" and "tx_room s {n}" and "l_busy s" and "length (f (blk s n)) = BSIZE"
    and F: "\<And>i s1. buf_data i s1 = blk s n \<Longrightarrow> lframe s s1 \<Longrightarrow>
      F i s1 = thenk (log_update i f) (thenk (brelse i) m) s1"
  shows "\<exists>t. bindk (bread ROOTDEV n) F s = m t \<and> tx_after {n} s t \<and> blk t n = f (blk s n)"
proof -
  obtain i s1 where s1: "bread ROOTDEV n s = Ret i s1" "buf_data i s1 = blk s n" "lframe s s1"
    using tx.rd [OF assms(1) tx.usable_readable [OF assms(2)] assms(3,4)] by (elim wpE) blast
  obtain t where t: "bindk (bread ROOTDEV n) (\<lambda>bp. thenk (log_update bp f) (brelse bp)) s = Ret () t"
      "tx_after {n} s t" "blk t n = f (blk s n)"
    using modify_after [where f = f, OF assms(1-6)] by (elim wp_unitE) blast
  have "thenk (log_update i f) (brelse i) s1 = Ret () t" using t(1) s1(1) by simp
  then have "thenk (thenk (log_update i f) (brelse i)) m s1 = m t" by simp
  then show ?thesis using t(2,3) s1(1) F [OF s1(2,3)] by (intro exI [of _ t]) (simp add: thenk_assoc)
qed

text \<open>A block is read and stays in the hands of the caller.\<close>

lemma read_after:
  assumes "tx_ok s" and "fs_readable s n" and "n \<notin> busy s" and "tx_room s {n}"
  obtains i t where "bread ROOTDEV n s = Ret i t" and "tx_ok t" and "lframe s t" and "holds t i n" and "buf_data i t = blk s n"
    and "blk t = blk s" and "busy t = insert n (busy s)" and "logset t = logset s" and "\<forall>j m. holds s j m \<longrightarrow> holds t j m \<and> j \<noteq> i"
  using tx.rd [OF assms] by (elim wpE) blast

lemma release_after:
  assumes "tx_ok s" and "fs_readable s n" and "holds s i n"
  obtains t where "brelse i s = Ret () t" and "tx_ok t" and "lframe s t" and "blk t = blk s" and "busy t = busy s - {n}"
    and "logset t = logset s" and "\<forall>j m. holds s j m \<longrightarrow> j \<noteq> i \<longrightarrow> holds t j m"
  using tx.rel [OF assms] by (elim wp_unitE) blast

section \<open>The bitmap\<close>

definition fs_sb :: "'z log_state_scheme \<Rightarrow> superblock" where
  "fs_sb s = dec_sb (take 16 (blk s 1))"

text \<open>The bitmap block with the bit of block \<open>b\<close>, and the bit.\<close>

definition bm_block :: "'z log_state_scheme \<Rightarrow> uint \<Rightarrow> uint" where
  "bm_block s b = BBLOCK b (sb_ninodes (fs_sb s))"

definition used :: "'z log_state_scheme \<Rightarrow> uint \<Rightarrow> bool" where
  "used s b \<longleftrightarrow> bm_test (unat b mod BPB) (blk s (bm_block s b))"

text \<open>The first block after the bitmap. The blocks for data lie between it and the log.\<close>

definition first_data :: "'z log_state_scheme \<Rightarrow> nat" where
  "first_data s = (unat (sb_size (fs_sb s)) - 1) div BPB + unat (sb_ninodes (fs_sb s)) div 8 + 4"

definition data_block :: "'z log_state_scheme \<Rightarrow> uint \<Rightarrow> bool" where
  "data_block s b \<longleftrightarrow> first_data s \<le> unat b \<and> unat b < unat (l_start s)"

text \<open>A file system: a transaction may be going on, the blocks of inodes and bitmap come before
  the log and are marked as used.\<close>

definition fs_ok :: "'z log_state_scheme \<Rightarrow> bool" where
  "fs_ok s \<longleftrightarrow> tx_ok s \<and> first_data s \<le> unat (l_start s) \<and> (\<forall>b. unat b < first_data s \<longrightarrow> used s b)"

lemma bm_test_iff: "bm_test bi d \<longleftrightarrow> bit (d ! (bi div 8)) (bi mod 8)"
  by (simp add: bm_test_def bm_mask_def bit_iff_and_push_bit_not_eq_0)

lemma bm_test_set:
  assumes "i < 8 * length d" and "j < 8 * length d"
  shows "bm_test j (bm_set i d) \<longleftrightarrow> j = i \<or> bm_test j d"
proof -
  have "j = i \<longleftrightarrow> j div 8 = i div 8 \<and> j mod 8 = i mod 8" by (metis div_mult_mod_eq)
  moreover have "i div 8 < length d" "j div 8 < length d" using assms by auto
  ultimately show ?thesis
    by (auto simp: bm_test_iff bm_set_def bm_mask_def nth_list_update bit_simps)
qed

lemma bm_test_clear:
  assumes "i < 8 * length d" and "j < 8 * length d"
  shows "bm_test j (bm_clear i d) \<longleftrightarrow> j \<noteq> i \<and> bm_test j d"
proof -
  have "j = i \<longleftrightarrow> j div 8 = i div 8 \<and> j mod 8 = i mod 8" by (metis div_mult_mod_eq)
  moreover have "i div 8 < length d" "j div 8 < length d" using assms by auto
  ultimately show ?thesis
    by (auto simp: bm_test_iff bm_clear_def bm_mask_def nth_list_update bit_simps)
qed

lemma length_bm [simp]: "length (bm_set i d) = length d" "length (bm_clear i d) = length d"
  by (simp_all add: bm_set_def bm_clear_def)

lemma nat_sint:
  assumes "0 \<le> sint (x :: uint)"
  shows "nat (sint x) = unat x"
proof -
  have b: "uint x < 4294967296" "0 \<le> uint x" using unsigned_less [where 'a = int, of x] by simp_all
  then have "sint x = uint x - 4294967296 * of_bool (bit (uint x) 31)"
    using signed_take_bit_eq_take_bit_minus [of 31 "uint x"] by (simp add: sint_uint take_bit_int_eq_self)
  then have "sint x = uint x" using assms b by (cases "bit (uint x) 31") simp_all
  then show ?thesis by simp
qed

text \<open>The layout, in natural numbers.\<close>

lemma tx_layout:
  assumes "tx_ok s"
  shows "unat (sb_size (fs_sb s)) = unat (l_start s) + nat (l_size s)" and "unat (sb_size (fs_sb s)) \<le> unat (disksize s)"
    and "fs_readable s 1" and "\<And>n. length (blk s n) = BSIZE"
proof -
  note O = tx_okD [OF assms]
  note I = log_invD [OF O(1)]
  have m: "sb_log (disk s) = (l_start s, l_size s)" "1 < disksize s" "1 \<notin> log_region s" "1 \<notin> set (logged s)"
    using O(4) by (simp_all add: log_mounted_def)
  show "fs_readable s 1" using m by (simp add: fs_readable_def)
  show "length (blk s n) = BSIZE" for n using length_blk [OF O(2)] by simp
  have "blk s 1 = disk s 1" using O(6) [OF m(4)] .
  then have sb: "sb_size (fs_sb s) - sb_nlog (fs_sb s) = l_start s" "sint (sb_nlog (fs_sb s)) = l_size s"
    using m(1) by (simp_all add: sb_log_def fs_sb_def Let_def)
  have "unat (sb_nlog (fs_sb s)) = nat (l_size s)" using nat_sint [of "sb_nlog (fs_sb s)"] sb(2) I(3) by simp
  then have "unat (l_start s + sb_nlog (fs_sb s)) = unat (l_start s) + nat (l_size s)"
    using I(5) unat_lt_2_32 [of "disksize s"] by (subst unat_add_no_wrap) simp_all
  then show "unat (sb_size (fs_sb s)) = unat (l_start s) + nat (l_size s)" using sb(1) by (metis diff_add_cancel)
  then show "unat (sb_size (fs_sb s)) \<le> unat (disksize s)" using I(5) by simp
qed

lemma first_data_pos: "3 < first_data s"
  by (simp add: first_data_def)

lemma data_blockD:
  assumes "tx_ok s" and "data_block s b"
  shows "fs_block s b" and "fs_readable s b" and "b \<noteq> 0" and "unat b < unat (sb_size (fs_sb s))"
proof -
  note L = tx_layout [OF assms(1)]
  have b: "first_data s \<le> unat b" "unat b < unat (l_start s)" using assms(2) by (simp_all add: data_block_def)
  show "unat b < unat (sb_size (fs_sb s))" using b L(1) by linarith
  then have "b < disksize s" using L(2) by (simp add: word_less_nat_alt)
  moreover have "b \<notin> log_region s" using b(2) by (simp add: log_region_def)
  moreover show "b \<noteq> 0" using b(1) first_data_pos [of s] by auto
  moreover have "b \<noteq> 1" using b(1) first_data_pos [of s] by auto
  ultimately show "fs_block s b" "fs_readable s b" by (simp_all add: fs_block_def fs_readable_def)
qed

lemma meta_block:
  assumes "tx_ok s" and "first_data s \<le> unat (l_start s)" and "2 \<le> unat n" and "unat n < first_data s"
  shows "fs_block s n"
proof -
  have n: "unat n < unat (l_start s)" using assms(2,4) by linarith
  then have "n < disksize s" using tx_layout(1,2) [OF assms(1)] by (simp add: word_less_nat_alt)
  moreover have "n \<notin> log_region s" using n by (simp add: log_region_def)
  moreover have "n \<noteq> 1" using assms(3) by auto
  ultimately show ?thesis by (simp add: fs_block_def)
qed

text \<open>Bitmap blocks come right before the data.\<close>

lemma bm_block_unat:
  assumes "tx_ok s" and "first_data s \<le> unat (l_start s)" and "unat b < unat (sb_size (fs_sb s))"
  shows "unat (bm_block s b) = unat b div BPB + unat (sb_ninodes (fs_sb s)) div 8 + 3" and "unat (bm_block s b) < first_data s"
    and "fs_block s (bm_block s b)"
proof -
  let ?n = "sb_ninodes (fs_sb s)"
  have le: "unat b div BPB \<le> (unat (sb_size (fs_sb s)) - 1) div BPB" using assms(3) by (intro div_le_mono) simp
  have "first_data s < 4294967296" using assms(2) unat_lt_2_32 [of "l_start s"] by linarith
  then have "unat b div BPB + unat ?n div 8 + 3 < 4294967296" using le by (simp add: first_data_def)
  then show u: "unat (bm_block s b) = unat b div BPB + unat ?n div 8 + 3"
    unfolding bm_block_def BBLOCK_def
    by (subst unat_add_no_wrap; (subst unat_add_no_wrap)?; simp add: unat_div)
  then show l: "unat (bm_block s b) < first_data s" using le by (simp add: first_data_def)
  show "fs_block s (bm_block s b)" by (rule meta_block [OF assms(1,2) _ l]) (simp add: u)
qed

lemma bm_block_inj: "bm_block s b = bm_block s c \<longleftrightarrow> unat b div BPB = unat c div BPB"
  using word_eq_iff_unat [of "b div 4096" "c div 4096"] by (simp add: bm_block_def BBLOCK_def unat_div)

text \<open>What does not touch the super block does not move the bitmap.\<close>

lemma after_layout:
  assumes "tx_after N s t" and "1 \<notin> N" and "tx_ok s"
  shows "fs_sb t = fs_sb s" and "bm_block t b = bm_block s b" and "first_data t = first_data s" and "data_block t b = data_block s b"
proof -
  have "blk t 1 = blk s 1" using tx_afterD(6) [OF assms(1) tx_layout(3) [OF assms(3)] assms(2)] .
  then show "fs_sb t = fs_sb s" by (simp add: fs_sb_def)
  then show "bm_block t b = bm_block s b" "first_data t = first_data s" "data_block t b = data_block s b"
    using tx_afterD(10) [OF assms(1)] by (simp_all add: bm_block_def first_data_def data_block_def)
qed

lemma after_used:
  assumes "tx_after N s t" and "1 \<notin> N" and "tx_ok s" and "first_data s \<le> unat (l_start s)"
    and "unat b < unat (sb_size (fs_sb s))" and "bm_block s b \<notin> N"
  shows "used t b = used s b"
  using tx_afterD(6) [OF assms(1) tx.usable_readable [OF bm_block_unat(3) [OF assms(3-5)]] assms(6)] after_layout(2) [OF assms(1-3)]
  by (simp add: used_def)

section \<open>Allocation\<close>

lemma readsb_then:
  assumes "tx_ok s" and "1 \<notin> busy s" and "tx_room s {1}"
  obtains t where "bindk (readsb ROOTDEV) m s = m (fs_sb s) t" and "tx_after {} s t" and "blk t = blk s"
proof -
  have "wp (readsb ROOTDEV) (\<lambda>r t. r = fs_sb s \<and> tx_after {} s t \<and> blk t = blk s) s"
    unfolding readsb_def fs_sb_def
    using inspect_after [where g = "\<lambda>d. dec_sb (take 16 d)", OF assms(1) tx_layout(3) [OF assms(1)] assms(2,3)] .
  then show ?thesis using that by (elim wpE) simp
qed

text \<open>Block \<open>b\<close> is the first free block, and the transaction can mark it.\<close>

definition alloc_pre :: "uint set \<Rightarrow> nat \<Rightarrow> 'z log_state_scheme \<Rightarrow> uint \<Rightarrow> bool" where
  "alloc_pre B k s b \<longleftrightarrow> fs_ok s \<and> l_busy s \<and> unat b < unat (sb_size (fs_sb s)) \<and> \<not> used s b \<and>
    (\<forall>c. unat c < unat b \<longrightarrow> used s c) \<and> tx_budget B k s \<and> 0 < k \<and> bm_block s b \<in> B \<and> 1 \<notin> busy s \<and>
    (\<forall>c. unat c < unat (sb_size (fs_sb s)) \<longrightarrow> bm_block s c \<notin> busy s)"

text \<open>Block \<open>b\<close> is marked.\<close>

definition mark_post :: "'z log_state_scheme \<Rightarrow> uint \<Rightarrow> 'z log_state_scheme \<Rightarrow> bool" where
  "mark_post s b t \<longleftrightarrow> tx_after {bm_block s b} s t \<and>
    (\<forall>c. unat c < unat (sb_size (fs_sb s)) \<longrightarrow> used t c = (used s c \<or> c = b))"

lemma same_state:
  assumes "tx_after {} s t" and "blk t = blk s"
  shows "fs_sb t = fs_sb s" and "bm_block t = bm_block s" and "used t = used s" and "data_block t = data_block s"
    and "first_data t = first_data s" and "tx_budget B k t = tx_budget B k s" and "fs_ok s \<Longrightarrow> fs_ok t"
  using tx_afterD [OF assms(1)] assms(2)
  by (simp_all add: fs_sb_def bm_block_def used_def first_data_def data_block_def tx_budget_def fs_ok_def fun_eq_iff)

lemma alloc_pre_same:
  assumes "alloc_pre B k s b" and "tx_after {} s t" and "blk t = blk s"
  shows "alloc_pre B k t b"
  using assms(1) same_state [OF assms(2,3)] tx_afterD [OF assms(2)] unfolding alloc_pre_def by auto

lemma mark_post_same:
  assumes "tx_after {} s t" and "blk t = blk s" and "mark_post t b u"
  shows "mark_post s b u"
  using assms(3) same_state [OF assms(1,2)] tx_after_trans [OF assms(1), of "{bm_block t b}" u]
  unfolding mark_post_def by simp

lemma used_bit:
  assumes "BPB * j + bi < 4294967296" and "bi < BPB"
  shows "used s (of_nat (BPB * j + bi)) \<longleftrightarrow> bm_test bi (blk s (BBLOCK (of_nat (BPB * j)) (sb_ninodes (fs_sb s))))"
proof -
  have "bm_block s (of_nat (BPB * j + bi)) = bm_block s (of_nat (BPB * j))"
    unfolding bm_block_inj using assms by (simp add: unat_of_nat_32 del: of_nat_add of_nat_mult)
  then show ?thesis using assms by (simp add: used_def bm_block_def del: of_nat_add of_nat_mult)
qed

text \<open>Changing the bit of a block in its bitmap block changes this bit only.\<close>

lemma after_bit:
  assumes "tx_after {bm_block s b} s t" and "tx_ok s" and "first_data s \<le> unat (l_start s)" and "unat b < unat (sb_size (fs_sb s))"
    and bit: "\<forall>i < BPB. bm_test i (blk t (bm_block s b)) = g i"
    and c: "unat c < unat (sb_size (fs_sb s))"
  shows "used t c = (if bm_block s c = bm_block s b then g (unat c mod BPB) else used s c)"
proof -
  have one: "1 \<notin> {bm_block s b}" using bm_block_unat(3) [OF assms(2-4)] by (simp add: fs_block_def)
  show ?thesis
    using after_layout(2) [OF assms(1) one assms(2), of c] bit [rule_format, of "unat c mod BPB"] after_used [OF assms(1) one assms(2,3) c]
    by (auto simp: used_def)
qed

lemma same_bit: "bm_block s c = bm_block s b \<Longrightarrow> unat c mod BPB = unat b mod BPB \<longleftrightarrow> c = b"
  unfolding bm_block_inj by (metis div_mult_mod_eq word_eq_iff_unat)

text \<open>The bitmap block that has the free bit: the bit is set.\<close>

lemma balloc_take:
  assumes P: "alloc_pre B k s b"
  shows "\<exists>t. balloc_scan (BPB * (unat b div BPB) # bs) ROOTDEV (fs_sb s) s = thenk (bzero ROOTDEV b) (ret b) t \<and> mark_post s b t"
proof -
  define j where "j = unat b div BPB"
  define bi where "bi = unat b mod BPB"
  let ?n = "bm_block s b" and ?f = "bm_set bi"
  have ok: "tx_ok s" "first_data s \<le> unat (l_start s)" "l_busy s" "unat b < unat (sb_size (fs_sb s))" "\<not> used s b"
      "\<And>c. unat c < unat b \<Longrightarrow> used s c" "tx_budget B k s" "0 < k" "?n \<in> B"
      "\<And>c. unat c < unat (sb_size (fs_sb s)) \<Longrightarrow> bm_block s c \<notin> busy s"
    using P unfolding alloc_pre_def fs_ok_def by blast+
  have b: "of_nat (BPB * j + bi) = b" "BPB * j + bi = unat b" "bi < BPB" by (simp_all add: j_def bi_def)
  have n: "BBLOCK (of_nat (BPB * j)) (sb_ninodes (fs_sb s)) = ?n"
    using bm_block_inj [of s "of_nat (BPB * j)" b] unat_lt_2_32 [of b] b(2) by (simp add: bm_block_def j_def del: of_nat_mult)
  have bit: "bm_test i (blk s ?n) = used s (of_nat (BPB * j + i))" if "i \<le> bi" for i
    using used_bit [of j i s] that b(2,3) unat_lt_2_32 [of b] unfolding n by simp
  have find: "find (\<lambda>bi. \<not> bm_test bi (blk s ?n)) [0..<min BPB (unat (sb_size (fs_sb s)) - BPB * j)] = Some bi"
    unfolding find_upt_Some
  proof (intro conjI allI impI)
    show "bi < min BPB (unat (sb_size (fs_sb s)) - BPB * j)" using ok(4) b(2,3) by simp
    show "\<not> bm_test bi (blk s ?n)" using bit [of bi] ok(5) b(1) by simp
    show "\<not> \<not> bm_test i (blk s ?n)" if "i < bi" for i
      using bit [of i] that ok(6) [of "of_nat (BPB * j + i)"] b(2) unat_lt_2_32 [of b] by (simp del: of_nat_add of_nat_mult)
  qed
  have nb: "fs_block s ?n" "?n \<notin> busy s" "tx_room s {?n}" "length (?f (blk s ?n)) = BSIZE"
    using bm_block_unat(3) [OF ok(1,2,4)] ok(10) [OF ok(4)] budget_room [OF ok(7)] ok(9) tx_layout(4) [OF ok(1)] by simp_all
  have "\<exists>t. balloc_scan (BPB * j # bs) ROOTDEV (fs_sb s) s = thenk (bzero ROOTDEV b) (ret b) t \<and>
      tx_after {?n} s t \<and> blk t ?n = ?f (blk s ?n)"
    unfolding balloc_scan.simps n
    by (rule modify_then [where f = ?f, OF ok(1) nb(1-3) ok(3) nb(4)]) (simp only: find option.case b(1) log_update_then)
  then obtain t where t: "balloc_scan (BPB * j # bs) ROOTDEV (fs_sb s) s = thenk (bzero ROOTDEV b) (ret b) t"
      "tx_after {?n} s t" "blk t ?n = ?f (blk s ?n)"
    by blast
  have "\<forall>i < BPB. bm_test i (blk t ?n) = (i = bi \<or> bm_test i (blk s ?n))"
    using bm_test_set [of bi "blk s ?n"] b(3) tx_layout(4) [OF ok(1)] t(3) by simp
  note u = after_bit [OF t(2) ok(1,2,4) this]
  have "used t c = (used s c \<or> c = b)" if c: "unat c < unat (sb_size (fs_sb s))" for c
    unfolding u [OF c] bi_def using same_bit [of s c b] by (auto simp: used_def)
  then show ?thesis unfolding j_def [symmetric] using t(1,2) by (auto simp: mark_post_def)
qed

lemma balloc_scan_run:
  assumes "alloc_pre B k s b" and "j \<le> unat b div BPB" and "unat b div BPB < n"
  shows "\<exists>t. balloc_scan (map (\<lambda>k. BPB * k) [j..<n]) ROOTDEV (fs_sb s) s = thenk (bzero ROOTDEV b) (ret b) t \<and> mark_post s b t"
  using assms
proof (induction "unat b div BPB - j" arbitrary: j s)
  case 0
  then have "j = unat b div BPB" by simp
  then have "map (\<lambda>k. BPB * k) [j..<n] = BPB * (unat b div BPB) # map (\<lambda>k. BPB * k) [Suc j..<n]"
    using 0 by (simp add: upt_conv_Cons)
  then show ?case using balloc_take [OF 0(2)] by simp
next
  case (Suc m)
  have ok: "tx_ok s" "first_data s \<le> unat (l_start s)" "\<And>c. unat c < unat b \<Longrightarrow> used s c" "unat b < unat (sb_size (fs_sb s))"
      "tx_budget B k s" "0 < k" "\<And>c. unat c < unat (sb_size (fs_sb s)) \<Longrightarrow> bm_block s c \<notin> busy s"
    using Suc(3) unfolding alloc_pre_def fs_ok_def by blast+
  have j: "j < unat b div BPB" using Suc(2) by simp
  then have jb: "BPB * j + BPB \<le> unat b" by (metis Suc_leI less_eq_div_iff_mult_less_eq mult.commute mult_Suc_right add.commute zero_less_numeral)
  let ?n = "BBLOCK (of_nat (BPB * j)) (sb_ninodes (fs_sb s))"
  have n: "?n = bm_block s (of_nat (BPB * j))" by (simp add: bm_block_def)
  have jj: "unat (of_nat (BPB * j) :: uint) < unat (sb_size (fs_sb s))"
    using jb ok(4) unat_lt_2_32 [of b] by (simp del: of_nat_mult)
  have nr: "fs_readable s ?n" "?n \<notin> busy s" "tx_room s {?n}"
    using tx.usable_readable [OF bm_block_unat(3) [OF ok(1,2) jj]] ok(7) [OF jj] budget_room [OF ok(5)] ok(6) unfolding n by simp_all
  have "bm_test i (blk s ?n)" if "i < BPB" for i
    using used_bit [of j i s] that ok(3) [of "of_nat (BPB * j + i)"] jb unat_lt_2_32 [of b] by (simp del: of_nat_add of_nat_mult)
  then have find: "find (\<lambda>bi. \<not> bm_test bi (blk s ?n)) [0..<min BPB (unat (sb_size (fs_sb s)) - BPB * j)] = None"
    unfolding find_upt_None by simp
  have list: "map (\<lambda>k. BPB * k) [j..<n] = BPB * j # map (\<lambda>k. BPB * k) [Suc j..<n]"
    using j Suc(5) by (simp add: upt_conv_Cons)
  let ?rest = "balloc_scan (map (\<lambda>k. BPB * k) [Suc j..<n]) ROOTDEV (fs_sb s)"
  have "\<exists>t. balloc_scan (map (\<lambda>k. BPB * k) [j..<n]) ROOTDEV (fs_sb s) s = ?rest t \<and> tx_after {} s t \<and> blk t = blk s"
    unfolding list balloc_scan.simps by (rule inspect_then [OF ok(1) nr]) (simp only: find option.case)
  then obtain t where t: "balloc_scan (map (\<lambda>k. BPB * k) [j..<n]) ROOTDEV (fs_sb s) s = ?rest t" "tx_after {} s t" "blk t = blk s"
    by blast
  have "\<exists>u. balloc_scan (map (\<lambda>k. BPB * k) [Suc j..<n]) ROOTDEV (fs_sb t) t = thenk (bzero ROOTDEV b) (ret b) u \<and> mark_post t b u"
    by (rule Suc(1)) (use Suc(2,5) j alloc_pre_same [OF Suc(3) t(2,3)] in simp_all)
  then show ?case unfolding t(1) same_state(1) [OF t(2,3)] using mark_post_same [OF t(2,3)] by blast
qed

text \<open>\<open>balloc\<close> marks the first free block and goes on to fill it with zeros, whatever it is used for.\<close>

lemma balloc_mark:
  assumes P: "alloc_pre B k s b"
  shows "\<exists>t. balloc ROOTDEV s = thenk (bzero ROOTDEV b) (ret b) t \<and> mark_post s b t"
proof -
  have ok: "tx_ok s" "1 \<notin> busy s" "tx_room s {1}" "unat b < unat (sb_size (fs_sb s))"
    using P budget_room [of B k s 1] unfolding alloc_pre_def fs_ok_def by auto
  let ?l = "map (\<lambda>k. BPB * k) [0..<(unat (sb_size (fs_sb s)) + BPB - 1) div BPB]"
  obtain t where t: "balloc ROOTDEV s = balloc_scan ?l ROOTDEV (fs_sb s) t" "tx_after {} s t" "blk t = blk s"
    unfolding balloc_def by (rule readsb_then [OF ok(1-3)])
  have "unat b div BPB < (unat (sb_size (fs_sb s)) + BPB - 1) div BPB" using ok(4) by (simp add: less_eq_div_iff_mult_less_eq Suc_le_eq [symmetric] del: Suc_le_eq)
  from balloc_scan_run [OF alloc_pre_same [OF P t(2,3)] _ this, of 0]
  show ?thesis unfolding t(1) same_state(1) [OF t(2,3)] using mark_post_same [OF t(2,3)] by fastforce
qed

lemma bzero_run:
  assumes "tx_ok s" and "fs_block s b" and "b \<notin> busy s" and "tx_room s {b}" and "l_busy s"
  shows "wp (bzero ROOTDEV b) (\<lambda>_ t. tx_after {b} s t \<and> blk t b = replicate BSIZE 0) s"
  unfolding bzero_def log_update_then by (rule modify_after [OF assms]) simp

text \<open>Block \<open>b\<close> is marked and filled with zeros.\<close>

definition alloc_post :: "'z log_state_scheme \<Rightarrow> uint \<Rightarrow> 'z log_state_scheme \<Rightarrow> bool" where
  "alloc_post s b t \<longleftrightarrow> tx_after {bm_block s b, b} s t \<and> blk t b = replicate BSIZE 0 \<and>
    (\<forall>c. unat c < unat (sb_size (fs_sb s)) \<longrightarrow> used t c = (used s c \<or> c = b))"

lemma balloc_run:
  assumes P: "alloc_pre B k s b" and d: "data_block s b" and nb: "b \<notin> busy s"
  shows "wp (balloc ROOTDEV) (\<lambda>r t. r = b \<and> alloc_post s b t) s"
proof -
  have ok: "tx_ok s" "first_data s \<le> unat (l_start s)" "unat b < unat (sb_size (fs_sb s))" "tx_budget B k s" "0 < k" "bm_block s b \<in> B" "l_busy s"
    using P unfolding alloc_pre_def fs_ok_def by blast+
  obtain s1 where s1: "balloc ROOTDEV s = thenk (bzero ROOTDEV b) (ret b) s1" "tx_after {bm_block s b} s s1"
      "\<And>c. unat c < unat (sb_size (fs_sb s)) \<Longrightarrow> used s1 c = (used s c \<or> c = b)"
    using balloc_mark [OF P] unfolding mark_post_def by blast
  note A = tx_afterD [OF s1(2)]
  have "tx_budget B (k - 0) s1" by (rule budget_after [OF s1(2) ok(4)]) (use ok(6) in auto)
  then have r1: "tx_room s1 {b}" by (rule budget_room) (use ok(5) in simp)
  obtain t where t: "bzero ROOTDEV b s1 = Ret () t" "tx_after {b} s1 t" "blk t b = replicate BSIZE 0"
    using bzero_run [OF A(1) _ _ r1] A(8,9,3) data_blockD(1) [OF ok(1) d] ok(7) nb by (auto elim!: wp_unitE)
  have after: "tx_after {bm_block s b, b} s t" using tx_after_trans [OF s1(2) t(2)] by (simp add: insert_commute)
  have m1: "first_data s1 \<le> unat (l_start s1)" "fs_sb s1 = fs_sb s" "\<And>c. bm_block s1 c = bm_block s c"
    using after_layout [OF s1(2) _ ok(1)] bm_block_unat(3) [OF ok(1-3)] A(10) ok(2) by (auto simp: fs_block_def)
  have "used t c = (used s c \<or> c = b)" if c: "unat c < unat (sb_size (fs_sb s))" for c
  proof -
    have "bm_block s c \<noteq> b" using bm_block_unat(2) [OF ok(1,2) c] d by (auto simp: data_block_def)
    then have "used t c = used s1 c"
      using after_used [OF t(2) _ A(1) m1(1), of c] data_blockD(1) [OF ok(1) d] c m1(2,3) by (simp add: fs_block_def)
    then show ?thesis using s1(3) [OF c] by simp
  qed
  then have "alloc_post s b t" using after t(3) by (simp add: alloc_post_def)
  then show ?thesis using s1(1) t(1) by (intro wpI) simp_all
qed

lemma first_free:
  assumes "fs_ok s" and "data_block s c" and "\<not> used s c"
  obtains b where "data_block s b" and "\<not> used s b" and "\<And>c. unat c < unat b \<Longrightarrow> used s c"
proof -
  define n where "n = (LEAST n. \<exists>b. unat b = n \<and> \<not> used s b)"
  have ex: "\<exists>b. unat b = unat c \<and> \<not> used s b" using assms(3) by blast
  obtain b where b: "unat b = n" "\<not> used s b" using LeastI [of "\<lambda>n. \<exists>b. unat b = n \<and> \<not> used s b", OF ex] unfolding n_def by blast
  have "n \<le> unat c" unfolding n_def using ex by (rule Least_le)
  then have "data_block s b" using assms b by (auto simp: data_block_def fs_ok_def intro!: leI)
  moreover have "used s d" if "unat d < unat b" for d
  proof -
    have "unat d < (LEAST n. \<exists>b. unat b = n \<and> \<not> used s b)" using that b(1) by (simp add: n_def)
    from not_less_Least [OF this] show ?thesis by blast
  qed
  ultimately show ?thesis using that b(2) by blast
qed

lemma alloc_post_ok:
  assumes "alloc_post s b t" and "fs_ok s" and "data_block s b"
  shows "fs_ok t" and "fs_sb t = fs_sb s" and "\<And>c. bm_block t c = bm_block s c" and "\<And>c. data_block t c = data_block s c" and "used t b"
proof -
  have ok: "tx_ok s" "first_data s \<le> unat (l_start s)" using assms(2) by (simp_all add: fs_ok_def)
  have A: "tx_after {bm_block s b, b} s t" using assms(1) by (simp add: alloc_post_def)
  have bsz: "unat b < unat (sb_size (fs_sb s))" by (rule data_blockD(4) [OF ok(1) assms(3)])
  then show ub: "used t b" using assms(1) by (simp add: alloc_post_def)
  have one: "1 \<notin> {bm_block s b, b}"
    using bm_block_unat(3) [OF ok bsz] data_blockD(1) [OF ok(1) assms(3)] by (auto simp: fs_block_def)
  note L = after_layout [OF A one ok(1)]
  show "fs_sb t = fs_sb s" "bm_block t c = bm_block s c" "data_block t c = data_block s c" for c using L by simp_all
  have "used t c" if "unat c < first_data s" for c
  proof -
    have "unat c < unat (sb_size (fs_sb s))" using that ok(2) tx_layout(1) [OF ok(1)] by linarith
    then show ?thesis using assms(1,2) that by (simp add: alloc_post_def fs_ok_def)
  qed
  then show "fs_ok t" using tx_afterD(1,10) [OF A] L(3) ok(2) by (simp add: fs_ok_def)
qed

section \<open>Freeing\<close>

lemma bfree_run:
  assumes ok: "fs_ok s" "l_busy s" "data_block s b" and bu: "1 \<notin> busy s" "bm_block s b \<notin> busy s"
    and B: "tx_budget B k s" "0 < k" "bm_block s b \<in> B"
  shows "used s b \<Longrightarrow> wp (bfree ROOTDEV b) (\<lambda>_ t. tx_after {bm_block s b} s t \<and>
      (\<forall>c. unat c < unat (sb_size (fs_sb s)) \<longrightarrow> used t c = (used s c \<and> c \<noteq> b))) s"
    and "\<not> used s b \<Longrightarrow> bfree ROOTDEV b s = Panic ''freeing free block''"
proof -
  define bi where "bi = unat b mod BPB"
  let ?n = "bm_block s b" and ?f = "bm_clear bi"
  let ?F = "\<lambda>bp s. if \<not> bm_test bi (buf_data bp s) then Panic ''freeing free block''
      else thenk (set_data bp ?f) (thenk (log_write bp) (brelse bp)) s"
  have tx: "tx_ok s" "first_data s \<le> unat (l_start s)" using ok(1) by (simp_all add: fs_ok_def)
  have bsz: "unat b < unat (sb_size (fs_sb s))" by (rule data_blockD(4) [OF tx(1) ok(3)])
  have "tx_room s {1}" by (rule budget_room [OF B(1)]) (use B(2) in simp)
  from readsb_then [OF tx(1) bu(1) this]
  obtain s1 where s1: "bfree ROOTDEV b s = bindk (bread ROOTDEV ?n) ?F s1" "tx_after {} s s1" "blk s1 = blk s"
    unfolding bfree_def Let_def bm_block_def bi_def [symmetric] by blast
  note A = tx_afterD [OF s1(2)] and S = same_state [OF s1(2,3)]
  have n1: "fs_block s1 ?n" "?n \<notin> busy s1" "tx_room s1 {?n}" "l_busy s1" "length (?f (blk s1 ?n)) = BSIZE"
    using bm_block_unat(3) [OF tx bsz] A(3,8,9) bu(2) ok(2) budget_room [of B k s1 ?n] S(6) B tx_layout(4) [OF tx(1)] s1(3) by simp_all
  show "wp (bfree ROOTDEV b) (\<lambda>_ t. tx_after {?n} s t \<and>
      (\<forall>c. unat c < unat (sb_size (fs_sb s)) \<longrightarrow> used t c = (used s c \<and> c \<noteq> b))) s" if u: "used s b"
  proof -
    have "\<exists>t. bindk (bread ROOTDEV ?n) ?F s1 = ret () t \<and> tx_after {?n} s1 t \<and> blk t ?n = ?f (blk s1 ?n)"
      by (rule modify_then [where f = ?f, OF A(1) n1]) (use u s1(3) in \<open>simp add: used_def bi_def log_update_then thenk_unit\<close>)
    then obtain t where t: "bfree ROOTDEV b s = Ret () t" "tx_after {?n} s1 t" "blk t ?n = ?f (blk s ?n)"
      using s1(1,3) by auto
    have after: "tx_after {?n} s t" using tx_after_trans [OF s1(2) t(2)] by simp
    have "\<forall>i < BPB. bm_test i (blk t ?n) = (i \<noteq> bi \<and> bm_test i (blk s ?n))"
      using bm_test_clear [of bi "blk s ?n"] tx_layout(4) [OF tx(1)] t(3) by (simp add: bi_def)
    note u = after_bit [OF after tx bsz this]
    have "used t c = (used s c \<and> c \<noteq> b)" if c: "unat c < unat (sb_size (fs_sb s))" for c
      unfolding u [OF c] bi_def using same_bit [of s c b] by (auto simp: used_def)
    then show ?thesis using t(1) after by (intro wpI) blast+
  qed
  show "bfree ROOTDEV b s = Panic ''freeing free block''" if u: "\<not> used s b"
  proof -
    obtain i s2 where s2: "bread ROOTDEV ?n s1 = Ret i s2" "buf_data i s2 = blk s1 ?n"
      using tx.rd [OF A(1) tx.usable_readable [OF n1(1)] n1(2,3)] by (elim wpE) blast
    then show ?thesis unfolding s1(1) using u s1(3) by (simp add: used_def bi_def)
  qed
qed

section \<open>Properties\<close>

text \<open>C7. \<open>balloc\<close> returns a block that was free and holds no part of the file system's own tables,
  fills it with zeros, and marks it and no other block; all other blocks keep their contents.
  \<open>bfree\<close> then gives it restored, which leaves the bitmap as it was, and freeing it once more is
  caught by a panic.\<close>

theorem balloc_bfree_exclusive:
  assumes "fs_ok s" and "l_busy s" and "busy s = {}" and "data_block s c" and "\<not> used s c" and "tx_budget B k s" and "1 < k"
    and "\<forall>c. unat c < unat (sb_size (fs_sb s)) \<longrightarrow> bm_block s c \<in> B"
  shows "\<exists>b t u. balloc ROOTDEV s = Ret b t \<and> data_block s b \<and> \<not> used s b \<and> blk t b = replicate BSIZE 0 \<and>
    (\<forall>c. unat c < unat (sb_size (fs_sb s)) \<longrightarrow> used t c = (used s c \<or> c = b)) \<and>
    (\<forall>m. fs_readable s m \<longrightarrow> m \<noteq> b \<longrightarrow> m \<noteq> bm_block s b \<longrightarrow> blk t m = blk s m) \<and>
    bfree ROOTDEV b t = Ret () u \<and> (\<forall>c. unat c < unat (sb_size (fs_sb s)) \<longrightarrow> used u c = used s c) \<and>
    bfree ROOTDEV b u = Panic ''freeing free block''"
proof -
  obtain b where b: "data_block s b" "\<not> used s b" "\<And>c. unat c < unat b \<Longrightarrow> used s c"
    using first_free [OF assms(1,4,5)] by blast
  have tx: "tx_ok s" "first_data s \<le> unat (l_start s)" using assms(1) by (simp_all add: fs_ok_def)
  have bsz: "unat b < unat (sb_size (fs_sb s))" by (rule data_blockD(4) [OF tx(1) b(1)])
  have bB: "bm_block s b \<in> B" using assms(8) bsz by blast
  have "alloc_pre B k s b" using assms b bsz bB by (simp add: alloc_pre_def)
  from balloc_run [OF this b(1)] assms(3)
  obtain t where t: "balloc ROOTDEV s = Ret b t" "alloc_post s b t" by (auto elim!: wpE)
  have A: "tx_after {bm_block s b, b} s t" and z: "blk t b = replicate BSIZE 0"
      and ut: "\<And>c. unat c < unat (sb_size (fs_sb s)) \<Longrightarrow> used t c = (used s c \<or> c = b)"
    using t(2) unfolding alloc_post_def by blast+
  note T = tx_afterD [OF A] and O = alloc_post_ok [OF t(2) assms(1) b(1)]
  have Bt: "tx_budget B (k - 1) t"
  proof (rule budget_after [OF A assms(6)])
    have "{bm_block s b, b} - B - logset s \<subseteq> {b}" using bB by blast
    from card_mono [OF _ this] show "card ({bm_block s b, b} - B - logset s) \<le> 1" by simp
  qed (use assms(7) in simp_all)
  have pre: "l_busy t" "data_block t b" "1 \<notin> busy t" "bm_block t b \<notin> busy t" "0 < k - 1" "bm_block t b \<in> B"
    using T(3,9) O assms(2,3,7) b(1) bB by simp_all
  obtain u where u: "bfree ROOTDEV b t = Ret () u" "tx_after {bm_block s b} t u"
      "\<And>c. unat c < unat (sb_size (fs_sb s)) \<Longrightarrow> used u c = (used t c \<and> c \<noteq> b)"
    using bfree_run(1) [OF O(1) pre(1-4) Bt pre(5,6) O(5)] O(2,3) by (auto elim!: wp_unitE)
  note U = tx_afterD [OF u(2)]
  have restored: "used u c = used s c" if "unat c < unat (sb_size (fs_sb s))" for c using u(3) [OF that] ut [OF that] b(2) by auto
  have one: "1 \<notin> {bm_block s b}" using bm_block_unat(3) [OF tx bsz] by (simp add: fs_block_def)
  note L = after_layout [OF u(2) one T(1)]
  have "fs_ok u"
    using U(1,10) L(3) O(1) T(10) restored assms(1) after_layout(3) [OF A _ tx(1)] O(2) tx_layout(1) [OF tx(1)]
    by (auto simp: fs_ok_def first_data_def)
  moreover have "tx_budget B (k - 1 - 0) u" by (rule budget_after [OF u(2) Bt]) (use bB in auto)
  ultimately have "bfree ROOTDEV b u = Panic ''freeing free block''"
    using bfree_run(2) [of u b B "k - 1"] pre U(3,9) L restored [OF bsz] b(2) by simp
  then show ?thesis using t(1) b(1,2) z ut T(6) u(1) restored by (intro exI [of _ b] exI [of _ t] exI [of _ u]) simp
qed

text \<open>C16. When all blocks before the log are taken, \<open>balloc\<close> goes on into the log: \<open>sb.size\<close>, the
  bound of its search, counts the log, and nobody marks its blocks as used. It marks the
  block with the log's header and goes on to overwrite it with zeros and to return it as a
  block for data.\<close>

theorem balloc_hands_out_the_log:
  assumes "fs_ok s" and "l_busy s" and "busy s = {}" and "\<forall>c. unat c < unat (l_start s) \<longrightarrow> used s c" and "\<not> used s (l_start s)"
    and "tx_budget B k s" and "0 < k" and "bm_block s (l_start s) \<in> B"
  shows "\<exists>t. balloc ROOTDEV s = thenk (bzero ROOTDEV (l_start t)) (ret (l_start t)) t \<and> tx_ok t \<and>
    l_start t \<in> log_region t \<and> used t (l_start t)"
proof -
  have tx: "tx_ok s" using assms(1) by (simp add: fs_ok_def)
  note I = log_invD [OF tx_okD(1) [OF tx]]
  have sz: "unat (l_start s) < unat (sb_size (fs_sb s))" using tx_layout(1) [OF tx] I(3) by simp
  have "alloc_pre B k s (l_start s)" using assms sz by (simp add: alloc_pre_def)
  then obtain t where t: "balloc ROOTDEV s = thenk (bzero ROOTDEV (l_start s)) (ret (l_start s)) t" "mark_post s (l_start s) t"
    using balloc_mark by blast
  then have A: "tx_after {bm_block s (l_start s)} s t" "used t (l_start s)" using sz by (simp_all add: mark_post_def)
  note T = tx_afterD [OF A(1)]
  have "l_start t \<in> log_region t" using log_invD(18) [OF tx_okD(1) [OF T(1)]] .
  then show ?thesis using t(1) T(1,10) A(2) by (intro exI [of _ t]) simp
qed

text \<open>On a disk of 20 blocks with 6 for data, from block 4 on: with all of them free, and with none.\<close>

definition small_bitmap :: "byte \<Rightarrow> byte \<Rightarrow> uint \<Rightarrow> byte list" where
  "small_bitmap x y = small_disk(3 := x # y # replicate 510 0)"

lemma small_bitmap:
  "length (small_bitmap x y n) = BSIZE" "small_bitmap x y 1 = small_disk 1" "small_bitmap x y 3 = x # y # replicate 510 0"
  "small_bitmap x y 10 = block_of 0"
  by (simp_all add: small_bitmap_def small_disk_def)

lemma small_fs_bitmap:
  assumes "\<And>n. length (D n) = BSIZE" and "D 1 = small_disk 1" and D3: "D 3 = x # y # replicate 510 0" and "D 10 = block_of 0"
  defines "s \<equiv> small_fs D"
  shows "tx_ok s" and "l_busy s" and "busy s = {}" and "l_start s = 10" and "sb_size (fs_sb s) = 20" and "first_data s = 4"
    and "\<And>c. unat c < 4096 \<Longrightarrow> bm_block s c = 3" and "tx_budget {3} 2 s"
    and "\<And>c. unat c < 16 \<Longrightarrow> used s c = bit (if unat c < 8 then x else y) (unat c mod 8)"
    and "sb_ninodes (fs_sb s) = 4"
proof -
  note S = small_fs_ok [OF assms(1,2,4)]
  show "tx_ok s" "l_busy s" "busy s = {}" "l_start s = 10" using S by (simp_all add: s_def)
  have sb: "fs_sb s = \<lparr>sb_size = 20, sb_nblocks = 0, sb_ninodes = 4, sb_nlog = 10\<rparr>"
    unfolding s_def fs_sb_def S(8) assms(2) by (simp add: small_disk_def dec_sb_def rd_at_def)
  then show "sb_size (fs_sb s) = 20" "first_data s = 4" "sb_ninodes (fs_sb s) = 4" by (simp_all add: first_data_def)
  show bm: "bm_block s c = 3" if "unat c < 4096" for c
    using that sb word_eq_iff_unat [of "c div 4096" 0] by (simp add: bm_block_def BBLOCK_def unat_div)
  show "tx_budget {3} 2 s" using S by (simp add: tx_budget_def s_def logset_def)
  show "used s c = bit (if unat c < 8 then x else y) (unat c mod 8)" if c: "unat c < 16" for c
  proof -
    have "unat c div 8 = (if unat c < 8 then 0 else 1)" using c by auto
    moreover have "blk s 3 = x # y # replicate 510 0" unfolding s_def S(8) by (rule D3)
    ultimately show ?thesis using c bm [of c] by (simp add: used_def bm_test_iff)
  qed
qed

theorem balloc_bfree_exclusive_witness:
  "\<exists>b t u. balloc ROOTDEV (small_fs (small_bitmap 0x0F 0)) = Ret b t \<and> 4 \<le> unat b \<and> unat b < 10 \<and> blk t b = replicate BSIZE 0 \<and>
    bfree ROOTDEV b t = Ret () u \<and> bfree ROOTDEV b u = Panic ''freeing free block''"
proof -
  let ?s = "small_fs (small_bitmap 0x0F 0)"
  note S = small_fs_bitmap [OF small_bitmap [where x = "0x0F" and y = 0]]
  have "used ?s b" if "unat b < 4" for b
  proof -
    have "unat b \<in> {0, 1, 2, 3}" using that by auto
    then show ?thesis using S(9) [of b] that by (auto simp: bit_numeral_rec)
  qed
  then have "fs_ok ?s" using S(1,4,6) by (simp add: fs_ok_def)
  moreover have "data_block ?s 4" "\<not> used ?s 4" using S(4,6,9) by (simp_all add: data_block_def)
  moreover have "\<forall>c. unat c < unat (sb_size (fs_sb ?s)) \<longrightarrow> bm_block ?s c \<in> {3}" using S(5,7) by simp
  ultimately show ?thesis
    using balloc_bfree_exclusive [OF _ S(2,3) _ _ S(8), of 4] S(4,6) by (auto simp: data_block_def)
qed

theorem balloc_hands_out_the_log_witness:
  "\<exists>t. balloc ROOTDEV (small_fs (small_bitmap 0xFF 0x03)) = thenk (bzero ROOTDEV (l_start t)) (ret (l_start t)) t \<and> tx_ok t \<and>
    l_start t \<in> log_region t \<and> used t (l_start t)"
proof -
  let ?s = "small_fs (small_bitmap 0xFF 0x03)"
  note S = small_fs_bitmap [OF small_bitmap [where x = "0xFF" and y = "0x03"]]
  have u: "used ?s b" if "unat b < 10" for b
  proof -
    have "unat b \<in> {0, 1, 2, 3, 4, 5, 6, 7, 8, 9}" using that by auto
    then show ?thesis using S(9) [of b] that by (auto simp: bit_numeral_rec)
  qed
  then have "fs_ok ?s" using S(1,4,6) by (simp add: fs_ok_def)
  moreover have "\<not> used ?s (l_start ?s)" using S(4,9) by (simp add: bit_numeral_rec)
  ultimately show ?thesis using balloc_hands_out_the_log [OF _ S(2,3) _ _ S(8)] u S(4,7) by simp
qed

end
