(* ===== verification/Xv6_Bmap.thy ===== *)
theory Xv6_Bmap
  imports Xv6_Alloc
begin

text \<open>
  The blocks of a file: the table in the inode and the indirect block give each block of a file
  a block of the disk. \<open>bmap\<close> finds it or allocates it, inside a transaction, and keeps inodes well
  formed.
\<close>

section \<open>The codec of an inode\<close>

lemma dec_dinode_enc:
  assumes "length (d_addrs d) = 13"
  shows "dec_dinode (enc_dinode d) = d"
proof -
  have "dec32s 13 (enc32s (d_addrs d)) = d_addrs d" using dec32s_enc32s [of "d_addrs d"] assms by simp
  then show ?thesis using assms by (simp add: dec_dinode_def enc_dinode_def rd_at_def)
qed

lemma enc_dinode_dec:
  assumes "length bs = 64"
  shows "enc_dinode (dec_dinode bs) = bs"
proof -
  let ?f = "\<lambda>n w. take w (drop n bs)"
  have 16: "enc16 (dec16 (?f n 2)) = ?f n 2" if "n + 2 \<le> 64" for n using that assms by (intro enc16_dec16) simp
  have 32: "enc32 (dec32 (?f n 4)) = ?f n 4" if "n + 4 \<le> 64" for n using that assms by (intro enc32_dec32) simp
  have "enc32s (dec32s 13 (?f 12 52)) = ?f 12 52" using assms by (intro enc32s_dec32s) simp
  then have "enc_dinode (dec_dinode bs) = ?f 0 2 @ ?f 2 2 @ ?f 4 2 @ ?f 6 2 @ ?f 8 4 @ ?f 12 52"
    by (simp add: enc_dinode_def dec_dinode_def rd_at_def 16 32 16 [of 0, simplified])
  also have "\<dots> = take (2 + (2 + (2 + (2 + (4 + 52))))) bs" unfolding take_add by simp
  finally show ?thesis using assms by simp
qed

interpretation c_dinode: codec 64 enc_dinode dec_dinode "\<lambda>d. length (d_addrs d) = 13"
proof
  show "length (enc_dinode d) = 64" if "length (d_addrs d) = 13" for d using that by (simp add: enc_dinode_def)
  show "length (d_addrs (dec_dinode bs)) = 13" for bs by (simp add: dec_dinode_def rd_at_def)
qed (simp_all add: dec_dinode_enc enc_dinode_dec)

section \<open>Steps that also change the inode cache or memory\<close>

lemma same_core:
  fixes s :: "'y log_state_scheme" and t :: "'z log_state_scheme"
  assumes "log_state.truncate t = log_state.truncate s"
  shows "blk t = blk s" "busy t = busy s" "logset t = logset s" "tx_ok t = tx_ok s" "fs_readable t = fs_readable s" "fs_block t = fs_block s"
    "fs_sb t = fs_sb s" "bm_block t = bm_block s" "used t = used s" "first_data t = first_data s" "data_block t = data_block s"
    "fs_ok t = fs_ok s" "tx_budget B k t = tx_budget B k s" "holds t = holds s" "l_busy t = l_busy s" "l_start t = l_start s"
proof -
  have eq: "held t = held s" "bufs t = bufs s" "mru t = mru s" "disk t = disk s" "disksize t = disksize s" "writes t = writes s" "l_start t = l_start s"
    "l_size t = l_size s" "l_busy t = l_busy s" "l_dev t = l_dev s" "lh_n t = lh_n s" "lh_sector t = lh_sector s"
    using assms by (simp_all add: log_state.truncate_def)
  show "l_busy t = l_busy s" "l_start t = l_start s" by (fact eq)+
  have slot: "slot t = slot s" by (simp add: slot_def fun_eq_iff eq)
  show blk: "blk t = blk s" by (simp add: blk_def slot fun_eq_iff eq split: option.split)
  show busy: "busy t = busy s" by (simp add: busy_def eq)
  have lg: "logged t = logged s" "log_region t = log_region s" "pinned t = pinned s"
    by (simp_all add: logged_def log_region_def pinned_def eq)
  show ls: "logset t = logset s" by (simp add: logset_def lg)
  show tx: "tx_ok t = tx_ok s"
    unfolding tx_ok_def log_mounted_def log_inv_def bio_inv_def blk busy lg log_block_def by (simp add: eq)
  show "fs_readable t = fs_readable s" "fs_block t = fs_block s"
    by (simp_all add: fs_readable_def fs_block_def lg fun_eq_iff eq)
  show sb: "fs_sb t = fs_sb s" by (simp add: fs_sb_def blk)
  show bm: "bm_block t = bm_block s" by (simp add: bm_block_def sb fun_eq_iff)
  show us: "used t = used s" by (simp add: used_def bm blk fun_eq_iff)
  show fd: "first_data t = first_data s" by (simp add: first_data_def sb)
  show "data_block t = data_block s" by (simp add: data_block_def fd fun_eq_iff eq)
  show "fs_ok t = fs_ok s" by (simp add: fs_ok_def tx fd us eq)
  show "tx_budget B k t = tx_budget B k s" by (simp add: tx_budget_def busy ls eq)
  show "holds t = holds s" by (simp add: holds_def cached_def fun_eq_iff eq)
qed

lemmas icache_irrelevant [simp] = same_core [where s = s and t = "s\<lparr>icache := x\<rparr>" for s x, simplified log_state.truncate_def, simplified]

lemma lframe_icache:
  fixes s t :: "'z icache_state_scheme"
  assumes "lframe s t"
  shows "icache t = icache s"
  by (subst assms [unfolded lframe_def]) simp

lemma lframe_icache_upd:
  fixes s t :: "'z icache_state_scheme"
  assumes "lframe s t"
  shows "lframe (s\<lparr>icache := x\<rparr>) (t\<lparr>icache := x\<rparr>)"
  unfolding lframe_def by (subst assms [unfolded lframe_def]) simp

text \<open>As \<open>tx_after\<close>, but the inode cache may have changed too.\<close>

definition fs_after :: "uint set \<Rightarrow> 'z icache_state_scheme \<Rightarrow> 'z icache_state_scheme \<Rightarrow> bool" where
  "fs_after N s t \<longleftrightarrow> tx_after N (s\<lparr>icache := icache t\<rparr>) t"

lemma tx_fs_after:
  fixes s t :: "'z icache_state_scheme"
  shows "tx_after N s t \<Longrightarrow> fs_after N s t"
  using lframe_icache [of s t] by (simp add: fs_after_def tx_after_def)

lemma tx_after_icache:
  fixes s t :: "'z icache_state_scheme"
  shows "tx_after N s t \<Longrightarrow> tx_after N (s\<lparr>icache := x\<rparr>) (t\<lparr>icache := x\<rparr>)"
  using lframe_icache_upd [of s t x] by (simp add: tx_after_def)

lemma fs_after_trans:
  assumes "fs_after N s t" and "fs_after M t u"
  shows "fs_after (N \<union> M) s u"
  using tx_after_trans [OF tx_after_icache [OF assms(1) [unfolded fs_after_def], of "icache u"] assms(2) [unfolded fs_after_def]]
  by (simp add: fs_after_def)

lemma fs_after_upd: "tx_ok s \<Longrightarrow> fs_after {} s (s\<lparr>icache := x\<rparr>)"
  by (simp add: fs_after_def tx_after_refl)

lemma fs_afterD:
  fixes s t :: "'z icache_state_scheme"
  assumes "fs_after N s t"
  shows "tx_ok t" and "busy t = busy s" and "logset t = logset s \<union> N" and "\<And>m. fs_readable s m \<Longrightarrow> m \<notin> N \<Longrightarrow> blk t m = blk s m"
    and "\<And>m. fs_readable t m = fs_readable s m" and "\<And>m. fs_block t m = fs_block s m" and "l_busy t = l_busy s"
    and "l_start t = l_start s" and "l_size t = l_size s" and "\<And>j m. holds s j m \<Longrightarrow> holds t j m"
  using tx_afterD [OF assms [unfolded fs_after_def]] by simp_all

section \<open>The blocks of a file\<close>

definition ind :: "inode \<Rightarrow> uint" where
  "ind ip = i_addrs ip ! NDIRECT"

text \<open>The disk block of block \<open>k\<close> of the file, or 0.\<close>

definition addr :: "(uint \<Rightarrow> byte list) \<Rightarrow> inode \<Rightarrow> nat \<Rightarrow> uint" where
  "addr D ip k = (if k < NDIRECT then i_addrs ip ! k
    else if ind ip = 0 then 0 else rd_at 4 dec32 (D (ind ip)) (4 * (k - NDIRECT)))"

definition owned :: "(uint \<Rightarrow> byte list) \<Rightarrow> inode \<Rightarrow> uint set" where
  "owned D ip = insert (ind ip) (addr D ip ` {..<MAXFILE}) - {0}"

text \<open>A well-formed inode: its blocks are data blocks that are marked as used, no block is used
  twice, and all blocks up to the size of the file are there.\<close>

definition inode_wf :: "'z log_state_scheme \<Rightarrow> inode \<Rightarrow> bool" where
  "inode_wf s ip \<longleftrightarrow> length (i_addrs ip) = 13 \<and> i_dev ip = ROOTDEV \<and> i_inum ip < sb_ninodes (fs_sb s) \<and>
    (\<forall>b \<in> owned (blk s) ip. data_block s b \<and> used s b) \<and>
    (\<forall>k < MAXFILE. \<forall>l < MAXFILE. addr (blk s) ip k = addr (blk s) ip l \<longrightarrow> addr (blk s) ip k \<noteq> 0 \<longrightarrow> k = l) \<and>
    (\<forall>k < MAXFILE. addr (blk s) ip k \<noteq> 0 \<longrightarrow> addr (blk s) ip k \<noteq> ind ip) \<and>
    unat (i_size ip) \<le> MAXFILE * BSIZE \<and> (\<forall>k. k * BSIZE < unat (i_size ip) \<longrightarrow> addr (blk s) ip k \<noteq> 0)"

lemma inode_wfD:
  assumes "inode_wf s ip"
  shows "length (i_addrs ip) = 13" and "i_dev ip = ROOTDEV" and "i_inum ip < sb_ninodes (fs_sb s)"
    and "\<And>b. b \<in> owned (blk s) ip \<Longrightarrow> data_block s b" and "\<And>b. b \<in> owned (blk s) ip \<Longrightarrow> used s b"
    and "\<And>k l. k < MAXFILE \<Longrightarrow> l < MAXFILE \<Longrightarrow> addr (blk s) ip k = addr (blk s) ip l \<Longrightarrow> addr (blk s) ip k \<noteq> 0 \<Longrightarrow> k = l"
    and "\<And>k. k < MAXFILE \<Longrightarrow> addr (blk s) ip k \<noteq> 0 \<Longrightarrow> addr (blk s) ip k \<noteq> ind ip"
    and "unat (i_size ip) \<le> MAXFILE * BSIZE" and "\<And>k. k * BSIZE < unat (i_size ip) \<Longrightarrow> addr (blk s) ip k \<noteq> 0"
  using assms unfolding inode_wf_def by blast+

lemma owned_addr: "k < MAXFILE \<Longrightarrow> addr D ip k \<noteq> 0 \<Longrightarrow> addr D ip k \<in> owned D ip"
  by (simp add: owned_def)

lemma owned_ind: "ind ip \<noteq> 0 \<Longrightarrow> ind ip \<in> owned D ip"
  by (simp add: owned_def)

lemma addr_cong: "(ind ip \<noteq> 0 \<Longrightarrow> D' (ind ip) = D (ind ip)) \<Longrightarrow> addr D' ip k = addr D ip k"
  by (simp add: addr_def)

section \<open>Free blocks\<close>

definition free :: "'z log_state_scheme \<Rightarrow> uint set" where
  "free s = {b. data_block s b \<and> \<not> used s b}"

definition bitmap :: "'z log_state_scheme \<Rightarrow> uint set" where
  "bitmap s = bm_block s ` {c. unat c < unat (sb_size (fs_sb s))}"

text \<open>A step that overwrites blocks in \<open>W\<close> and may take free blocks.\<close>

definition fs_step :: "uint set \<Rightarrow> 'z icache_state_scheme \<Rightarrow> 'z icache_state_scheme \<Rightarrow> bool" where
  "fs_step W s t \<longleftrightarrow> fs_ok t \<and> fs_sb t = fs_sb s \<and> (\<exists>N. fs_after N s t \<and> N \<subseteq> W \<union> bitmap s \<union> free s) \<and>
    (\<forall>b. data_block s b \<longrightarrow> used s b \<longrightarrow> used t b)"

lemma fs_stepD:
  assumes "fs_step W s t"
  shows "fs_ok t" and "fs_sb t = fs_sb s" and "l_start t = l_start s" and "l_busy t = l_busy s" and "busy t = busy s"
    and "\<And>b. data_block t b = data_block s b" and "bitmap t = bitmap s" and "\<And>b. data_block s b \<Longrightarrow> used s b \<Longrightarrow> used t b"
    and "free t \<subseteq> free s" and "first_data t = first_data s" and "\<And>b. bm_block t b = bm_block s b"
    and "\<And>m. fs_readable s m \<Longrightarrow> m \<notin> W \<union> bitmap s \<union> free s \<Longrightarrow> blk t m = blk s m"
proof -
  obtain N where N: "fs_after N s t" "N \<subseteq> W \<union> bitmap s \<union> free s" using assms unfolding fs_step_def by blast
  note A = fs_afterD [OF N(1)]
  show o: "fs_ok t" "fs_sb t = fs_sb s" "\<And>b. data_block s b \<Longrightarrow> used s b \<Longrightarrow> used t b"
    using assms unfolding fs_step_def by blast+
  show "l_start t = l_start s" "l_busy t = l_busy s" "busy t = busy s" using A by simp_all
  show fd: "first_data t = first_data s" by (simp add: first_data_def o(2))
  then show d: "data_block t b = data_block s b" for b using A(8) by (simp add: data_block_def)
  show bm: "bm_block t b = bm_block s b" for b by (simp add: bm_block_def o(2))
  show "bitmap t = bitmap s" by (simp add: bitmap_def bm o(2))
  show "free t \<subseteq> free s" using o(3) d by (auto simp: free_def)
  show "blk t m = blk s m" if "fs_readable s m" "m \<notin> W \<union> bitmap s \<union> free s" for m using A(4) that N(2) by blast
qed

lemma fs_step_refl: "fs_ok s \<Longrightarrow> fs_step W s s"
  using tx_fs_after [OF tx_after_refl, of s] by (auto simp: fs_step_def fs_ok_def)

lemma fs_step_upd: "fs_ok s \<Longrightarrow> fs_step W s (s\<lparr>icache := x\<rparr>)"
  using fs_after_upd [of s x] by (auto simp: fs_step_def fs_ok_def)

lemma fs_step_trans:
  assumes "fs_step W s t" and "fs_step W' t u" and "W' \<subseteq> W \<union> bitmap s \<union> free s"
  shows "fs_step W s u"
proof -
  obtain N M where N: "fs_after N s t" "N \<subseteq> W \<union> bitmap s \<union> free s" and M: "fs_after M t u" "M \<subseteq> W' \<union> bitmap t \<union> free t"
    using assms(1,2) unfolding fs_step_def by blast
  note T = fs_stepD [OF assms(1)] and U = fs_stepD [OF assms(2)]
  have "fs_after (N \<union> M) s u" by (rule fs_after_trans [OF N(1) M(1)])
  moreover have "N \<union> M \<subseteq> W \<union> bitmap s \<union> free s" using N(2) M(2) T(7,9) assms(3) by blast
  ultimately show ?thesis using T U unfolding fs_step_def by metis
qed

lemma fs_step_mono: "fs_step W s t \<Longrightarrow> W \<subseteq> W' \<Longrightarrow> fs_step W' s t"
  unfolding fs_step_def by blast

lemma bitmap_low:
  assumes "fs_ok s" and "n \<in> bitmap s"
  shows "unat n < first_data s" and "unat (sb_ninodes (fs_sb s)) div 8 + 3 \<le> unat n" and "fs_block s n"
  using assms bm_block_unat [of s] by (auto simp: bitmap_def fs_ok_def)

text \<open>Blocks of files in use, and the blocks of the inodes, survive such a step.\<close>

lemma fs_step_keep:
  assumes "fs_step W s t" and "fs_ok s" and "data_block s b" and "used s b" and "b \<notin> W"
  shows "blk t b = blk s b"
proof (rule fs_stepD(12) [OF assms(1)])
  show "fs_readable s b" using data_blockD(2) [of s b] assms(2,3) by (simp add: fs_ok_def)
  show "b \<notin> W \<union> bitmap s \<union> free s" using bitmap_low(1) [OF assms(2), of b] assms(3-5) by (auto simp: free_def data_block_def)
qed

lemma iblock_low:
  assumes "fs_ok s" and "inum < sb_ninodes (fs_sb s)"
  shows "unat (IBLOCK inum) < unat (sb_ninodes (fs_sb s)) div 8 + 3" and "unat (IBLOCK inum) < first_data s" and "fs_block s (IBLOCK inum)"
proof -
  have tx: "tx_ok s" "first_data s \<le> unat (l_start s)" using assms(1) by (simp_all add: fs_ok_def)
  have u: "unat (IBLOCK inum) = unat inum div 8 + 2"
    using unat_lt_2_32 [of inum] unfolding IBLOCK_def by (subst unat_add_no_wrap) (simp_all add: unat_div)
  have "unat inum div 8 \<le> unat (sb_ninodes (fs_sb s)) div 8" using assms(2) by (intro div_le_mono) (simp add: word_less_nat_alt)
  then show l: "unat (IBLOCK inum) < unat (sb_ninodes (fs_sb s)) div 8 + 3" using u by simp
  then show f: "unat (IBLOCK inum) < first_data s" by (simp add: first_data_def)
  show "fs_block s (IBLOCK inum)" by (rule meta_block [OF tx _ f]) (simp add: u)
qed

lemma fs_step_inode_block:
  assumes "fs_step W s t" and "fs_ok s" and "inum < sb_ninodes (fs_sb s)" and "IBLOCK inum \<notin> W"
  shows "blk t (IBLOCK inum) = blk s (IBLOCK inum)"
proof (rule fs_stepD(12) [OF assms(1)])
  note I = iblock_low [OF assms(2,3)]
  show "fs_readable s (IBLOCK inum)" using tx.usable_readable [OF I(3)] .
  show "IBLOCK inum \<notin> W \<union> bitmap s \<union> free s"
    using bitmap_low(2) [OF assms(2), of "IBLOCK inum"] I(1,2) assms(4) by (auto simp: free_def data_block_def)
qed

text \<open>What the file system needs: blocks of the cache and the log, and free blocks on the disk.
  One more is set aside as long as the file has no indirect block.\<close>

definition meta :: "'z log_state_scheme \<Rightarrow> inode \<Rightarrow> uint set" where
  "meta s ip = insert (IBLOCK (i_inum ip)) (bitmap s \<union> ({ind ip} - {0}))"

definition spare :: "inode \<Rightarrow> nat" where
  "spare ip = (if ind ip = 0 then 1 else 0)"

definition provision :: "nat \<Rightarrow> 'z log_state_scheme \<Rightarrow> inode \<Rightarrow> bool" where
  "provision k s ip \<longleftrightarrow> tx_budget (meta s ip) (k + spare ip) s \<and> k + spare ip \<le> card (free s)"

lemma budget_subset:
  assumes "tx_budget B k s" and "B' \<subseteq> B \<union> logset s"
  shows "tx_budget B' k s"
proof -
  have fin: "finite B" using assms(1) by (simp add: tx_budget_def)
  have "finite B'" using finite_subset [OF assms(2)] fin finite_logset by blast
  moreover have "card (busy s \<union> logset s \<union> B') \<le> card (busy s \<union> logset s \<union> B)" "card (logset s \<union> B') \<le> card (logset s \<union> B)"
    using fin finite_logset [of s] finite_busy [of s] assms(2) by (intro card_mono; blast)+
  ultimately show ?thesis using assms(1) by (simp add: tx_budget_def)
qed

lemma balloc_step:
  fixes s :: "'z icache_state_scheme"
  assumes ok: "fs_ok s" "l_busy s" and B: "tx_budget B (Suc k) s" "bitmap s \<subseteq> B" and f: "free s \<noteq> {}"
    and bu: "busy s \<inter> insert 1 (bitmap s \<union> free s) = {}"
  obtains b t where "balloc ROOTDEV s = Ret b t" and "b \<in> free s" and "fs_step {} s t" and "icache t = icache s" and "tx_after {bm_block s b, b} s t"
    and "blk t b = replicate BSIZE 0" and "used t b" and "free t = free s - {b}" and "tx_budget (insert b B) k t"
proof -
  have tx: "tx_ok s" "first_data s \<le> unat (l_start s)" using ok(1) by (simp_all add: fs_ok_def)
  obtain c where c: "data_block s c" "\<not> used s c" using f by (auto simp: free_def)
  obtain b where b: "data_block s b" "\<not> used s b" "\<And>c. unat c < unat b \<Longrightarrow> used s c"
    using first_free [OF ok(1) c] by blast
  have bsz: "unat b < unat (sb_size (fs_sb s))" by (rule data_blockD(4) [OF tx(1) b(1)])
  have bf: "b \<in> free s" and bm: "bm_block s b \<in> bitmap s" using b bsz by (auto simp: free_def bitmap_def)
  have "alloc_pre B (Suc k) s b" using ok B b bsz bu bm by (auto simp: alloc_pre_def bitmap_def)
  from balloc_run [OF this b(1)] obtain t where t: "balloc ROOTDEV s = Ret b t" "alloc_post s b t"
    using bu bf by (auto elim!: wpE)
  note P = alloc_post_ok [OF t(2) ok(1) b(1)]
  have A: "tx_after {bm_block s b, b} s t" and z: "blk t b = replicate BSIZE 0"
      and ut: "\<And>c. unat c < unat (sb_size (fs_sb s)) \<Longrightarrow> used t c = (used s c \<or> c = b)"
    using t(2) unfolding alloc_post_def by blast+
  have ud: "used t c = (used s c \<or> c = b)" if "data_block s c" for c using ut [OF data_blockD(4) [OF tx(1) that]] .
  have st: "fs_step {} s t" using tx_fs_after [OF A] P(1,2) bm bf ud unfolding fs_step_def by blast
  have fr: "free t = free s - {b}" using ud P(4) by (auto simp: free_def)
  have "tx_budget B (Suc k - 1) t"
  proof (rule budget_after [OF A B(1)])
    have "{bm_block s b, b} - B - logset s \<subseteq> {b}" using bm B(2) by blast
    from card_mono [OF _ this] show "card ({bm_block s b, b} - B - logset s) \<le> 1" by simp
  qed simp_all
  then have Bt: "tx_budget B k t" by simp
  have "tx_budget (insert b B) k t" by (rule budget_subset [OF Bt]) (use tx_afterD(4) [OF A] in auto)
  then show thesis by (rule that [OF t(1) bf st lframe_icache [OF tx_afterD(2) [OF A]] A z P(5) fr])
qed

section \<open>bmap\<close>

lemma set_addr_run:
  "set_addr i k a s = Ret () (s\<lparr>icache := (icache s)[i := (icache s ! i)\<lparr>i_addrs := (i_addrs (icache s ! i))[k := a]\<rparr>]\<rparr>)"
  by (simp add: set_addr_def upd_inode_def)

text \<open>A block of the file that is there is only looked up.\<close>

lemma bmap_present:
  assumes ok: "fs_ok s" "busy s = {}" and ip: "icache s ! i = ip" "inode_wf s ip" and bn: "bn < MAXFILE" "addr (blk s) ip bn \<noteq> 0"
    and room: "ind ip \<noteq> 0 \<Longrightarrow> tx_room s {ind ip}"
  shows "\<exists>t. bmap i (of_nat bn) s = Ret (addr (blk s) ip bn) t \<and> tx_after {} s t \<and> blk t = blk s"
proof (cases "bn < NDIRECT")
  case True
  then have "bmap i (of_nat bn) s = Ret (addr (blk s) ip bn) s"
    using bn ip(1) by (simp add: bmap_def bmap_slot_def addr_def)
  then show ?thesis using tx_after_refl [of s] ok(1) by (auto simp: fs_ok_def)
next
  case False
  have tx: "tx_ok s" using ok(1) by (simp add: fs_ok_def)
  have i: "ind ip \<noteq> 0" "rd_at 4 dec32 (blk s (ind ip)) (4 * (bn - NDIRECT)) = addr (blk s) ip bn"
    using False bn(2) by (auto simp: addr_def split: if_splits)
  have slot: "bmap_slot i NDIRECT s = Ret (ind ip) s" using ip(1) i(1) by (simp add: bmap_slot_def ind_def)
  have "data_block s (ind ip)" using inode_wfD(4) [OF ip(2) owned_ind [OF i(1)]] .
  then have r: "fs_readable s (ind ip)" by (rule data_blockD(2) [OF tx])
  have "bn - NDIRECT < NINDIRECT" using bn(1) False by simp
  then have "bmap i (of_nat bn) s = bmap_indirect ROOTDEV (ind ip) (bn - NDIRECT) s"
    using False bn(1) slot ip(1) inode_wfD(2) [OF ip(2)] by (simp add: bmap_def)
  moreover have "\<exists>t. bmap_indirect ROOTDEV (ind ip) (bn - NDIRECT) s = ret (addr (blk s) ip bn) t \<and> tx_after {} s t \<and> blk t = blk s"
    unfolding bmap_indirect_def
    by (rule inspect_then [OF tx r]) (use ok(2) room [OF i(1)] i(2) bn(2) in \<open>simp_all add: Let_def\<close>)
  ultimately show ?thesis by simp
qed

text \<open>Block \<open>a\<close> has become block \<open>bn\<close> of the file; \<open>k\<close> more blocks can be added.\<close>

definition bmap_post :: "nat \<Rightarrow> nat \<Rightarrow> inode \<Rightarrow> nat \<Rightarrow> 'z icache_state_scheme \<Rightarrow> uint \<Rightarrow> 'z icache_state_scheme \<Rightarrow> bool" where
  "bmap_post k i ip bn s a t \<longleftrightarrow> (\<exists>A. let ip' = ip\<lparr>i_addrs := A\<rparr> in icache t = (icache s)[i := ip'] \<and> fs_step ({ind ip} - {0}) s t \<and>
    inode_wf t ip' \<and> (\<forall>k < MAXFILE. addr (blk t) ip' k = (if k = bn then a else addr (blk s) ip k)) \<and>
    (ind ip' = ind ip \<or> ind ip' \<in> free s) \<and> a \<in> free s \<and> blk t a = replicate BSIZE 0 \<and>
    tx_budget (insert a (meta t ip')) (k + spare ip') t \<and> k + spare ip' \<le> card (free t))"

lemma bmap_slot_new:
  fixes s :: "'z icache_state_scheme"
  assumes ok: "fs_ok s" "l_busy s" "busy s = {}" and ip: "icache s ! i = ip" "i_dev ip = ROOTDEV" "i_addrs ip ! k = 0"
    and B: "tx_budget B (Suc n) s" "bitmap s \<subseteq> B" and f: "free s \<noteq> {}"
  obtains b t where "bmap_slot i k s = Ret b t" and "b \<in> free s" and "fs_step {} s t"
    and "icache t = (icache s)[i := ip\<lparr>i_addrs := (i_addrs ip)[k := b]\<rparr>]" and "blk t b = replicate BSIZE 0" and "used t b"
    and "free t = free s - {b}" and "tx_budget (insert b B) n t"
proof -
  obtain b t where t: "balloc ROOTDEV s = Ret b t" "b \<in> free s" "fs_step {} s t" "icache t = icache s"
      "blk t b = replicate BSIZE 0" "used t b" "free t = free s - {b}" "tx_budget (insert b B) n t"
    by (rule balloc_step [OF ok(1,2) B f]) (use ok(3) in simp_all)
  let ?t = "t\<lparr>icache := (icache s)[i := ip\<lparr>i_addrs := (i_addrs ip)[k := b]\<rparr>]\<rparr>"
  have "bmap_slot i k s = Ret b ?t" using t(1,4) ip by (simp add: bmap_slot_def set_addr_run)
  moreover have "fs_step {} s ?t"
    by (rule fs_step_trans [OF t(3) fs_step_upd [where W = "{}"]]) (use fs_stepD(1) [OF t(3)] in simp_all)
  moreover have "free ?t = free t" by (simp add: free_def)
  ultimately show thesis using that [of b ?t] t by simp
qed

lemma inode_wf_new_block:
  assumes wf: "inode_wf s ip" and st: "fs_step W s t" and b: "b \<in> free s" "used t b"
    and A: "length A = 13" "ind (ip\<lparr>i_addrs := A\<rparr>) = ind ip" and bn: "bn < MAXFILE" "addr (blk s) ip bn = 0"
    and ad: "\<And>k. k < MAXFILE \<Longrightarrow> addr (blk t) (ip\<lparr>i_addrs := A\<rparr>) k = (if k = bn then b else addr (blk s) ip k)" and b0: "b \<noteq> 0"
  shows "inode_wf t (ip\<lparr>i_addrs := A\<rparr>)"
proof -
  note I = inode_wfD [OF wf] and S = fs_stepD [OF st]
  have new: "b \<notin> owned (blk s) ip" using I(5) b(1) by (auto simp: free_def)
  then have nb: "addr (blk s) ip k \<noteq> b" if "k < MAXFILE" for k using that owned_addr [of k "blk s" ip] b0 by force
  have ni: "ind ip \<noteq> b" using new b0 by (auto simp: owned_def)
  have own: "owned (blk t) (ip\<lparr>i_addrs := A\<rparr>) \<subseteq> insert b (owned (blk s) ip)" using ad A(2) by (auto simp: owned_def)
  have "data_block t c \<and> used t c" if "c \<in> owned (blk t) (ip\<lparr>i_addrs := A\<rparr>)" for c
    using that own I(4,5) S(6,8) b by (auto simp: free_def)
  moreover have "addr (blk t) (ip\<lparr>i_addrs := A\<rparr>) k \<noteq> 0" if "k * BSIZE < unat (i_size ip)" for k
  proof -
    have "k < MAXFILE" using that I(8) by simp
    then show ?thesis using ad I(9) [OF that] b0 by simp
  qed
  ultimately show ?thesis
    unfolding inode_wf_def using I(2,3,6-8) A ad S(2) nb nb [THEN not_sym] ni b0 bn by auto
qed

lemma inode_wf_new_ind:
  assumes wf: "inode_wf s ip" and st: "fs_step W s t" and b: "b \<in> free s" "used t b" "blk t b = replicate BSIZE 0" and i0: "ind ip = 0"
  defines "ip' \<equiv> ip\<lparr>i_addrs := (i_addrs ip)[NDIRECT := b]\<rparr>"
  shows "inode_wf t ip'" and "ind ip' = b" and "\<And>k. k < MAXFILE \<Longrightarrow> addr (blk t) ip' k = addr (blk s) ip k"
proof -
  note I = inode_wfD [OF wf] and S = fs_stepD [OF st]
  show bi: "ind ip' = b" using I(1) by (simp add: ip'_def ind_def)
  have z: "rd_at 4 dec32 (replicate BSIZE 0) n = 0" if "n + 4 \<le> BSIZE" for n
    using that by (simp add: rd_at_def dec32_def take_replicate drop_replicate min_def)
  show ad: "addr (blk t) ip' k = addr (blk s) ip k" if "k < MAXFILE" for k
    using that i0 b(3) I(1) z [of "4 * (k - NDIRECT)"] by (simp add: addr_def bi) (simp add: ip'_def)
  have new: "b \<notin> owned (blk s) ip" using I(5) b(1) by (auto simp: free_def)
  then have nb: "addr (blk s) ip k \<noteq> b" if "k < MAXFILE" "addr (blk s) ip k \<noteq> 0" for k using that owned_addr [of k "blk s" ip] by force
  have own: "owned (blk t) ip' \<subseteq> insert b (owned (blk s) ip)" using ad bi by (auto simp: owned_def)
  have "data_block t c \<and> used t c" if "c \<in> owned (blk t) ip'" for c
    using that own I(4,5) S(6,8) b by (auto simp: free_def)
  moreover have "addr (blk t) ip' k \<noteq> 0" if "k * BSIZE < unat (i_size ip)" for k
  proof -
    have "k < MAXFILE" using that I(8) by simp
    then show ?thesis using ad I(9) [OF that] by simp
  qed
  moreover have "length (i_addrs ip') = 13" "i_dev ip' = ROOTDEV" "i_inum ip' = i_inum ip" "i_size ip' = i_size ip"
    using I(1,2) by (simp_all add: ip'_def)
  ultimately show "inode_wf t ip'"
    unfolding inode_wf_def using I(3,6-8) ad S(2) nb bi by auto
qed

lemma meta_step: "fs_step W s t \<Longrightarrow> ind ip' = ind ip \<Longrightarrow> i_inum ip' = i_inum ip \<Longrightarrow> meta t ip' = meta s ip"
  by (simp add: meta_def fs_stepD(7))

lemma fs_ok_low_busy:
  assumes "fs_ok s" and "data_block s b" and "used s b"
  shows "{b} \<inter> insert 1 (bitmap s \<union> free s) = {}"
  using bitmap_low(1) [OF assms(1), of b] assms(2,3) first_data_pos [of s] by (auto simp: data_block_def free_def)

text \<open>The tables of the file system are the super block and the bitmap; writing to data blocks
  leaves them alone.\<close>

lemma fs_tables:
  fixes s t :: "'z log_state_scheme"
  assumes ok: "fs_ok s" and t: "tx_ok t" "l_start t = l_start s" and eq: "\<And>m. m = 1 \<or> m \<in> bitmap s \<Longrightarrow> blk t m = blk s m"
  shows "fs_ok t" and "fs_sb t = fs_sb s" and "\<And>b. data_block t b = data_block s b" and "free t = free s" and "bitmap t = bitmap s"
    and "\<And>b. data_block s b \<Longrightarrow> used t b = used s b"
proof -
  have tx: "tx_ok s" "first_data s \<le> unat (l_start s)" "\<And>b. unat b < first_data s \<Longrightarrow> used s b" using ok by (simp_all add: fs_ok_def)
  show sb: "fs_sb t = fs_sb s" using eq [of 1] by (simp add: fs_sb_def)
  then have fd: "first_data t = first_data s" and bm: "bm_block t b = bm_block s b" for b by (simp_all add: first_data_def bm_block_def)
  then show d: "data_block t b = data_block s b" for b using t(2) by (simp add: data_block_def)
  have u: "used t c = used s c" if "unat c < unat (sb_size (fs_sb s))" for c
    using eq [of "bm_block s c"] that by (auto simp: used_def bm bitmap_def)
  then show du: "used t b = used s b" if "data_block s b" for b using data_blockD(4) [OF tx(1) that] by simp
  show "free t = free s" using d du by (auto simp: free_def)
  show "bitmap t = bitmap s" using sb bm by (simp add: bitmap_def)
  have "used t b" if "unat b < first_data s" for b
    using u [of b] tx(2,3) that tx_layout(1) [OF tx(1)] by simp
  then show "fs_ok t" using t fd tx(2) by (simp add: fs_ok_def)
qed

lemma tables_low:
  assumes "fs_ok s" and "m = 1 \<or> m \<in> bitmap s"
  shows "fs_readable s m" and "unat m < first_data s"
  using assms tx_layout(3) [of s] bitmap_low [OF assms(1), of m] tx.usable_readable [of s m] first_data_pos [of s]
  by (auto simp: fs_ok_def)

text \<open>A new entry in the indirect block.\<close>

lemma addr_ind_put:
  assumes "D' (ind ip) = wr_at enc32 (D (ind ip)) (4 * (bn - NDIRECT)) b" and "length (D (ind ip)) = BSIZE" and "ind ip \<noteq> 0"
    and bn: "NDIRECT \<le> bn" "bn < MAXFILE" "m < MAXFILE"
  shows "addr D' ip m = (if m = bn then b else addr D ip m)"
proof (cases "m < NDIRECT")
  case True
  then show ?thesis using bn(1) by (simp add: addr_def)
next
  case False
  let ?off = "4 * (bn - NDIRECT)"
  have off: "?off + 4 \<le> length (D (ind ip))" using bn assms(2) by simp
  have sep: "4 * (m - NDIRECT) + 4 \<le> ?off \<or> ?off + 4 \<le> 4 * (m - NDIRECT)" if "m \<noteq> bn"
    using that False bn(1) by arith
  have "rd_at 4 dec32 (D' (ind ip)) (4 * (m - NDIRECT)) = (if m = bn then b else rd_at 4 dec32 (D (ind ip)) (4 * (m - NDIRECT)))"
    unfolding assms(1) using c32.rd_wr_same [OF TrueI off] c32.rd_wr_other [where dec' = dec32, OF TrueI off sep] by simp
  then show ?thesis using False assms(3) by (simp add: addr_def)
qed

text \<open>\<open>balloc\<close> while the buffer of the used data block \<open>n\<close> is held.\<close>

lemma held_balloc:
  fixes s :: "'z icache_state_scheme"
  assumes ok: "fs_ok s" "l_busy s" "busy s = {}" and n: "data_block s n" "used s n" "n \<in> B" and B: "tx_budget B (Suc k) s" "bitmap s \<subseteq> B"
    and f: "free s \<noteq> {}"
  obtains j s1 b t where "bread ROOTDEV n s = Ret j s1" and "buf_data j s1 = blk s n" and "balloc ROOTDEV s1 = Ret b t" and "b \<in> free s" and "holds t j n"
    and "tx_ok t" and "lframe s t" and "busy t = {n}" and "logset t = logset s \<union> {bm_block s b, b}"
    and "\<And>m. fs_readable s m \<Longrightarrow> m \<notin> {bm_block s b, b} \<Longrightarrow> blk t m = blk s m" and "blk t n = blk s n" and "blk t b = replicate BSIZE 0"
    and "fs_ok t" and "fs_sb t = fs_sb s" and "\<And>c. data_block s c \<Longrightarrow> used s c \<Longrightarrow> used t c" and "used t b"
    and "free t = free s - {b}" and "tx_budget (insert b B) k t"
proof -
  have tx: "tx_ok s" using ok(1) by (simp add: fs_ok_def)
  note N = data_blockD [OF tx n(1)]
  have rn: "n \<notin> busy s" "tx_room s {n}" using ok(3) budget_room [OF B(1), of n] n(3) by simp_all
  obtain j s1 where s1: "bread ROOTDEV n s = Ret j s1" "tx_ok s1" "lframe s s1" "holds s1 j n" "buf_data j s1 = blk s n"
      "blk s1 = blk s" "busy s1 = {n}" "logset s1 = logset s"
    using read_after [OF tx N(2) rn] ok(3) by metis
  note L = lframe_sel [OF s1(3)]
  have e: "fs_sb s1 = fs_sb s" "bm_block s1 = bm_block s" "used s1 = used s" "first_data s1 = first_data s" "data_block s1 = data_block s"
    using L s1(6) by (simp_all add: fs_sb_def bm_block_def used_def first_data_def data_block_def fun_eq_iff)
  then have e': "bitmap s1 = bitmap s" "free s1 = free s" "fs_ok s1"
    using ok(1) s1(2) L(8) by (simp_all add: bitmap_def free_def fs_ok_def)
  have B1: "tx_budget B (Suc k) s1"
    using B(1) n(3) s1(7,8) L(9) ok(3) by (auto simp: tx_budget_def insert_absorb)
  have "free s1 \<noteq> {}" using f e'(2) by simp
  moreover have "busy s1 \<inter> insert 1 (bitmap s1 \<union> free s1) = {}" unfolding s1(7) e' by (rule fs_ok_low_busy [OF ok(1) n(1,2)])
  ultimately obtain b t where t: "balloc ROOTDEV s1 = Ret b t" "b \<in> free s1" "tx_after {bm_block s1 b, b} s1 t"
      "fs_step {} s1 t" "blk t b = replicate BSIZE 0" "used t b" "free t = free s1 - {b}" "tx_budget (insert b B) k t"
    using balloc_step [OF e'(3) _ B1] L(10) ok(2) B(2) e'(1) by metis
  note T = tx_afterD [OF t(3)] and U = fs_stepD [OF t(4)]
  have n2: "blk t n = blk s n" using fs_step_keep [OF t(4) e'(3)] n e s1(6) by simp
  have keep: "blk t m = blk s m" if "fs_readable s m" "m \<notin> {bm_block s b, b}" for m
    using T(6) that e(2) s1(6) tx.keeps_readable [OF s1(3)] by simp
  show thesis
    by (rule that [OF s1(1,5) t(1) _ T(5) [OF s1(4)] T(1) lf.frame_trans [OF s1(3) T(2)] _ _ keep n2 t(5) U(1) _ _ t(6) _ t(8)])
      (use t(2,7) T(3,4) s1(7,8) e e' U(2,8) in simp_all)
qed

text \<open>The rest of \<open>bmap\<close>: the entry is stored and the indirect block released.\<close>

lemma held_update:
  fixes s :: "'z icache_state_scheme"
  assumes s: "tx_ok s" "fs_block s n" "holds s j n" "l_busy s" and B: "tx_budget B k s" "n \<in> B" and l: "length (f (blk s n)) = BSIZE"
  obtains t where "thenk (log_update j f) (thenk (brelse j) m) s = m t" and "tx_ok t" and "lframe s t" and "busy t = busy s - {n}"
    and "logset t = insert n (logset s)" and "\<And>m. fs_readable s m \<Longrightarrow> blk t m = (if m = n then f (blk s n) else blk s m)" and "tx_budget B k t"
proof -
  have r: "tx_room s {n}" by (rule budget_room [OF B(1)]) (simp add: B(2))
  from tx.upd [where f = f, OF s(1,2,3,4) r l]
  obtain u where u: "log_update j f s = Ret () u" "tx_ok u" "lframe s u"
      "\<forall>m. fs_readable s m \<longrightarrow> blk u m = ((blk s)(n := f (blk s n))) m" "busy u = busy s" "logset u = insert n (logset s)" "holds u j n"
    using s(3) by (elim wp_unitE) blast
  have "fs_readable u n" using tx.keeps_readable [OF u(3)] tx.usable_readable [OF s(2)] by simp
  from release_after [OF u(2) this u(7)]
  obtain t where t: "brelse j u = Ret () t" "tx_ok t" "lframe u t" "blk t = blk u" "busy t = busy u - {n}" "logset t = logset u"
    by metis
  have fr: "lframe s t" by (rule lf.frame_trans [OF u(3) t(3)])
  have "insert n B = B" using B(2) by auto
  then have "logset t \<union> B = logset s \<union> B" "busy t \<union> logset t \<union> B = busy s \<union> logset s \<union> B" using t(5,6) u(5,6) B(2) by auto
  then have "tx_budget B k t" using B(1) lframe_sel(9) [OF fr] by (simp add: tx_budget_def)
  then show thesis using that [of t] t u fr by simp
qed

lemma bmap_indirect_new:
  fixes s :: "'z icache_state_scheme"
  assumes ok: "fs_ok s" "l_busy s" "busy s = {}" and ip: "icache s ! i = ip" "inode_wf s ip" "ind ip \<noteq> 0"
    and bn: "NDIRECT \<le> bn" "bn < MAXFILE" "addr (blk s) ip bn = 0" and p: "provision (Suc k) s ip"
  shows "wp (bmap_indirect ROOTDEV (ind ip) (bn - NDIRECT)) (bmap_post k i ip bn s) s"
proof -
  let ?n = "ind ip" and ?off = "4 * (bn - NDIRECT)"
  have tx: "tx_ok s" using ok(1) by (simp add: fs_ok_def)
  note I = inode_wfD [OF ip(2)]
  have n: "data_block s ?n" "used s ?n" "?n \<in> meta s ip" using I(4,5) [OF owned_ind [OF ip(3)]] ip(3) by (simp_all add: meta_def)
  note N = data_blockD [OF tx n(1)]
  have sp: "spare ip = 0" "tx_budget (meta s ip) (Suc k) s" "Suc k \<le> card (free s)" "bitmap s \<subseteq> meta s ip"
    using p ip(3) by (auto simp: provision_def spare_def meta_def)
  have "free s \<noteq> {}" using sp(3) by auto
  from held_balloc [OF ok n sp(2,4) this]
  obtain j s1 b s2 where s2: "bread ROOTDEV ?n s = Ret j s1" "buf_data j s1 = blk s ?n" "balloc ROOTDEV s1 = Ret b s2" "b \<in> free s" "holds s2 j ?n"
      "tx_ok s2" "lframe s s2" "busy s2 = {?n}" "logset s2 = logset s \<union> {bm_block s b, b}"
      "\<And>m. fs_readable s m \<Longrightarrow> m \<notin> {bm_block s b, b} \<Longrightarrow> blk s2 m = blk s m" "blk s2 ?n = blk s ?n" "blk s2 b = replicate BSIZE 0"
      "fs_ok s2" "fs_sb s2 = fs_sb s" "\<And>c. data_block s c \<Longrightarrow> used s c \<Longrightarrow> used s2 c" "used s2 b" "free s2 = free s - {b}"
      "tx_budget (insert b (meta s ip)) k s2"
    by blast
  note L = lframe_sel [OF s2(7)]
  have ds: "data_block s2 c = data_block s c" "fs_readable s2 m = fs_readable s m" "fs_block s2 ?n" "l_busy s2" for c m
    using L s2(14) tx.keeps_readable [OF s2(7)] tx.keeps_usable [OF s2(7)] N(1) ok(2) by (simp_all add: data_block_def first_data_def)
  have bb: "data_block s b" "b \<noteq> ?n" "b \<noteq> 0" "fs_readable s b" using s2(4) n(2) data_blockD(2,3) [OF tx] by (auto simp: free_def)
  let ?f = "\<lambda>d. wr_at enc32 d ?off b"
  have "length (?f (blk s2 ?n)) = BSIZE" using tx_layout(4) [OF s2(6)] bn by simp
  from held_update [where f = ?f and m = "ret b", OF s2(6) ds(3) s2(5) ds(4) s2(18) _ this] n(3)
  obtain t where t: "thenk (log_update j ?f) (thenk (brelse j) (ret b)) s2 = Ret b t" "tx_ok t" "lframe s2 t" "busy t = busy s2 - {?n}"
      "logset t = insert ?n (logset s2)" "\<And>m. fs_readable s m \<Longrightarrow> blk t m = (if m = ?n then ?f (blk s ?n) else blk s2 m)"
      "tx_budget (insert b (meta s ip)) k t"
    unfolding ds(2) s2(11) by (metis insertCI)
  have "rd_at 4 dec32 (blk s ?n) ?off = 0" using bn ip(3) by (simp add: addr_def)
  then have run: "bmap_indirect ROOTDEV ?n (bn - NDIRECT) s = Ret b t"
    using s2(1-3) t(1) by (simp add: bmap_indirect_def log_update_then)
  have fr: "lframe s t" by (rule lf.frame_trans [OF s2(7) t(3)])
  let ?N = "{bm_block s b, b, ?n}"
  have "\<not> holds s j' m" for j' m using holds_busy [OF tx_okD(2) [OF tx], of j' m] ok(3) by auto
  then have after: "tx_after ?N s t" unfolding tx_after_def using t(2,4,5,6) fr s2(8-10) ok(3) by auto
  have low: "blk t m = blk s2 m" if "m = 1 \<or> m \<in> bitmap s2" for m
    using t(6) [of m] tables_low [OF s2(13) that] ds(2) s2(14) n(1) by (auto simp: data_block_def first_data_def)
  note F = fs_tables [OF s2(13) t(2) lframe_sel(8) [OF t(3)] low, unfolded ds(1)]
  have st: "fs_step ({?n} - {0}) s t"
    unfolding fs_step_def using F s2(14,15) tx_fs_after [OF after] bb(1) s2(4) ip(3) data_blockD(4) [OF tx bb(1)]
    by (auto simp: bitmap_def intro!: exI [of _ ?N])
  have ad: "addr (blk t) ip m = (if m = bn then b else addr (blk s) ip m)" if "m < MAXFILE" for m
    by (rule addr_ind_put) (use t(6) [OF N(2)] tx_layout(4) [OF tx, of ?n] ip(3) bn that in simp_all)
  have wf: "inode_wf t (ip\<lparr>i_addrs := i_addrs ip\<rparr>)"
    by (rule inode_wf_new_block [OF ip(2) st s2(4) _ I(1) _ bn(2,3) _ bb(3)]) (use ad F(6) [of b] bb(1) s2(16) in simp_all)
  have mt: "meta t ip = meta s ip" by (rule meta_step [OF st refl refl])
  have "k \<le> card (free t)" using sp(3) F(4) s2(4,17) by simp
  then have "bmap_post k i ip bn s b t"
    unfolding bmap_post_def using lframe_icache [OF fr] st wf ad s2(4,12) mt sp(1) t(6) [OF bb(4)] t(7) bb(2) ip(1)
    by (intro exI [of _ "i_addrs ip"]) (auto simp: Let_def)
  then show ?thesis using run by (intro wpI) simp_all
qed

lemma bmap_direct_new:
  fixes s :: "'z icache_state_scheme"
  assumes ok: "fs_ok s" "l_busy s" "busy s = {}" and ip: "icache s ! i = ip" "inode_wf s ip"
    and bn: "bn < NDIRECT" "addr (blk s) ip bn = 0" and p: "provision (Suc k) s ip"
  shows "wp (bmap i (of_nat bn)) (bmap_post k i ip bn s) s"
proof -
  note I = inode_wfD [OF ip(2)]
  have B: "tx_budget (meta s ip) (Suc (k + spare ip)) s" "bitmap s \<subseteq> meta s ip" "Suc (k + spare ip) \<le> card (free s)"
    using p by (auto simp: provision_def meta_def)
  have z: "i_addrs ip ! bn = 0" using bn by (simp add: addr_def)
  have "free s \<noteq> {}" using B(3) by auto
  from bmap_slot_new [OF ok ip(1) I(2) z B(1,2) this]
  obtain b t where t: "bmap_slot i bn s = Ret b t" "b \<in> free s" "fs_step {} s t"
      "icache t = (icache s)[i := ip\<lparr>i_addrs := (i_addrs ip)[bn := b]\<rparr>]" "blk t b = replicate BSIZE 0" "used t b"
      "free t = free s - {b}" "tx_budget (insert b (meta s ip)) (k + spare ip) t"
    by metis
  let ?A = "(i_addrs ip)[bn := b]"
  have ind: "ind (ip\<lparr>i_addrs := ?A\<rparr>) = ind ip" using bn(1) by (simp add: ind_def)
  have tx: "tx_ok s" using ok(1) by (simp add: fs_ok_def)
  have b0: "b \<noteq> 0" using t(2) data_blockD(3) [OF tx] by (auto simp: free_def)
  have keep: "blk t (ind ip) = blk s (ind ip)" if "ind ip \<noteq> 0"
    using fs_step_keep [OF t(3) ok(1)] I(4,5) [OF owned_ind [OF that]] by simp
  have ad: "addr (blk t) (ip\<lparr>i_addrs := ?A\<rparr>) m = (if m = bn then b else addr (blk s) ip m)" if "m < MAXFILE" for m
    using bn(1) I(1) keep by (simp add: addr_def ind)
  have wf: "inode_wf t (ip\<lparr>i_addrs := ?A\<rparr>)"
    by (rule inode_wf_new_block [OF ip(2) t(3) t(2,6) _ ind _ bn(2) ad b0]) (use I(1) bn(1) in simp_all)
  have mt: "meta t (ip\<lparr>i_addrs := ?A\<rparr>) = meta s ip" by (rule meta_step [OF t(3) ind]) simp
  have sp: "spare (ip\<lparr>i_addrs := ?A\<rparr>) = spare ip" using ind by (simp add: spare_def)
  have "bmap_post k i ip bn s b t"
    unfolding bmap_post_def Let_def using t fs_step_mono [OF t(3)] wf ad ind mt sp B(3) by (intro exI [of _ ?A]) simp
  then show ?thesis using t(1) bn(1) by (intro wpI) (simp_all add: bmap_def)
qed

lemma bmap_new:
  fixes s :: "'z icache_state_scheme"
  assumes ok: "fs_ok s" "l_busy s" "busy s = {}" and ip: "icache s ! i = ip" "inode_wf s ip" "i < length (icache s)"
    and bn: "bn < MAXFILE" "addr (blk s) ip bn = 0" and p: "provision (Suc k) s ip"
  shows "wp (bmap i (of_nat bn)) (bmap_post k i ip bn s) s"
proof (cases "bn < NDIRECT")
  case True
  then show ?thesis by (rule bmap_direct_new [OF ok ip(1,2) _ bn(2) p])
next
  case False
  then have b12: "NDIRECT \<le> bn" by simp
  note I = inode_wfD [OF ip(2)]
  have "bn - NDIRECT < NINDIRECT" using bn(1) False by simp
  then have u: "bmap i (of_nat bn) = bindk (bmap_slot i NDIRECT) (\<lambda>a t. bmap_indirect (i_dev (icache t ! i)) a (bn - NDIRECT) t)"
    using False bn(1) by (simp add: bmap_def)
  show ?thesis
  proof (cases "ind ip = 0")
    case False
    then have "bmap_slot i NDIRECT s = Ret (ind ip) s" using ip(1) by (simp add: bmap_slot_def ind_def)
    then show ?thesis
      unfolding u using bmap_indirect_new [OF ok ip(1,2) False b12 bn p] ip(1) I(2) by (simp add: wp_def)
  next
    case True
    have B: "tx_budget (meta s ip) (Suc (Suc k)) s" "bitmap s \<subseteq> meta s ip" "Suc (Suc k) \<le> card (free s)"
      using p True by (auto simp: provision_def meta_def spare_def)
    have z: "i_addrs ip ! NDIRECT = 0" using True by (simp add: ind_def)
    have "free s \<noteq> {}" using B(3) by auto
    from bmap_slot_new [OF ok ip(1) I(2) z B(1,2) this]
    obtain b s1 where s1: "bmap_slot i NDIRECT s = Ret b s1" "b \<in> free s" "fs_step {} s s1"
        "icache s1 = (icache s)[i := ip\<lparr>i_addrs := (i_addrs ip)[NDIRECT := b]\<rparr>]" "blk s1 b = replicate BSIZE 0" "used s1 b"
        "free s1 = free s - {b}" "tx_budget (insert b (meta s ip)) (Suc k) s1"
      by metis
    define ip1 where "ip1 = ip\<lparr>i_addrs := (i_addrs ip)[NDIRECT := b]\<rparr>"
    note W = inode_wf_new_ind [OF ip(2) s1(3) s1(2,6,5) True, folded ip1_def]
    note S = fs_stepD [OF s1(3)]
    have tx: "tx_ok s" using ok(1) by (simp add: fs_ok_def)
    have b0: "b \<noteq> 0" using s1(2) data_blockD(3) [OF tx] by (auto simp: free_def)
    have i1: "icache s1 ! i = ip1" "i_dev ip1 = ROOTDEV" using s1(4) ip(3) I(2) by (simp_all add: ip1_def)
    have mt: "meta s1 ip1 = insert b (meta s ip)" using S(7) W(2) True b0 by (auto simp: meta_def ip1_def)
    have p1: "provision (Suc k) s1 ip1" using s1(7,8) B(3) s1(2) mt W(2) b0 by (simp add: provision_def spare_def)
    have bn1: "addr (blk s1) ip1 bn = 0" using W(3) bn by simp
    have pre: "l_busy s1" "busy s1 = {}" "ind ip1 \<noteq> 0" using S(4,5) ok W(2) b0 by simp_all
    from bmap_indirect_new [OF S(1) pre(1,2) i1(1) W(1) pre(3) b12 bn(1) bn1 p1]
    obtain a t where t: "bmap_indirect ROOTDEV b (bn - NDIRECT) s1 = Ret a t" "bmap_post k i ip1 bn s1 a t"
      unfolding W(2) by (elim wpE)
    then obtain A where A: "icache t = (icache s1)[i := ip1\<lparr>i_addrs := A\<rparr>]" "fs_step {b} s1 t" "inode_wf t (ip1\<lparr>i_addrs := A\<rparr>)"
        "\<And>k. k < MAXFILE \<Longrightarrow> addr (blk t) (ip1\<lparr>i_addrs := A\<rparr>) k = (if k = bn then a else addr (blk s1) ip1 k)" "a \<in> free s1"
        "blk t a = replicate BSIZE 0" "tx_budget (insert a (meta t (ip1\<lparr>i_addrs := A\<rparr>))) (k + spare (ip1\<lparr>i_addrs := A\<rparr>)) t"
        "k + spare (ip1\<lparr>i_addrs := A\<rparr>) \<le> card (free t)" "ind (ip1\<lparr>i_addrs := A\<rparr>) = b \<or> ind (ip1\<lparr>i_addrs := A\<rparr>) \<in> free s1"
      unfolding bmap_post_def Let_def W(2) using b0 by auto
    have e: "ip1\<lparr>i_addrs := A\<rparr> = ip\<lparr>i_addrs := A\<rparr>" by (simp add: ip1_def)
    have "fs_step {} s t" by (rule fs_step_trans [OF s1(3) A(2)]) (use s1(2) in auto)
    then have "bmap_post k i ip bn s a t"
      unfolding bmap_post_def Let_def using A s1(2,4,7) W(3) True e by (intro exI [of _ A]) (auto intro: fs_step_mono)
    then show ?thesis unfolding u using s1(1) i1 t(1) by (simp add: wp_def)
  qed
qed

end
