(* ===== verification/Xv6_Content.thy ===== *)
theory Xv6_Content
  imports Xv6_Bmap Xv6_Fs
begin

text \<open>
  The contents of files: what \<open>readi\<close>, \<open>writei\<close> and \<open>iupdate\<close> do to the bytes of a file inside a
  transaction, from the laws of the block store. A file is the list of its bytes.
\<close>

section \<open>Contents\<close>

definition fbyte :: "(uint \<Rightarrow> byte list) \<Rightarrow> inode \<Rightarrow> nat \<Rightarrow> byte" where
  "fbyte D ip x = D (addr D ip (x div BSIZE)) ! (x mod BSIZE)"

text \<open>The bytes of a file.\<close>

definition content :: "(uint \<Rightarrow> byte list) \<Rightarrow> inode \<Rightarrow> byte list" where
  "content D ip = map (fbyte D ip) [0..<unat (i_size ip)]"

lemma budget_insert:
  assumes "tx_budget B (Suc k) s"
  shows "tx_budget (insert a B) k s"
proof -
  have "finite B" using assms by (simp add: tx_budget_def)
  then have "card (insert a (busy s \<union> logset s \<union> B)) \<le> Suc (card (busy s \<union> logset s \<union> B))" "card (insert a (logset s \<union> B)) \<le> Suc (card (logset s \<union> B))"
    using finite_logset [of s] finite_busy [of s] by (simp_all add: card_insert_if)
  then show ?thesis using assms by (simp add: tx_budget_def)
qed

text \<open>After \<open>bmap\<close>, present or new: block \<open>bn\<close> of the file is \<open>a\<close>, and the file has the bytes it had.\<close>

definition mapped :: "nat \<Rightarrow> nat \<Rightarrow> inode \<Rightarrow> nat \<Rightarrow> 'z icache_state_scheme \<Rightarrow> uint \<Rightarrow> inode \<Rightarrow> 'z icache_state_scheme \<Rightarrow> bool" where
  "mapped k i ip bn s a ip' t \<longleftrightarrow> (\<exists>A. ip' = ip\<lparr>i_addrs := A\<rparr>) \<and> icache t = (icache s)[i := ip'] \<and> fs_step (owned (blk s) ip) s t \<and>
    inode_wf t ip' \<and> addr (blk t) ip' bn = a \<and> a \<noteq> 0 \<and> (addr (blk s) ip bn \<noteq> 0 \<longrightarrow> ip' = ip) \<and>
    (\<forall>j < MAXFILE. addr (blk s) ip j \<noteq> 0 \<longrightarrow> addr (blk t) ip' j = addr (blk s) ip j \<and> blk t (addr (blk s) ip j) = blk s (addr (blk s) ip j)) \<and>
    owned (blk t) ip' \<subseteq> owned (blk s) ip \<union> free s \<and>
    tx_budget (insert a (meta t ip')) (k + spare ip') t \<and> k + spare ip' \<le> card (free t)"

lemma bmap_run:
  fixes s :: "'z icache_state_scheme"
  assumes ok: "fs_ok s" "l_busy s" "busy s = {}" and ip: "icache s ! i = ip" "inode_wf s ip" "i < length (icache s)"
    and bn: "bn < MAXFILE" and p: "provision (Suc k) s ip"
  shows "wp (bmap i (of_nat bn)) (\<lambda>a t. \<exists>ip'. mapped k i ip bn s a ip' t) s"
proof (cases "addr (blk s) ip bn = 0")
  case False
  have B: "tx_budget (meta s ip) (Suc (k + spare ip)) s" "Suc (k + spare ip) \<le> card (free s)" using p by (simp_all add: provision_def)
  have "tx_room s {ind ip}" by (rule budget_room [OF B(1)]) simp
  from bmap_present [OF ok(1,3) ip(1,2) bn False this]
  obtain t where t: "bmap i (of_nat bn) s = Ret (addr (blk s) ip bn) t" "tx_after {} s t" "blk t = blk s" by blast
  note S = same_state [OF t(2,3)] and ic = lframe_icache [OF tx_afterD(2) [OF t(2)]]
  have st: "fs_step W s t" for W
    using tx_fs_after [OF t(2)] S(1,3,7) ok(1) unfolding fs_step_def by auto
  have fr: "free t = free s" using S(3,4) by (simp add: free_def)
  have wf: "inode_wf t ip" using ip(2) S t(3) by (simp add: inode_wf_def)
  have mt: "meta t ip = meta s ip" by (rule meta_step [OF st refl refl])
  have "tx_budget (insert (addr (blk s) ip bn) (meta s ip)) (k + spare ip) t" using budget_insert [OF B(1)] S(6) by blast
  moreover have "icache t = (icache s)[i := ip]" using ic by (simp add: ip(1) [symmetric])
  moreover have "ip = ip\<lparr>i_addrs := i_addrs ip\<rparr>" by simp
  ultimately have "mapped k i ip bn s (addr (blk s) ip bn) ip t"
    unfolding mapped_def using st [of "owned (blk s) ip"] wf False t(3) fr mt B(2) by (simp add: exI [of _ "i_addrs ip"])
  then show ?thesis using t(1) by (intro wpI) auto
next
  case True
  from bmap_new [OF ok ip bn True p]
  obtain a t A where t: "bmap i (of_nat bn) s = Ret a t" "icache t = (icache s)[i := ip\<lparr>i_addrs := A\<rparr>]" "fs_step ({ind ip} - {0}) s t"
      "inode_wf t (ip\<lparr>i_addrs := A\<rparr>)" "\<And>k. k < MAXFILE \<Longrightarrow> addr (blk t) (ip\<lparr>i_addrs := A\<rparr>) k = (if k = bn then a else addr (blk s) ip k)"
      "ind (ip\<lparr>i_addrs := A\<rparr>) = ind ip \<or> ind (ip\<lparr>i_addrs := A\<rparr>) \<in> free s" "a \<in> free s"
      "tx_budget (insert a (meta t (ip\<lparr>i_addrs := A\<rparr>))) (k + spare (ip\<lparr>i_addrs := A\<rparr>)) t" "k + spare (ip\<lparr>i_addrs := A\<rparr>) \<le> card (free t)"
    unfolding bmap_post_def Let_def by (elim wpE) blast
  note I = inode_wfD [OF ip(2)] and S = fs_stepD [OF t(3)]
  have tx: "tx_ok s" using ok(1) by (simp add: fs_ok_def)
  have a0: "a \<noteq> 0" using t(7) data_blockD(3) [OF tx] by (auto simp: free_def)
  have st: "fs_step (owned (blk s) ip) s t" by (rule fs_step_mono [OF t(3)]) (auto simp: owned_def)
  have keep: "addr (blk t) (ip\<lparr>i_addrs := A\<rparr>) j = addr (blk s) ip j \<and> blk t (addr (blk s) ip j) = blk s (addr (blk s) ip j)"
    if j: "j < MAXFILE" "addr (blk s) ip j \<noteq> 0" for j
  proof -
    have o: "addr (blk s) ip j \<in> owned (blk s) ip" by (rule owned_addr [OF j])
    have "blk t (addr (blk s) ip j) = blk s (addr (blk s) ip j)"
      by (rule fs_step_keep [OF t(3) ok(1) I(4) [OF o] I(5) [OF o]]) (use I(7) [OF j] in simp)
    then show ?thesis using t(5) j True by auto
  qed
  have own: "owned (blk t) (ip\<lparr>i_addrs := A\<rparr>) \<subseteq> owned (blk s) ip \<union> free s" using t(5-7) by (auto simp: owned_def)
  have "mapped k i ip bn s a (ip\<lparr>i_addrs := A\<rparr>) t"
    unfolding mapped_def using t st keep own a0 bn True by auto
  then show ?thesis using t(1) by (intro wpI) auto
qed

text \<open>The bytes \<open>d\<close> have been written to the file from \<open>lo\<close> on; the size in the inode is unchanged.\<close>

definition write_post :: "nat \<Rightarrow> nat \<Rightarrow> inode \<Rightarrow> nat \<Rightarrow> byte list \<Rightarrow> 'z icache_state_scheme \<Rightarrow> inode \<Rightarrow> 'z icache_state_scheme \<Rightarrow> bool" where
  "write_post k i ip lo d s ip' t \<longleftrightarrow> (\<exists>A. ip' = ip\<lparr>i_addrs := A\<rparr>) \<and> icache t = (icache s)[i := ip'] \<and> fs_step (owned (blk s) ip) s t \<and>
    inode_wf t ip' \<and> provision k t ip' \<and> owned (blk t) ip' \<subseteq> owned (blk s) ip \<union> free s \<and>
    ((\<forall>x. lo \<le> x \<and> x < lo + length d \<longrightarrow> addr (blk s) ip (x div BSIZE) \<noteq> 0) \<longrightarrow> ip' = ip) \<and>
    (\<forall>j < MAXFILE. addr (blk s) ip j \<noteq> 0 \<longrightarrow> addr (blk t) ip' j = addr (blk s) ip j) \<and>
    (\<forall>x < MAXFILE * BSIZE. lo \<le> x \<and> x < lo + length d \<longrightarrow> addr (blk t) ip' (x div BSIZE) \<noteq> 0 \<and> fbyte (blk t) ip' x = d ! (x - lo)) \<and>
    (\<forall>x < MAXFILE * BSIZE. addr (blk s) ip (x div BSIZE) \<noteq> 0 \<longrightarrow> \<not> (lo \<le> x \<and> x < lo + length d) \<longrightarrow>
      fbyte (blk t) ip' x = fbyte (blk s) ip x)"

lemma write_postD:
  assumes "write_post k i ip lo d s ip' t"
  shows "\<exists>A. ip' = ip\<lparr>i_addrs := A\<rparr>" and "icache t = (icache s)[i := ip']" and "fs_step (owned (blk s) ip) s t" and "inode_wf t ip'"
    and "provision k t ip'" and "owned (blk t) ip' \<subseteq> owned (blk s) ip \<union> free s"
    and "\<And>j. j < MAXFILE \<Longrightarrow> addr (blk s) ip j \<noteq> 0 \<Longrightarrow> addr (blk t) ip' j = addr (blk s) ip j"
    and "\<And>x. x < MAXFILE * BSIZE \<Longrightarrow> lo \<le> x \<Longrightarrow> x < lo + length d \<Longrightarrow> addr (blk t) ip' (x div BSIZE) \<noteq> 0"
    and "\<And>x. x < MAXFILE * BSIZE \<Longrightarrow> lo \<le> x \<Longrightarrow> x < lo + length d \<Longrightarrow> fbyte (blk t) ip' x = d ! (x - lo)"
    and "\<And>x. x < MAXFILE * BSIZE \<Longrightarrow> addr (blk s) ip (x div BSIZE) \<noteq> 0 \<Longrightarrow> \<not> (lo \<le> x \<and> x < lo + length d) \<Longrightarrow>
      fbyte (blk t) ip' x = fbyte (blk s) ip x"
    and "(\<And>x. lo \<le> x \<Longrightarrow> x < lo + length d \<Longrightarrow> addr (blk s) ip (x div BSIZE) \<noteq> 0) \<Longrightarrow> ip' = ip"
  using assms unfolding write_post_def by blast+

lemma write_post_refl:
  assumes "fs_ok s" and "icache s ! i = ip" and "inode_wf s ip" and "provision k s ip"
  shows "write_post k i ip lo [] s ip s"
  unfolding write_post_def using assms fs_step_refl [OF assms(1)] by (auto simp: exI [of _ "i_addrs ip"])

lemma write_post_trans:
  assumes "write_post k i ip lo d s ip1 t" and "write_post k' i ip1 (lo + length d) d' t ip2 u" and "lo + length d + length d' \<le> MAXFILE * BSIZE"
  shows "write_post k' i ip lo (d @ d') s ip2 u"
proof -
  note S = write_postD [OF assms(1)] and T = write_postD [OF assms(2)]
  have a2: "addr (blk u) ip2 (x div BSIZE) \<noteq> 0" "fbyte (blk u) ip2 x = (d @ d') ! (x - lo)"
    if x: "x < MAXFILE * BSIZE" "lo \<le> x" "x < lo + length (d @ d')" for x
  proof -
    have m: "x div BSIZE < MAXFILE" using x(1) by (simp add: less_mult_imp_div_less)
    have "addr (blk u) ip2 (x div BSIZE) \<noteq> 0 \<and> fbyte (blk u) ip2 x = (d @ d') ! (x - lo)"
    proof (cases "x < lo + length d")
      case True
      note s = S(8,9) [OF x(1,2) True]
      have "addr (blk u) ip2 (x div BSIZE) = addr (blk t) ip1 (x div BSIZE)" by (rule T(7) [OF m s(1)])
      moreover have "fbyte (blk u) ip2 x = fbyte (blk t) ip1 x" by (rule T(10) [OF x(1) s(1)]) (use True in simp)
      moreover have "x - lo < length d" using True x(2) by arith
      ultimately show ?thesis using s by (simp add: nth_append)
    next
      case False
      then have "\<not> x - lo < length d" "lo + length d \<le> x" "x < lo + length d + length d'" using x(2,3) by auto
      then show ?thesis using T(8,9) [OF x(1)] by (simp add: nth_append)
    qed
    then show "addr (blk u) ip2 (x div BSIZE) \<noteq> 0" "fbyte (blk u) ip2 x = (d @ d') ! (x - lo)" by simp_all
  qed
  have "fbyte (blk u) ip2 x = fbyte (blk s) ip x"
    if x: "x < MAXFILE * BSIZE" "addr (blk s) ip (x div BSIZE) \<noteq> 0" "\<not> (lo \<le> x \<and> x < lo + length (d @ d'))" for x
  proof -
    have m: "x div BSIZE < MAXFILE" using x(1) by (simp add: less_mult_imp_div_less)
    have s: "fbyte (blk t) ip1 x = fbyte (blk s) ip x" by (rule S(10) [OF x(1,2)]) (use x(3) in auto)
    have "fbyte (blk u) ip2 x = fbyte (blk t) ip1 x" by (rule T(10) [OF x(1)]) (use S(7) [OF m x(2)] x(2,3) in auto)
    then show ?thesis using s by simp
  qed
  moreover have "fs_step (owned (blk s) ip) s u" by (rule fs_step_trans [OF S(3) T(3)]) (use S(6) in auto)
  moreover have "owned (blk u) ip2 \<subseteq> owned (blk s) ip \<union> free s" using T(6) S(6) fs_stepD(9) [OF S(3)] by blast
  moreover have "\<exists>A. ip2 = ip\<lparr>i_addrs := A\<rparr>" using S(1) T(1) by auto
  moreover have "icache u = (icache s)[i := ip2]" using S(2) T(2) by simp
  moreover have "addr (blk u) ip2 j = addr (blk s) ip j" if "j < MAXFILE" "addr (blk s) ip j \<noteq> 0" for j
    using S(7) [OF that] T(7) [OF that(1)] that(2) by simp
  moreover have "ip2 = ip" if all: "\<And>x. lo \<le> x \<Longrightarrow> x < lo + length (d @ d') \<Longrightarrow> addr (blk s) ip (x div BSIZE) \<noteq> 0"
  proof -
    have e: "ip1 = ip" by (rule S(11)) (use all in simp)
    have "addr (blk t) ip1 (x div BSIZE) \<noteq> 0" if x: "lo + length d \<le> x" "x < lo + length d + length d'" for x
    proof -
      have "addr (blk s) ip (x div BSIZE) \<noteq> 0" using all [of x] x by simp
      moreover have "x div BSIZE < MAXFILE" using x assms(3) by (simp add: less_mult_imp_div_less)
      ultimately show ?thesis using S(7) by simp
    qed
    then show ?thesis using T(11) e by simp
  qed
  ultimately show ?thesis unfolding write_post_def using T(4,5) a2 by blast
qed

lemma fs_step_user:
  assumes "fs_step W s t"
  shows "mem t = mem s" and "cpus t = cpus s" and "mycpu t = mycpu s" and "curproc t = curproc s"
proof -
  obtain N where "tx_after N (s\<lparr>icache := icache t\<rparr>) t" using assms unfolding fs_step_def fs_after_def by blast
  from lframe_sel [OF tx_afterD(2) [OF this]]
  show "mem t = mem s" "cpus t = cpus s" "mycpu t = mycpu s" "curproc t = curproc s" by (simp_all add: curproc_def)
qed

text \<open>Writing to a data block of the file.\<close>

lemma data_write:
  fixes s t :: "'z icache_state_scheme"
  assumes ok: "fs_ok s" and wf: "inode_wf s ip" and a: "addr (blk s) ip bn = a" "a \<noteq> 0" "bn < MAXFILE" and t: "tx_after {a} s t"
  shows "fs_step (owned (blk s) ip) s t" and "inode_wf t ip" and "free t = free s" and "meta t ip = meta s ip"
    and "\<And>j. addr (blk t) ip j = addr (blk s) ip j" and "\<And>j. j < MAXFILE \<Longrightarrow> j \<noteq> bn \<Longrightarrow> addr (blk s) ip j \<noteq> 0 \<Longrightarrow> blk t (addr (blk s) ip j) = blk s (addr (blk s) ip j)"
proof -
  note I = inode_wfD [OF wf] and T = tx_afterD [OF t]
  have tx: "tx_ok s" using ok by (simp add: fs_ok_def)
  have own: "a \<in> owned (blk s) ip" using owned_addr [OF a(3)] a(1,2) by blast
  have keep: "blk t m = blk s m" if "fs_readable s m" "m \<noteq> a" for m using T(6) that by simp
  have "blk t m = blk s m" if "m = 1 \<or> m \<in> bitmap s" for m
    by (rule keep [OF tables_low(1) [OF ok that]]) (use I(4) [OF own] tables_low(2) [OF ok that] in \<open>auto simp: data_block_def\<close>)
  note F = fs_tables [OF ok T(1,10) this]
  show st: "fs_step (owned (blk s) ip) s t" using F(1,2,6) tx_fs_after [OF t] own unfolding fs_step_def by blast
  show "free t = free s" by (rule F(4))
  show "meta t ip = meta s ip" by (rule meta_step [OF st refl refl])
  have rd: "fs_readable s b" if "b \<in> owned (blk s) ip" for b using data_blockD(2) [OF tx I(4) [OF that]] .
  have ik: "blk t (ind ip) = blk s (ind ip)" if "ind ip \<noteq> 0"
    using keep [OF rd [OF owned_ind [OF that]]] I(7) [OF a(3)] a(1,2) by auto
  show ad: "addr (blk t) ip j = addr (blk s) ip j" for j by (rule addr_cong) (rule ik)
  then have "owned (blk t) ip = owned (blk s) ip" by (simp add: owned_def)
  then show "inode_wf t ip" using wf ad F(2,3,6) unfolding inode_wf_def by auto
  show "blk t (addr (blk s) ip j) = blk s (addr (blk s) ip j)" if j: "j < MAXFILE" "j \<noteq> bn" "addr (blk s) ip j \<noteq> 0" for j
    by (rule keep [OF rd [OF owned_addr [OF j(1,3)]]]) (use I(6) [OF j(1) a(3) _ j(3)] j(2) a(1) in auto)
qed

section \<open>writei\<close>

text \<open>A source of the bytes \<open>d\<close>: a local variable, or user memory that holds them.\<close>

definition delivers :: "source \<Rightarrow> byte list \<Rightarrow> 'z proc_state_scheme \<Rightarrow> bool" where
  "delivers src d s \<longleftrightarrow> (\<forall>t k m. mem t = mem s \<longrightarrow> cpus t = cpus s \<longrightarrow> mycpu t = mycpu s \<longrightarrow> k + m \<le> length d \<longrightarrow>
    copy_from src k m (t :: 'z proc_state_scheme) = Ret (take m (drop k d)) t)"

lemma delivers_step: "fs_step W s t \<Longrightarrow> delivers src d t = delivers src d s"
  by (simp add: delivers_def fs_step_user)

lemma word_div_512: "off div of_nat BSIZE = (of_nat (unat off div BSIZE) :: uint)"
proof -
  have "unat off div BSIZE < 4294967296" by (rule le_less_trans [OF div_le_dividend unat_lt_2_32])
  then show ?thesis by (simp add: word_eq_iff_unat unat_div)
qed

lemma block_pos:
  assumes "lo mod BSIZE + m \<le> BSIZE" and "lo \<le> x" and "x < lo + m"
  shows "x div BSIZE = lo div BSIZE" and "x mod BSIZE = lo mod BSIZE + (x - lo)"
proof -
  define q r where "q = lo div BSIZE" and "r = lo mod BSIZE"
  have "lo = BSIZE * q + r" by (simp add: q_def r_def)
  then have x: "x = BSIZE * q + (r + (x - lo))" using assms(2) by simp
  have "r + (x - lo) < BSIZE" using assms unfolding r_def by arith
  then show "x div BSIZE = lo div BSIZE" "x mod BSIZE = lo mod BSIZE + (x - lo)"
    unfolding q_def [symmetric] r_def [symmetric] using arg_cong [OF x, of "\<lambda>x. x div BSIZE"] arg_cong [OF x, of "\<lambda>x. x mod BSIZE"]
    by simp_all
qed

text \<open>The bytes of a file after \<open>d\<close> has been put into one of its blocks.\<close>

lemma fbyte_chunk:
  assumes same: "\<And>j. addr D' ip j = addr D ip j" and a: "D' (addr D ip (lo div BSIZE)) = splice_at (lo mod BSIZE) d (D (addr D ip (lo div BSIZE)))"
    and len: "length (D (addr D ip (lo div BSIZE))) = BSIZE" and d: "lo mod BSIZE + length d \<le> BSIZE"
    and other: "x div BSIZE \<noteq> lo div BSIZE \<Longrightarrow> D' (addr D ip (x div BSIZE)) = D (addr D ip (x div BSIZE))"
  shows "fbyte D' ip x = (if lo \<le> x \<and> x < lo + length d then d ! (x - lo) else fbyte D ip x)"
proof (cases "x div BSIZE = lo div BSIZE")
  case True
  let ?B = "D (addr D ip (lo div BSIZE))"
  have f: "fbyte D' ip x = splice_at (lo mod BSIZE) d ?B ! (x mod BSIZE)" "fbyte D ip x = ?B ! (x mod BSIZE)"
    using a True by (simp_all add: fbyte_def same)
  have n: "splice_at (lo mod BSIZE) d ?B ! (x mod BSIZE) =
      (if lo mod BSIZE \<le> x mod BSIZE \<and> x mod BSIZE < lo mod BSIZE + length d then d ! (x mod BSIZE - lo mod BSIZE) else ?B ! (x mod BSIZE))"
    using nth_splice_at [of "lo mod BSIZE" d ?B "x mod BSIZE"] d len by simp
  have e: "x = BSIZE * (lo div BSIZE) + x mod BSIZE" "lo = BSIZE * (lo div BSIZE) + lo mod BSIZE"
    using mult_div_mod_eq [of BSIZE x] mult_div_mod_eq [of BSIZE lo] unfolding True by linarith+
  then have "lo mod BSIZE \<le> x mod BSIZE \<longleftrightarrow> lo \<le> x" "x mod BSIZE < lo mod BSIZE + length d \<longleftrightarrow> x < lo + length d"
      "x mod BSIZE - lo mod BSIZE = x - lo"
    by linarith+
  then show ?thesis using f n by simp
next
  case False
  then have "\<not> (lo \<le> x \<and> x < lo + length d)" using block_pos(1) [OF d, of x] by blast
  then show ?thesis using other [OF False] by (simp only: fbyte_def same if_False)
qed

text \<open>One turn of the loop of \<open>writei\<close>: \<open>d\<close> goes into one block.\<close>

lemma write_chunk:
  fixes s :: "'z cons_state_scheme"
  assumes ok: "fs_ok s" "l_busy s" "busy s = {}" and ip: "icache s ! i = ip" "inode_wf s ip" "i < length (icache s)"
    and p: "provision (Suc k) s ip" and d: "length d = m" "0 < m" "unat off mod BSIZE + m \<le> BSIZE" "unat off + m \<le> MAXFILE * BSIZE"
    and src: "\<And>t. mem t = mem s \<Longrightarrow> cpus t = cpus s \<Longrightarrow> mycpu t = mycpu s \<Longrightarrow> copy_from src tot m (t :: 'z cons_state_scheme) = Ret d t"
  shows "\<exists>t ip'. bindk (bmap i (off div of_nat BSIZE)) (\<lambda>a s. bindk (bread (i_dev (icache s ! i)) a) (\<lambda>bp.
       bindk (copy_from src tot m) (\<lambda>d. thenk (set_data bp (splice_at (unat off mod BSIZE) d))
       (thenk (log_write bp) (thenk (brelse bp) rest)))) s) s = rest t \<and> write_post k i ip (unat off) d s ip' t"
proof -
  let ?bn = "unat off div BSIZE" and ?pos = "unat off mod BSIZE"
  have bn: "?bn < MAXFILE" using d(2,4) by (simp add: less_mult_imp_div_less)
  obtain a s1 ip1 where s1: "bmap i (off div of_nat BSIZE) s = Ret a s1" "mapped k i ip ?bn s a ip1 s1"
    unfolding word_div_512 using bmap_run [OF ok ip bn p] by (auto elim!: wpE)
  have same: "addr (blk s) ip ?bn \<noteq> 0 \<Longrightarrow> ip1 = ip"
    and M: "\<exists>A. ip1 = ip\<lparr>i_addrs := A\<rparr>" "icache s1 = (icache s)[i := ip1]" "fs_step (owned (blk s) ip) s s1" "inode_wf s1 ip1"
      "addr (blk s1) ip1 ?bn = a" "a \<noteq> 0"
      "\<And>j. j < MAXFILE \<Longrightarrow> addr (blk s) ip j \<noteq> 0 \<Longrightarrow> addr (blk s1) ip1 j = addr (blk s) ip j"
      "\<And>j. j < MAXFILE \<Longrightarrow> addr (blk s) ip j \<noteq> 0 \<Longrightarrow> blk s1 (addr (blk s) ip j) = blk s (addr (blk s) ip j)"
      "owned (blk s1) ip1 \<subseteq> owned (blk s) ip \<union> free s" "tx_budget (insert a (meta s1 ip1)) (k + spare ip1) s1" "k + spare ip1 \<le> card (free s1)"
    using s1(2) unfolding mapped_def by blast+
  note S = fs_stepD [OF M(3)] and I1 = inode_wfD [OF M(4)]
  have tx1: "tx_ok s1" using S(1) by (simp add: fs_ok_def)
  have own: "a \<in> owned (blk s1) ip1" using owned_addr [OF bn] M(5,6) by blast
  let ?f = "splice_at ?pos d"
  have a1: "fs_block s1 a" "a \<notin> busy s1" "tx_room s1 {a}" "l_busy s1" "length (?f (blk s1 a)) = BSIZE"
    using data_blockD(1) [OF tx1 I1(4) [OF own]] S(4,5) ok budget_room [OF M(10), of a] tx_layout(4) [OF tx1, of a] d(1,3) by simp_all
  have "\<exists>t. bindk (bread ROOTDEV a) (\<lambda>bp. bindk (copy_from src tot m) (\<lambda>d. thenk (set_data bp (splice_at ?pos d))
       (thenk (log_write bp) (thenk (brelse bp) rest)))) s1 = rest t \<and> tx_after {a} s1 t \<and> blk t a = ?f (blk s1 a)"
  proof (rule modify_then [where f = ?f, OF tx1 a1])
    fix j u assume "lframe s1 u"
    then have "copy_from src tot m u = Ret d u" using src [of u] lframe_sel(3-5) [of s1 u] fs_step_user [OF M(3)] by simp
    then show "bindk (copy_from src tot m) (\<lambda>d. thenk (set_data j (splice_at ?pos d)) (thenk (log_write j) (thenk (brelse j) rest))) u =
        thenk (log_update j ?f) (thenk (brelse j) rest) u" by (simp add: log_update_then)
  qed
  then obtain t where t: "bindk (bread ROOTDEV a) (\<lambda>bp. bindk (copy_from src tot m) (\<lambda>d. thenk (set_data bp (splice_at ?pos d))
       (thenk (log_write bp) (thenk (brelse bp) rest)))) s1 = rest t" "tx_after {a} s1 t" "blk t a = ?f (blk s1 a)" by blast
  note W = data_write [OF S(1) M(4,5,6) bn t(2)] and T = tx_afterD [OF t(2)]
  have Bt: "tx_budget (meta t ip1) (k + spare ip1) t"
  proof -
    have "tx_budget (insert a (meta s1 ip1)) (k + spare ip1 - 0) t" by (rule budget_after [OF t(2) M(10)]) auto
    then have "tx_budget (insert a (meta s1 ip1)) (k + spare ip1) t" by simp
    from budget_subset [OF this, of "meta s1 ip1"] show ?thesis unfolding W(4) by blast
  qed
  have byte: "fbyte (blk t) ip1 x = (if unat off \<le> x \<and> x < unat off + length d then d ! (x - unat off) else fbyte (blk s1) ip1 x)"
    if "x div BSIZE < MAXFILE" "addr (blk s1) ip1 (x div BSIZE) \<noteq> 0" for x
    by (rule fbyte_chunk [OF W(5)]) (use M(5) t(3) tx_layout(4) [OF tx1, of a] d(1,3) W(6) [OF that(1) _ that(2)] in simp_all)
  have new: "addr (blk t) ip1 (x div BSIZE) \<noteq> 0 \<and> fbyte (blk t) ip1 x = d ! (x - unat off)" if x: "unat off \<le> x" "x < unat off + length d" for x
  proof -
    have b: "x div BSIZE = ?bn" using block_pos(1) [OF _ x] d(1,3) by simp
    then show ?thesis using byte [of x] x W(5) M(5,6) bn by simp
  qed
  have old: "fbyte (blk t) ip1 x = fbyte (blk s) ip x"
    if x: "x < MAXFILE * BSIZE" "addr (blk s) ip (x div BSIZE) \<noteq> 0" "\<not> (unat off \<le> x \<and> x < unat off + length d)" for x
  proof -
    have m: "x div BSIZE < MAXFILE" using x(1) by (simp add: less_mult_imp_div_less)
    note e = M(7,8) [OF m x(2)]
    have "fbyte (blk t) ip1 x = fbyte (blk s1) ip1 x" using byte [OF m] e(1) x(2,3) by simp
    then show ?thesis using e by (simp add: fbyte_def)
  qed
  have "write_post k i ip (unat off) d s ip1 t"
    unfolding write_post_def
  proof (intro conjI allI impI)
    show "icache t = (icache s)[i := ip1]" using M(2) lframe_icache [OF T(2)] by simp
    show "fs_step (owned (blk s) ip) s t" by (rule fs_step_trans [OF M(3) W(1)]) (use M(9) in auto)
    show "provision k t ip1" using Bt M(11) W(3) by (simp add: provision_def)
    show "owned (blk t) ip1 \<subseteq> owned (blk s) ip \<union> free s" using M(9) W(5) by (simp add: owned_def)
    show "ip1 = ip" if "\<forall>x. unat off \<le> x \<and> x < unat off + length d \<longrightarrow> addr (blk s) ip (x div BSIZE) \<noteq> 0"
      using same that d(1,2) by (metis le_refl less_add_same_cancel1)
  qed (use M(1,7) W(2,5) new old in auto)
  moreover have "i_dev (icache s1 ! i) = ROOTDEV" using M(2) ip(3) I1(2) by simp
  ultimately show ?thesis using s1(1) t(1) by auto
qed

definition spanned :: "nat \<Rightarrow> nat \<Rightarrow> nat" where
  "spanned lo n = (if n = 0 then 0 else Suc ((lo + n - 1) div BSIZE - lo div BSIZE))"

lemma spanned_step:
  assumes "0 < n" and "m = min n (BSIZE - lo mod BSIZE)"
  shows "spanned lo n = Suc (spanned (lo + m) (n - m))"
proof (cases "m = n")
  case True
  then have "lo mod BSIZE + n \<le> BSIZE" using assms by (simp add: min_def split: if_splits)
  then have "(lo + n - 1) div BSIZE = lo div BSIZE" using block_pos(1) [of lo n "lo + n - 1"] assms(1) by simp
  then show ?thesis using True assms(1) by (simp add: spanned_def)
next
  case False
  then have m: "m = BSIZE - lo mod BSIZE" "m < n" using assms by (simp_all add: min_def split: if_splits)
  have "lo mod BSIZE < BSIZE" by simp
  then have e: "lo + m = BSIZE * Suc (lo div BSIZE)" unfolding m(1) mult_Suc_right using mult_div_mod_eq [of BSIZE lo] by linarith
  then have q: "(lo + m) div BSIZE = Suc (lo div BSIZE)" by simp
  have "(lo + m) div BSIZE \<le> (lo + n - 1) div BSIZE" using m(2) by (intro div_le_mono) simp
  then have "Suc ((lo + n - 1) div BSIZE - Suc (lo div BSIZE)) = (lo + n - 1) div BSIZE - lo div BSIZE" unfolding q by arith
  then show ?thesis using m(2) q by (simp add: spanned_def)
qed

lemma writei_loop_run:
  fixes s :: "'z cons_state_scheme"
  assumes "fs_ok s" "l_busy s" "busy s = {}" and "icache s ! i = ip" "inode_wf s ip" "i < length (icache s)"
    and "provision (spanned (unat off) left + k) s ip" and "unat off + left \<le> MAXFILE * BSIZE"
    and "delivers src data s" and "tot + left \<le> length data"
  shows "wp (writei_loop i src off tot left) (\<lambda>r t. unat r = unat off + left \<and>
    (\<exists>ip'. write_post k i ip (unat off) (take left (drop tot data)) s ip' t)) s"
  using assms
proof (induction left arbitrary: off tot s ip rule: less_induct)
  case (less left)
  note A = less.prems
  show ?case
  proof (cases "left = 0")
    case True
    then show ?thesis using write_post_refl [OF A(1,4,5)] A(7) by (subst writei_loop.simps) (auto simp: spanned_def)
  next
    case False
    define m where "m = min left (BSIZE - unat off mod BSIZE)"
    define d where "d = take m (drop tot data)"
    have m: "0 < m" "m \<le> left" "unat off mod BSIZE + m \<le> BSIZE" "unat off + m \<le> MAXFILE * BSIZE" "length d = m"
      using False A(8,10) mod_less_divisor [of BSIZE "unat off"] by (auto simp: m_def d_def)
    have sp: "provision (Suc (spanned (unat off + m) (left - m) + k)) s ip"
      using A(7) spanned_step [of left m "unat off"] False by (simp add: m_def)
    have src: "copy_from src tot m t = Ret d t" if "mem t = mem s" "cpus t = cpus s" "mycpu t = mycpu s" for t :: "'z cons_state_scheme"
      using A(9,10) m(2) that unfolding delivers_def d_def by simp
    have off: "unat (off + of_nat m) = unat off + m"
      using unat_add_no_wrap [of off "of_nat m"] m(4) by simp
    let ?rest = "writei_loop i src (off + of_nat m) (tot + m) (left - m)"
    have code: "writei_loop i src off tot left = bindk (bmap i (off div of_nat BSIZE)) (\<lambda>a s. bindk (bread (i_dev (icache s ! i)) a) (\<lambda>bp.
        bindk (copy_from src tot m) (\<lambda>d. thenk (set_data bp (splice_at (unat off mod BSIZE) d))
        (thenk (log_write bp) (thenk (brelse bp) ?rest)))) s)"
      by (subst writei_loop.simps) (simp only: False if_False Let_def m_def)
    have "\<exists>t ip1. writei_loop i src off tot left s = ?rest t \<and>
        write_post (spanned (unat off + m) (left - m) + k) i ip (unat off) d s ip1 t"
      unfolding code by (rule write_chunk [OF A(1-6) sp m(5,1,3,4) src])
    then obtain t ip1 where t: "writei_loop i src off tot left s = ?rest t"
        "write_post (spanned (unat off + m) (left - m) + k) i ip (unat off) d s ip1 t" by blast
    note T = write_postD [OF t(2)] and S = fs_stepD [OF T(3)]
    have pre: "l_busy t" "busy t = {}" "icache t ! i = ip1" "i < length (icache t)" "delivers src data t"
      using S(4,5) A(2,3,6,9) T(2) delivers_step [OF T(3)] by simp_all
    have "wp ?rest (\<lambda>r u. unat r = unat (off + of_nat m) + (left - m) \<and>
        (\<exists>ip'. write_post k i ip1 (unat (off + of_nat m)) (take (left - m) (drop (tot + m) data)) t ip' u)) t"
      by (rule less.IH [OF _ S(1) pre(1,2,3) T(4) pre(4) _ _ pre(5)]) (use m T(5) off A(8,10) in simp_all)
    then obtain r u ip2 where u: "?rest t = Ret r u" "unat r = unat off + left"
        "write_post k i ip1 (unat off + length d) (take (left - m) (drop (tot + m) data)) t ip2 u"
      using m(2,5) off by (auto elim!: wpE)
    have "write_post k i ip (unat off) (d @ take (left - m) (drop (tot + m) data)) s ip2 u"
      by (rule write_post_trans [OF t(2) u(3)]) (use m A(8,10) in simp)
    moreover have "d @ take (left - m) (drop (tot + m) data) = take left (drop tot data)"
      using take_add [of m "left - m" "drop tot data"] m(2) by (simp add: d_def add.commute)
    ultimately show ?thesis using t(1) u(1,2) by (intro wpI) auto
  qed
qed

section \<open>The inode on disk\<close>

definition disk_inode :: "(uint \<Rightarrow> byte list) \<Rightarrow> uint \<Rightarrow> dinode" where
  "disk_inode D n = rd_at 64 dec_dinode (D (IBLOCK n)) (dinode_off n)"

lemma dinode_off: "dinode_off n + 64 \<le> BSIZE"
proof -
  have "unat (n mod 8) = unat n mod 8" by (simp add: unat_mod)
  then show ?thesis by (simp add: dinode_off_def)
qed

lemma dinode_sep:
  assumes "IBLOCK n = IBLOCK m" and "n \<noteq> m"
  shows "dinode_off n + 64 \<le> dinode_off m \<or> dinode_off m + 64 \<le> dinode_off n"
proof -
  have "n div 8 = m div 8" using assms(1) by (simp add: IBLOCK_def)
  then have "unat (n div 8) = unat (m div 8)" by simp
  then have d: "unat n div 8 = unat m div 8" by (simp add: unat_div)
  have "unat n mod 8 \<noteq> unat m mod 8" using d assms(2) by (metis div_mult_mod_eq word_eq_iff_unat)
  then show ?thesis by (auto simp: dinode_off_def unat_mod)
qed

lemma iupdate_run:
  fixes s :: "'z icache_state_scheme"
  assumes ok: "fs_ok s" "l_busy s" "busy s = {}" and ip: "icache s ! i = ip" "i_dev ip = ROOTDEV" "length (i_addrs ip) = 13"
    "i_inum ip < sb_ninodes (fs_sb s)" and r: "tx_room s {IBLOCK (i_inum ip)}"
  shows "wp (iupdate i) (\<lambda>_ t. tx_after {IBLOCK (i_inum ip)} s t \<and> disk_inode (blk t) (i_inum ip) = inode_store ip \<and>
    (\<forall>n. n < sb_ninodes (fs_sb s) \<longrightarrow> n \<noteq> i_inum ip \<longrightarrow> disk_inode (blk t) n = disk_inode (blk s) n)) s"
proof -
  let ?n = "i_inum ip" and ?f = "\<lambda>d. wr_at enc_dinode d (dinode_off (i_inum ip)) (inode_store ip)"
  have tx: "tx_ok s" using ok(1) by (simp add: fs_ok_def)
  note len = tx_layout(4) [OF tx] and N = iblock_low [OF ok(1) ip(4)]
  have wfd: "length (d_addrs (inode_store ip)) = 13" using ip(3) by (simp add: inode_store_def)
  have off: "dinode_off ?n + 64 \<le> length (blk s (IBLOCK ?n))" using dinode_off [of ?n] len by simp
  have l: "length (?f (blk s (IBLOCK ?n))) = BSIZE" using c_dinode.length_wr [OF wfd off] len by simp
  have nb: "IBLOCK ?n \<notin> busy s" using ok(3) by simp
  from modify_after [where f = ?f, OF tx N(3) nb r ok(2) l]
  obtain t where t: "bindk (bread ROOTDEV (IBLOCK ?n)) (\<lambda>bp. thenk (log_update bp ?f) (brelse bp)) s = Ret () t" "tx_after {IBLOCK ?n} s t"
      "blk t (IBLOCK ?n) = ?f (blk s (IBLOCK ?n))"
    by (elim wp_unitE) blast
  have "iupdate i s = Ret () t" using t(1) ip(1,2) by (simp add: iupdate_def log_update_then Let_def)
  moreover have "disk_inode (blk t) ?n = inode_store ip"
    using c_dinode.rd_wr_same [OF wfd off] t(3) by (simp add: disk_inode_def)
  moreover have "disk_inode (blk t) m = disk_inode (blk s) m" if m: "m < sb_ninodes (fs_sb s)" "m \<noteq> ?n" for m
  proof (cases "IBLOCK m = IBLOCK ?n")
    case True
    then show ?thesis
      using c_dinode.rd_wr_other [where dec' = dec_dinode, OF wfd off dinode_sep [OF True m(2)]] t(3) by (simp add: disk_inode_def)
  next
    case False
    then have "blk t (IBLOCK m) = blk s (IBLOCK m)"
      using tx_afterD(6) [OF t(2) tx.usable_readable [OF iblock_low(3) [OF ok(1) m(1)]]] by simp
    then show ?thesis by (simp add: disk_inode_def)
  qed
  ultimately show ?thesis using t(2) by (intro wpI) blast+
qed

text \<open>A step that does not write to the blocks of a file leaves the file as it is.\<close>

lemma fs_step_other:
  assumes st: "fs_step W s t" and ok: "fs_ok s" and wf: "inode_wf s ip" and sep: "W \<inter> owned (blk s) ip = {}"
  shows "inode_wf t ip" and "content (blk t) ip = content (blk s) ip" and "owned (blk t) ip = owned (blk s) ip"
proof -
  note I = inode_wfD [OF wf] and S = fs_stepD [OF st]
  have keep: "blk t b = blk s b" if "b \<in> owned (blk s) ip" for b
    by (rule fs_step_keep [OF st ok I(4,5) [OF that]]) (use sep that in auto)
  have ad: "addr (blk t) ip k = addr (blk s) ip k" for k by (rule addr_cong) (rule keep [OF owned_ind])
  show own: "owned (blk t) ip = owned (blk s) ip" by (simp add: owned_def ad)
  show "inode_wf t ip" using wf S(2,6,8) unfolding inode_wf_def own ad by auto
  have "fbyte (blk t) ip x = fbyte (blk s) ip x" if "x < unat (i_size ip)" for x
  proof -
    have m: "x div BSIZE < MAXFILE" using that I(8) by (simp add: less_mult_imp_div_less)
    have "x div BSIZE * BSIZE < unat (i_size ip)" using that by (meson div_times_less_eq_dividend le_less_trans)
    then show ?thesis using keep [OF owned_addr [OF m I(9)]] ad by (simp add: fbyte_def)
  qed
  then show "content (blk t) ip = content (blk s) ip" by (simp add: content_def)
qed

lemma iupdate_step:
  fixes s t :: "'z icache_state_scheme"
  assumes ok: "fs_ok s" and n: "n < sb_ninodes (fs_sb s)" and t: "tx_after {IBLOCK n} s t"
  shows "fs_step {IBLOCK n} s t" and "\<And>ip. inode_wf s ip \<Longrightarrow> {IBLOCK n} \<inter> owned (blk s) ip = {}" and "free t = free s"
proof -
  note T = tx_afterD [OF t] and N = iblock_low [OF ok n]
  have "blk t m = blk s m" if "m = 1 \<or> m \<in> bitmap s" for m
  proof (rule T(6) [OF tables_low(1) [OF ok that]])
    show "m \<notin> {IBLOCK n}" using that N(1,3) bitmap_low(2) [OF ok, of m] by (auto simp: fs_block_def)
  qed
  note F = fs_tables [OF ok T(1,10) this]
  show "free t = free s" by (rule F(4))
  show "fs_step {IBLOCK n} s t" using F(1,2,6) tx_fs_after [OF t] unfolding fs_step_def by blast
  show "{IBLOCK n} \<inter> owned (blk s) ip = {}" if "inode_wf s ip" for ip
    using inode_wfD(4) [OF that, of "IBLOCK n"] N(2) by (auto simp: data_block_def)
qed

section \<open>A whole write\<close>

lemma size_irrelevant [simp]:
  "addr D (ip\<lparr>i_size := z\<rparr>) = addr D ip" "owned D (ip\<lparr>i_size := z\<rparr>) = owned D ip" "ind (ip\<lparr>i_size := z\<rparr>) = ind ip"
  "fbyte D (ip\<lparr>i_size := z\<rparr>) = fbyte D ip" "meta s (ip\<lparr>i_size := z\<rparr>) = meta s ip"
proof -
  show i: "ind (ip\<lparr>i_size := z\<rparr>) = ind ip" by (simp add: ind_def)
  show a: "addr D (ip\<lparr>i_size := z\<rparr>) = addr D ip" by (simp add: addr_def i fun_eq_iff)
  show "owned D (ip\<lparr>i_size := z\<rparr>) = owned D ip" "fbyte D (ip\<lparr>i_size := z\<rparr>) = fbyte D ip" "meta s (ip\<lparr>i_size := z\<rparr>) = meta s ip"
    by (simp_all add: owned_def fbyte_def meta_def a i fun_eq_iff)
qed

lemma length_content [simp]: "length (content D ip) = unat (i_size ip)"
  by (simp add: content_def)

lemma block_of_size:
  assumes "inode_wf s ip" and "x < unat (i_size ip)"
  shows "addr (blk s) ip (x div BSIZE) \<noteq> 0" and "x < MAXFILE * BSIZE" and "x div BSIZE < MAXFILE"
proof -
  show x: "x < MAXFILE * BSIZE" using assms inode_wfD(8) by fastforce
  then show "x div BSIZE < MAXFILE" by (simp add: less_mult_imp_div_less)
  have "x div BSIZE * BSIZE < unat (i_size ip)" using assms(2) by (meson div_times_less_eq_dividend le_less_trans)
  then show "addr (blk s) ip (x div BSIZE) \<noteq> 0" by (rule inode_wfD(9) [OF assms(1)])
qed

text \<open>The bytes of the file after a write, with the size the inode then gets.\<close>

lemma write_content:
  assumes w: "write_post k i ip lo d s ip' t" and wf: "inode_wf s ip" and lo: "lo \<le> unat (i_size ip)" "lo + length d \<le> MAXFILE * BSIZE"
    and z: "unat z = max (unat (i_size ip)) (lo + length d)"
  shows "inode_wf t (ip'\<lparr>i_size := z\<rparr>)"
    and "content (blk t) (ip'\<lparr>i_size := z\<rparr>) = take lo (content (blk s) ip) @ d @ drop (lo + length d) (content (blk s) ip)"
proof -
  note W = write_postD [OF w]
  have "addr (blk t) ip' n \<noteq> 0" if n: "n * BSIZE < unat z" for n
  proof (cases "n * BSIZE < unat (i_size ip)")
    case True
    from block_of_size [OF wf this] show ?thesis using W(7) [of n] by simp
  next
    case False
    then have "lo \<le> n * BSIZE" "n * BSIZE < lo + length d" using n lo(1) z by simp_all
    from W(8) [OF _ this] lo(2) this show ?thesis by simp
  qed
  then show "inode_wf t (ip'\<lparr>i_size := z\<rparr>)"
    using W(4) lo(2) inode_wfD(8) [OF wf] z unfolding inode_wf_def by simp
  show "content (blk t) (ip'\<lparr>i_size := z\<rparr>) = take lo (content (blk s) ip) @ d @ drop (lo + length d) (content (blk s) ip)"
  proof (rule nth_equalityI)
    show "length (content (blk t) (ip'\<lparr>i_size := z\<rparr>)) = length (take lo (content (blk s) ip) @ d @ drop (lo + length d) (content (blk s) ip))"
      using lo z by simp
    fix x assume "x < length (content (blk t) (ip'\<lparr>i_size := z\<rparr>))"
    then have x: "x < unat z" by simp
    have "fbyte (blk t) ip' x = (take lo (content (blk s) ip) @ d @ drop (lo + length d) (content (blk s) ip)) ! x"
    proof (cases "lo \<le> x \<and> x < lo + length d")
      case True
      then show ?thesis using W(9) [of x] lo by (simp add: nth_append) linarith
    next
      case False
      then have "x < unat (i_size ip)" using x lo(1) z by auto
      note b = block_of_size [OF wf this]
      show ?thesis using W(10) [OF b(2,1) False] False \<open>x < unat (i_size ip)\<close> lo(1) by (auto simp: nth_append content_def)
    qed
    then show "content (blk t) (ip'\<lparr>i_size := z\<rparr>) ! x = (take lo (content (blk s) ip) @ d @ drop (lo + length d) (content (blk s) ip)) ! x"
      using x by (simp add: content_def)
  qed
qed

text \<open>The copy of the inode on disk is up to date.\<close>

definition synced :: "(uint \<Rightarrow> byte list) \<Rightarrow> inode \<Rightarrow> bool" where
  "synced D ip \<longleftrightarrow> disk_inode D (i_inum ip) = inode_store ip"

text \<open>After \<open>writei\<close> of the bytes \<open>d\<close> at \<open>lo\<close>: the file has them, the inode on disk has the new
  size and blocks, and the other inodes and files are as they were.\<close>

definition wrote :: "nat \<Rightarrow> nat \<Rightarrow> inode \<Rightarrow> nat \<Rightarrow> byte list \<Rightarrow> 'z icache_state_scheme \<Rightarrow> inode \<Rightarrow> 'z icache_state_scheme \<Rightarrow> bool" where
  "wrote k i ip lo d s ip' t \<longleftrightarrow> (\<exists>A z. ip' = ip\<lparr>i_addrs := A, i_size := z\<rparr>) \<and> icache t = (icache s)[i := ip'] \<and>
    fs_step (insert (IBLOCK (i_inum ip)) (owned (blk s) ip)) s t \<and> inode_wf t ip' \<and> provision k t ip' \<and>
    owned (blk t) ip' \<subseteq> owned (blk s) ip \<union> free s \<and>
    content (blk t) ip' = take lo (content (blk s) ip) @ d @ drop (lo + length d) (content (blk s) ip) \<and>
    (synced (blk s) ip \<longrightarrow> synced (blk t) ip') \<and>
    (\<forall>n < sb_ninodes (fs_sb s). n \<noteq> i_inum ip \<longrightarrow> disk_inode (blk t) n = disk_inode (blk s) n)"

lemma disk_inode_step:
  assumes "fs_step W s t" and "fs_ok s" and "\<And>b. b \<in> W \<Longrightarrow> data_block s b" and "n < sb_ninodes (fs_sb s)"
  shows "disk_inode (blk t) n = disk_inode (blk s) n"
proof -
  have "IBLOCK n \<notin> W" using assms(3) [of "IBLOCK n"] iblock_low(2) [OF assms(2,4)] by (auto simp: data_block_def)
  then show ?thesis using fs_step_inode_block [OF assms(1,2,4)] by (simp add: disk_inode_def)
qed

lemma sint_small:
  fixes n :: uint
  assumes "unat n < 2 ^ 31"
  shows "sint n = int (unat n)"
proof -
  have "int (unat n) < int (2 ^ 31)" using assms by (simp only: of_nat_less_iff)
  then have u: "uint n < 2147483648" by simp
  have "0 \<le> uint n" by simp
  then have "- (2 ^ 31) \<le> uint n" by (rule order_trans [rotated]) simp
  then have "signed_take_bit 31 (uint n) = uint n" using u by (intro signed_take_bit_int_eq_self) simp_all
  then show ?thesis by (simp add: sint_uint)
qed

text \<open>The end of \<open>writei\<close>: the size of the file grows, and the inode goes to the disk.\<close>

lemma grow_run:
  fixes s t :: "'z cons_state_scheme"
  assumes w: "write_post k i ip lo d s ip1 t" and ok: "fs_ok s" "l_busy s" "busy s = {}"
    and ip: "icache s ! i = ip" "inode_wf s ip" "i < length (icache s)"
    and lo: "lo \<le> unat (i_size ip)" "lo + length d \<le> MAXFILE * BSIZE" and z: "unat z = lo + length d" "unat (i_size ip) < lo + length d"
  shows "wp (thenk (modk (upd_inode i (\<lambda>ip. ip\<lparr>i_size := z\<rparr>))) (iupdate i)) (\<lambda>_ u. \<exists>ip'. wrote k i ip lo d s ip' u) t"
proof -
  note W = write_postD [OF w] and S = fs_stepD [OF W(3)]
  let ?ip = "ip1\<lparr>i_size := z\<rparr>" and ?t = "upd_inode i (\<lambda>ip. ip\<lparr>i_size := z\<rparr>) t"
  have zm: "unat z = max (unat (i_size ip)) (lo + length d)" using z by simp
  note C = write_content [OF w ip(2) lo zm]
  have T: "icache ?t = (icache s)[i := ?ip]" "fs_step (owned (blk s) ip) s ?t" "blk ?t = blk t"
    using W(2) ip(3) fs_step_trans [OF W(3) fs_step_upd [OF S(1)], of "{}"] by (simp_all add: upd_inode_def)
  have wf: "inode_wf ?t ?ip" using C(1) unfolding inode_wf_def upd_inode_def by simp
  have inum: "i_inum ?ip = i_inum ip" "fs_sb ?t = fs_sb s" using W(1) fs_stepD(2) [OF T(2)] by auto
  have P: "tx_budget (meta t ip1) (k + spare ip1) ?t" "k + spare ip1 \<le> card (free t)" "meta ?t ?ip = meta t ip1" "free ?t = free t"
    using W(5) by (simp_all add: provision_def upd_inode_def meta_def free_def bitmap_def)
  have r: "tx_room ?t {IBLOCK (i_inum ?ip)}" by (rule budget_room [OF P(1)]) (simp add: meta_def)
  from iupdate_run [where s = ?t and i = i and ip = ?ip, OF fs_stepD(1) [OF T(2)] _ _ _ _ _ _ r]
  obtain u where u: "iupdate i ?t = Ret () u" "tx_after {IBLOCK (i_inum ip)} ?t u" "disk_inode (blk u) (i_inum ip) = inode_store ?ip"
      "\<And>n. n < sb_ninodes (fs_sb s) \<Longrightarrow> n \<noteq> i_inum ip \<Longrightarrow> disk_inode (blk u) n = disk_inode (blk ?t) n"
    using inode_wfD(1-3) [OF wf] fs_stepD(4,5) [OF T(2)] ok T(1) ip(3) inum by (auto elim!: wp_unitE)
  have n: "i_inum ip < sb_ninodes (fs_sb ?t)" using inode_wfD(3) [OF wf] inum by simp
  note U = iupdate_step [OF fs_stepD(1) [OF T(2)] n u(2)]
  note O = fs_step_other [OF U(1) fs_stepD(1) [OF T(2)] wf U(2) [OF wf]]
  have "tx_budget (meta t ip1) (k + spare ip1 - 0) u" by (rule budget_after [OF u(2) P(1)]) (simp_all add: meta_def inum(1) [symmetric])
  moreover have "meta u ?ip = meta ?t ?ip" "free u = free ?t" using meta_step [OF U(1) refl refl] U(3) by simp_all
  ultimately have "provision k u ?ip" using P by (simp add: provision_def spare_def)
  then have "wrote k i ip lo d s ?ip u"
    unfolding wrote_def
  proof (intro conjI allI impI)
    show "\<exists>A z. ?ip = ip\<lparr>i_addrs := A, i_size := z\<rparr>" using W(1) by auto
    show "icache u = (icache s)[i := ?ip]" using lframe_icache [OF tx_afterD(2) [OF u(2)]] T(1) by simp
    show "fs_step (insert (IBLOCK (i_inum ip)) (owned (blk s) ip)) s u"
      by (rule fs_step_trans [OF fs_step_mono [OF T(2)] U(1)]) auto
    show "disk_inode (blk u) m = disk_inode (blk s) m" if "m < sb_ninodes (fs_sb s)" "m \<noteq> i_inum ip" for m
      using u(4) [OF that] disk_inode_step [OF T(2) ok(1) inode_wfD(4) [OF ip(2)] that(1)] by simp
    show "synced (blk u) ?ip" using u(3) inum by (simp add: synced_def)
  qed (use O C(2) W(6) T(3) in simp_all)
  then show ?thesis using u(1) by (intro wpI) auto
qed

lemma writei_run:
  fixes s :: "'z cons_state_scheme"
  assumes ok: "fs_ok s" "l_busy s" "busy s = {}" and ip: "icache s ! i = ip" "inode_wf s ip" "i < length (icache s)" "i_type ip \<noteq> T_DEV"
    and p: "provision (spanned (unat off) (unat n) + k) s ip" and off: "off \<le> i_size ip" "unat off + unat n \<le> MAXFILE * BSIZE"
    and src: "delivers src data s" "length data = unat n"
  shows "wp (writei i src off n) (\<lambda>r t. r = int (unat n) \<and> (\<exists>ip'. wrote k i ip (unat off) data s ip' t)) s"
proof -
  have lo: "unat off \<le> unat (i_size ip)" "unat off + length data \<le> MAXFILE * BSIZE" using off src(2) by (simp_all add: word_le_nat_alt)
  have sum: "unat (off + n) = unat off + unat n" using off(2) by (intro unat_add_no_wrap) simp
  from writei_loop_run [where tot = 0 and k = k, OF ok ip(1-3) _ off(2) src(1)] p src(2)
  obtain r t ip1 where t: "writei_loop i src off 0 (unat n) s = Ret r t" "unat r = unat off + length data"
      "write_post k i ip (unat off) data s ip1 t" by (auto elim!: wpE)
  note W = write_postD [OF t(3)]
  let ?fin = "thenk (whenk (n > 0 \<and> r > i_size (icache t ! i)) (thenk (modk (upd_inode i (\<lambda>ip. ip\<lparr>i_size := r\<rparr>))) (iupdate i))) (ret (sint n))"
  have size: "i_size (icache t ! i) = i_size ip" using W(1,2) ip(3) by auto
  have "\<not> off > i_size ip" "\<not> off + n < off" "\<not> off + n > of_nat (MAXFILE * BSIZE)"
    using off sum by (simp_all add: not_less word_le_nat_alt)
  then have code: "writei i src off n s = ?fin t"
    using ip(1,4) t(1) unfolding writei_def Let_def by (simp only: if_False bindk_Ret simp_thms)
  have sn: "sint n = int (unat n)" using off(2) by (intro sint_small) simp
  show ?thesis
  proof (cases "unat off + length data \<le> unat (i_size ip)")
    case True
    have e: "ip1 = ip"
    proof (rule W(11))
      fix x assume "x < unat off + length data"
      then show "addr (blk s) ip (x div BSIZE) \<noteq> 0" using block_of_size(1) [OF ip(2)] True by simp
    qed
    have C: "content (blk t) ip = take (unat off) (content (blk s) ip) @ data @ drop (unat off + length data) (content (blk s) ip)"
      using write_content(2) [OF t(3) ip(2) lo, of "i_size ip"] True e by simp
    have D: "disk_inode (blk t) m = disk_inode (blk s) m" if "m < sb_ninodes (fs_sb s)" for m
      by (rule disk_inode_step [OF W(3) ok(1) inode_wfD(4) [OF ip(2)] that])
    have "wrote k i ip (unat off) data s ip t"
      unfolding wrote_def
      using W(2,4,5,6) C D e fs_step_mono [OF W(3) subset_insertI] inode_wfD(3) [OF ip(2)]
      by (auto simp: synced_def intro!: exI [of _ "i_addrs ip"] exI [of _ "i_size ip"])
    then show ?thesis unfolding wp_def code using size t(2) True sn by (auto simp: word_less_nat_alt)
  next
    case False
    then have "n > 0" "r > i_size ip" using lo(1) src(2) t(2) by (auto simp: word_less_nat_alt)
    moreover from grow_run [OF t(3) ok ip(1-3) lo t(2)] False
    obtain u ip' where "thenk (modk (upd_inode i (\<lambda>ip. ip\<lparr>i_size := r\<rparr>))) (iupdate i) t = Ret () u" "wrote k i ip (unat off) data s ip' u"
      by (auto elim!: wp_unitE)
    ultimately show ?thesis unfolding wp_def code using size sn by (auto simp: thenk_def bindk_def)
  qed
qed

section \<open>readi\<close>

lemma same_inode:
  assumes "tx_after {} s t" and "blk t = blk s"
  shows "fs_ok s \<Longrightarrow> fs_ok t" and "inode_wf t ip = inode_wf s ip" and "tx_budget B k t = tx_budget B k s"
  using same_state [OF assms] assms(2) by (simp_all add: inode_wf_def)

text \<open>One turn of the loop of \<open>readi\<close> that reads into a local variable.\<close>

lemma read_chunk:
  fixes s :: "'z cons_state_scheme"
  assumes ok: "fs_ok s" "busy s = {}" "tx_budget {} (Suc k) s" and ip: "icache s ! i = ip" "inode_wf s ip"
    and m: "0 < m" "unat off mod BSIZE + m \<le> BSIZE" "unat off + m \<le> unat (i_size ip)"
  shows "\<exists>t. bindk (bmap i (off div of_nat BSIZE)) (\<lambda>a s. bindk (bread (i_dev (icache s ! i)) a) (\<lambda>bp.
       bindk (getk (\<lambda>s. take m (drop (unat off mod BSIZE) (buf_data bp s)))) (\<lambda>d. thenk (copy_to Local (length acc) d)
       (thenk (brelse bp) (rest d)))) s) s = rest (take m (drop (unat off) (content (blk s) ip))) t \<and>
     tx_after {} s t \<and> blk t = blk s"
proof -
  let ?bn = "unat off div BSIZE" and ?pos = "unat off mod BSIZE"
  define a where "a = addr (blk s) ip ?bn"
  have b: "a \<noteq> 0" "?bn < MAXFILE" unfolding a_def using block_of_size [OF ip(2), of "unat off"] m(1,3) by simp_all
  have room: "tx_room s {n}" for n by (rule budget_room [OF ok(3)]) simp
  from bmap_present [OF ok(1,2) ip b(2) b(1) [unfolded a_def] room]
  obtain s1 where s1: "bmap i (off div of_nat BSIZE) s = Ret a s1" "tx_after {} s s1" "blk s1 = blk s"
    unfolding word_div_512 a_def by blast
  note S = same_inode [OF s1(2,3)] and T = tx_afterD [OF s1(2)]
  have own: "a \<in> owned (blk s) ip" unfolding a_def by (rule owned_addr [OF b(2) b(1) [unfolded a_def]])
  have a1: "fs_readable s1 a" "a \<notin> busy s1" "tx_room s1 {a}"
    using data_blockD(2) [OF _ inode_wfD(4) [OF ip(2) own]] ok budget_room [of "{}" "Suc k" s1 a] S(3) T(3,7) by (simp_all add: fs_ok_def)
  have len: "length (blk s a) = BSIZE" using tx_layout(4) [of s a] ok(1) by (simp add: fs_ok_def)
  have data: "take m (drop ?pos (blk s a)) = take m (drop (unat off) (content (blk s) ip))"
  proof (rule nth_equalityI)
    fix x assume "x < length (take m (drop ?pos (blk s a)))"
    then have x: "x < m" using m(2) len by simp
    have "(unat off + x) div BSIZE = ?bn" "(unat off + x) mod BSIZE = ?pos + x" using block_pos [OF m(2), of "unat off + x"] x by simp_all
    then show "take m (drop ?pos (blk s a)) ! x = take m (drop (unat off) (content (blk s) ip)) ! x"
      using x m(2,3) len by (simp add: content_def fbyte_def a_def)
  qed (use m(2,3) len in simp)
  have "\<exists>t. bindk (bread ROOTDEV a) (\<lambda>bp. bindk (getk (\<lambda>s. take m (drop ?pos (buf_data bp s)))) (\<lambda>d. thenk (copy_to Local (length acc) d)
       (thenk (brelse bp) (rest d)))) s1 = rest (take m (drop ?pos (blk s a))) t \<and> tx_after {} s1 t \<and> blk t = blk s1"
    by (rule inspect_then [OF T(1) a1]) (simp add: copy_to_def s1(3))
  then obtain t where t: "bindk (bread ROOTDEV a) (\<lambda>bp. bindk (getk (\<lambda>s. take m (drop ?pos (buf_data bp s)))) (\<lambda>d. thenk (copy_to Local (length acc) d)
       (thenk (brelse bp) (rest d)))) s1 = rest (take m (drop ?pos (blk s a))) t" "tx_after {} s1 t" "blk t = blk s1" by blast
  have "i_dev (icache s1 ! i) = ROOTDEV" using lframe_icache [OF T(2)] ip inode_wfD(2) [OF ip(2)] by simp
  then show ?thesis using s1 t data tx_after_trans [OF s1(2) t(2)] by (intro exI [of _ t]) simp
qed

lemma readi_loop_run:
  fixes s :: "'z cons_state_scheme"
  assumes "fs_ok s" "busy s = {}" "tx_budget {} (Suc k) s" and "icache s ! i = ip" "inode_wf s ip"
    and "unat off + left \<le> unat (i_size ip)"
  shows "wp (readi_loop i Local off left acc) (\<lambda>r t. r = acc @ take left (drop (unat off) (content (blk s) ip)) \<and>
    tx_after {} s t \<and> blk t = blk s) s"
  using assms
proof (induction left arbitrary: off acc s rule: less_induct)
  case (less left)
  note A = less.prems
  show ?case
  proof (cases "left = 0")
    case True
    then show ?thesis using tx_after_refl [of s] A(1) by (subst readi_loop.simps) (simp add: fs_ok_def)
  next
    case False
    define m where "m = min left (BSIZE - unat off mod BSIZE)"
    have m: "0 < m" "unat off mod BSIZE + m \<le> BSIZE" "unat off + m \<le> unat (i_size ip)" "m \<le> left"
      using False A(6) mod_less_divisor [of BSIZE "unat off"] by (auto simp: m_def)
    have off: "unat (off + of_nat m) = unat off + m"
      using unat_add_no_wrap [of off "of_nat m"] m(3) inode_wfD(8) [OF A(5)] by simp
    let ?d = "take m (drop (unat off) (content (blk s) ip))"
    let ?rest = "\<lambda>d. readi_loop i Local (off + of_nat m) (left - m) (acc @ d)"
    have code: "readi_loop i Local off left acc = bindk (bmap i (off div of_nat BSIZE)) (\<lambda>a s. bindk (bread (i_dev (icache s ! i)) a) (\<lambda>bp.
       bindk (getk (\<lambda>s. take m (drop (unat off mod BSIZE) (buf_data bp s)))) (\<lambda>d. thenk (copy_to Local (length acc) d)
       (thenk (brelse bp) (?rest d)))) s)"
      by (subst readi_loop.simps) (simp only: False if_False Let_def m_def)
    have "\<exists>t. readi_loop i Local off left acc s = ?rest ?d t \<and> tx_after {} s t \<and> blk t = blk s"
      unfolding code by (rule read_chunk [OF A(1-5) m(1-3)])
    then obtain t where t: "readi_loop i Local off left acc s = ?rest ?d t" "tx_after {} s t" "blk t = blk s" by blast
    note S = same_inode [OF t(2,3)] and T = tx_afterD [OF t(2)]
    have "wp (?rest ?d) (\<lambda>r u. r = (acc @ ?d) @ take (left - m) (drop (unat (off + of_nat m)) (content (blk t) ip)) \<and> tx_after {} t u \<and> blk u = blk t) t"
      by (rule less.IH) (use A m off S T(3) lframe_icache [OF T(2)] in auto)
    moreover have "?d @ take (left - m) (drop (unat off + m) (content (blk s) ip)) = take left (drop (unat off) (content (blk s) ip))"
      using take_add [of m "left - m" "drop (unat off) (content (blk s) ip)"] m(4) by (simp add: add.commute)
    ultimately show ?thesis
      using t off tx_after_trans [OF t(2), of "{}"] unfolding wp_def t(1) by (auto split: outcome.splits)
  qed
qed

lemma readi_run:
  fixes s :: "'z cons_state_scheme"
  assumes ok: "fs_ok s" "busy s = {}" "tx_budget {} (Suc k) s" and ip: "icache s ! i = ip" "inode_wf s ip" "i_type ip \<noteq> T_DEV"
    and off: "off \<le> i_size ip" "off \<le> off + n"
  shows "wp (readi i Local off n) (\<lambda>(r, bs) t. bs = take (unat n) (drop (unat off) (content (blk s) ip)) \<and> r = int (length bs) \<and>
    tx_after {} s t \<and> blk t = blk s) s"
proof -
  define q where "q = (if off + n > i_size ip then i_size ip - off else n)"
  have z: "unat (i_size ip) \<le> MAXFILE * BSIZE" by (rule inode_wfD(8) [OF ip(2)])
  have sum: "unat (off + n) = unat off + unat n" 
    using off(2) unat_lt_2_32 [of off] unat_lt_2_32 [of n] by (auto simp: word_le_nat_alt unat_word_ariths(1) mod_if split: if_splits)
  have sub: "unat (i_size ip - off) = unat (i_size ip) - unat off" by (rule unat_sub) (rule off(1))
  have q: "unat off + unat q \<le> unat (i_size ip)" "take (unat q) (drop (unat off) (content (blk s) ip)) = take (unat n) (drop (unat off) (content (blk s) ip))"
    "length (take (unat n) (drop (unat off) (content (blk s) ip))) = unat q"
    using off(1) sum sub by (auto simp: q_def word_le_nat_alt word_less_nat_alt)
  have sq: "sint q = int (unat q)" using q(1) z by (intro sint_small) simp
  have "\<not> off > i_size ip" "\<not> off + n < off" using off by simp_all
  then have "readi i Local off n s = bindk (readi_loop i Local off (unat q) []) (\<lambda>bs. ret (sint q, bs)) s"
    using ip(1,3) unfolding readi_def Let_def q_def [symmetric] by (simp only: if_False simp_thms q_def)
  moreover obtain t where "readi_loop i Local off (unat q) [] s = Ret (take (unat q) (drop (unat off) (content (blk s) ip))) t"
      "tx_after {} s t" "blk t = blk s"
    using readi_loop_run [OF ok ip(1,2) q(1), of "[]"] by (auto elim!: wpE)
  ultimately show ?thesis using q(2,3) sq by (simp add: wp_def)
qed

section \<open>Files in use\<close>

text \<open>The type of the files in the inode cache: each is well formed, and no two of them share an
  inode number or a block.\<close>

definition files_wf :: "'z icache_state_scheme \<Rightarrow> nat set \<Rightarrow> bool" where
  "files_wf s I \<longleftrightarrow> (\<forall>i \<in> I. i < length (icache s) \<and> inode_wf s (icache s ! i)) \<and>
    (\<forall>i \<in> I. \<forall>j \<in> I. i \<noteq> j \<longrightarrow> i_inum (icache s ! i) \<noteq> i_inum (icache s ! j) \<and>
      owned (blk s) (icache s ! i) \<inter> owned (blk s) (icache s ! j) = {})"

lemma wrote_other:
  assumes w: "wrote k i ip lo d s ip' t" and ok: "fs_ok s" and ip: "inode_wf s ip" and wf: "inode_wf s jp"
    and sep: "owned (blk s) ip \<inter> owned (blk s) jp = {}"
  shows "inode_wf t jp" and "content (blk t) jp = content (blk s) jp" and "owned (blk t) jp = owned (blk s) jp"
    and "owned (blk t) ip' \<inter> owned (blk s) jp = {}"
proof -
  note I = inode_wfD [OF wf]
  have st: "fs_step (insert (IBLOCK (i_inum ip)) (owned (blk s) ip)) s t" "owned (blk t) ip' \<subseteq> owned (blk s) ip \<union> free s"
    using w unfolding wrote_def by blast+
  have "IBLOCK (i_inum ip) \<notin> owned (blk s) jp"
    using I(4) [of "IBLOCK (i_inum ip)"] iblock_low(2) [OF ok inode_wfD(3) [OF ip]] by (auto simp: data_block_def)
  then have "insert (IBLOCK (i_inum ip)) (owned (blk s) ip) \<inter> owned (blk s) jp = {}" using sep by simp
  from fs_step_other [OF st(1) ok wf this]
  show "inode_wf t jp" "content (blk t) jp = content (blk s) jp" "owned (blk t) jp = owned (blk s) jp" .
  show "owned (blk t) ip' \<inter> owned (blk s) jp = {}" using st(2) sep I(5) by (auto simp: free_def)
qed

lemma wrote_files:
  assumes w: "wrote k i ip lo d s ip' t" and ok: "fs_ok s" and F: "files_wf s I" "i \<in> I" "icache s ! i = ip"
  shows "files_wf t I" and "\<And>j. j \<in> I \<Longrightarrow> j \<noteq> i \<Longrightarrow> icache t ! j = icache s ! j \<and> content (blk t) (icache s ! j) = content (blk s) (icache s ! j)"
proof -
  have P: "\<And>j. j \<in> I \<Longrightarrow> j < length (icache s)" "\<And>j. j \<in> I \<Longrightarrow> inode_wf s (icache s ! j)"
      "\<And>j l. j \<in> I \<Longrightarrow> l \<in> I \<Longrightarrow> j \<noteq> l \<Longrightarrow> i_inum (icache s ! j) \<noteq> i_inum (icache s ! l)"
      "\<And>j l. j \<in> I \<Longrightarrow> l \<in> I \<Longrightarrow> j \<noteq> l \<Longrightarrow> owned (blk s) (icache s ! j) \<inter> owned (blk s) (icache s ! l) = {}"
    using F(1) unfolding files_wf_def by blast+
  have T: "icache t = (icache s)[i := ip']" "inode_wf t ip'" "i_inum ip' = i_inum ip" using w unfolding wrote_def by auto
  note O = wrote_other [OF w ok P(2) [OF F(2), unfolded F(3)] P(2), unfolded F(3) [symmetric], OF _ P(4) [OF F(2)]]
  show "icache t ! j = icache s ! j \<and> content (blk t) (icache s ! j) = content (blk s) (icache s ! j)" if "j \<in> I" "j \<noteq> i" for j
    using O(2) that T(1) by auto
  have "inode_wf t (icache t ! j)" if "j \<in> I" for j using that O(1) T P(1) by (cases "j = i") auto
  moreover have "i_inum (icache t ! j) \<noteq> i_inum (icache t ! l) \<and> owned (blk t) (icache t ! j) \<inter> owned (blk t) (icache t ! l) = {}"
    if "j \<in> I" "l \<in> I" "j \<noteq> l" for j l
    using that P O(3,4) T(1,3) F(3) P(1) [OF F(2)] by (cases "j = i"; cases "l = i") (auto simp: Int_commute)
  ultimately show "files_wf t I" using P(1) T(1) unfolding files_wf_def by auto
qed

text \<open>C4. \<open>writei\<close> inside a transaction, on a file of a well-formed set of files in use: the call
  returns the number of bytes it was given; the file then holds its old bytes with the new ones
  at the offset; all files of the set are well formed afterwards, so no two of them share a
  block, and the other files have the inodes and the bytes they had.\<close>

theorem writei_keeps_files:
  fixes s :: "'z cons_state_scheme"
  assumes "fs_ok s" and "l_busy s" and "busy s = {}" and "files_wf s I" and "i \<in> I" and "i_type (icache s ! i) \<noteq> T_DEV"
    and "provision (spanned (unat off) (unat n) + k) s (icache s ! i)" and "off \<le> i_size (icache s ! i)"
    and "unat off + unat n \<le> MAXFILE * BSIZE" and "delivers src data s" and "length data = unat n"
  shows "wp (writei i src off n) (\<lambda>r t. r = int (length data) \<and> fs_ok t \<and> files_wf t I \<and>
    content (blk t) (icache t ! i) = take (unat off) (content (blk s) (icache s ! i)) @ data @
      drop (unat off + length data) (content (blk s) (icache s ! i)) \<and>
    (\<forall>j \<in> I - {i}. icache t ! j = icache s ! j \<and> content (blk t) (icache t ! j) = content (blk s) (icache s ! j))) s"
proof -
  have i: "i < length (icache s)" "inode_wf s (icache s ! i)" using assms(4,5) by (auto simp: files_wf_def)
  obtain t ip where t: "writei i src off n s = Ret (int (unat n)) t" "wrote k i (icache s ! i) (unat off) data s ip t"
    using writei_run [OF assms(1-3) refl i(2,1) assms(6-11)] by (auto elim!: wpE)
  note F = wrote_files [OF t(2) assms(1,4,5) refl]
  have "fs_ok t" using t(2) fs_stepD(1) unfolding wrote_def by blast
  moreover have "icache t ! i = ip" "content (blk t) ip = take (unat off) (content (blk s) (icache s ! i)) @ data @
      drop (unat off + length data) (content (blk s) (icache s ! i))"
    using t(2) i(1) unfolding wrote_def by auto
  ultimately show ?thesis using t(1) F assms(11) by (simp add: wp_def)
qed

text \<open>C5. What \<open>writei\<close> wrote, \<open>readi\<close> reads: reading the same range back gives the same bytes and
  the same count. The inode on disk then has the size and the blocks of the inode in memory, so
  a later \<open>ilock\<close> of the file loads them.\<close>

theorem writei_readi:
  fixes s :: "'z cons_state_scheme"
  assumes "fs_ok s" and "l_busy s" and "busy s = {}" and "inode_wf s (icache s ! i)" and "i < length (icache s)"
    and "i_type (icache s ! i) \<noteq> T_DEV" and "synced (blk s) (icache s ! i)"
    and "provision (spanned (unat off) (unat n) + 1) s (icache s ! i)" and "off \<le> i_size (icache s ! i)"
    and "unat off + unat n \<le> MAXFILE * BSIZE" and "delivers src data s" and "length data = unat n"
  shows "wp (bindk (writei i src off n) (\<lambda>w. bindk (readi i Local off n) (\<lambda>(r, bs). ret (w, r, bs))))
    (\<lambda>(w, r, bs) t. w = int (length data) \<and> r = w \<and> bs = data \<and>
      inode_load (disk_inode (blk t) (i_inum (icache t ! i))) (icache s ! i) = icache t ! i) s"
proof -
  let ?ip = "icache s ! i"
  obtain t ip where t: "writei i src off n s = Ret (int (unat n)) t" "wrote 1 i ?ip (unat off) data s ip t"
    using writei_run [OF assms(1-3) refl assms(4-6,8-12)] by (auto elim!: wpE)
  have W: "icache t ! i = ip" "inode_wf t ip" "fs_step (insert (IBLOCK (i_inum ?ip)) (owned (blk s) ?ip)) s t" "provision 1 t ip"
      "content (blk t) ip = take (unat off) (content (blk s) ?ip) @ data @ drop (unat off + length data) (content (blk s) ?ip)"
      "synced (blk t) ip" "\<exists>A z. ip = ?ip\<lparr>i_addrs := A, i_size := z\<rparr>"
    using t(2) assms(5,7) unfolding wrote_def by auto
  note S = fs_stepD [OF W(3)]
  have lo: "unat off \<le> unat (i_size ?ip)" using assms(9) by (simp add: word_le_nat_alt)
  have len: "unat (i_size ip) \<ge> unat off + unat n" using arg_cong [OF W(5), of length] lo assms(12) by simp
  have sum: "unat (off + n) = unat off + unat n" using assms(10) by (intro unat_add_no_wrap) simp
  have B: "tx_budget {} (Suc (spare ip)) t" using W(4) budget_subset [of "meta t ip" "Suc (spare ip)" t "{}"] by (simp add: provision_def)
  have off: "off \<le> i_size ip" "off \<le> off + n" "i_type ip \<noteq> T_DEV" using len sum W(7) assms(6) by (auto simp: word_le_nat_alt)
  have bs: "take (unat n) (drop (unat off) (content (blk t) ip)) = data" unfolding W(5) using lo assms(12) by simp
  from readi_run [OF S(1) _ B W(1,2) off(3,1,2)] S(5) assms(3)
  obtain u where u: "readi i Local off n t = Ret (int (length data), data) u" "tx_after {} t u" "blk u = blk t"
    unfolding bs by (auto elim!: wpE)
  have "icache u ! i = ip" using lframe_icache [OF tx_afterD(2) [OF u(2)]] W(1) by simp
  moreover have "inode_load (inode_store ip) ?ip = ip" using W(7) by (auto simp: inode_load_def inode_store_def)
  ultimately show ?thesis using t(1) u(1,3) W(6) assms(12) by (simp add: wp_def synced_def)
qed

section \<open>Two small files\<close>

text \<open>The file with inode \<open>n\<close>, of \<open>z\<close> bytes, in the one block \<open>b\<close>.\<close>

definition one_block :: "ushort \<Rightarrow> uint \<Rightarrow> uint \<Rightarrow> uint \<Rightarrow> inode" where
  "one_block ty n b z = \<lparr>i_dev = ROOTDEV, i_inum = n, i_ref = 1, i_flags = {I_VALID}, i_type = ty, i_major = 0, i_minor = 0,
    i_nlink = 1, i_size = z, i_addrs = b # replicate 12 0\<rparr>"

definition small_files :: "(uint \<Rightarrow> byte list) \<Rightarrow> inode list \<Rightarrow> cons_state" where
  "small_files D ic = \<lparr>held = held (small_fs D), mem = mem (small_fs D), freelist = freelist (small_fs D), use_lock = use_lock (small_fs D),
    kend = kend (small_fs D), ptable = ptable (small_fs D), nextpid = nextpid (small_fs D), initproc = initproc (small_fs D),
    cpus = cpus (small_fs D), mycpu = mycpu (small_fs D), kpgdir = kpgdir (small_fs D), trapret = trapret (small_fs D),
    forkret_addr = forkret_addr (small_fs D), kdata = kdata (small_fs D), bufs = bufs (small_fs D), mru = mru (small_fs D),
    disk = disk (small_fs D), disksize = disksize (small_fs D), writes = writes (small_fs D), l_start = l_start (small_fs D),
    l_size = l_size (small_fs D), l_busy = l_busy (small_fs D), l_dev = l_dev (small_fs D), lh_n = lh_n (small_fs D),
    lh_sector = lh_sector (small_fs D), icache = ic,
    dev_in = \<lambda>_ _. 0, dev_mmio = \<lambda>_ _. 0, trace = [], irqmask = 0, ismp = False, ioapicid = 0, lapic = 0, uart = False,
    kbd_shift = 0, panicked = False, cons_locking = True, in_buf = replicate 128 0, in_r = 0, in_w = 0, in_e = 0, devsw = \<lambda>_. None\<rparr>"

lemma small_files_core: "log_state.truncate (small_files D ic) = small_fs D" "icache (small_files D ic) = ic"
  by (simp_all add: small_files_def log_state.truncate_def)

definition two_disk :: "uint \<Rightarrow> byte list" where
  "two_disk = (small_bitmap 0x3F 0)(4 := block_of 65, 5 := block_of 66,
    2 := wr_at enc_dinode (wr_at enc_dinode (block_of 0) 64 (inode_store (one_block T_FILE 1 4 5))) 128 (inode_store (one_block T_FILE 2 5 512)))"

abbreviation (input) two_files :: cons_state where
  "two_files \<equiv> small_files two_disk [one_block T_FILE 1 4 5, one_block T_FILE 2 5 512]"

lemma length_inode_store: "length (d_addrs (inode_store (one_block ty n b z))) = 13"
  by (simp add: inode_store_def one_block_def)

lemma two_disk: "length (two_disk n) = BSIZE" "two_disk 1 = small_disk 1" "two_disk 3 = 0x3F # 0 # replicate 510 0" "two_disk 10 = block_of 0"
  using small_bitmap(1) [of "0x3F" 0 n] by (simp_all add: two_disk_def small_bitmap c_dinode.length_wr length_inode_store block_of_def)

lemma small_files_ok:
  assumes D: "\<And>n. length (D n) = BSIZE" "D 1 = small_disk 1" "D 3 = 0x3F # 0 # replicate 510 0" "D 10 = block_of 0"
  shows "fs_ok (small_files D ic)" and "l_busy (small_files D ic)" and "busy (small_files D ic) = {}" and "blk (small_files D ic) = D"
    and "sb_ninodes (fs_sb (small_files D ic)) = 4" and "free (small_files D ic) = {6, 7, 8, 9}" and "bitmap (small_files D ic) = {3}" and "logset (small_files D ic) = {}"
    and "l_size (small_files D ic) = 10" and "\<And>b. data_block (small_files D ic) b \<longleftrightarrow> 4 \<le> unat b \<and> unat b < 10" and "used (small_files D ic) 4" and "used (small_files D ic) 5"
proof -
  note S = small_fs_bitmap [OF D] and F = small_fs_ok [OF D(1,2,4)]
  have "log_state.truncate (small_fs D) = small_fs D" by (simp add: log_state.truncate_def)
  then have core: "log_state.truncate (small_files D ic) = log_state.truncate (small_fs D)" by (simp add: small_files_core)
  note C = same_core [OF core]
  have u: "used (small_fs D) b" if "unat b < 6" for b
  proof -
    have "unat b \<in> {0, 1, 2, 3, 4, 5}" using that by auto
    then show ?thesis using S(9) [of b] that by (auto simp: bit_numeral_rec)
  qed
  then show "used (small_files D ic) 4" "used (small_files D ic) 5" using C(9) by simp_all
  have "fs_ok (small_fs D)" using u S(1,4,6) by (simp add: fs_ok_def)
  then show "fs_ok (small_files D ic)" "l_busy (small_files D ic)" "busy (small_files D ic) = {}" "blk (small_files D ic) = D" "sb_ninodes (fs_sb (small_files D ic)) = 4"
    using C S F by simp_all
  show d: "data_block (small_files D ic) b \<longleftrightarrow> 4 \<le> unat b \<and> unat b < 10" for b unfolding C(11) using S(4,6) by (simp add: data_block_def)
  show "logset (small_files D ic) = {}" "l_size (small_files D ic) = 10" using C(3) F(7,12) by (simp_all add: logset_def small_files_def)
  have nu: "\<not> used (small_fs D) b" if "unat b \<in> {6, 7, 8, 9}" for b using S(9) [of b] that by (auto simp: bit_numeral_rec)
  have "b \<in> free (small_files D ic) \<longleftrightarrow> unat b \<in> {6, 7, 8, 9}" for b
  proof
    assume "b \<in> free (small_files D ic)"
    then have "\<not> unat b < 6" "unat b < 10" using u [of b] C(9) by (auto simp: free_def d)
    then show "unat b \<in> {6, 7, 8, 9}" by auto
  next
    assume b: "unat b \<in> {6, 7, 8, 9}"
    then have "4 \<le> unat b \<and> unat b < 10" by auto
    then show "b \<in> free (small_files D ic)" using nu [OF b] C(9) by (simp add: free_def d)
  qed
  moreover have "unat b \<in> {6, 7, 8, 9} \<longleftrightarrow> b \<in> {6, 7, 8, 9}" for b :: uint by (simp add: word_eq_iff_unat)
  ultimately show "free (small_files D ic) = {6, 7, 8, 9}" by blast
  have "bm_block (small_fs D) ` {c. unat c < 20} = {3}" using S(7) by (auto simp: image_def intro!: exI [of _ 0])
  then show "bitmap (small_files D ic) = {3}" unfolding bitmap_def C(7,8) S(5) by simp
qed

lemmas two_files = small_files_ok [OF two_disk, where ic = "[one_block T_FILE 1 4 5, one_block T_FILE 2 5 512]"]

lemma one_block_addr:
  shows "ind (one_block ty n b z) = 0" and "addr D (one_block ty n b z) k = (if k = 0 then b else 0)"
    and "b \<noteq> 0 \<Longrightarrow> owned D (one_block ty n b z) = {b}" and "spare (one_block ty n b z) = 1"
proof -
  show i: "ind (one_block ty n b z) = 0" by (simp add: ind_def one_block_def)
  then show "spare (one_block ty n b z) = 1" by (simp add: spare_def)
  have "i_addrs (one_block ty n b z) ! k = (if k = 0 then b else 0)" if "k < NDIRECT"
    using that by (cases k) (simp_all add: one_block_def)
  then show a: "addr D (one_block ty n b z) k = (if k = 0 then b else 0)" for k
    unfolding addr_def i by (cases k) (simp_all add: one_block_def)
  show "owned D (one_block ty n b z) = {b}" if "b \<noteq> 0" unfolding owned_def i a using that by auto
qed

lemma one_block_wf:
  assumes "n < sb_ninodes (fs_sb s)" and "data_block s b" and "used s b" and "b \<noteq> 0" and "unat z \<le> BSIZE"
  shows "inode_wf s (one_block ty n b z)"
proof -
  have "length (i_addrs (one_block ty n b z)) = 13" "i_dev (one_block ty n b z) = ROOTDEV" "i_inum (one_block ty n b z) = n"
    "i_size (one_block ty n b z) = z" by (simp_all add: one_block_def)
  moreover have "k = 0" if "k * BSIZE < unat z" for k using that assms(5) by (cases k) simp_all
  ultimately show ?thesis using assms unfolding inode_wf_def by (auto simp: one_block_addr)
qed

lemma two_files_wf: "files_wf two_files {0, 1}"
  unfolding files_wf_def small_files_core(2)
  using one_block_wf [of 1 two_files 4 5 T_FILE] one_block_wf [of 2 two_files 5 512 T_FILE] two_files(5,10-12)
  by (auto simp: one_block_addr) (simp_all add: one_block_def)

lemma one_block_provision:
  assumes D: "\<And>n. length (D n) = BSIZE" "D 1 = small_disk 1" "D 3 = 0x3F # 0 # replicate 510 0" "D 10 = block_of 0" and k: "k \<le> 3"
  shows "provision k (small_files D ic) (one_block ty 1 b z)"
proof -
  note S = small_files_ok [OF D, of ic]
  have "IBLOCK 1 = 2" by (simp add: IBLOCK_def)
  then have "meta (small_files D ic) (one_block ty 1 b z) = {2, 3}"
    unfolding meta_def S(7) one_block_addr(1) by (simp add: one_block_def)
  then show ?thesis
    unfolding provision_def tx_budget_def S(3,6,8,9) one_block_addr(4) using k by simp
qed

lemma one_block_content:
  assumes "length (D b) = BSIZE" and "unat z \<le> BSIZE"
  shows "content D (one_block ty n b z) = take (unat z) (D b)"
proof (rule nth_equalityI)
  fix x assume "x < length (content D (one_block ty n b z))"
  then have x: "x < unat z" "i_size (one_block ty n b z) = z" by (simp_all add: one_block_def)
  then have "fbyte D (one_block ty n b z) x = D b ! x" using assms(2) by (simp add: fbyte_def one_block_addr(2))
  then show "content D (one_block ty n b z) ! x = take (unat z) (D b) ! x" using x by (simp add: content_def)
qed (use assms in \<open>simp add: one_block_def\<close>)

lemma delivers_local: "delivers (LocalBytes d) d s"
  by (simp add: delivers_def copy_from_def)

lemma two_files_content: "content two_disk (one_block T_FILE 1 4 5) = [65, 65, 65, 65, 65]"
proof -
  have "two_disk 4 = block_of 65" by (simp add: two_disk_def)
  moreover have "replicate 5 (65 :: byte) = [65, 65, 65, 65, 65]" by (simp add: numeral_eq_Suc)
  ultimately show ?thesis using one_block_content [of two_disk 4 5 T_FILE 1] by (simp add: block_of_def)
qed

lemma two_files_span: "spanned (unat (4 :: uint)) (unat (3 :: uint)) = 1"
  by (simp add: spanned_def)

lemma two_files_sel: "icache two_files ! 0 = one_block T_FILE 1 4 5" "icache two_files ! 1 = one_block T_FILE 2 5 512"
    "length (icache two_files) = 2" "i_type (one_block ty n b z) = ty" "i_size (one_block ty n b z) = z" "i_inum (one_block ty n b z) = n"
  by (simp_all add: small_files_core(2) one_block_def)

theorem writei_keeps_files_witness:
  "\<exists>t. writei 0 (LocalBytes [1, 2, 3]) 4 3 two_files = Ret 3 t \<and> files_wf t {0, 1} \<and>
    content (blk t) (icache t ! 0) = [65, 65, 65, 65, 1, 2, 3] \<and> icache t ! 1 = one_block T_FILE 2 5 512"
proof -
  have p: "provision (spanned (unat (4 :: uint)) (unat (3 :: uint)) + 2) two_files (one_block T_FILE 1 4 5)"
    unfolding two_files_span by (rule one_block_provision [OF two_disk]) simp
  obtain t where "writei 0 (LocalBytes [1, 2, 3]) 4 3 two_files = Ret 3 t" "files_wf t {0, 1}"
      "content (blk t) (icache t ! 0) = take 4 [65, 65, 65, 65, 65] @ [1, 2, 3] @ drop 7 [65, 65, 65, 65, 65]"
      "\<forall>j \<in> {0, 1} - {0}. icache t ! j = icache two_files ! j"
    using writei_keeps_files [where i = 0 and off = 4 and n = 3 and src = "LocalBytes [1, 2, 3]" and data = "[1, 2, 3]",
      OF two_files(1-3) two_files_wf, unfolded two_files_sel(1,4,5) two_files(4) two_files_content, OF _ _ p _ _ delivers_local]
    by (auto elim!: wpE)
  then show ?thesis using two_files_sel(2) by simp
qed

theorem writei_readi_witness:
  "\<exists>t. bindk (writei 0 (LocalBytes [1, 2, 3]) 4 3) (\<lambda>w. bindk (readi 0 Local 4 3) (\<lambda>(r, bs). ret (w, r, bs))) two_files =
      Ret (3, 3, [1, 2, 3]) t"
proof -
  have "rd_at 64 dec_dinode (two_disk 2) 64 = inode_store (one_block T_FILE 1 4 5)"
    unfolding two_disk_def
    by (simp add: c_dinode.rd_wr_other [where dec' = dec_dinode] c_dinode.rd_wr_same c_dinode.length_wr length_inode_store block_of_def)
  then have y: "synced two_disk (one_block T_FILE 1 4 5)" by (simp add: synced_def disk_inode_def IBLOCK_def dinode_off_def two_files_sel(6))
  have p: "provision (spanned (unat (4 :: uint)) (unat (3 :: uint)) + 1) two_files (one_block T_FILE 1 4 5)"
    unfolding two_files_span by (rule one_block_provision [OF two_disk]) simp
  have wf: "inode_wf two_files (one_block T_FILE 1 4 5)" using two_files_wf two_files_sel(1) by (simp add: files_wf_def)
  from writei_readi [where i = 0 and off = 4 and n = 3 and src = "LocalBytes [1, 2, 3]" and data = "[1, 2, 3]" and s = two_files,
      OF two_files(1-3), unfolded two_files_sel(1,4,5) two_files(4), OF wf _ _ y p _ _ delivers_local]
  obtain r t where "bindk (writei 0 (LocalBytes [1, 2, 3]) 4 3) (\<lambda>w. bindk (readi 0 Local 4 3) (\<lambda>(r, bs). ret (w, r, bs))) two_files = Ret r t"
      "r = (3, 3, [1, 2, 3])"
    by (auto simp: two_files_sel(3) elim!: wpE)
  then show ?thesis by blast
qed

end
