(* ===== verification/Xv6_Dir.thy ===== *)
theory Xv6_Dir
  imports Xv6_Content
begin

text \<open>
  Directories: the bytes of a directory are a table of entries, and \<open>dirlookup\<close> and \<open>dirlink\<close> make
  it a map from names to inode numbers.
\<close>

section \<open>The table of entries\<close>

interpretation c_dirent: codec 16 enc_dirent dec_dirent "\<lambda>d. length (de_name d) = DIRSIZ"
proof
  show "enc_dirent (dec_dirent bs) = bs" if "length bs = 16" for bs
    using that take_add [of 2 14 bs] by (simp add: enc_dirent_def dec_dirent_def rd_at_def enc16_dec16)
qed (simp_all add: enc_dirent_def dec_dirent_def rd_at_def)

definition dent :: "byte list \<Rightarrow> nat \<Rightarrow> dirent" where
  "dent bs k = rd_at 16 dec_dirent bs (16 * k)"

text \<open>The first entry in use with this name, and the map from names to inode numbers.\<close>

definition entry_named :: "byte list \<Rightarrow> byte list \<Rightarrow> nat \<Rightarrow> bool" where
  "entry_named bs name k \<longleftrightarrow> de_inum (dent bs k) \<noteq> 0 \<and> cstr DIRSIZ (de_name (dent bs k)) = cstr DIRSIZ name"

definition dir_find :: "byte list \<Rightarrow> byte list \<Rightarrow> nat option" where
  "dir_find bs name = find (entry_named bs name) [0..<length bs div 16]"

definition dir_get :: "byte list \<Rightarrow> byte list \<Rightarrow> ushort option" where
  "dir_get bs name = map_option (\<lambda>k. de_inum (dent bs k)) (dir_find bs name)"

lemma find_append: "find P (xs @ ys) = (case find P xs of None \<Rightarrow> find P ys | Some x \<Rightarrow> Some x)"
  by (induction xs) simp_all

lemma find_single:
  assumes "j < n" and "\<And>k. k < n \<Longrightarrow> P k \<longleftrightarrow> k = j"
  shows "find P [0..<n] = Some j"
  using assms by (auto simp: find_Some_iff intro!: exI [of _ j])

lemma find_more:
  assumes "n \<le> n'" and "\<And>k. k < n \<Longrightarrow> P' k \<longleftrightarrow> P k" and "\<And>k. n \<le> k \<Longrightarrow> k < n' \<Longrightarrow> \<not> P' k"
  shows "find P' [0..<n'] = find P [0..<n]"
proof -
  have a: "find P' [0..<n] = find P [0..<n]" using assms(2) by (intro find_cong) auto
  have "find P' [n..<n'] = None" using assms(3) by (auto simp: find_None_iff)
  moreover have "[0..<n'] = [0..<n] @ [n..<n']" using upt_add_eq_append [of 0 n "n' - n"] assms(1) by simp
  ultimately show ?thesis using a by (simp add: find_append split: option.split)
qed

text \<open>Writing one entry at \<open>j\<close>.\<close>

definition put_entry :: "nat \<Rightarrow> dirent \<Rightarrow> byte list \<Rightarrow> byte list" where
  "put_entry j de bs = take (16 * j) bs @ enc_dirent de @ drop (16 * j + 16) bs"

lemma put_entry:
  assumes "16 dvd length bs" and "16 * j \<le> length bs" and "length (de_name de) = DIRSIZ"
  shows "length (put_entry j de bs) = max (length bs) (16 * j + 16)" and "16 dvd length (put_entry j de bs)"
    and "\<And>m. m < length (put_entry j de bs) div 16 \<Longrightarrow> dent (put_entry j de bs) m = (if m = j then de else dent bs m)"
proof -
  have e: "length (enc_dirent de) = 16" using assms(3) by (rule c_dirent.length_enc)
  show l: "length (put_entry j de bs) = max (length bs) (16 * j + 16)" using assms(2) e by (simp add: put_entry_def)
  show "16 dvd length (put_entry j de bs)" unfolding l using assms(1) by (simp add: max_def)
  fix m
  consider "m < j" | "m = j" | "m > j" by linarith
  then show "dent (put_entry j de bs) m = (if m = j then de else dent bs m)"
  proof cases
    case 1
    then have "take (16 + 16 * m) (put_entry j de bs) = take (16 + 16 * m) bs"
      using assms(2) by (simp add: put_entry_def min_absorb1)
    then show ?thesis using 1 by (simp add: dent_def rd_at_def take_drop)
  next
    case 2
    then show ?thesis using assms(2,3) e c_dirent.dec_enc by (simp add: dent_def rd_at_def put_entry_def)
  next
    case 3
    then have "drop (16 * m) (put_entry j de bs) = drop (16 * m) bs"
      using assms(2) e by (simp add: put_entry_def drop_Cons')
    then show ?thesis using 3 by (simp add: dent_def rd_at_def)
  qed
qed

lemma dir_get_put:
  assumes "16 dvd length bs" and "16 * j \<le> length bs" and "length (de_name de) = DIRSIZ" and "de_inum de \<noteq> 0"
    and new: "dir_find bs (de_name de) = None" and slot: "16 * j < length bs \<Longrightarrow> de_inum (dent bs j) = 0"
  shows "dir_get (put_entry j de bs) = (\<lambda>nm. if cstr DIRSIZ nm = cstr DIRSIZ (de_name de) then Some (de_inum de) else dir_get bs nm)"
proof
  fix nm
  note P = put_entry [OF assms(1-3)]
  let ?n = "length bs div 16" and ?n' = "length (put_entry j de bs) div 16"
  have le: "?n \<le> ?n'" "j < ?n'" unfolding P(1) by (simp_all add: div_le_mono)
  have old: "\<not> entry_named bs (de_name de) k" if "k < ?n" for k using new that by (auto simp: dir_find_def find_None_iff)
  have last: "k = j" if "?n \<le> k" "k < ?n'" for k using that assms(1,2) unfolding P(1) by (auto simp: max_def split: if_splits)
  have e: "entry_named (put_entry j de bs) nm k \<longleftrightarrow> (if k = j then cstr DIRSIZ (de_name de) = cstr DIRSIZ nm else entry_named bs nm k)"
    if "k < ?n'" for k using P(3) [OF that] assms(4) by (simp add: entry_named_def)
  show "dir_get (put_entry j de bs) nm = (if cstr DIRSIZ nm = cstr DIRSIZ (de_name de) then Some (de_inum de) else dir_get bs nm)"
  proof (cases "cstr DIRSIZ nm = cstr DIRSIZ (de_name de)")
    case True
    then have "entry_named bs nm = entry_named bs (de_name de)" by (simp add: entry_named_def fun_eq_iff)
    then have "entry_named (put_entry j de bs) nm k \<longleftrightarrow> k = j" if "k < ?n'" for k
      using e [OF that] True old last [of k] that by (cases "k < ?n") auto
    from find_single [OF le(2) this] show ?thesis using True P(3) [OF le(2)] by (simp add: dir_get_def dir_find_def)
  next
    case False
    have free: "\<not> entry_named bs nm j" if "j < ?n" using slot that by (auto simp: entry_named_def)
    have "find (entry_named (put_entry j de bs) nm) [0..<?n'] = find (entry_named bs nm) [0..<?n]"
      by (rule find_more [OF le(1)]) (use e le last free False in \<open>auto split: if_splits\<close>)
    moreover have "k \<noteq> j" if "find (entry_named bs nm) [0..<?n] = Some k" for k using that free by (auto simp: find_Some_iff)
    moreover have "k < ?n'" if "find (entry_named bs nm) [0..<?n] = Some k" for k using that le(1) by (auto simp: find_Some_iff)
    ultimately show ?thesis using False P(3) unfolding dir_get_def dir_find_def by (cases "find (entry_named bs nm) [0..<?n]") simp_all
  qed
qed

section \<open>dirlookup\<close>

definition dir_wf :: "'z log_state_scheme \<Rightarrow> inode \<Rightarrow> bool" where
  "dir_wf s dp \<longleftrightarrow> inode_wf s dp \<and> i_type dp = T_DIR \<and> 16 dvd unat (i_size dp)"

lemma read_dirent_run:
  fixes s :: "'z cons_state_scheme"
  assumes ok: "fs_ok s" "busy s = {}" "tx_budget {} (Suc n) s" and dp: "icache s ! i = dp" "inode_wf s dp" "i_type dp = T_DIR"
    and k: "16 * k + 16 \<le> unat (i_size dp)"
  shows "\<exists>t. read_dirent msg i (of_nat (16 * k)) s = Ret (dent (content (blk s) dp) k) t \<and> tx_after {} s t \<and> blk t = blk s"
proof -
  let ?off = "of_nat (16 * k) :: uint"
  have u: "unat ?off = 16 * k" "unat (?off + 16) = 16 * k + 16"
    using k inode_wfD(8) [OF dp(2)] by (simp_all add: unat_of_nat_32 unat_add_no_wrap del: of_nat_mult)
  have off: "?off \<le> i_size dp" "?off \<le> ?off + 16" "i_type dp \<noteq> T_DEV"
    unfolding word_le_nat_alt u using k dp(3) by simp_all
  have l: "min (unat (i_size dp) - 16 * k) 16 = 16" using k by simp
  from readi_run [OF ok dp(1,2) off(3,1,2)]
  obtain t where "readi i Local ?off 16 s = Ret (16, take 16 (drop (16 * k) (content (blk s) dp))) t" "tx_after {} s t" "blk t = blk s"
    unfolding u by (auto simp: l simp del: of_nat_mult elim!: wpE)
  then show ?thesis by (simp add: read_dirent_def dent_def rd_at_def del: of_nat_mult)
qed

text \<open>What \<open>dirlookup\<close> does with the entry it finds.\<close>

definition found_entry :: "byte list \<Rightarrow> nat option \<Rightarrow> ((nat \<times> uint) option, 'z cons_state_scheme) kernel" where
  "found_entry bs r = (case r of None \<Rightarrow> ret None
    | Some k \<Rightarrow> bindk (iget ROOTDEV (ucast (de_inum (dent bs k)))) (\<lambda>ip. ret (Some (ip, of_nat (16 * k)))))"

lemma dirlookup_scan_run:
  fixes s :: "'z cons_state_scheme"
  assumes "fs_ok s" "busy s = {}" "tx_budget {} (Suc n) s" and "icache s ! i = dp" "inode_wf s dp" "i_type dp = T_DIR"
    and "16 * m \<le> unat (i_size dp)"
  shows "\<exists>t. dirlookup_scan (map (\<lambda>j. of_nat (16 * j)) [k..<m]) i name s =
      found_entry (content (blk s) dp) (find (entry_named (content (blk s) dp) name) [k..<m]) t \<and> tx_after {} s t \<and> blk t = blk s"
  using assms
proof (induction "m - k" arbitrary: k s)
  case 0
  then show ?case using tx_after_refl [of s] by (auto simp: found_entry_def fs_ok_def)
next
  case (Suc d)
  note A = Suc.prems
  have k: "k < m" "[k..<m] = k # [Suc k..<m]" "d = m - Suc k" using Suc.hyps(2) by (simp_all add: upt_conv_Cons)
  have "16 * k + 16 \<le> unat (i_size dp)" using k(1) A(7) by simp
  from read_dirent_run [OF A(1-6) this, of "''dirlink read''"]
  obtain t where t: "read_dirent ''dirlink read'' i (of_nat (16 * k)) s = Ret (dent (content (blk s) dp) k) t" "tx_after {} s t" "blk t = blk s" by blast
  note S = same_inode [OF t(2,3)] and T = tx_afterD [OF t(2)]
  have ic: "icache t ! i = dp" using lframe_icache [OF T(2)] A(4) by simp
  have "\<exists>u. dirlookup_scan (map (\<lambda>j. of_nat (16 * j)) [Suc k..<m]) i name t =
      found_entry (content (blk t) dp) (find (entry_named (content (blk t) dp) name) [Suc k..<m]) u \<and> tx_after {} t u \<and> blk u = blk t"
    by (rule Suc.hyps(1) [OF k(3)]) (use A S T(3) ic in auto)
  then obtain u where u: "dirlookup_scan (map (\<lambda>j. of_nat (16 * j)) [Suc k..<m]) i name t =
      found_entry (content (blk s) dp) (find (entry_named (content (blk s) dp) name) [Suc k..<m]) u" "tx_after {} s u" "blk u = blk s"
    using t(3) tx_after_trans [OF t(2), of "{}"] by auto
  show ?case
  proof (cases "entry_named (content (blk s) dp) name k")
    case True
    then have "dirlookup_scan (map (\<lambda>j. of_nat (16 * j)) [k..<m]) i name s = found_entry (content (blk s) dp) (Some k) t"
      using t(1) ic inode_wfD(2) [OF A(5)] by (simp add: k(2) found_entry_def entry_named_def namecmp_def strncmp_l_0 del: of_nat_mult)
    moreover have "find (entry_named (content (blk s) dp) name) [k..<m] = Some k" using True by (simp add: k(2))
    ultimately show ?thesis using t(2,3) by (intro exI [of _ t]) simp
  next
    case False
    then have "dirlookup_scan (map (\<lambda>j. of_nat (16 * j)) [k..<m]) i name s = dirlookup_scan (map (\<lambda>j. of_nat (16 * j)) [Suc k..<m]) i name t"
      using t(1) by (auto simp: k(2) entry_named_def namecmp_def strncmp_l_0 simp del: of_nat_mult)
    moreover have "find (entry_named (content (blk s) dp) name) [k..<m] = find (entry_named (content (blk s) dp) name) [Suc k..<m]"
      using False by (simp add: k(2))
    ultimately show ?thesis using u by (intro exI [of _ u]) simp
  qed
qed

lemma dir_offs_0: "16 dvd unat sz \<Longrightarrow> dir_offs k sz = map (\<lambda>j. of_nat (16 * j)) [k..<unat sz div 16]"
  by (auto simp: dir_offs_def dvd_def)

lemma dirlookup_run:
  fixes s :: "'z cons_state_scheme"
  assumes "fs_ok s" "busy s = {}" "tx_budget {} (Suc n) s" and "icache s ! i = dp" "dir_wf s dp"
  shows "\<exists>t. dirlookup i name s = found_entry (content (blk s) dp) (dir_find (content (blk s) dp) name) t \<and> tx_after {} s t \<and> blk t = blk s"
proof -
  have d: "inode_wf s dp" "i_type dp = T_DIR" "16 dvd unat (i_size dp)" using assms(5) by (simp_all add: dir_wf_def)
  have m: "16 * (unat (i_size dp) div 16) \<le> unat (i_size dp)" by simp
  show ?thesis
    using dirlookup_scan_run [OF assms(1-4) d(1,2) m, of 0 name] assms(4) d(2)
    by (simp add: dirlookup_def dir_offs_0 [OF d(3)] dir_find_def del: of_nat_mult)
qed

section \<open>dirlink\<close>

text \<open>The first empty entry, or the end.\<close>

definition free_entry :: "byte list \<Rightarrow> nat \<Rightarrow> nat \<Rightarrow> nat" where
  "free_entry bs k m = (case find (\<lambda>j. de_inum (dent bs j) = 0) [k..<m] of None \<Rightarrow> m | Some j \<Rightarrow> j)"

lemma free_entry:
  shows "free_entry bs 0 m \<le> m" and "free_entry bs 0 m < m \<Longrightarrow> de_inum (dent bs (free_entry bs 0 m)) = 0"
proof -
  have "de_inum (dent bs j) = 0 \<and> j < m" if "find (\<lambda>j. de_inum (dent bs j) = 0) [0..<m] = Some j" for j
    using that by (auto simp: find_Some_iff)
  then show "free_entry bs 0 m \<le> m" "free_entry bs 0 m < m \<Longrightarrow> de_inum (dent bs (free_entry bs 0 m)) = 0"
    by (cases "find (\<lambda>j. de_inum (dent bs j) = 0) [0..<m]"; fastforce simp: free_entry_def)+
qed

lemma dir_empty_scan_run:
  fixes s :: "'z cons_state_scheme"
  assumes "fs_ok s" "busy s = {}" "tx_budget {} (Suc n) s" and "icache s ! i = dp" "inode_wf s dp" "i_type dp = T_DIR"
    and "16 * m \<le> unat (i_size dp)"
  shows "\<exists>t. dir_empty_scan (map (\<lambda>j. of_nat (16 * j)) [k..<m]) (of_nat (16 * m)) i s =
      Ret (of_nat (16 * free_entry (content (blk s) dp) k m)) t \<and> tx_after {} s t \<and> blk t = blk s"
  using assms
proof (induction "m - k" arbitrary: k s)
  case 0
  then show ?case using tx_after_refl [of s] by (auto simp: free_entry_def fs_ok_def)
next
  case (Suc d)
  note A = Suc.prems
  have k: "k < m" "[k..<m] = k # [Suc k..<m]" "d = m - Suc k" using Suc.hyps(2) by (simp_all add: upt_conv_Cons)
  have "16 * k + 16 \<le> unat (i_size dp)" using k(1) A(7) by simp
  from read_dirent_run [OF A(1-6) this, of "''dirlink read''"]
  obtain t where t: "read_dirent ''dirlink read'' i (of_nat (16 * k)) s = Ret (dent (content (blk s) dp) k) t" "tx_after {} s t" "blk t = blk s" by blast
  note S = same_inode [OF t(2,3)] and T = tx_afterD [OF t(2)]
  let ?bs = "content (blk s) dp"
  show ?case
  proof (cases "de_inum (dent ?bs k) = 0")
    case True
    then have "free_entry ?bs k m = k" by (simp add: free_entry_def k(2))
    then show ?thesis using t True by (simp add: k(2) del: of_nat_mult)
  next
    case False
    have "\<exists>u. dir_empty_scan (map (\<lambda>j. of_nat (16 * j)) [Suc k..<m]) (of_nat (16 * m)) i t =
        Ret (of_nat (16 * free_entry (content (blk t) dp) (Suc k) m)) u \<and> tx_after {} t u \<and> blk u = blk t"
      by (rule Suc.hyps(1) [OF k(3)]) (use A S T(3) lframe_icache [OF T(2)] in auto)
    then obtain u where u: "dir_empty_scan (map (\<lambda>j. of_nat (16 * j)) [Suc k..<m]) (of_nat (16 * m)) i t =
        Ret (of_nat (16 * free_entry ?bs (Suc k) m)) u" "tx_after {} s u" "blk u = blk s"
      using t(3) tx_after_trans [OF t(2), of "{}"] by auto
    have "dir_empty_scan (map (\<lambda>j. of_nat (16 * j)) [k..<m]) (of_nat (16 * m)) i s =
        dir_empty_scan (map (\<lambda>j. of_nat (16 * j)) [Suc k..<m]) (of_nat (16 * m)) i t"
      using t(1) False by (simp add: k(2) del: of_nat_mult)
    moreover have "free_entry ?bs k m = free_entry ?bs (Suc k) m" using False by (simp add: free_entry_def k(2))
    ultimately show ?thesis using u by (intro exI [of _ u]) (simp del: of_nat_mult)
  qed
qed

lemma same_provision:
  assumes "tx_after {} s t" and "blk t = blk s"
  shows "provision k t ip = provision k s ip"
  using same_state [OF assms] by (simp add: provision_def meta_def bitmap_def free_def)

lemma wrote_same:
  fixes s t :: "'z icache_state_scheme"
  assumes a: "tx_after {} s t" "blk t = blk s" and ok: "fs_ok s" and w: "wrote k i ip lo d t ip' u"
  shows "wrote k i ip lo d s ip' u"
proof -
  note S = same_state [OF a] and A = lframe_icache [OF tx_afterD(2) [OF a(1)]]
  have "fs_step {} s t" using S tx_fs_after [OF a(1)] ok unfolding fs_step_def by auto
  then have "fs_step W s t" for W by (rule fs_step_mono) simp
  from fs_step_trans [OF this, of _ u] show ?thesis using w S A a(2) unfolding wrote_def free_def by auto
qed

lemma dirlink_run:
  fixes s :: "'z cons_state_scheme" and inum :: uint
  assumes ok: "fs_ok s" "l_busy s" "busy s = {}" and dp: "icache s ! i = dp" "dir_wf s dp" "i < length (icache s)"
    and p: "provision (Suc (Suc k)) s dp" and z: "unat (i_size dp) + 16 \<le> MAXFILE * BSIZE"
    and new: "dir_find (content (blk s) dp) name = None"
  defines "de \<equiv> \<lparr>de_inum = ucast inum, de_name = strncpy_l DIRSIZ name\<rparr>"
  shows "\<exists>t dp' j. dirlink i name inum s = Ret 0 t \<and> wrote (Suc k) i dp (16 * j) (enc_dirent de) s dp' t \<and> j = free_entry (content (blk s) dp) 0 (unat (i_size dp) div 16)"
proof -
  have d: "inode_wf s dp" "i_type dp = T_DIR" "16 dvd unat (i_size dp)" using dp(2) by (simp_all add: dir_wf_def)
  have B: "tx_budget {} (Suc (Suc k + spare dp)) s" using p budget_subset [of "meta s dp" "Suc (Suc k + spare dp)" s "{}"] by (simp add: provision_def)
  let ?bs = "content (blk s) dp" and ?m = "unat (i_size dp) div 16"
  define j where "j = free_entry ?bs 0 ?m"
  have j: "16 * j \<le> unat (i_size dp)" using free_entry(1) [of ?bs ?m] d(3) by (simp add: j_def)
  from dirlookup_run [OF ok(1,3) B dp(1,2), of name]
  obtain s1 where s1: "dirlookup i name s = Ret None s1" "tx_after {} s s1" "blk s1 = blk s" unfolding new by (auto simp: found_entry_def)
  note S = same_inode [OF s1(2,3)] and T = tx_afterD [OF s1(2)]
  have ic: "icache s1 = icache s" by (rule lframe_icache [OF T(2)])
  have "\<exists>t. dir_empty_scan (map (\<lambda>j. of_nat (16 * j)) [0..<?m]) (of_nat (16 * ?m)) i s1 =
      Ret (of_nat (16 * free_entry (content (blk s1) dp) 0 ?m)) t \<and> tx_after {} s1 t \<and> blk t = blk s1"
    by (rule dir_empty_scan_run) (use ok S B T(3) ic dp(1) d in auto)
  then obtain s2 where s2: "dir_empty_scan (map (\<lambda>j. of_nat (16 * j)) [0..<?m]) (of_nat (16 * ?m)) i s1 = Ret (of_nat (16 * j)) s2"
      "tx_after {} s s2" "blk s2 = blk s"
    using s1(3) tx_after_trans [OF s1(2), of "{}"] unfolding j_def by auto
  note S2 = same_inode [OF s2(2,3)] and T2 = tx_afterD [OF s2(2)]
  have u: "unat (of_nat (16 * j) :: uint) = 16 * j" using j z by (simp add: unat_of_nat_32 del: of_nat_mult)
  have len: "length (enc_dirent de) = 16" by (simp add: enc_dirent_def de_def)
  have sp: "spanned (16 * j) 16 = 1"
  proof -
    have "16 * j mod BSIZE = 16 * (j mod 32)" by (simp add: mult_mod_right)
    then have "16 * j mod BSIZE + 16 \<le> BSIZE" using mod_less_divisor [of 32 j] by linarith
    from block_pos(1) [OF this, of "16 * j + 15"] show ?thesis by (simp add: spanned_def)
  qed
  have "wp (writei i (LocalBytes (enc_dirent de)) (of_nat (16 * j)) 16) (\<lambda>r t. r = int (unat (16 :: uint)) \<and>
      (\<exists>dp'. wrote (Suc k) i dp (unat (of_nat (16 * j) :: uint)) (enc_dirent de) s2 dp' t)) s2"
    by (rule writei_run [OF _ _ _ _ _ _ _ _ _ _ delivers_local])
      (use ok S2 T2(3,9) lframe_icache [OF T2(2)] dp(1,3) d same_provision [OF s2(2,3)] p j z len in
        \<open>simp_all add: u sp word_le_nat_alt del: of_nat_mult\<close>)
  then obtain t dp' where t: "writei i (LocalBytes (enc_dirent de)) (of_nat (16 * j)) 16 s2 = Ret 16 t" "wrote (Suc k) i dp (16 * j) (enc_dirent de) s2 dp' t"
    unfolding u by (auto elim!: wpE)
  have sz: "16 * ((unat (i_size dp) + 15) div 16) = 16 * ?m" using d(3) by (auto simp: dvd_def)
  have "dirlink i name inum s = Ret 0 t"
    using s1(1) s2(1) t(1) dp(1) ic unfolding dirlink_def Let_def dir_offs_0 [OF d(3)] by (simp add: dir_offs_0 [OF d(3)] sz de_def del: of_nat_mult)
  moreover have "wrote (Suc k) i dp (16 * j) (enc_dirent de) s dp' t"
    by (rule wrote_same [OF s2(2,3) ok(1) t(2)])
  ultimately show ?thesis unfolding j_def by blast
qed

lemma bindk_from: "m s = bindk a F t \<Longrightarrow> bindk m G s = bindk a (\<lambda>x. bindk (F x) G) t"
  by (simp add: bindk_def split: outcome.split)

text \<open>C6. A directory is a map from names to inode numbers, where names are compared as C strings of
  at most \<open>DIRSIZ\<close> bytes. \<open>dirlookup\<close> returns the inode \<open>iget\<close> gives for the number the map has for
  the name, and nothing for a name it does not have. \<open>dirlink\<close> of a new name adds it with its
  inode number and changes no other entry of the map; \<open>dirlink\<close> of a name that is there adds
  nothing and answers -1.\<close>

theorem directory_is_a_map:
  fixes s :: "'z cons_state_scheme" and inum :: uint
  assumes "fs_ok s" and "l_busy s" and "busy s = {}" and "dir_wf s (icache s ! i)" and "i < length (icache s)"
    and "provision (Suc (Suc k)) s (icache s ! i)" and "unat (i_size (icache s ! i)) + 16 \<le> MAXFILE * BSIZE"
    and "(ucast inum :: ushort) \<noteq> 0"
  defines "names \<equiv> \<lambda>t :: 'z cons_state_scheme. dir_get (content (blk t) (icache t ! i))"
  shows "case names s name of
      None \<Rightarrow> (\<exists>t. dirlookup i name s = Ret None t \<and> tx_after {} s t) \<and>
        wp (dirlink i name inum) (\<lambda>r t. r = 0 \<and> dir_wf t (icache t ! i) \<and>
          names t = (\<lambda>nm. if cstr DIRSIZ nm = cstr DIRSIZ name then Some (ucast inum) else names s nm)) s
    | Some n \<Rightarrow> \<exists>t. tx_after {} s t \<and> names t = names s \<and>
        (\<exists>off. dirlookup i name s = bindk (iget ROOTDEV (ucast n)) (\<lambda>ip. ret (Some (ip, off))) t) \<and>
        dirlink i name inum s = bindk (iget ROOTDEV (ucast n)) (\<lambda>ip. thenk (iput ip) (ret (-1))) t"
proof -
  let ?dp = "icache s ! i" let ?bs = "content (blk s) ?dp"
  have B: "tx_budget {} (Suc (Suc k + spare ?dp)) s"
    using assms(6) budget_subset [of "meta s ?dp" "Suc (Suc k + spare ?dp)" s "{}"] by (simp add: provision_def)
  obtain t where t: "dirlookup i name s = found_entry ?bs (dir_find ?bs name) t" "tx_after {} s t" "blk t = blk s"
    using dirlookup_run [OF assms(1,3) B refl assms(4), of name] by blast
  have ic: "icache t = icache s" by (rule lframe_icache [OF tx_afterD(2) [OF t(2)]])
  show ?thesis
  proof (cases "dir_find ?bs name")
    case (Some m)
    then have "dirlookup i name s = bindk (iget ROOTDEV (ucast (de_inum (dent ?bs m)))) (\<lambda>ip. ret (Some (ip, of_nat (16 * m)))) t"
      using t(1) by (simp only: found_entry_def option.case)
    moreover have "dirlink i name inum s = bindk (iget ROOTDEV (ucast (de_inum (dent ?bs m)))) (\<lambda>ip. thenk (iput ip) (ret (-1))) t"
      unfolding dirlink_def bindk_from [where m = "dirlookup i name" and s = s, OF calculation] by simp
    ultimately show ?thesis
      using Some t(2,3) ic by (auto simp: names_def dir_get_def simp del: of_nat_mult intro!: exI [of _ t])
  next
    case None
    let ?de = "\<lparr>de_inum = ucast inum, de_name = strncpy_l DIRSIZ name\<rparr>" and ?m = "unat (i_size ?dp) div 16"
    obtain u dp' j where u: "dirlink i name inum s = Ret 0 u" "wrote (Suc k) i ?dp (16 * j) (enc_dirent ?de) s dp' u" "j = free_entry ?bs 0 ?m"
      using dirlink_run [OF assms(1-3) refl assms(4-7) None, of inum] by blast
    have d: "inode_wf s ?dp" "i_type ?dp = T_DIR" "16 dvd unat (i_size ?dp)" using assms(4) by (simp_all add: dir_wf_def)
    have j: "16 dvd length ?bs" "16 * j \<le> length ?bs" "16 * j < length ?bs \<Longrightarrow> de_inum (dent ?bs j) = 0"
      using free_entry [of ?bs ?m] d(3) unfolding u(3) by (auto simp: dvd_def)
    have W: "icache u ! i = dp'" "inode_wf u dp'" "i_type dp' = T_DIR" "content (blk u) dp' = put_entry j ?de ?bs"
      using u(2) assms(5) d(2) unfolding wrote_def put_entry_def by (auto simp: enc_dirent_def)
    have "entry_named ?bs (de_name ?de) = entry_named ?bs name" by (simp add: entry_named_def fun_eq_iff cstr_strncpy_l)
    then have P: "dir_find ?bs (de_name ?de) = dir_find ?bs name" by (simp add: dir_find_def)
    have "16 dvd length (content (blk u) dp')" unfolding W(4) by (rule put_entry(2) [OF j(1,2)]) simp
    then have "dir_wf u dp'" using W(2,3) by (simp add: dir_wf_def)
    moreover have "dir_get (put_entry j ?de ?bs) = (\<lambda>nm. if cstr DIRSIZ nm = cstr DIRSIZ name then Some (ucast inum) else dir_get ?bs nm)"
      using dir_get_put [OF j(1,2) _ _ _ j(3), of ?de] assms(8) None P by (simp add: cstr_strncpy_l cong: if_cong)
    ultimately show ?thesis
      unfolding names_def using None t u(1) W(1,4) by (simp add: dir_get_def [of ?bs name] found_entry_def wp_def)
  qed
qed

section \<open>A small directory\<close>

definition root_entries :: "byte list" where
  "root_entries = enc_dirent \<lparr>de_inum = 1, de_name = strncpy_l DIRSIZ [46]\<rparr> @ enc_dirent \<lparr>de_inum = 1, de_name = strncpy_l DIRSIZ [46, 46]\<rparr>"

definition root_disk :: "uint \<Rightarrow> byte list" where
  "root_disk = (small_bitmap 0x3F 0)(4 := root_entries @ replicate 480 0)"

abbreviation (input) root_state :: cons_state where
  "root_state \<equiv> small_files root_disk [one_block T_DIR 1 4 32]"

lemma length_root_entries: "length root_entries = 32"
  by (simp add: root_entries_def enc_dirent_def)

lemma root_disk: "length (root_disk n) = BSIZE" "root_disk 1 = small_disk 1" "root_disk 3 = 0x3F # 0 # replicate 510 0" "root_disk 10 = block_of 0"
  using small_bitmap(1) [of "0x3F" 0 n] by (simp_all add: root_disk_def small_bitmap length_root_entries)

lemma root_dents: "dent root_entries 0 = \<lparr>de_inum = 1, de_name = strncpy_l DIRSIZ [46]\<rparr>"
    "dent root_entries (Suc 0) = \<lparr>de_inum = 1, de_name = strncpy_l DIRSIZ [46, 46]\<rparr>"
  using c_dirent.dec_enc by (simp_all add: dent_def rd_at_def root_entries_def c_dirent.length_enc)

lemma root_names: "dir_get root_entries [102] = None" "dir_get root_entries [46] = Some 1"
  by (simp_all add: dir_get_def dir_find_def entry_named_def length_root_entries numeral_2_eq_2 root_dents cstr_strncpy_l) (simp_all add: cstr_def)

theorem directory_is_a_map_witness:
  "\<exists>t. dirlink 0 [102] 2 root_state = Ret 0 t \<and> dir_get (content (blk t) (icache t ! 0)) [102] = Some 2 \<and>
    dir_get (content (blk t) (icache t ! 0)) [46] = Some 1"
proof -
  note S = small_files_ok [OF root_disk, where ic = "[one_block T_DIR 1 4 32]"]
  have sel: "icache root_state ! 0 = one_block T_DIR 1 4 32" "length (icache root_state) = 1"
    "i_size (one_block T_DIR 1 4 32) = 32" "i_type (one_block T_DIR 1 4 32) = T_DIR"
    by (simp_all add: small_files_core(2) one_block_def)
  have "inode_wf root_state (one_block T_DIR 1 4 32)" by (rule one_block_wf) (use S(5,10,11) in simp_all)
  then have wf: "dir_wf root_state (one_block T_DIR 1 4 32)" using sel by (simp add: dir_wf_def)
  have p: "provision (Suc (Suc 0)) root_state (one_block T_DIR 1 4 32)" by (rule one_block_provision [OF root_disk]) simp
  have "root_disk 4 = root_entries @ replicate 480 0" by (simp add: root_disk_def)
  then have c: "content root_disk (one_block T_DIR 1 4 32) = root_entries"
    using one_block_content [of root_disk 4 32 T_DIR 1] length_root_entries by simp
  have "wp (dirlink 0 [102] 2) (\<lambda>r t. r = 0 \<and> dir_wf t (icache t ! 0) \<and> dir_get (content (blk t) (icache t ! 0)) =
      (\<lambda>nm. if cstr DIRSIZ nm = cstr DIRSIZ [102] then Some (ucast (2 :: uint)) else dir_get root_entries nm)) root_state"
    using directory_is_a_map [where s = root_state and i = 0 and name = "[102]" and inum = 2 and k = 0, OF S(1-3), unfolded sel(1,3) S(4) c root_names(1) option.case,
      OF wf _ p] sel(2) by simp
  then obtain t where "dirlink 0 [102] 2 root_state = Ret 0 t" "dir_get (content (blk t) (icache t ! 0)) =
      (\<lambda>nm. if cstr DIRSIZ nm = cstr DIRSIZ [102] then Some (ucast (2 :: uint)) else dir_get root_entries nm)"
    by (auto elim!: wpE)
  then show ?thesis using root_names(2) by (simp add: cstr_def)
qed

end
