(* ===== verification/Xv6_Sysfile.thy ===== *)
theory Xv6_Sysfile
  imports Xv6_File
begin

text \<open>
  The argument fetching of syscall.c and the file system calls of sysfile.c (without
  \<open>sys_exec\<close>). The trap frame of the running process lies in kernel memory; the user's
  stack and buffers are read and written through its page table. A failed fetch is
  \<open>None\<close>; a fetched string is the list of its bytes.
\<close>

section \<open>syscall.c: arguments\<close>

text \<open>Offsets of the fields of \<open>struct trapframe\<close>.\<close>

abbreviation (input) TF_EAX :: uint where "TF_EAX \<equiv> 28"
abbreviation (input) TF_ES :: uint where "TF_ES \<equiv> 40"
abbreviation (input) TF_DS :: uint where "TF_DS \<equiv> 44"
abbreviation (input) TF_TRAPNO :: uint where "TF_TRAPNO \<equiv> 48"
abbreviation (input) TF_ERR :: uint where "TF_ERR \<equiv> 52"
abbreviation (input) TF_EIP :: uint where "TF_EIP \<equiv> 56"
abbreviation (input) TF_CS :: uint where "TF_CS \<equiv> 60"
abbreviation (input) TF_EFLAGS :: uint where "TF_EFLAGS \<equiv> 64"
abbreviation (input) TF_ESP :: uint where "TF_ESP \<equiv> 68"
abbreviation (input) TF_SS :: uint where "TF_SS \<equiv> 72"

definition tf_reg :: "uint \<Rightarrow> nat \<Rightarrow> 'z proc_state_scheme \<Rightarrow> uint" where
  "tf_reg field p s = load32 (p_tf (ptable s ! p) + field) (mem s)"

definition fetchint :: "uint \<Rightarrow> (uint option, 'z proc_state_scheme) kernel" where
  "fetchint addr = bindk myproc (\<lambda>me s. let sz = p_sz (ptable s ! me) in
    if addr \<ge> sz \<or> addr + 4 > sz then Ret None s
    else bindk (uread addr 4) (\<lambda>bs. ret (Some (dec32 bs))) s)"

text \<open>The scan for the NUL, with \<open>k\<close> bytes left before the end of the process.\<close>

primrec fetchstr_loop :: "nat \<Rightarrow> uint \<Rightarrow> byte list \<Rightarrow> (byte list option, 'z proc_state_scheme) kernel" where
  "fetchstr_loop 0 a acc = ret None"
| "fetchstr_loop (Suc k) a acc = bindk (uread a 1) (\<lambda>b.
    if hd b = 0 then ret (Some acc) else fetchstr_loop k (a + 1) (acc @ b))"

definition fetchstr :: "uint \<Rightarrow> (byte list option, 'z proc_state_scheme) kernel" where
  "fetchstr addr = bindk myproc (\<lambda>me s. let sz = p_sz (ptable s ! me) in
    if addr \<ge> sz then Ret None s else fetchstr_loop (unat (sz - addr)) addr [] s)"

definition argint :: "nat \<Rightarrow> (uint option, 'z proc_state_scheme) kernel" where
  "argint n = bindk myproc (\<lambda>me s. fetchint (tf_reg TF_ESP me s + 4 + 4 * of_nat n) s)"

definition argptr :: "nat \<Rightarrow> uint \<Rightarrow> (uint option, 'z proc_state_scheme) kernel" where
  "argptr n sz = bindk (argint n) (\<lambda>r. case r of None \<Rightarrow> ret None | Some i \<Rightarrow>
    bindk myproc (\<lambda>me s. let psz = p_sz (ptable s ! me) in
      if i \<ge> psz \<or> i + sz > psz then Ret None s else Ret (Some i) s))"

definition argstr :: "nat \<Rightarrow> (byte list option, 'z proc_state_scheme) kernel" where
  "argstr n = bindk (argint n) (\<lambda>r. case r of None \<Rightarrow> ret None | Some addr \<Rightarrow> fetchstr addr)"

text \<open>\<open>if(... < 0) return -1\<close> around a fetch.\<close>

definition orfail :: "('a option, 's) kernel \<Rightarrow> ('a \<Rightarrow> (int, 's) kernel) \<Rightarrow> (int, 's) kernel" where
  "orfail m f = bindk m (\<lambda>r. case r of None \<Rightarrow> ret (-1) | Some a \<Rightarrow> f a)"

section \<open>File descriptors\<close>

definition argfd :: "nat \<Rightarrow> ((nat \<times> nat) option, 'z proc_state_scheme) kernel" where
  "argfd n = bindk (argint n) (\<lambda>r. case r of None \<Rightarrow> ret None | Some fd \<Rightarrow>
    bindk myproc (\<lambda>me s.
      if sint fd < 0 \<or> sint fd \<ge> int NOFILE then Ret None s
      else case p_ofile (ptable s ! me) ! unat fd of
        None \<Rightarrow> Ret None s | Some f \<Rightarrow> Ret (Some (unat fd, f)) s))"

definition set_ofile :: "nat \<Rightarrow> nat option \<Rightarrow> (unit, 'z proc_state_scheme) kernel" where
  "set_ofile fd f = bindk myproc (\<lambda>me. modk (upd_proc me (\<lambda>p. p\<lparr>p_ofile := (p_ofile p)[fd := f]\<rparr>)))"

definition fdalloc :: "nat \<Rightarrow> (int, 'z proc_state_scheme) kernel" where
  "fdalloc f = bindk myproc (\<lambda>me s.
    case find (\<lambda>fd. p_ofile (ptable s ! me) ! fd = None) [0..<NOFILE] of
      Some fd \<Rightarrow> thenk (set_ofile fd (Some f)) (ret (int fd)) s
    | None \<Rightarrow> Ret (-1) s)"

definition sys_dup :: "(int, 'z file_state_scheme) kernel" where
  "sys_dup = orfail (argfd 0) (\<lambda>(_, f).
    bindk (fdalloc f) (\<lambda>fd. if fd < 0 then ret (-1) else thenk (filedup f) (ret fd)))"

definition sys_read :: "(int, 'z file_state_scheme) kernel" where
  "sys_read = orfail (argfd 0) (\<lambda>(_, f). orfail (argint 2) (\<lambda>n. orfail (argptr 1 n) (\<lambda>p.
    fileread f p (sint n))))"

definition sys_write :: "(int, 'z file_state_scheme) kernel" where
  "sys_write = orfail (argfd 0) (\<lambda>(_, f). orfail (argint 2) (\<lambda>n. orfail (argptr 1 n) (\<lambda>p.
    filewrite f p (sint n))))"

definition sys_close :: "(int, 'z file_state_scheme) kernel" where
  "sys_close = orfail (argfd 0) (\<lambda>(fd, f).
    thenk (set_ofile fd None) (thenk (fileclose f) (ret 0)))"

definition sys_fstat :: "(int, 'z file_state_scheme) kernel" where
  "sys_fstat = orfail (argfd 0) (\<lambda>(_, f). orfail (argptr 1 20) (\<lambda>st. filestat f st))"

section \<open>Links\<close>

definition add_nlink :: "nat \<Rightarrow> ushort \<Rightarrow> (unit, 'z icache_state_scheme) kernel" where
  "add_nlink i d = thenk (modk (upd_inode i (\<lambda>ip. ip\<lparr>i_nlink := i_nlink ip + d\<rparr>))) (iupdate i)"

definition sys_link_bad :: "nat \<Rightarrow> (int, 'z file_state_scheme) kernel" where
  "sys_link_bad ip = thenk (ilock ip) (thenk (add_nlink ip (-1)) (thenk (iunlockput ip)
    (thenk commit_trans (ret (-1)))))"

definition sys_link :: "(int, 'z file_state_scheme) kernel" where
  "sys_link = orfail (argstr 0) (\<lambda>old. orfail (argstr 1) (\<lambda>new. orfail (namei old) (\<lambda>ip.
    thenk begin_trans (thenk (ilock ip) (\<lambda>s.
    if i_type (icache s ! ip) = T_DIR then
      thenk (iunlockput ip) (thenk commit_trans (ret (-1))) s
    else
      thenk (add_nlink ip 1) (thenk (iunlock ip)
      (bindk (nameiparent new) (\<lambda>r. case r of
        None \<Rightarrow> sys_link_bad ip
      | Some (dp, name) \<Rightarrow> thenk (ilock dp) (\<lambda>s.
          bindk (if i_dev (icache s ! dp) \<noteq> i_dev (icache s ! ip) then ret (-1)
                 else dirlink dp name (i_inum (icache s ! ip))) (\<lambda>r.
            if r < 0 then thenk (iunlockput dp) (sys_link_bad ip)
            else thenk (iunlockput dp) (thenk (iput ip) (thenk commit_trans (ret 0)))) s)))) s)))))"

text \<open>\<open>isdirempty\<close> looks at the entries after \<open>.\<close> and \<open>..\<close>.\<close>

primrec isdirempty_scan :: "uint list \<Rightarrow> nat \<Rightarrow> (bool, 'z cons_state_scheme) kernel" where
  "isdirempty_scan [] dp = ret True"
| "isdirempty_scan (off # offs) dp = bindk (read_dirent ''isdirempty: readi'' dp off) (\<lambda>de.
    if de_inum de \<noteq> 0 then ret False else isdirempty_scan offs dp)"

definition isdirempty :: "nat \<Rightarrow> (bool, 'z cons_state_scheme) kernel" where
  "isdirempty dp = (\<lambda>s. isdirempty_scan (dir_offs 2 (i_size (icache s ! dp))) dp s)"

definition sys_unlink_bad :: "nat \<Rightarrow> (int, 'z file_state_scheme) kernel" where
  "sys_unlink_bad dp = thenk (iunlockput dp) (thenk commit_trans (ret (-1)))"

definition sys_unlink :: "(int, 'z file_state_scheme) kernel" where
  "sys_unlink = orfail (argstr 0) (\<lambda>path. orfail (nameiparent path) (\<lambda>(dp, name).
    thenk begin_trans (thenk (ilock dp)
    (if namecmp name (str ''.'') = 0 \<or> namecmp name (str ''..'') = 0 then sys_unlink_bad dp
     else bindk (dirlookup dp name) (\<lambda>r. case r of
       None \<Rightarrow> sys_unlink_bad dp
     | Some (ip, off) \<Rightarrow> thenk (ilock ip) (\<lambda>s.
         if sint (i_nlink (icache s ! ip)) < 1 then Panic ''unlink: nlink < 1''
         else bindk (if i_type (icache s ! ip) = T_DIR then isdirempty ip else ret True) (\<lambda>e.
           if \<not> e then thenk (iunlockput ip) (sys_unlink_bad dp)
           else bindk (writei dp (LocalBytes (replicate 16 0)) off 16) (\<lambda>r.
             if r \<noteq> 16 then panic ''unlink: writei''
             else thenk (\<lambda>s. if i_type (icache s ! ip) = T_DIR then add_nlink dp (-1) s else Ret () s)
               (thenk (iunlockput dp)
               (thenk (add_nlink ip (-1))
               (thenk (iunlockput ip)
               (thenk commit_trans
               (ret 0))))))) s))))))"

section \<open>Creating and opening\<close>

definition create :: "byte list \<Rightarrow> ushort \<Rightarrow> ushort \<Rightarrow> ushort \<Rightarrow> (nat option, 'z cons_state_scheme) kernel" where
  "create path type major minor = bindk (nameiparent path) (\<lambda>r. case r of
    None \<Rightarrow> ret None
  | Some (dp, name) \<Rightarrow> thenk (ilock dp) (bindk (dirlookup dp name) (\<lambda>r. case r of
      Some (ip, _) \<Rightarrow> thenk (iunlockput dp) (thenk (ilock ip) (\<lambda>s.
        if type = T_FILE \<and> i_type (icache s ! ip) = T_FILE then Ret (Some ip) s
        else thenk (iunlockput ip) (ret None) s))
    | None \<Rightarrow> (\<lambda>s. bindk (ialloc (i_dev (icache s ! dp)) type) (\<lambda>ip.
        thenk (ilock ip)
        (thenk (modk (upd_inode ip (\<lambda>x. x\<lparr>i_major := major, i_minor := minor, i_nlink := 1\<rparr>)))
        (thenk (iupdate ip)
        (thenk (\<lambda>s. if type = T_DIR then
            \<comment> \<open>create . and .. entries\<close>
            thenk (add_nlink dp 1)
            (bindk (dirlink ip (str ''.'') (i_inum (icache s ! ip))) (\<lambda>r.
              if r < 0 then panic ''create dots''
              else bindk (dirlink ip (str ''..'') (i_inum (icache s ! dp))) (\<lambda>r.
                if r < 0 then panic ''create dots'' else ret ()))) s
          else Ret () s)
        (\<lambda>s. bindk (dirlink dp name (i_inum (icache s ! ip))) (\<lambda>r.
          if r < 0 then panic ''create: dirlink''
          else thenk (iunlockput dp) (ret (Some ip))) s))))) s))))"

abbreviation (input) O_RDONLY :: uint where "O_RDONLY \<equiv> 0"
abbreviation (input) O_WRONLY :: uint where "O_WRONLY \<equiv> 1"
abbreviation (input) O_RDWR :: uint where "O_RDWR \<equiv> 2"
abbreviation (input) O_CREATE :: uint where "O_CREATE \<equiv> 0x200"

text \<open>The two ways \<open>sys_open\<close> gets at the locked inode, and what it does with it.\<close>

definition open_inode :: "byte list \<Rightarrow> uint \<Rightarrow> (nat option, 'z cons_state_scheme) kernel" where
  "open_inode path omode =
    (if omode AND O_CREATE \<noteq> 0 then
       thenk begin_trans (bindk (create path T_FILE 0 0) (\<lambda>r. thenk commit_trans (ret r)))
     else bindk (namei path) (\<lambda>r. case r of None \<Rightarrow> ret None | Some ip \<Rightarrow>
       thenk (ilock ip) (\<lambda>s.
         if i_type (icache s ! ip) = T_DIR \<and> omode \<noteq> O_RDONLY then thenk (iunlockput ip) (ret None) s
         else Ret (Some ip) s)))"

definition open_file :: "nat \<Rightarrow> uint \<Rightarrow> (int, 'z file_state_scheme) kernel" where
  "open_file ip omode = bindk filealloc (\<lambda>r. case r of
      None \<Rightarrow> thenk (iunlockput ip) (ret (-1))
    | Some f \<Rightarrow> bindk (fdalloc f) (\<lambda>fd.
        if fd < 0 then thenk (fileclose f) (thenk (iunlockput ip) (ret (-1)))
        else thenk (iunlock ip)
          (thenk (modk (upd_file f (\<lambda>x. x\<lparr>f_type := FD_INODE, f_ip := ip, f_off := 0,
             f_readable := (omode AND O_WRONLY = 0),
             f_writable := (omode AND O_WRONLY \<noteq> 0 \<or> omode AND O_RDWR \<noteq> 0)\<rparr>)))
          (ret fd))))"

definition sys_open :: "(int, 'z file_state_scheme) kernel" where
  "sys_open = orfail (argstr 0) (\<lambda>path. orfail (argint 1) (\<lambda>omode.
    orfail (open_inode path omode) (\<lambda>ip. open_file ip omode)))"

definition sys_mkdir :: "(int, 'z file_state_scheme) kernel" where
  "sys_mkdir = thenk begin_trans (bindk
    (bindk (argstr 0) (\<lambda>r. case r of None \<Rightarrow> ret None | Some path \<Rightarrow> create path T_DIR 0 0))
    (\<lambda>r. case r of
      None \<Rightarrow> thenk commit_trans (ret (-1))
    | Some ip \<Rightarrow> thenk (iunlockput ip) (thenk commit_trans (ret 0))))"

definition sys_mknod :: "(int, 'z file_state_scheme) kernel" where
  "sys_mknod = thenk begin_trans (bindk
    (bindk (argstr 0) (\<lambda>r. case r of None \<Rightarrow> ret None | Some path \<Rightarrow>
     bindk (argint 1) (\<lambda>r. case r of None \<Rightarrow> ret None | Some major \<Rightarrow>
     bindk (argint 2) (\<lambda>r. case r of None \<Rightarrow> ret None | Some minor \<Rightarrow>
     create path T_DEV (ucast major) (ucast minor)))))
    (\<lambda>r. case r of
      None \<Rightarrow> thenk commit_trans (ret (-1))
    | Some ip \<Rightarrow> thenk (iunlockput ip) (thenk commit_trans (ret 0))))"

text \<open>\<open>sys_chdir\<close> drops the old directory outside of a transaction.\<close>

definition sys_chdir :: "(int, 'z file_state_scheme) kernel" where
  "sys_chdir = orfail (argstr 0) (\<lambda>path. orfail (namei path) (\<lambda>ip.
    thenk (ilock ip) (\<lambda>s.
      if i_type (icache s ! ip) \<noteq> T_DIR then thenk (iunlockput ip) (ret (-1)) s
      else thenk (iunlock ip) (bindk myproc (\<lambda>me s.
        case p_cwd (ptable s ! me) of
          None \<Rightarrow> Panic ''null pointer: cwd''
        | Some cwd \<Rightarrow> thenk (iput cwd)
            (thenk (modk (upd_proc me (\<lambda>p. p\<lparr>p_cwd := Some ip\<rparr>)))
            (ret 0)) s)) s)))"

definition sys_pipe :: "(int, 'z file_state_scheme) kernel" where
  "sys_pipe = orfail (argptr 0 8) (\<lambda>fdarray. orfail pipealloc (\<lambda>(rf, wf).
    let bad = thenk (fileclose rf) (thenk (fileclose wf) (ret (-1))) in
    bindk (fdalloc rf) (\<lambda>fd0. if fd0 < 0 then bad else
    bindk (fdalloc wf) (\<lambda>fd1. if fd1 < 0 then thenk (set_ofile (nat fd0) None) bad else
    thenk (uwrite fdarray (enc32 (word_of_int fd0)))
    (thenk (uwrite (fdarray + 4) (enc32 (word_of_int fd1)))
    (ret 0))))))"

end
