(* ===== verification/Xv6_Process.thy ===== *)
theory Xv6_Process
  imports Xv6_Sysfile
begin

text \<open>
  The life of a process: \<open>userinit\<close>, \<open>fork\<close>, \<open>exit\<close> and \<open>forkret\<close> of proc.c, \<open>exec\<close> of
  exec.c with \<open>loaduvm\<close> of vm.c, and \<open>sys_exec\<close> of sysfile.c.
\<close>

section \<open>State\<close>

text \<open>The tick counter of trap.c and the static variable \<open>first\<close> of \<open>forkret\<close>.\<close>

record kern_state = file_state +
  ticks :: uint
  forkret_first :: bool

section \<open>proc.c\<close>

text \<open>The bytes \<open>safestrcpy\<close> writes when at most \<open>n\<close> bytes of \<open>t\<close> may be copied.\<close>

primrec safestrcpy_w :: "nat \<Rightarrow> byte list \<Rightarrow> byte list" where
  "safestrcpy_w 0 t = [0]"
| "safestrcpy_w (Suc n) t = (if hd0 t \<noteq> 0 then hd0 t # safestrcpy_w n (tl t) else [0, 0])"

definition set_name :: "byte list \<Rightarrow> proc \<Rightarrow> proc" where
  "set_name src p = p\<lparr>p_name := splice_at 0 (safestrcpy_w 15 src) (p_name p)\<rparr>"

text \<open>\<open>initcode\<close> and \<open>initsize\<close> are the linker's symbols for the embedded initcode.S.\<close>

definition userinit :: "uint \<Rightarrow> uint \<Rightarrow> (unit, 'z kern_state_scheme) kernel" where
  "userinit initcode initsize = bindk allocproc (\<lambda>r.
    thenk (modk (\<lambda>s. s\<lparr>initproc := r\<rparr>))
    (case r of None \<Rightarrow> panic ''null pointer: userinit'' | Some p \<Rightarrow>
      (\<lambda>s. bindk (setupkvm (kdata s)) (\<lambda>pgdir.
      thenk (modk (upd_proc p (\<lambda>q. q\<lparr>p_pgdir := pgdir\<rparr>)))
      (if pgdir = 0 then panic ''userinit: out of memory?''
       else thenk (inituvm pgdir initcode initsize)
        (thenk (modk (upd_proc p (\<lambda>q. q\<lparr>p_sz := PGSIZE\<rparr>)))
        (thenk (modk (\<lambda>s. let tf = p_tf (ptable s ! p) in
          s\<lparr>mem := store32 (tf + TF_EIP) 0 (store32 (tf + TF_ESP) PGSIZE (store32 (tf + TF_EFLAGS) 0x200
            (store16 (tf + TF_SS) 0x2B (store16 (tf + TF_ES) 0x2B (store16 (tf + TF_DS) 0x2B
            (store16 (tf + TF_CS) 0x23 (memset tf 0 76 (mem s))))))))\<rparr>))
        (thenk (modk (upd_proc p (set_name (str ''initcode''))))
        (bindk (namei (str ''/'')) (\<lambda>cwd.
        thenk (modk (upd_proc p (\<lambda>q. q\<lparr>p_cwd := cwd\<rparr>)))
        (modk (upd_proc p (\<lambda>q. q\<lparr>p_state := RUNNABLE\<rparr>)))))))))) s)))"

definition fork_files :: "nat \<Rightarrow> nat \<Rightarrow> (unit, 'z kern_state_scheme) kernel" where
  "fork_files me np = foreach [0..<NOFILE] (\<lambda>i s. case p_ofile (ptable s ! me) ! i of
      None \<Rightarrow> Ret () s
    | Some f \<Rightarrow> bindk (filedup f) (\<lambda>f. modk (upd_proc np (\<lambda>q. q\<lparr>p_ofile := (p_ofile q)[i := Some f]\<rparr>))) s)"

definition fork :: "(int, 'z kern_state_scheme) kernel" where
  "fork = bindk allocproc (\<lambda>r. case r of None \<Rightarrow> ret (-1) | Some np \<Rightarrow>
    bindk myproc (\<lambda>me s. let p = ptable s ! me in
    bindk (copyuvm (kdata s) (p_pgdir p) (p_sz p)) (\<lambda>d.
    thenk (modk (upd_proc np (\<lambda>q. q\<lparr>p_pgdir := d\<rparr>)))
    (if d = 0 then
       thenk (\<lambda>s. kfree (p_kstack (ptable s ! np)) s)
       (thenk (modk (upd_proc np (\<lambda>q. q\<lparr>p_kstack := 0, p_state := UNUSED\<rparr>)))
       (ret (-1)))
     else
       thenk (modk (upd_proc np (\<lambda>q. q\<lparr>p_sz := p_sz p, p_parent := Some me\<rparr>)))
       (thenk (modk (\<lambda>s. s\<lparr>mem := copy_up (p_tf (ptable s ! np)) (p_tf p) 76 (mem s)\<rparr>))
       (thenk (modk (\<lambda>s. s\<lparr>mem := store32 (p_tf (ptable s ! np) + TF_EAX) 0 (mem s)\<rparr>))
       (thenk (fork_files me np)
       (thenk (\<lambda>s. case p_cwd (ptable s ! me) of
           None \<Rightarrow> Panic ''null pointer: cwd''
         | Some cwd \<Rightarrow> bindk (idup cwd) (\<lambda>cwd. modk (upd_proc np (\<lambda>q. q\<lparr>p_cwd := Some cwd\<rparr>))) s)
       (bindk (getk (\<lambda>s. p_pid (ptable s ! np))) (\<lambda>pid.
       thenk (modk (upd_proc np (\<lambda>q. q\<lparr>p_state := RUNNABLE\<rparr>)))
       (thenk (modk (\<lambda>s. upd_proc np (set_name (p_name (ptable s ! me))) s))
       (ret (sint pid))))))))))) s))"

definition exit_files :: "nat \<Rightarrow> (unit, 'z kern_state_scheme) kernel" where
  "exit_files me = foreach [0..<NOFILE] (\<lambda>fd s. case p_ofile (ptable s ! me) ! fd of
      None \<Rightarrow> Ret () s
    | Some f \<Rightarrow> thenk (fileclose f) (modk (upd_proc me (\<lambda>q. q\<lparr>p_ofile := (p_ofile q)[fd := None]\<rparr>))) s)"

definition exit :: "('a, 'z kern_state_scheme) kernel" where
  "exit = bindk myproc (\<lambda>me s.
    if Some me = initproc s then Panic ''init exiting''
    else thenk (exit_files me)
      (thenk (\<lambda>s. case p_cwd (ptable s ! me) of
          None \<Rightarrow> Panic ''null pointer: cwd'' | Some cwd \<Rightarrow> iput cwd s)
      (thenk (modk (upd_proc me (\<lambda>p. p\<lparr>p_cwd := None\<rparr>)))
      exit_tail)) s)"

definition forkret :: "(unit, 'z kern_state_scheme) kernel" where
  "forkret = thenk (release LkPtable) (\<lambda>s.
    if forkret_first s then thenk (modk (\<lambda>s. s\<lparr>forkret_first := False\<rparr>)) initlog s else Ret () s)"

section \<open>loaduvm (vm.c)\<close>

function loaduvm_loop :: "uint \<Rightarrow> uint \<Rightarrow> nat \<Rightarrow> uint \<Rightarrow> uint \<Rightarrow> uint \<Rightarrow> (int, 'z kern_state_scheme) kernel" where
  "loaduvm_loop pgdir addr ip offset sz i =
    (if i < sz then
       bindk (walkpgdir pgdir (addr + i) False) (\<lambda>pte.
       if pte = 0 then panic ''loaduvm: address should exist''
       else (\<lambda>s. let pa = PTE_ADDR (load32 pte (mem s)); n = (if sz - i < PGSIZE then sz - i else PGSIZE) in
         bindk (readi ip (Kern (p2v pa)) (offset + i) n) (\<lambda>(r, _).
         if r \<noteq> sint n then ret (-1)
         else if i + PGSIZE > i then loaduvm_loop pgdir addr ip offset sz (i + PGSIZE)
         else panic ''loaduvm: wrapped around'') s))
     else ret 0)"
  by pat_completeness auto
termination
  by (relation "measure (\<lambda>(pgdir, addr, ip, offset, sz, i). 4294967296 - unat i)")
    (auto simp: word_less_nat_alt intro!: diff_less_mono2 unat_lt_2_32)

declare loaduvm_loop.simps [simp del]

definition loaduvm :: "uint \<Rightarrow> uint \<Rightarrow> nat \<Rightarrow> uint \<Rightarrow> uint \<Rightarrow> (int, 'z kern_state_scheme) kernel" where
  "loaduvm pgdir addr ip offset sz =
    (if addr mod PGSIZE \<noteq> 0 then panic ''loaduvm: addr must be page aligned''
     else loaduvm_loop pgdir addr ip offset sz 0)"

section \<open>exec.c\<close>

abbreviation (input) MAXARG :: nat where "MAXARG \<equiv> 32"
abbreviation (input) ELF_MAGIC :: uint where "ELF_MAGIC \<equiv> 0x464C457F"

text \<open>The fields of \<open>struct elfhdr\<close> (52 bytes) and \<open>struct proghdr\<close> (32 bytes) used.\<close>

record elfhdr =
  elf_magic :: uint
  elf_entry :: uint
  elf_phoff :: uint
  elf_phnum :: ushort

definition dec_elfhdr :: "byte list \<Rightarrow> elfhdr" where
  "dec_elfhdr bs = \<lparr>elf_magic = rd_at 4 dec32 bs 0, elf_entry = rd_at 4 dec32 bs 24,
    elf_phoff = rd_at 4 dec32 bs 28, elf_phnum = rd_at 2 dec16 bs 44\<rparr>"

record proghdr =
  ph_type :: uint
  ph_off :: uint
  ph_vaddr :: uint
  ph_filesz :: uint
  ph_memsz :: uint

definition dec_proghdr :: "byte list \<Rightarrow> proghdr" where
  "dec_proghdr bs = \<lparr>ph_type = rd_at 4 dec32 bs 0, ph_off = rd_at 4 dec32 bs 4, ph_vaddr = rd_at 4 dec32 bs 8,
    ph_filesz = rd_at 4 dec32 bs 16, ph_memsz = rd_at 4 dec32 bs 20\<rparr>"

text \<open>The loop over the program headers, \<open>k\<close> of them left; the result is the size of the
  image, or \<open>None\<close> for \<open>goto bad\<close>.\<close>

primrec exec_load :: "nat \<Rightarrow> nat \<Rightarrow> uint \<Rightarrow> uint \<Rightarrow> uint \<Rightarrow> (uint option, 'z kern_state_scheme) kernel" where
  "exec_load 0 ip pgdir off sz = ret (Some sz)"
| "exec_load (Suc k) ip pgdir off sz = bindk (readi ip Local off 32) (\<lambda>(r, bs).
    if r \<noteq> 32 then ret None
    else let ph = dec_proghdr bs in
      if ph_type ph \<noteq> 1 then exec_load k ip pgdir (off + 32) sz
      else if ph_memsz ph < ph_filesz ph then ret None
      else bindk (allocuvm pgdir sz (ph_vaddr ph + ph_memsz ph)) (\<lambda>sz.
        if sz = 0 then ret None
        else bindk (loaduvm pgdir (ph_vaddr ph) ip (ph_off ph) (ph_filesz ph)) (\<lambda>r.
          if r < 0 then ret None else exec_load k ip pgdir (off + 32) sz)))"

text \<open>Pushing the argument strings: the stack pointer and the addresses of the strings.\<close>

primrec exec_args :: "byte list list \<Rightarrow> uint \<Rightarrow> uint \<Rightarrow> uint list \<Rightarrow> ((uint \<times> uint list) option, 'z kern_state_scheme) kernel" where
  "exec_args [] pgdir sp acc = ret (Some (sp, acc))"
| "exec_args (a # as) pgdir sp acc =
    (if length acc \<ge> MAXARG then ret None
     else let sp = (sp - of_nat (length a + 1)) AND NOT 3 in
       bindk (copyout pgdir sp (a @ [0])) (\<lambda>r.
         if r < 0 then ret None else exec_args as pgdir sp (acc @ [sp])))"

definition basename :: "byte list \<Rightarrow> byte list" where
  "basename path = rev (takeWhile (\<lambda>c. c \<noteq> SLASH) (rev path))"

text \<open>The last part: the new image replaces the old one.\<close>

definition exec_commit :: "byte list \<Rightarrow> uint \<Rightarrow> uint \<Rightarrow> uint \<Rightarrow> uint \<Rightarrow> (int, 'z kern_state_scheme) kernel" where
  "exec_commit path pgdir sz entry_pc sp = bindk myproc (\<lambda>me.
    thenk (modk (upd_proc me (set_name (basename path))))
    (bindk (getk (\<lambda>s. p_pgdir (ptable s ! me))) (\<lambda>oldpgdir.
    thenk (modk (upd_proc me (\<lambda>p. p\<lparr>p_pgdir := pgdir, p_sz := sz\<rparr>)))
    (thenk (modk (\<lambda>s. let tf = p_tf (ptable s ! me) in
      s\<lparr>mem := store32 (tf + TF_ESP) sp (store32 (tf + TF_EIP) entry_pc (mem s))\<rparr>))
    (thenk (switchuvm me)
    (thenk (freevm oldpgdir)
    (ret 0)))))))"

definition exec_stack :: "byte list \<Rightarrow> byte list list \<Rightarrow> uint \<Rightarrow> uint \<Rightarrow> uint \<Rightarrow> (int, 'z kern_state_scheme) kernel" where
  "exec_stack path argv pgdir sz entry_pc =
    (let bad = thenk (freevm pgdir) (ret (-1)); sz = PGROUNDUP sz in
     bindk (allocuvm pgdir sz (sz + 2 * PGSIZE)) (\<lambda>sz. if sz = 0 then bad else
     thenk (clearpteu pgdir (sz - 2 * PGSIZE))
     (bindk (exec_args argv pgdir sz []) (\<lambda>r. case r of None \<Rightarrow> bad | Some (sp, ptrs) \<Rightarrow>
       let argc = of_nat (length ptrs); ustack = [0xffffffff, argc, sp - (argc + 1) * 4] @ ptrs @ [0];
           sp = sp - (3 + argc + 1) * 4 in
       bindk (copyout pgdir sp (enc32s ustack)) (\<lambda>r. if r < 0 then bad
         else exec_commit path pgdir sz entry_pc sp)))))"

text \<open>
  The comparison \<open>readi(...) < sizeof(elf)\<close> is unsigned, so a result of \<open>-1\<close> passes it,
  and the header then is whatever was on the kernel stack.
\<close>

definition exec :: "byte list \<Rightarrow> byte list list \<Rightarrow> (int, 'z kern_state_scheme) kernel" where
  "exec path argv = bindk (namei path) (\<lambda>r. case r of None \<Rightarrow> ret (-1) | Some ip \<Rightarrow>
    thenk (ilock ip) (bindk (readi ip Local 0 52) (\<lambda>(r, bs).
    if (word_of_int r :: uint) < 52 then thenk (iunlockput ip) (ret (-1))
    else if length bs < 52 then panic ''uninitialized: elf''
    else let elf = dec_elfhdr bs in
      if elf_magic elf \<noteq> ELF_MAGIC then thenk (iunlockput ip) (ret (-1))
      else (\<lambda>s. bindk (setupkvm (kdata s)) (\<lambda>pgdir.
        if pgdir = 0 then thenk (iunlockput ip) (ret (-1))
        else bindk (exec_load (unat (elf_phnum elf)) ip pgdir (elf_phoff elf) 0) (\<lambda>r. case r of
          None \<Rightarrow> thenk (freevm pgdir) (thenk (iunlockput ip) (ret (-1)))
        | Some sz \<Rightarrow> thenk (iunlockput ip) (exec_stack path argv pgdir sz (elf_entry elf)))) s))))"

section \<open>sys_exec (sysfile.c)\<close>

text \<open>Fetching \<open>argv\<close>, \<open>k\<close> entries left in the kernel's array.\<close>

primrec fetch_argv :: "nat \<Rightarrow> uint \<Rightarrow> byte list list \<Rightarrow> (byte list list option, 'z proc_state_scheme) kernel" where
  "fetch_argv 0 uargv acc = ret None"
| "fetch_argv (Suc k) uargv acc = bindk (fetchint uargv) (\<lambda>r. case r of None \<Rightarrow> ret None | Some uarg \<Rightarrow>
    if uarg = 0 then ret (Some acc)
    else bindk (fetchstr uarg) (\<lambda>r. case r of None \<Rightarrow> ret None
      | Some a \<Rightarrow> fetch_argv k (uargv + 4) (acc @ [a])))"

definition sys_exec :: "(int, 'z kern_state_scheme) kernel" where
  "sys_exec = orfail (argstr 0) (\<lambda>path. orfail (argint 1) (\<lambda>uargv.
    orfail (fetch_argv MAXARG uargv []) (\<lambda>argv. exec path argv)))"

end
