(* ===== verification/Xv6_Trap.thy ===== *)
theory Xv6_Trap
  imports Xv6_Process
begin

text \<open>
  sysproc.c, the system call dispatcher of syscall.c, and \<open>trap\<close> of trap.c.
\<close>

section \<open>sysproc.c\<close>

definition sys_fork :: "(int, 'z kern_state_scheme) kernel" where
  "sys_fork = fork"

definition sys_exit :: "(int, 'z kern_state_scheme) kernel" where
  "sys_exit = exit"

definition sys_wait :: "(int, 'z kern_state_scheme) kernel" where
  "sys_wait = wait"

definition sys_kill :: "(int, 'z kern_state_scheme) kernel" where
  "sys_kill = orfail (argint 0) (\<lambda>pid. kill pid)"

definition sys_getpid :: "(int, 'z kern_state_scheme) kernel" where
  "sys_getpid = bindk myproc (\<lambda>me s. Ret (sint (p_pid (ptable s ! me))) s)"

definition sys_sbrk :: "(int, 'z kern_state_scheme) kernel" where
  "sys_sbrk = orfail (argint 0) (\<lambda>n. bindk myproc (\<lambda>me s.
    let addr = p_sz (ptable s ! me) in
    bindk (growproc (sint n)) (\<lambda>r. if r < 0 then ret (-1) else ret (sint addr)) s))"

text \<open>The loop of \<open>sys_sleep\<close>; a process that sleeps in it continues with the same
  \<open>ticks0\<close>. The comparison with \<open>n\<close> is unsigned.\<close>

definition sys_sleep_loop :: "uint \<Rightarrow> uint \<Rightarrow> (int, 'z kern_state_scheme) kernel" where
  "sys_sleep_loop ticks0 n = bindk myproc (\<lambda>me s.
    if ticks s - ticks0 < n then
      if p_killed (ptable s ! me) then thenk (release LkTicks) (ret (-1)) s
      else sleep ChanTicks LkTicks s
    else thenk (release LkTicks) (ret 0) s)"

definition sys_sleep :: "(int, 'z kern_state_scheme) kernel" where
  "sys_sleep = orfail (argint 0) (\<lambda>n. thenk (acquire LkTicks)
    (bindk (getk ticks) (\<lambda>ticks0. sys_sleep_loop ticks0 n)))"

definition sys_uptime :: "(int, 'z kern_state_scheme) kernel" where
  "sys_uptime = thenk (acquire LkTicks) (bindk (getk ticks) (\<lambda>xticks.
    thenk (release LkTicks) (ret (sint xticks))))"

section \<open>syscall.c: the dispatcher\<close>

definition syscalls :: "int \<Rightarrow> (int, 'z kern_state_scheme) kernel option" where
  "syscalls num =
    (if num = 1 then Some sys_fork else if num = 2 then Some sys_exit else if num = 3 then Some sys_wait
     else if num = 4 then Some sys_pipe else if num = 5 then Some sys_read else if num = 6 then Some sys_kill
     else if num = 7 then Some sys_exec else if num = 8 then Some sys_fstat else if num = 9 then Some sys_chdir
     else if num = 10 then Some sys_dup else if num = 11 then Some sys_getpid else if num = 12 then Some sys_sbrk
     else if num = 13 then Some sys_sleep else if num = 14 then Some sys_uptime else if num = 15 then Some sys_open
     else if num = 16 then Some sys_write else if num = 17 then Some sys_mknod else if num = 18 then Some sys_unlink
     else if num = 19 then Some sys_link else if num = 20 then Some sys_mkdir else if num = 21 then Some sys_close
     else None)"

definition set_eax :: "nat \<Rightarrow> int \<Rightarrow> (unit, 'z kern_state_scheme) kernel" where
  "set_eax me v = modk (\<lambda>s. s\<lparr>mem := store32 (p_tf (ptable s ! me) + TF_EAX) (word_of_int v) (mem s)\<rparr>)"

definition syscall :: "(unit, 'z kern_state_scheme) kernel" where
  "syscall = bindk myproc (\<lambda>me s. let num = sint (tf_reg TF_EAX me s); p = ptable s ! me in
    case syscalls num of
      Some f \<Rightarrow> bindk f (\<lambda>r. set_eax me r) s
    | None \<Rightarrow> thenk (cprintf (str ''%d %s: unknown sys call %d'' @ [10])
          [Num (p_pid p), Str (Some (takeWhile (\<lambda>c. c \<noteq> 0) (p_name p))), Num (word_of_int num)])
        (set_eax me (-1)) s)"

section \<open>trap.c\<close>

definition trap_syscall :: "uint \<Rightarrow> (unit, 'z kern_state_scheme) kernel" where
  "trap_syscall tf = bindk myproc (\<lambda>me.
    thenk (\<lambda>s. if p_killed (ptable s ! me) then exit s else Ret () s)
    (thenk (modk (upd_proc me (\<lambda>p. p\<lparr>p_tf := tf\<rparr>)))
    (thenk syscall
    (\<lambda>s. if p_killed (ptable s ! me) then exit s else Ret () s))))"

definition timer_tick :: "(unit, 'z kern_state_scheme) kernel" where
  "timer_tick = (\<lambda>s. if mycpu s = 0 then
      thenk (acquire LkTicks)
      (thenk (modk (\<lambda>s. s\<lparr>ticks := ticks s + 1\<rparr>))
      (thenk (wakeup ChanTicks)
      (release LkTicks))) s
    else Ret () s)"

text \<open>A trap that is no system call and no interrupt: a bug in the kernel, or a process
  that misbehaved and is killed. \<open>cr2\<close> is the value of the register.\<close>

definition trap_other :: "uint \<Rightarrow> uint \<Rightarrow> (unit, 'z kern_state_scheme) kernel" where
  "trap_other tf cr2 = (\<lambda>s. let f = (\<lambda>field. load32 (tf + field) (mem s)); id = of_nat (mycpu s) in
    case curproc s of
      None \<Rightarrow> thenk (cprintf (str ''unexpected trap %d from cpu %d eip %x (cr2=0x%x)'' @ [10])
          [Num (f TF_TRAPNO), Num id, Num (f TF_EIP), Num cr2]) (panic ''trap'') s
    | Some me \<Rightarrow> let p = ptable s ! me in
        if f TF_CS AND 3 = 0 then
          thenk (cprintf (str ''unexpected trap %d from cpu %d eip %x (cr2=0x%x)'' @ [10])
            [Num (f TF_TRAPNO), Num id, Num (f TF_EIP), Num cr2]) (panic ''trap'') s
        else thenk (cprintf (str ''pid %d %s: trap %d err %d on cpu %d eip 0x%x addr 0x%x--kill proc'' @ [10])
            [Num (p_pid p), Str (Some (takeWhile (\<lambda>c. c \<noteq> 0) (p_name p))), Num (f TF_TRAPNO), Num (f TF_ERR),
             Num id, Num (f TF_EIP), Num cr2])
          (modk (upd_proc me (\<lambda>p. p\<lparr>p_killed := True\<rparr>))) s)"

text \<open>The interrupt handlers; \<open>fuel\<close> bounds the characters a device delivers at once.\<close>

definition trap_irq :: "nat \<Rightarrow> uint \<Rightarrow> uint \<Rightarrow> (unit, 'z kern_state_scheme) kernel" where
  "trap_irq fuel tf cr2 = (\<lambda>s. let no = load32 (tf + TF_TRAPNO) (mem s) in
    if no = T_IRQ0 + of_nat IRQ_TIMER then thenk timer_tick lapiceoi s
    else if no = T_IRQ0 + of_nat IRQ_IDE then thenk ideintr lapiceoi s
    else if no = T_IRQ0 + of_nat IRQ_IDE + 1 then Ret () s
    else if no = T_IRQ0 + of_nat IRQ_KBD then thenk (kbdintr fuel) lapiceoi s
    else if no = T_IRQ0 + of_nat IRQ_COM1 then thenk (uartintr fuel) lapiceoi s
    else if no = T_IRQ0 + 7 \<or> no = T_IRQ0 + of_nat IRQ_SPURIOUS then
      thenk (cprintf (str ''cpu%d: spurious interrupt at %x:%x'' @ [10])
        [Num (of_nat (mycpu s)), Num (load32 (tf + TF_CS) (mem s) AND 0xFFFF), Num (load32 (tf + TF_EIP) (mem s))])
      lapiceoi s
    else trap_other tf cr2 s)"

text \<open>The checks at the end: a killed process in user space exits.\<close>

definition trap_killed :: "uint \<Rightarrow> (unit, 'z kern_state_scheme) kernel" where
  "trap_killed tf = (\<lambda>s. case curproc s of
      None \<Rightarrow> Ret () s
    | Some me \<Rightarrow> if p_killed (ptable s ! me) \<and> load32 (tf + TF_CS) (mem s) AND 3 = 3 then exit s else Ret () s)"

definition trap :: "nat \<Rightarrow> uint \<Rightarrow> uint \<Rightarrow> (unit, 'z kern_state_scheme) kernel" where
  "trap fuel tf cr2 = (\<lambda>s. let no = load32 (tf + TF_TRAPNO) (mem s) in
    if no = T_SYSCALL then trap_syscall tf s
    else thenk (trap_irq fuel tf cr2)
      (thenk (trap_killed tf)
      (thenk (\<lambda>s. case curproc s of
          None \<Rightarrow> Ret () s
        | Some me \<Rightarrow> if p_state (ptable s ! me) = RUNNING \<and> no = T_IRQ0 + of_nat IRQ_TIMER then yield s else Ret () s)
      (trap_killed tf))) s)"

end
