(* ===== verification/Xv6_Ide.thy ===== *)
theory Xv6_Ide
  imports Xv6_Device
begin

text \<open>
  ide.c, the interrupt-driven disk driver (the other implementation of the interface of
  memide.c). The disk is a parameter: what its registers answer depends on the accesses so
  far. The requests wait in a list threaded through the buffers by \<open>qnext\<close>; \<open>chain\<close> says
  which sequence of buffers that is, and the driver is shown to serve it first come, first
  served, with one request at the disk at a time.
\<close>

section \<open>State and registers\<close>

record ide_state = io_state +
  idequeue :: "nat option"
  qnext :: "nat \<Rightarrow> nat option"
  havedisk1 :: bool
  dev_inl :: "io_event list \<Rightarrow> ushort \<Rightarrow> uint"

text \<open>\<open>insl\<close> and \<open>outsl\<close> of x86.h.\<close>

primrec insl :: "ushort \<Rightarrow> nat \<Rightarrow> (uint list, 'z ide_state_scheme) kernel" where
  "insl port 0 = ret []"
| "insl port (Suc n) = bindk (\<lambda>s. let v = dev_inl s (trace s) port in Ret v (s\<lparr>trace := trace s @ [InL port v]\<rparr>)) (\<lambda>v.
    bindk (insl port n) (\<lambda>vs. ret (v # vs)))"

definition outsl :: "ushort \<Rightarrow> uint list \<Rightarrow> (unit, 'z io_state_scheme) kernel" where
  "outsl port vs = modk (\<lambda>s. s\<lparr>trace := trace s @ map (OutL port) vs\<rparr>)"

section \<open>The driver\<close>

text \<open>\<open>idewait\<close>, for at most \<open>fuel\<close> reads of the status register.\<close>

primrec idewait :: "nat \<Rightarrow> bool \<Rightarrow> (int, 'z io_state_scheme) kernel" where
  "idewait 0 checkerr = panic ''out of fuel''"
| "idewait (Suc fuel) checkerr = bindk (inb 0x1f7) (\<lambda>r.
    if r AND 0xC0 \<noteq> 0x40 then idewait fuel checkerr
    else ret (if checkerr \<and> r AND 0x21 \<noteq> 0 then -1 else 0))"

primrec ide_probe :: "nat \<Rightarrow> (unit, 'z ide_state_scheme) kernel" where
  "ide_probe 0 = ret ()"
| "ide_probe (Suc n) = bindk (inb 0x1f7) (\<lambda>r.
    if r \<noteq> 0 then modk (\<lambda>s. s\<lparr>havedisk1 := True\<rparr>) else ide_probe n)"

definition ideinit_ide :: "nat \<Rightarrow> uint \<Rightarrow> (unit, 'z ide_state_scheme) kernel" where
  "ideinit_ide fuel ncpu = thenk (picenable IRQ_IDE)
    (thenk (ioapicenable IRQ_IDE (ncpu - 1))
    (thenk (idewait fuel False)
    (thenk (outb 0x1f6 (0xe0 OR push_bit 4 1))
    (thenk (ide_probe 1000)
    (outb 0x1f6 0xe0)))))"

definition idestart :: "nat \<Rightarrow> nat option \<Rightarrow> (unit, 'z io_state_scheme) kernel" where
  "idestart fuel p = (case p of
      None \<Rightarrow> panic ''idestart''
    | Some i \<Rightarrow> thenk (idewait fuel False) (\<lambda>s. let b = bufs s ! i in
        thenk (outbs [(0x3f6, 0), (0x1f2, 1), (0x1f3, ucast (b_sector b)), (0x1f4, ucast (drop_bit 8 (b_sector b))),
          (0x1f5, ucast (drop_bit 16 (b_sector b))),
          (0x1f6, 0xe0 OR push_bit 4 (ucast (b_dev b AND 1)) OR (ucast (drop_bit 24 (b_sector b)) AND 0x0f))])
        (if B_DIRTY \<in> b_flags b then thenk (outb 0x1f7 0x30) (outsl 0x1f0 (dec32s 128 (b_data b)))
         else outb 0x1f7 0x20) s))"

definition ideintr_ide :: "nat \<Rightarrow> (unit, 'z ide_state_scheme) kernel" where
  "ideintr_ide fuel = thenk (acquire LkIde) (\<lambda>s. case idequeue s of
      None \<Rightarrow> release LkIde s
    | Some i \<Rightarrow>
        thenk (modk (\<lambda>s. s\<lparr>idequeue := qnext s i\<rparr>))
        (thenk (if B_DIRTY \<in> b_flags (bufs s ! i) then ret ()
          else bindk (idewait fuel True) (\<lambda>r. if 0 \<le> r then
            bindk (insl 0x1f0 128) (\<lambda>vs. modk (upd_buf i (\<lambda>b. b\<lparr>b_data := enc32s vs\<rparr>))) else ret ()))
        (thenk (modk (upd_buf i (\<lambda>b. clear_flag B_DIRTY (set_flag B_VALID b))))
        (thenk (wakeup (ChanBuf i))
        (thenk (\<lambda>s. if idequeue s \<noteq> None then idestart fuel (idequeue s) s else Ret () s)
        (release LkIde))))) s)"

text \<open>A place in the queue that holds a pointer: \<open>&idequeue\<close> or \<open>&b->qnext\<close>.\<close>

datatype qslot = QHead | QNext nat

primrec queue_get :: "qslot \<Rightarrow> 'z ide_state_scheme \<Rightarrow> nat option" where
  "queue_get QHead s = idequeue s"
| "queue_get (QNext b) s = qnext s b"

primrec queue_set :: "qslot \<Rightarrow> nat option \<Rightarrow> 'z ide_state_scheme \<Rightarrow> 'z ide_state_scheme" where
  "queue_set QHead p s = s\<lparr>idequeue := p\<rparr>"
| "queue_set (QNext b) p s = s\<lparr>qnext := (qnext s)(b := p)\<rparr>"

text \<open>\<open>for(pp=&idequeue; *pp; pp=&(*pp)->qnext)\<close>\<close>

primrec queue_end :: "nat \<Rightarrow> qslot \<Rightarrow> (qslot, 'z ide_state_scheme) kernel" where
  "queue_end 0 pp = panic ''out of fuel''"
| "queue_end (Suc n) pp = (\<lambda>s. case queue_get pp s of None \<Rightarrow> Ret pp s | Some b \<Rightarrow> queue_end n (QNext b) s)"

text \<open>The test of the loop that waits; a woken process comes back to it.\<close>

definition iderw_wait :: "nat \<Rightarrow> (unit, 'z ide_state_scheme) kernel" where
  "iderw_wait i = (\<lambda>s. if B_VALID \<in> b_flags (bufs s ! i) \<and> B_DIRTY \<notin> b_flags (bufs s ! i) then release LkIde s
    else sleep (ChanBuf i) LkIde s)"

definition iderw_ide :: "nat \<Rightarrow> nat \<Rightarrow> (unit, 'z ide_state_scheme) kernel" where
  "iderw_ide fuel i = (\<lambda>s. let b = bufs s ! i in
    if B_BUSY \<notin> b_flags b then Panic ''iderw: buf not busy''
    else if B_VALID \<in> b_flags b \<and> B_DIRTY \<notin> b_flags b then Panic ''iderw: nothing to do''
    else if b_dev b \<noteq> 0 \<and> \<not> havedisk1 s then Panic ''iderw: ide disk 1 not present''
    else thenk (acquire LkIde)
      (thenk (modk (queue_set (QNext i) None))
      (thenk (bindk (queue_end (Suc NBUF) QHead) (\<lambda>pp. modk (queue_set pp (Some i))))
      (thenk (\<lambda>s. if idequeue s = Some i then idestart fuel (Some i) s else Ret () s)
      (iderw_wait i)))) s)"

section \<open>The queue\<close>

primrec chain :: "(nat \<Rightarrow> nat option) \<Rightarrow> nat option \<Rightarrow> nat list \<Rightarrow> bool" where
  "chain q h [] = (h = None)"
| "chain q h (x # xs) = (h = Some x \<and> chain q (q x) xs)"

lemma chain_upd: "i \<notin> set xs \<Longrightarrow> chain (q(i := p)) h xs = chain q h xs"
  by (induction xs arbitrary: h) auto

text \<open>Walking to the end of the queue and storing a pointer there appends to it.\<close>

lemma queue_end_next:
  assumes "chain (qnext s) (qnext s b) xs" and "distinct (b # xs)" and "length xs < n"
  shows "\<exists>e. queue_end n (QNext b) s = Ret (QNext e) s \<and> e \<in> set (b # xs) \<and>
    (\<forall>i. i \<notin> set (b # xs) \<longrightarrow> qnext s i = None \<longrightarrow>
      chain ((qnext s)(e := Some i)) (((qnext s)(e := Some i)) b) (xs @ [i]))"
  using assms
proof (induction xs arbitrary: b n)
  case Nil
  then show ?case by (cases n) auto
next
  case (Cons x xs)
  obtain m where n: "n = Suc m" "length xs < m" using Cons.prems(3) by (cases n) auto
  have x: "qnext s b = Some x" "chain (qnext s) (qnext s x) xs" "distinct (x # xs)" using Cons.prems by auto
  obtain e where e: "queue_end m (QNext x) s = Ret (QNext e) s" "e \<in> set (x # xs)"
      "\<forall>i. i \<notin> set (x # xs) \<longrightarrow> qnext s i = None \<longrightarrow>
        chain ((qnext s)(e := Some i)) (((qnext s)(e := Some i)) x) (xs @ [i])"
    using Cons.IH [OF x(2,3) n(2)] by blast
  have b: "((qnext s)(e := Some i)) b = Some x" for i using e(2) Cons.prems(2) x(1) by auto
  show ?case
  proof (intro exI [of _ e] conjI allI impI)
    show "queue_end n (QNext b) s = Ret (QNext e) s" using e(1) x(1) n(1) by simp
    show "e \<in> set (b # x # xs)" using e(2) by simp
    show "chain ((qnext s)(e := Some i)) (((qnext s)(e := Some i)) b) ((x # xs) @ [i])"
      if "i \<notin> set (b # x # xs)" "qnext s i = None" for i
      unfolding b append_Cons chain.simps using e(3) that by auto
  qed
qed

definition queue :: "'z ide_state_scheme \<Rightarrow> nat list \<Rightarrow> bool" where
  "queue s xs \<longleftrightarrow> chain (qnext s) (idequeue s) xs \<and> distinct xs \<and> set xs \<subseteq> {..<NBUF}"

lemma queue_trace [simp]: "queue (s\<lparr>trace := tr\<rparr>) xs = queue s xs"
  by (simp add: queue_def)

lemma queue_length: "queue s xs \<Longrightarrow> length xs \<le> NBUF"
  using distinct_card [of xs] card_mono [of "{..<NBUF}" "set xs"] by (simp add: queue_def)

lemma queue_append:
  assumes "queue s xs" and "i \<notin> set xs" and "i < NBUF" and "qnext s i = None"
  shows "\<exists>pp. queue_end (Suc NBUF) QHead s = Ret pp s \<and> queue (queue_set pp (Some i) s) (xs @ [i])"
proof (cases xs)
  case Nil
  then show ?thesis unfolding queue_end.simps using assms by (intro exI [of _ QHead]) (simp add: queue_def)
next
  case (Cons x ys)
  have c: "idequeue s = Some x" "chain (qnext s) (qnext s x) ys" "distinct (x # ys)" "length ys < NBUF"
    using assms(1) queue_length [OF assms(1)] Cons by (auto simp: queue_def)
  obtain e where "queue_end NBUF (QNext x) s = Ret (QNext e) s"
      "chain ((qnext s)(e := Some i)) (((qnext s)(e := Some i)) x) (ys @ [i])"
    using queue_end_next [OF c(2-4)] assms(2,4) Cons by auto
  then show ?thesis unfolding queue_end.simps
    using c(1) assms Cons by (intro exI [of _ "QNext e"]) (auto simp: queue_def)
qed

section \<open>The registers\<close>

text \<open>The disk becomes ready within \<open>n\<close> reads of its status, whatever has been done before.\<close>

primrec ready_within :: "(io_event list \<Rightarrow> ushort \<Rightarrow> byte) \<Rightarrow> nat \<Rightarrow> io_event list \<Rightarrow> bool" where
  "ready_within d 0 tr = False"
| "ready_within d (Suc n) tr = (let v = d tr 0x1f7 in v AND 0xC0 = 0x40 \<or> ready_within d n (tr @ [In 0x1f7 v]))"

definition disk_live :: "'z io_state_scheme \<Rightarrow> nat \<Rightarrow> bool" where
  "disk_live s n \<longleftrightarrow> (\<forall>tr. ready_within (dev_in s) n tr)"

text \<open>What is written to the device, without the reads.\<close>

fun is_out :: "io_event \<Rightarrow> bool" where
  "is_out (Out p v) = True"
| "is_out (OutL p v) = True"
| "is_out (MOut a v) = True"
| "is_out _ = False"

definition outs :: "io_event list \<Rightarrow> io_event list" where
  "outs tr = filter is_out tr"

lemma outs_append [simp]: "outs (a @ b) = outs a @ outs b"
  by (simp add: outs_def)

definition ide_command :: "buf \<Rightarrow> io_event list" where
  "ide_command b = [Out 0x3f6 0, Out 0x1f2 1, Out 0x1f3 (ucast (b_sector b)), Out 0x1f4 (ucast (drop_bit 8 (b_sector b))),
      Out 0x1f5 (ucast (drop_bit 16 (b_sector b))),
      Out 0x1f6 (0xe0 OR push_bit 4 (ucast (b_dev b AND 1)) OR (ucast (drop_bit 24 (b_sector b)) AND 0x0f))] @
    (if B_DIRTY \<in> b_flags b then Out 0x1f7 0x30 # map (OutL 0x1f0) (dec32s 128 (b_data b)) else [Out 0x1f7 0x20])"

lemma ready_within_mono: "ready_within d n tr \<Longrightarrow> n \<le> m \<Longrightarrow> ready_within d m tr"
proof (induction n arbitrary: m tr)
  case (Suc n)
  then show ?case by (cases m) (auto simp: Let_def)
qed simp

lemma idewait_run:
  assumes "ready_within (dev_in s) n (trace s)"
  shows "\<exists>polls r. idewait n c s = Ret r (s\<lparr>trace := trace s @ polls\<rparr>) \<and> outs polls = [] \<and> (c \<or> r = 0)"
  using assms
proof (induction n arbitrary: s)
  case (Suc n)
  let ?v = "dev_in s (trace s) 0x1f7" and ?s = "s\<lparr>trace := trace s @ [In 0x1f7 (dev_in s (trace s) 0x1f7)]\<rparr>"
  show ?case
  proof (cases "?v AND 0xC0 = 0x40")
    case True
    then show ?thesis by (intro exI [of _ "[In 0x1f7 ?v]"]) (auto simp: bindk_def inb_def Let_def outs_def)
  next
    case False
    then obtain polls r where "idewait n c ?s = Ret r (?s\<lparr>trace := trace ?s @ polls\<rparr>)" "outs polls = []" "c \<or> r = 0"
      using Suc.IH [of ?s] Suc.prems by (auto simp: Let_def)
    then show ?thesis using False
      by (intro exI [of _ "In 0x1f7 ?v # polls"]) (auto simp: bindk_def inb_def Let_def outs_def)
  qed
qed simp

lemma outbs_run: "outbs pvs s = Ret () (s\<lparr>trace := trace s @ map (\<lambda>(p, v). Out p v) pvs\<rparr>)"
  by (induction pvs arbitrary: s) (auto simp: outbs_def outb_def thenk_def bindk_def)

lemma idestart_run:
  assumes "disk_live s n"
  shows "\<exists>polls. idestart n (Some i) s = Ret () (s\<lparr>trace := trace s @ polls @ ide_command (bufs s ! i)\<rparr>) \<and> outs polls = []"
proof -
  obtain polls where "idewait n False s = Ret 0 (s\<lparr>trace := trace s @ polls\<rparr>)" "outs polls = []"
    using idewait_run [of s n False] assms by (auto simp: disk_live_def)
  then show ?thesis
    by (intro exI [of _ polls]) (auto simp: idestart_def thenk_def bindk_def outbs_run outb_def outsl_def ide_command_def Let_def)
qed

lemma insl_run:
  "\<exists>vs. insl port n s = Ret vs (s\<lparr>trace := trace s @ map (InL port) vs\<rparr>) \<and> length vs = n"
proof (induction n arbitrary: s)
  case (Suc n)
  let ?v = "dev_inl s (trace s) port"
  obtain vs where "insl port n (s\<lparr>trace := trace s @ [InL port ?v]\<rparr>) =
      Ret vs (s\<lparr>trace := trace s @ [InL port ?v] @ map (InL port) vs\<rparr>)" "length vs = n"
    using Suc.IH [of "s\<lparr>trace := trace s @ [InL port ?v]\<rparr>"] by auto
  then show ?case by (intro exI [of _ "?v # vs"]) (simp add: bindk_def Let_def)
qed simp

section \<open>The driver serves the queue\<close>

definition ide_request :: "'z ide_state_scheme \<Rightarrow> nat \<Rightarrow> bool" where
  "ide_request s i \<longleftrightarrow> i < NBUF \<and> B_BUSY \<in> b_flags (bufs s ! i) \<and>
    (B_VALID \<in> b_flags (bufs s ! i) \<longrightarrow> B_DIRTY \<in> b_flags (bufs s ! i)) \<and> (b_dev (bufs s ! i) = 0 \<or> havedisk1 s)"

lemma iderw_ide_run:
  assumes "queue s xs" and "disk_live s n" and "held s = {}" and "i \<notin> set xs" and "ide_request s i"
    and "curproc s = Some me" and "me < length (ptable s)"
  shows "\<exists>t. iderw_ide n i s = Block t \<and> queue t (xs @ [i]) \<and> bufs t = bufs s \<and>
    outs (trace t) = outs (trace s) @ (if xs = [] then ide_command (bufs s ! i) else []) \<and>
    p_state (ptable t ! me) = SLEEPING \<and> p_chan (ptable t ! me) = Some (ChanBuf i)"
proof -
  let ?s1 = "queue_set (QNext i) None (s\<lparr>held := {LkIde}\<rparr>)"
  have q1: "queue ?s1 xs" using assms(1,4) by (simp add: queue_def chain_upd)
  obtain pp where pp: "queue_end (Suc NBUF) QHead ?s1 = Ret pp ?s1" "queue (queue_set pp (Some i) ?s1) (xs @ [i])"
    using queue_append [OF q1 assms(4)] assms(5) by (auto simp: ide_request_def)
  define s2 where "s2 = queue_set pp (Some i) ?s1"
  have s2: "bufs s2 = bufs s" "trace s2 = trace s" "ptable s2 = ptable s" "held s2 = {LkIde}" "curproc s2 = Some me" "disk_live s2 n"
    using assms(2,6) by (cases pp; simp add: s2_def curproc_def disk_live_def)+
  have first: "idequeue s2 = Some i \<longleftrightarrow> xs = []"
    using pp(2) assms(4) unfolding s2_def [symmetric] queue_def by (cases xs) auto
  obtain polls where st: "idestart n (Some i) s2 = Ret () (s2\<lparr>trace := trace s2 @ polls @ ide_command (bufs s2 ! i)\<rparr>)" "outs polls = []"
    using idestart_run [OF s2(6)] by blast
  define s3 where "s3 = (if xs = [] then s2\<lparr>trace := trace s2 @ polls @ ide_command (bufs s2 ! i)\<rparr> else s2)"
  have s3: "bufs s3 = bufs s" "ptable s3 = ptable s" "held s3 = {LkIde}" "curproc s3 = Some me" "queue s3 (xs @ [i])"
      "outs (trace s3) = outs (trace s) @ (if xs = [] then ide_command (bufs s ! i) else [])"
    using s2 st(2) pp(2) [folded s2_def] by (cases "xs = []"; simp add: s3_def curproc_def outs_def ide_command_def)+
  let ?t = "upd_proc me (\<lambda>q. q\<lparr>p_chan := Some (ChanBuf i), p_state := SLEEPING\<rparr>) (s3\<lparr>held := {LkPtable}\<rparr>)"
  have "iderw_ide n i s = iderw_wait i s3"
    using assms(3,5) pp(1) st(1) first
    by (auto simp: iderw_ide_def ide_request_def Let_def thenk_def bindk_def s2_def [simplified, symmetric] s3_def simp del: queue_end.simps)
  also have "\<dots> = sleep (ChanBuf i) LkIde s3" using assms(5) s3(1) by (auto simp: iderw_wait_def ide_request_def)
  also have "\<dots> = Block ?t" by (rule sleep_run) (use s3 assms(7) in simp_all)
  finally have "iderw_ide n i s = Block ?t" .
  moreover have "queue ?t (xs @ [i])" using s3(5) by (simp add: upd_proc_def queue_def)
  ultimately show ?thesis using s3 assms(7) by (intro exI [of _ ?t]) (simp add: upd_proc_def)
qed

text \<open>The part of \<open>ideintr\<close> that reads the data.\<close>

lemma ide_fetch:
  assumes "disk_live s n" and "i < length (bufs s)"
  shows "\<exists>polls d. (if B_DIRTY \<in> b_flags (bufs u ! i) then ret () else bindk (idewait n True) (\<lambda>r. if 0 \<le> r then
      bindk (insl 0x1f0 128) (\<lambda>vs. modk (upd_buf i (\<lambda>b. b\<lparr>b_data := enc32s vs\<rparr>))) else ret ())) s =
    Ret () (upd_buf i (\<lambda>b. b\<lparr>b_data := d\<rparr>) (s\<lparr>trace := trace s @ polls\<rparr>)) \<and> outs polls = []"
proof -
  have same: "upd_buf i (\<lambda>b. b\<lparr>b_data := b_data (bufs s ! i)\<rparr>) (s\<lparr>trace := tr\<rparr>) = s\<lparr>trace := tr\<rparr>" for tr
    using assms(2) by (simp add: upd_buf_def)
  obtain polls r where w: "idewait n True s = Ret r (s\<lparr>trace := trace s @ polls\<rparr>)" "outs polls = []"
    using idewait_run [of s n True] assms(1) by (auto simp: disk_live_def)
  obtain vs where v: "insl 0x1f0 128 (s\<lparr>trace := trace s @ polls\<rparr>) = Ret vs (s\<lparr>trace := trace s @ polls @ map (InL 0x1f0) vs\<rparr>)"
    using insl_run [of "0x1f0" 128 "s\<lparr>trace := trace s @ polls\<rparr>"] by auto
  consider "B_DIRTY \<in> b_flags (bufs u ! i)" | "B_DIRTY \<notin> b_flags (bufs u ! i)" "0 \<le> r" | "B_DIRTY \<notin> b_flags (bufs u ! i)" "\<not> 0 \<le> r"
    by blast
  then show ?thesis
  proof cases
    case 1
    then show ?thesis using same [of "trace s"] by (intro exI [of _ "[]"] exI [of _ "b_data (bufs s ! i)"]) (simp add: outs_def)
  next
    case 2
    then show ?thesis using w v by (intro exI [of _ "polls @ map (InL 0x1f0) vs"] exI [of _ "enc32s vs"])
        (auto simp: bindk_def outs_def)
  next
    case 3
    then show ?thesis using w same by (intro exI [of _ polls] exI [of _ "b_data (bufs s ! i)"]) (simp add: bindk_def)
  qed
qed

lemma ideintr_ide_run:
  assumes "queue s (x # ys)" and "disk_live s n" and "held s = {}" and "length (bufs s) = NBUF"
  shows "\<exists>t. ideintr_ide n s = Ret () t \<and> queue t ys \<and>
    outs (trace t) = outs (trace s) @ (case ys of [] \<Rightarrow> [] | y # _ \<Rightarrow> ide_command (bufs s ! y)) \<and>
    b_flags (bufs t ! x) = insert B_VALID (b_flags (bufs s ! x)) - {B_DIRTY} \<and> (\<forall>j. j \<noteq> x \<longrightarrow> bufs t ! j = bufs s ! j) \<and>
    ptable t = map (wakes (Some (ChanBuf x))) (ptable s)"
proof -
  have q: "idequeue s = Some x" "chain (qnext s) (qnext s x) ys" "x < length (bufs s)" "x \<notin> set ys" "distinct ys" "set ys \<subseteq> {..<NBUF}"
    using assms(1,4) by (auto simp: queue_def)
  let ?s1 = "s\<lparr>held := {LkIde}, idequeue := qnext s x\<rparr>"
  have "disk_live ?s1 n" "x < length (bufs ?s1)" using assms(2) q(3) by (simp_all add: disk_live_def)
  then obtain polls d where f: "(if B_DIRTY \<in> b_flags (bufs (s\<lparr>held := {LkIde}\<rparr>) ! x) then ret () else bindk (idewait n True) (\<lambda>r. if 0 \<le> r then
      bindk (insl 0x1f0 128) (\<lambda>vs. modk (upd_buf x (\<lambda>b. b\<lparr>b_data := enc32s vs\<rparr>))) else ret ())) ?s1 =
    Ret () (upd_buf x (\<lambda>b. b\<lparr>b_data := d\<rparr>) (?s1\<lparr>trace := trace ?s1 @ polls\<rparr>))" "outs polls = []"
    using ide_fetch by blast
  define s2 where "s2 = (upd_buf x (\<lambda>b. clear_flag B_DIRTY (set_flag B_VALID (b\<lparr>b_data := d\<rparr>)))
    (?s1\<lparr>trace := trace ?s1 @ polls\<rparr>))\<lparr>ptable := map (wakes (Some (ChanBuf x))) (ptable s)\<rparr>"
  have s2: "idequeue s2 = qnext s x" "qnext s2 = qnext s" "held s2 = {LkIde}" "disk_live s2 n"
      "\<forall>j. j \<noteq> x \<longrightarrow> bufs s2 ! j = bufs s ! j" "trace s2 = trace s @ polls" "ptable s2 = map (wakes (Some (ChanBuf x))) (ptable s)"
      "b_flags (bufs s2 ! x) = insert B_VALID (b_flags (bufs s ! x)) - {B_DIRTY}"
    using assms(2) q(3) by (auto simp: s2_def upd_buf_def disk_live_def clear_flag_def set_flag_def)
  have run: "ideintr_ide n s = thenk (\<lambda>s. if idequeue s \<noteq> None then idestart n (idequeue s) s else Ret () s) (release LkIde) s2"
    using f(1) q(1,3) assms(3) by (simp add: ideintr_ide_def thenk_def bindk_def wakeup_run s2_def upd_buf_def)
  show ?thesis
  proof (cases ys)
    case Nil
    then have "idequeue s2 = None" using q(2) s2(1) by simp
    then show ?thesis using run s2 Nil f(2) by (auto simp: thenk_def bindk_def queue_def)
  next
    case (Cons y zs)
    then have y: "idequeue s2 = Some y" "y \<noteq> x" using q(2,4) s2(1) by auto
    obtain polls2 where st: "idestart n (Some y) s2 = Ret () (s2\<lparr>trace := trace s2 @ polls2 @ ide_command (bufs s2 ! y)\<rparr>)" "outs polls2 = []"
      using idestart_run [OF s2(4)] by blast
    have "outs (ide_command b) = ide_command b" for b by (simp add: outs_def ide_command_def)
    then show ?thesis
      using run s2 y st f(2) q Cons by (auto simp: thenk_def bindk_def queue_def)
  qed
qed

definition lba :: "byte \<Rightarrow> byte \<Rightarrow> byte \<Rightarrow> byte \<Rightarrow> uint" where
  "lba a b c d = ucast a OR push_bit 8 (ucast b) OR push_bit 16 (ucast c) OR push_bit 24 (ucast (d AND 0x0f))"

lemma low_nibble: "(0xe0 OR push_bit 4 y OR (z AND 0x0f)) AND 0x0f = take_bit 4 (z :: byte)"
proof -
  have m: "(0x0f :: byte) = mask 4" by (simp add: mask_eq_exp_minus_1)
  have "\<not> bit (0xe0 :: byte) n" if "n < 4" for n using that by (auto simp: less_Suc_eq numeral_eq_Suc)
  then show ?thesis unfolding m by (intro bit_eqI) (auto simp: bit_simps)
qed

lemma lba_command:
  assumes "(b :: uint) < 2 ^ 28"
  shows "lba (ucast b) (ucast (drop_bit 8 b)) (ucast (drop_bit 16 b))
    (0xe0 OR push_bit 4 (ucast (dev AND 1 :: uint)) OR (ucast (drop_bit 24 b) AND 0x0f)) = b"
proof -
  have "unat (drop_bit 28 b) = 0" using assms by (simp add: drop_bit_eq_div unat_div word_less_nat_alt)
  then have "drop_bit 28 b = 0" by (simp add: unat_eq_0)
  then have hi: "\<not> bit b i" if "28 \<le> i" for i
    using that bit_drop_bit_eq [of 28 b, THEN fun_cong, of "i - 28"] by simp
  show ?thesis unfolding lba_def low_nibble
  proof (rule bit_eqI)
    fix i
    show "bit ((ucast (ucast b :: byte) :: uint) OR push_bit 8 (ucast (ucast (drop_bit 8 b) :: byte)) OR push_bit 16 (ucast (ucast (drop_bit 16 b) :: byte)) OR
        push_bit 24 (ucast (take_bit 4 (ucast (drop_bit 24 b) :: byte)))) i = bit b i"
      using hi [of i] by (cases "i < 8"; cases "i < 16"; cases "i < 24"; cases "i < 28"; simp add: bit_simps; linarith?)
  qed
qed

text \<open>C19. The disk driver serves its requests first come, first served, one at a time. With the
  buffers \<open>xs\<close> waiting: a request for another buffer puts it at the end of the queue and the
  process to sleep, and is sent to the disk at once only if nothing else is waiting; an
  interrupt completes the first request, wakes those who wait for it, and sends the next
  one. What is sent addresses the right sector (sectors have 28 bits). The disk is assumed
  to become ready within \<open>n\<close> reads of its status register.\<close>

theorem ide_first_come_first_served:
  assumes "queue s xs" and "disk_live s n" and "held s = {}" and "length (bufs s) = NBUF"
  shows "(\<forall>i me. i \<notin> set xs \<and> ide_request s i \<and> curproc s = Some me \<and> me < length (ptable s) \<longrightarrow>
      (\<exists>t. iderw_ide n i s = Block t \<and> queue t (xs @ [i]) \<and> bufs t = bufs s \<and>
        outs (trace t) = outs (trace s) @ (if xs = [] then ide_command (bufs s ! i) else []) \<and>
        p_state (ptable t ! me) = SLEEPING \<and> p_chan (ptable t ! me) = Some (ChanBuf i))) \<and>
    (\<forall>x ys. xs = x # ys \<longrightarrow>
      (\<exists>t. ideintr_ide n s = Ret () t \<and> queue t ys \<and>
        outs (trace t) = outs (trace s) @ (case ys of [] \<Rightarrow> [] | y # _ \<Rightarrow> ide_command (bufs s ! y)) \<and>
        b_flags (bufs t ! x) = insert B_VALID (b_flags (bufs s ! x)) - {B_DIRTY} \<and> (\<forall>j. j \<noteq> x \<longrightarrow> bufs t ! j = bufs s ! j) \<and>
        ptable t = map (wakes (Some (ChanBuf x))) (ptable s))) \<and>
    (\<forall>b. b_sector b < 2 ^ 28 \<longrightarrow> (\<exists>p q r u rest. ide_command b =
      [Out 0x3f6 0, Out 0x1f2 1, Out 0x1f3 p, Out 0x1f4 q, Out 0x1f5 r, Out 0x1f6 u] @ rest \<and> lba p q r u = b_sector b))"
proof (intro conjI allI impI)
  fix b :: buf
  assume "b_sector b < 2 ^ 28"
  from lba_command [OF this] show "\<exists>p q r u rest. ide_command b =
      [Out 0x3f6 0, Out 0x1f2 1, Out 0x1f3 p, Out 0x1f4 q, Out 0x1f5 r, Out 0x1f6 u] @ rest \<and> lba p q r u = b_sector b"
    unfolding ide_command_def by blast
qed (use assms iderw_ide_run ideintr_ide_run in blast)+

text \<open>C30. A read error is not reported: if the disk signals an error, \<open>ideintr\<close> reads no data and
  still marks the buffer valid, so the process that asked for the sector gets whatever the
  buffer held before.\<close>

theorem ide_error_yields_stale_data:
  assumes "idequeue s = Some i" and "qnext s i = None" and "held s = {}" and "i < length (bufs s)" and "B_DIRTY \<notin> b_flags (bufs s ! i)"
    and "dev_in s (trace s) 0x1f7 AND 0xC0 = 0x40" and "dev_in s (trace s) 0x1f7 AND 0x21 \<noteq> 0"
  shows "\<exists>t. ideintr_ide (Suc n) s = Ret () t \<and> B_VALID \<in> b_flags (bufs t ! i) \<and> b_data (bufs t ! i) = b_data (bufs s ! i)"
  using assms by (simp add: ideintr_ide_def thenk_def bindk_def wakeup_run inb_def Let_def upd_buf_def clear_flag_def set_flag_def)

text \<open>A machine with a disk that is always ready, one process running, and buffer 0 waiting
  for sector 7; buffer 1 wants to be read as well.\<close>

definition demo_buf :: "uint \<Rightarrow> buf" where
  "demo_buf n = \<lparr>b_flags = {B_BUSY}, b_dev = 0, b_sector = n, b_data = replicate 512 0\<rparr>"

definition demo_ide :: "byte \<Rightarrow> ide_state" where
  "demo_ide st = \<lparr>held = {}, mem = \<lambda>_. 0, freelist = 0, use_lock = True, kend = 0x80110000,
    ptable = [proc0\<lparr>p_state := RUNNING\<rparr>], nextpid = 2, initproc = Some 0,
    cpus = [\<lparr>c_proc = Some 0, c_esp0 = 0, c_cr3 = 0\<rparr>], mycpu = 0, kpgdir = 0, trapret = 0, forkret_addr = 0, kdata = 0,
    bufs = demo_buf 7 # replicate 9 (demo_buf 8), mru = [0..<10], disk = \<lambda>_. [], disksize = 0, writes = [],
    l_start = 0, l_size = 0, l_busy = False, l_dev = 1, lh_n = 0, lh_sector = [], icache = [],
    dev_in = \<lambda>_ _. st, dev_mmio = \<lambda>_ _. 0, trace = [], irqmask = 0, ismp = False, ioapicid = 0, lapic = 0, uart = False,
    kbd_shift = 0, idequeue = Some 0, qnext = \<lambda>_. None, havedisk1 = False, dev_inl = \<lambda>_ _. 0\<rparr>"

theorem ide_first_come_first_served_witness:
  "(\<exists>t. iderw_ide 1 1 (demo_ide 0x40) = Block t \<and> queue t [0, 1]) \<and> (\<exists>t. ideintr_ide 1 (demo_ide 0x40) = Ret () t \<and> queue t [])"
proof -
  have "queue (demo_ide 0x40) [0]" "disk_live (demo_ide 0x40) 1" "held (demo_ide 0x40) = {}" "length (bufs (demo_ide 0x40)) = NBUF"
    by (simp_all add: demo_ide_def queue_def disk_live_def)
  note r = ide_first_come_first_served [OF this]
  have "1 \<notin> set [0 :: nat] \<and> ide_request (demo_ide 0x40) 1 \<and> curproc (demo_ide 0x40) = Some 0 \<and> 0 < length (ptable (demo_ide 0x40))"
    by (simp add: demo_ide_def ide_request_def demo_buf_def curproc_def)
  from r [THEN conjunct1, rule_format, OF this] r [THEN conjunct2, THEN conjunct1, rule_format, OF refl]
  show ?thesis unfolding append_Cons append_Nil by blast
qed

theorem ide_error_yields_stale_data_witness:
  "\<exists>t. ideintr_ide 1 (demo_ide 0x41) = Ret () t \<and> B_VALID \<in> b_flags (bufs t ! 0) \<and> b_data (bufs t ! 0) = replicate 512 0"
  using ide_error_yields_stale_data [of "demo_ide 0x41" 0 0] by (simp add: demo_ide_def demo_buf_def)

end
