(* ===== verification/Xv6_Boot.thy ===== *)
theory Xv6_Boot
  imports Xv6_Trap Xv6_Ide
begin

text \<open>
  From power-on to the scheduler: the boot loader bootmain.c, the search for the tables of a
  multiprocessor BIOS in mp.c, the segment and interrupt descriptors of vm.c and trap.c,
  \<open>ioapicinit\<close>, and the order of initialisation in main.c. \<open>initlock\<close> has no counterpart: a
  lock of the model is free from the start. Addresses the linker chooses, images it embeds
  and vectors.S are parameters.
\<close>

section \<open>Segment and gate descriptors (mmu.h)\<close>

record segdesc =
  lim_15_0 :: "16 word"
  base_15_0 :: "16 word"
  base_23_16 :: "8 word"
  seg_type :: "4 word"
  seg_s :: "1 word"
  seg_dpl :: "2 word"
  seg_p :: "1 word"
  lim_19_16 :: "4 word"
  seg_avl :: "1 word"
  seg_rsv1 :: "1 word"
  seg_db :: "1 word"
  seg_g :: "1 word"
  base_31_24 :: "8 word"

definition SEG :: "4 word \<Rightarrow> uint \<Rightarrow> uint \<Rightarrow> 2 word \<Rightarrow> segdesc" where
  "SEG ty base lim dpl = \<lparr>lim_15_0 = ucast (drop_bit 12 lim), base_15_0 = ucast base, base_23_16 = ucast (drop_bit 16 base),
    seg_type = ty, seg_s = 1, seg_dpl = dpl, seg_p = 1, lim_19_16 = ucast (drop_bit 28 lim), seg_avl = 0, seg_rsv1 = 0,
    seg_db = 1, seg_g = 1, base_31_24 = ucast (drop_bit 24 base)\<rparr>"

record gatedesc =
  off_15_0 :: "16 word"
  gate_cs :: "16 word"
  gate_args :: "5 word"
  gate_rsv1 :: "3 word"
  gate_type :: "4 word"
  gate_s :: "1 word"
  gate_dpl :: "2 word"
  gate_p :: "1 word"
  off_31_16 :: "16 word"

definition SETGATE :: "bool \<Rightarrow> 16 word \<Rightarrow> uint \<Rightarrow> 2 word \<Rightarrow> gatedesc" where
  "SETGATE istrap sel off d = \<lparr>off_15_0 = ucast off, gate_cs = sel, gate_args = 0, gate_rsv1 = 0,
    gate_type = (if istrap then 0xF else 0xE), gate_s = 0, gate_dpl = d, gate_p = 1, off_31_16 = ucast (drop_bit 16 off)\<rparr>"

section \<open>State\<close>

text \<open>\<open>ap_polls\<close> is how often \<open>startothers\<close> finds \<open>started\<close> zero before the other CPU has come up.\<close>

record boot_state = kern_state +
  ncpu :: nat
  bcpu :: nat
  cpu_id :: "nat \<Rightarrow> byte"
  cpu_gdt :: "nat \<Rightarrow> nat \<Rightarrow> segdesc"
  idt :: "nat \<Rightarrow> gatedesc"
  idtr :: "nat set"
  started :: "nat set"
  ap_polls :: "nat \<Rightarrow> nat"

abbreviation (input) NCPU :: nat where "NCPU \<equiv> 8"
abbreviation (input) SEG_KCODE :: nat where "SEG_KCODE \<equiv> 1"

section \<open>vm.c and trap.c\<close>

text \<open>\<open>seginit\<close>; \<open>cpuvar c\<close> is the address of \<open>cpus[c].cpu\<close>. The source does not compare the
  number of the CPU with the size of \<open>cpus\<close>.\<close>

definition seginit :: "(nat \<Rightarrow> uint) \<Rightarrow> (unit, 'z boot_state_scheme) kernel" where
  "seginit cpuvar = bindk cpunum (\<lambda>n. let c = unat n in
    if c \<ge> NCPU then panic ''undefined behaviour'' else
    thenk (modk (\<lambda>s. s\<lparr>cpu_gdt := (cpu_gdt s)(c := (cpu_gdt s c)(1 := SEG 0xA 0 0xffffffff 0, 2 := SEG 0x2 0 0xffffffff 0,
      4 := SEG 0xA 0 0xffffffff 3, 5 := SEG 0x2 0 0xffffffff 3, 3 := SEG 0x2 (cpuvar c) 8 0)), mycpu := c\<rparr>))
    (modk (upd_mycpu (\<lambda>x. x\<lparr>c_proc := None\<rparr>))))"

definition tvinit :: "(nat \<Rightarrow> uint) \<Rightarrow> (unit, 'z boot_state_scheme) kernel" where
  "tvinit vectors = thenk (foreach [0..<256] (\<lambda>i. modk (\<lambda>s. s\<lparr>idt := (idt s)(i := SETGATE False 8 (vectors i) 0)\<rparr>)))
    (modk (\<lambda>s. s\<lparr>idt := (idt s)(64 := SETGATE True 8 (vectors 64) 3)\<rparr>))"

definition idtinit :: "(unit, 'z boot_state_scheme) kernel" where
  "idtinit = modk (\<lambda>s. s\<lparr>idtr := insert (mycpu s) (idtr s)\<rparr>)"

section \<open>ioapic.c\<close>

definition ioapicinit :: "(unit, 'z boot_state_scheme) kernel" where
  "ioapicinit = (\<lambda>s. if \<not> ismp s then Ret () s
    else bindk (ioapicread 1) (\<lambda>v. let maxintr = unat (drop_bit 16 v AND 0xFF) in
      bindk (ioapicread 0) (\<lambda>v.
      thenk (\<lambda>s. if drop_bit 24 v \<noteq> ucast (ioapicid s) then
          cprintf (str ''ioapicinit: id isn'' @ [0x27] @ str ''t equal to ioapicid; not a MP\<newline>'') [] s else Ret () s)
      (foreach [0..<Suc maxintr] (\<lambda>i.
        thenk (ioapicwrite (REG_TABLE + 2 * of_nat i) (0x00010000 OR (T_IRQ0 + of_nat i)))
        (ioapicwrite (REG_TABLE + 2 * of_nat i + 1) 0))))) s)"

section \<open>mp.c\<close>

definition mem_bytes :: "memory \<Rightarrow> uint \<Rightarrow> nat \<Rightarrow> byte list" where
  "mem_bytes m a n = map (\<lambda>i. m (a + of_nat i)) [0..<n]"

definition sum :: "memory \<Rightarrow> uint \<Rightarrow> nat \<Rightarrow> byte" where
  "sum m addr len = foldl (+) 0 (mem_bytes m addr len)"

text \<open>\<open>sizeof(struct mp)\<close> is 16, and both ranges that are searched are multiples of it.\<close>

definition mpsearch1 :: "memory \<Rightarrow> uint \<Rightarrow> nat \<Rightarrow> uint option" where
  "mpsearch1 m a len = find (\<lambda>p. mem_bytes m p 4 = str ''_MP_'' \<and> sum m p 16 = 0)
    (map (\<lambda>k. p2v a + of_nat (16 * k)) [0..<(len + 15) div 16])"

definition mpsearch :: "memory \<Rightarrow> uint option" where
  "mpsearch m = (let bda = p2v 0x400;
      p = push_bit 4 (push_bit 8 (ucast (m (bda + 0x0F))) OR ucast (m (bda + 0x0E))) :: uint;
      r = (if p \<noteq> 0 then mpsearch1 m p 1024
           else mpsearch1 m ((push_bit 8 (ucast (m (bda + 0x14))) OR ucast (m (bda + 0x13))) * 1024 - 1024) 1024) in
    case r of Some mp \<Rightarrow> Some mp | None \<Rightarrow> mpsearch1 m 0xF0000 0x10000)"

definition load16 :: "uint \<Rightarrow> memory \<Rightarrow> ushort" where
  "load16 a m = dec16 [m a, m (a + 1)]"

text \<open>\<open>mpconfig\<close>: the addresses of the floating pointer and of the configuration table.\<close>

definition mpconfig :: "memory \<Rightarrow> (uint \<times> uint) option" where
  "mpconfig m = (case mpsearch m of None \<Rightarrow> None | Some mp \<Rightarrow>
    if load32 (mp + 4) m = 0 then None
    else let conf = p2v (load32 (mp + 4) m) in
      if mem_bytes m conf 4 \<noteq> str ''PCMP'' then None
      else if m (conf + 6) \<noteq> 1 \<and> m (conf + 6) \<noteq> 4 then None
      else if sum m conf (unat (load16 (conf + 4) m)) \<noteq> 0 then None
      else Some (mp, conf))"

text \<open>A processor entry. The source does not compare \<open>ncpu\<close> with the size of \<open>cpus\<close>.\<close>

definition mp_proc :: "uint \<Rightarrow> (unit, 'z boot_state_scheme) kernel" where
  "mp_proc p = (\<lambda>s. let apicid = mem s (p + 1) in
    thenk (whenk (of_nat (ncpu s) \<noteq> (ucast apicid :: uint))
      (thenk (cprintf (str ''mpinit: ncpu=%d apicid=%d\<newline>'') [Num (of_nat (ncpu s)), Num (ucast apicid)])
        (modk (\<lambda>s. s\<lparr>ismp := False\<rparr>))))
    (thenk (\<lambda>s. if mem s (p + 3) AND 2 \<noteq> 0 then Ret () (s\<lparr>bcpu := ncpu s\<rparr>) else Ret () s)
    (\<lambda>s. if ncpu s \<ge> NCPU then Panic ''undefined behaviour''
      else Ret () (s\<lparr>cpu_id := (cpu_id s)(ncpu s := of_nat (ncpu s)), ncpu := Suc (ncpu s)\<rparr>))) s)"

text \<open>The loop over the entries from \<open>p\<close> to \<open>e\<close>.\<close>

primrec mp_entries :: "nat \<Rightarrow> uint \<Rightarrow> uint \<Rightarrow> (unit, 'z boot_state_scheme) kernel" where
  "mp_entries 0 e p = panic ''out of fuel''"
| "mp_entries (Suc fuel) e p = (\<lambda>s. let ty = mem s p in
    if p \<ge> e then Ret () s
    else if ty = 0 then thenk (mp_proc p) (mp_entries fuel e (p + 20)) s
    else if ty = 2 then thenk (modk (\<lambda>s. s\<lparr>ioapicid := mem s (p + 1)\<rparr>)) (mp_entries fuel e (p + 8)) s
    else if ty = 1 \<or> ty = 3 \<or> ty = 4 then mp_entries fuel e (p + 8) s
    else thenk (cprintf (str ''mpinit: unknown config type %x\<newline>'') [Num (ucast ty)])
      (thenk (modk (\<lambda>s. s\<lparr>ismp := False\<rparr>)) (mp_entries fuel e p)) s)"

definition mpinit :: "nat \<Rightarrow> (unit, 'z boot_state_scheme) kernel" where
  "mpinit fuel = thenk (modk (\<lambda>s. s\<lparr>bcpu := 0\<rparr>)) (\<lambda>s. case mpconfig (mem s) of
      None \<Rightarrow> Ret () s
    | Some (mp, conf) \<Rightarrow>
        thenk (modk (\<lambda>s. s\<lparr>ismp := True, lapic := load32 (conf + 36) (mem s)\<rparr>))
        (thenk (\<lambda>s. mp_entries fuel (conf + ucast (load16 (conf + 4) (mem s))) (conf + 44) s)
        (\<lambda>s. if \<not> ismp s then Ret () (s\<lparr>ncpu := 1, lapic := 0, ioapicid := 0\<rparr>)
          else if mem s (mp + 12) \<noteq> 0 then
            thenk (outb 0x22 0x70) (bindk (inb 0x23) (\<lambda>v. outb 0x23 (v OR 1))) s
          else Ret () s)) s)"

definition mpbcpu :: "'z boot_state_scheme \<Rightarrow> nat" where
  "mpbcpu s = bcpu s"

section \<open>main.c\<close>

text \<open>\<open>startothers\<close>, for an image of entryother.S at \<open>estart\<close> of \<open>esize\<close> bytes.\<close>

definition startothers :: "nat \<Rightarrow> uint \<Rightarrow> uint \<Rightarrow> uint \<Rightarrow> uint \<Rightarrow> (unit, 'z boot_state_scheme) kernel" where
  "startothers fuel estart esize mpenter entrypgdir = (let code = p2v 0x7000 in
    thenk (modk (\<lambda>s. s\<lparr>mem := memmove code estart esize (mem s)\<rparr>))
    (\<lambda>s. foreach [0..<ncpu s] (\<lambda>c. bindk cpunum (\<lambda>me.
      if c = unat me then ret ()
      else bindk kalloc (\<lambda>stack.
        thenk (modk (\<lambda>s. s\<lparr>mem := store32 (code - 12) (v2p entrypgdir) (store32 (code - 8) mpenter
          (store32 (code - 4) (stack + KSTACKSIZE) (mem s)))\<rparr>))
        (thenk (\<lambda>s. lapicstartap (cpu_id s c) (v2p code) s)
        (\<lambda>s. if ap_polls s c < fuel then Ret () (s\<lparr>started := insert c (started s)\<rparr>) else Panic ''out of fuel''))))) s))"

text \<open>\<open>mpmain\<close> up to the call of \<open>scheduler\<close>, whose steps are those of the process table.\<close>

definition mpmain :: "(unit, 'z boot_state_scheme) kernel" where
  "mpmain = (\<lambda>s. thenk (cprintf (str ''cpu%d: starting\<newline>'') [Num (ucast (cpu_id s (mycpu s)))])
    (thenk idtinit
    (modk (\<lambda>s. s\<lparr>started := insert (mycpu s) (started s)\<rparr>))) s)"

definition mpenter_main :: "nat \<Rightarrow> (nat \<Rightarrow> uint) \<Rightarrow> (unit, 'z boot_state_scheme) kernel" where
  "mpenter_main fuel cpuvar = thenk switchkvm (thenk (seginit cpuvar) (thenk (lapicinit fuel) mpmain))"

text \<open>The linker's symbols and embedded images.\<close>

record linked =
  ld_end :: uint
  ld_cpuvar :: "nat \<Rightarrow> uint"
  ld_vectors :: "nat \<Rightarrow> uint"
  ld_other :: uint
  ld_othersize :: uint
  ld_mpenter :: uint
  ld_entrypgdir :: uint
  ld_initcode :: uint
  ld_initsize :: uint
  ld_img :: "uint \<Rightarrow> byte list"
  ld_imgsize :: uint

definition kmain :: "nat \<Rightarrow> linked \<Rightarrow> (unit, 'z boot_state_scheme) kernel" where
  "kmain fuel ld =
    thenk (kinit1 (ld_end ld) (p2v (4 * 1024 * 1024)))
    (thenk kvmalloc
    (thenk (mpinit fuel)
    (thenk (lapicinit fuel)
    (thenk (seginit (ld_cpuvar ld))
    (thenk (\<lambda>s. cprintf (str ''\<newline>cpu%d: starting xv6\<newline>\<newline>'') [Num (ucast (cpu_id s (mycpu s)))] s)
    (thenk picinit
    (thenk ioapicinit
    (thenk consoleinit
    (thenk uartinit
    (thenk (tvinit (ld_vectors ld))
    (thenk binit
    (thenk (ideinit (ld_imgsize ld) (ld_img ld))
    (thenk (\<lambda>s. if \<not> ismp s then timerinit s else Ret () s)
    (thenk (startothers fuel (ld_other ld) (ld_othersize ld) (ld_mpenter ld) (ld_entrypgdir ld))
    (thenk (kinit2 (p2v (4 * 1024 * 1024)) (p2v PHYSTOP))
    (thenk (userinit (ld_initcode ld) (ld_initsize ld))
    mpmain))))))))))))))))"

section \<open>bootmain.c\<close>

text \<open>The boot loader runs without paging: \<open>mem\<close> is physical memory.\<close>

definition waitdisk :: "nat \<Rightarrow> (unit, 'z ide_state_scheme) kernel" where
  "waitdisk fuel = thenk (idewait fuel False) (ret ())"

definition store_bytes :: "uint \<Rightarrow> byte list \<Rightarrow> memory \<Rightarrow> memory" where
  "store_bytes a bs m = (\<lambda>x. if unat (x - a) < length bs then bs ! unat (x - a) else m x)"

definition readsect :: "nat \<Rightarrow> uint \<Rightarrow> uint \<Rightarrow> (unit, 'z ide_state_scheme) kernel" where
  "readsect fuel dst offset = thenk (waitdisk fuel)
    (thenk (outbs [(0x1F2, 1), (0x1F3, ucast offset), (0x1F4, ucast (drop_bit 8 offset)), (0x1F5, ucast (drop_bit 16 offset)),
      (0x1F6, ucast (drop_bit 24 offset) OR 0xE0), (0x1F7, 0x20)])
    (thenk (waitdisk fuel)
    (bindk (insl 0x1F0 128) (\<lambda>vs. modk (\<lambda>s. s\<lparr>mem := store_bytes dst (enc32s vs) (mem s)\<rparr>)))))"

text \<open>The loop of \<open>readseg\<close>, for at most \<open>n\<close> sectors.\<close>

primrec readseg_loop :: "nat \<Rightarrow> nat \<Rightarrow> uint \<Rightarrow> uint \<Rightarrow> uint \<Rightarrow> (unit, 'z ide_state_scheme) kernel" where
  "readseg_loop 0 fuel pa epa offset = panic ''out of fuel''"
| "readseg_loop (Suc n) fuel pa epa offset =
    (if pa < epa then thenk (readsect fuel pa offset) (readseg_loop n fuel (pa + 512) epa (offset + 1)) else ret ())"

definition readseg :: "nat \<Rightarrow> nat \<Rightarrow> uint \<Rightarrow> uint \<Rightarrow> uint \<Rightarrow> (unit, 'z ide_state_scheme) kernel" where
  "readseg n fuel pa count offset = readseg_loop n fuel (pa - offset mod 512) (pa + count) (offset div 512 + 1)"

primrec boot_segments :: "nat \<Rightarrow> nat \<Rightarrow> nat \<Rightarrow> uint \<Rightarrow> (unit, 'z ide_state_scheme) kernel" where
  "boot_segments n fuel 0 ph = ret ()"
| "boot_segments n fuel (Suc k) ph = (\<lambda>s. let pa = load32 (ph + 12) (mem s) in
    thenk (readseg n fuel pa (load32 (ph + 16) (mem s)) (load32 (ph + 4) (mem s)))
    (thenk (\<lambda>s. let filesz = load32 (ph + 16) (mem s); memsz = load32 (ph + 20) (mem s) in
      Ret () (if memsz > filesz then s\<lparr>mem := stosb (pa + filesz) 0 (unat (memsz - filesz)) (mem s)\<rparr> else s))
    (boot_segments n fuel k (ph + 32))) s)"

text \<open>\<open>bootmain\<close>: the entry point that is called, or nothing if there is no ELF file.\<close>

definition bootmain :: "nat \<Rightarrow> nat \<Rightarrow> (uint option, 'z ide_state_scheme) kernel" where
  "bootmain n fuel = thenk (readseg n fuel 0x10000 4096 0) (\<lambda>s.
    if load32 0x10000 (mem s) \<noteq> 0x464C457F then Ret None s
    else thenk (boot_segments n fuel (unat (load16 (0x10000 + 44) (mem s))) (0x10000 + load32 (0x10000 + 28) (mem s)))
      (\<lambda>s. Ret (Some (load32 (0x10000 + 24) (mem s))) s) s)"

section \<open>Who may enter the kernel, and where\<close>

definition gate_offset :: "gatedesc \<Rightarrow> uint" where
  "gate_offset g = ucast (off_15_0 g) OR push_bit 16 (ucast (off_31_16 g))"

definition seg_base :: "segdesc \<Rightarrow> uint" where
  "seg_base d = ucast (base_15_0 d) OR push_bit 16 (ucast (base_23_16 d)) OR push_bit 24 (ucast (base_31_24 d))"

text \<open>The last address of a segment: its limit counts bytes, or pages if the granularity bit is set.\<close>

definition seg_last :: "segdesc \<Rightarrow> uint" where
  "seg_last d = (let lim = ucast (lim_15_0 d) OR push_bit 16 (ucast (lim_19_16 d)) in
    seg_base d + (if seg_g d = 1 then push_bit 12 lim OR 0xFFF else lim))"

text \<open>A segment for application code or data that is present and covers all addresses.\<close>

definition flat_segment :: "segdesc \<Rightarrow> bool" where
  "flat_segment d \<longleftrightarrow> seg_p d = 1 \<and> seg_s d = 1 \<and> seg_base d = 0 \<and> seg_last d = 0xFFFFFFFF"

text \<open>Executable and not conforming (\<open>STA_X\<close>, \<open>STA_C\<close>): code in it runs at the segment's own
  privilege level. Writable, neither executable nor expand-down (\<open>STA_W\<close>, \<open>STA_X\<close>, \<open>STA_E\<close>).\<close>

definition code_segment :: "segdesc \<Rightarrow> bool" where
  "code_segment d \<longleftrightarrow> seg_type d AND 8 \<noteq> 0 \<and> seg_type d AND 4 = 0"

definition data_segment :: "segdesc \<Rightarrow> bool" where
  "data_segment d \<longleftrightarrow> seg_type d AND 8 = 0 \<and> seg_type d AND 4 = 0 \<and> seg_type d AND 2 \<noteq> 0"

lemma gate_offset_SETGATE: "gate_offset (SETGATE b sel off d) = off"
  unfolding gate_offset_def SETGATE_def gatedesc.simps
proof (rule bit_eqI)
  fix i
  show "bit ((ucast (ucast off :: 16 word) :: uint) OR push_bit 16 (ucast (ucast (drop_bit 16 off) :: 16 word))) i = bit off i"
    if "possible_bit TYPE(uint) i"
    using that by (cases "i < 16"; simp add: bit_simps; linarith?)
qed

lemma seg_base_SEG: "seg_base (SEG ty base lim dpl) = base"
  unfolding seg_base_def SEG_def segdesc.simps
proof (rule bit_eqI)
  fix i
  show "bit ((ucast (ucast base :: 16 word) :: uint) OR push_bit 16 (ucast (ucast (drop_bit 16 base) :: 8 word)) OR
      push_bit 24 (ucast (ucast (drop_bit 24 base) :: 8 word))) i = bit base i"
    if "possible_bit TYPE(uint) i"
    using that by (cases "i < 16"; cases "i < 24"; simp add: bit_simps; linarith?)
qed

lemma foreach_modk: "foreach xs (\<lambda>i. modk (f i)) s = Ret () (fold f xs s)"
  by (induction xs arbitrary: s) (simp_all add: thenk_def bindk_def)

lemma fold_idt:
  "fold (\<lambda>i s. s\<lparr>idt := (idt s)(i := g i)\<rparr>) [0..<n] s = s\<lparr>idt := \<lambda>i. if i < n then g i else idt s i\<rparr>"
proof (induction n)
  case (Suc n)
  have "(\<lambda>i. if i < n then g i else idt s i)(n := g n) = (\<lambda>i. if i < Suc n then g i else idt s i)" by auto
  then show ?case unfolding upt_Suc_append [OF le0] fold_append comp_apply Suc by simp
qed simp

lemma tvinit_run:
  "tvinit vectors s = Ret () (s\<lparr>idt := (\<lambda>i. if i < 256 then SETGATE False 8 (vectors i) 0 else idt s i)
    (64 := SETGATE True 8 (vectors 64) 3)\<rparr>)"
  unfolding tvinit_def thenk_def bindk_def foreach_modk fold_idt by simp

lemma flat_SEG: "flat_segment (SEG ty 0 0xFFFFFFFF dpl)"
  by (simp add: flat_segment_def seg_last_def seg_base_SEG) (simp add: SEG_def Let_def)

lemma seginit_run:
  assumes "cpunum s = Ret n u" and "unat n < NCPU"
  shows "\<exists>t. seginit cpuvar s = Ret () t \<and> mycpu t = unat n \<and> idt t = idt s \<and>
    cpu_gdt t (unat n) 1 = SEG 0xA 0 0xffffffff 0 \<and> cpu_gdt t (unat n) 2 = SEG 0x2 0 0xffffffff 0 \<and>
    cpu_gdt t (unat n) 4 = SEG 0xA 0 0xffffffff 3 \<and> cpu_gdt t (unat n) 5 = SEG 0x2 0 0xffffffff 3"
proof -
  have "idt u = idt s" using assms(1) by (auto simp: cpunum_def mmio_read_def bindk_def Let_def split: if_splits)
  then show ?thesis
    using assms by (simp add: seginit_def bindk_def thenk_def Let_def upd_mycpu_def)
qed

text \<open>C22. User code gets into the kernel through the system call gate only. After \<open>seginit\<close> and
  \<open>tvinit\<close>, in the order of \<open>main\<close>, each of the 256 gates is present and leads to its own vector,
  in a segment that is present, executable code at privilege level 0 and starts at address 0, so
  in kernel code; the gate for system calls is the only one a program may use (privilege level 3)
  and the only one that leaves interrupts on (a trap gate, the others being interrupt gates). The
  segments for kernel and user code are code, those for data are writable data; the user's have
  privilege level 3, the kernel's level 0; all four are present and cover all addresses, page
  granularity included. All this holds on a CPU with a number below \<open>NCPU\<close>; for any other
  \<open>seginit\<close> writes past the end of \<open>cpus\<close>.\<close>

theorem user_enters_by_system_call_only:
  assumes "cpunum s = Ret n u"
  shows "if unat n < NCPU then \<exists>t. thenk (seginit cpuvar) (tvinit vectors) s = Ret () t \<and> mycpu t = unat n \<and>
      (\<forall>i < 256. let g = idt t i; d = cpu_gdt t (mycpu t) (unat (drop_bit 3 (gate_cs g))) in
        gate_offset g = vectors i \<and> gate_p g = 1 \<and> (3 \<le> gate_dpl g \<longleftrightarrow> i = 64) \<and> gate_type g = (if i = 64 then 0xF else 0xE) \<and>
        code_segment d \<and> flat_segment d \<and> seg_dpl d = 0) \<and>
      (\<forall>k \<in> {1, 2, 4, 5}. let d = cpu_gdt t (mycpu t) k in
        flat_segment d \<and> seg_dpl d = (if k \<ge> 4 then 3 else 0) \<and> (if k \<in> {1, 4} then code_segment d else data_segment d))
    else seginit cpuvar s = Panic ''undefined behaviour''"
proof (cases "unat n < NCPU")
  case True
  then obtain v where v: "seginit cpuvar s = Ret () v" "mycpu v = unat n" "cpu_gdt v (unat n) 1 = SEG 0xA 0 0xffffffff 0"
      "cpu_gdt v (unat n) 2 = SEG 0x2 0 0xffffffff 0" "cpu_gdt v (unat n) 4 = SEG 0xA 0 0xffffffff 3"
      "cpu_gdt v (unat n) 5 = SEG 0x2 0 0xffffffff 3"
    using seginit_run [OF assms] by blast
  have "gate_type (SETGATE b 8 off d) = (if b then 0xF else 0xE)" "gate_cs (SETGATE b 8 off d) = 8"
      "gate_p (SETGATE b 8 off d) = 1" "gate_dpl (SETGATE b 8 off d) = d" for b off d
    by (simp_all add: SETGATE_def)
  note gate = this gate_offset_SETGATE
  have seg: "code_segment (SEG 0xA b l d)" "data_segment (SEG 0x2 b l d)" "seg_dpl (SEG ty b l d) = d" for ty b l d
    by (simp_all add: SEG_def code_segment_def data_segment_def)
  show ?thesis
    using True v by (simp add: thenk_def bindk_def tvinit_run gate seg flat_SEG Let_def)
next
  case False
  then show ?thesis using assms by (simp add: seginit_def bindk_def Let_def panic_def)
qed

section \<open>The table of processors\<close>

text \<open>A processor has an APIC id and flags, an I/O APIC has a number; the other types of entries
  have no effect.\<close>

datatype mpentry = MpProc byte byte | MpIoapic byte | MpOther byte

primrec entry_size :: "mpentry \<Rightarrow> nat" where
  "entry_size (MpProc a fl) = 20"
| "entry_size (MpIoapic a) = 8"
| "entry_size (MpOther ty) = 8"

definition table_size :: "mpentry list \<Rightarrow> nat" where
  "table_size xs = sum_list (map entry_size xs)"

text \<open>Memory from \<open>p\<close> on holds these entries.\<close>

fun mp_table :: "memory \<Rightarrow> uint \<Rightarrow> mpentry list \<Rightarrow> bool" where
  "mp_table m p [] = True"
| "mp_table m p (MpProc a fl # xs) = (m p = 0 \<and> m (p + 1) = a \<and> m (p + 3) = fl \<and> mp_table m (p + 20) xs)"
| "mp_table m p (MpIoapic a # xs) = (m p = 2 \<and> m (p + 1) = a \<and> mp_table m (p + 8) xs)"
| "mp_table m p (MpOther ty # xs) = (m p = ty \<and> ty \<in> {1, 3, 4} \<and> mp_table m (p + 8) xs)"

text \<open>The processors' APIC ids are consecutive, from \<open>k\<close> on.\<close>

fun mp_numbered :: "nat \<Rightarrow> mpentry list \<Rightarrow> bool" where
  "mp_numbered k [] = True"
| "mp_numbered k (MpProc a fl # xs) = (a = of_nat k \<and> mp_numbered (Suc k) xs)"
| "mp_numbered k (_ # xs) = mp_numbered k xs"

fun mp_procs :: "mpentry list \<Rightarrow> nat" where
  "mp_procs [] = 0"
| "mp_procs (MpProc a fl # xs) = Suc (mp_procs xs)"
| "mp_procs (_ # xs) = mp_procs xs"

text \<open>The last processor, counted from \<open>k\<close>, with the boot flag, and the number of the last I/O APIC.\<close>

fun mp_boot :: "nat \<Rightarrow> nat \<Rightarrow> mpentry list \<Rightarrow> nat" where
  "mp_boot k b [] = b"
| "mp_boot k b (MpProc a fl # xs) = mp_boot (Suc k) (if fl AND 2 \<noteq> 0 then k else b) xs"
| "mp_boot k b (_ # xs) = mp_boot k b xs"

fun mp_ioapic :: "byte \<Rightarrow> mpentry list \<Rightarrow> byte" where
  "mp_ioapic n [] = n"
| "mp_ioapic n (MpIoapic a # xs) = mp_ioapic a xs"
| "mp_ioapic n (_ # xs) = mp_ioapic n xs"

text \<open>The effect of an entry, up to what is printed.\<close>

fun mp_effect :: "mpentry \<Rightarrow> 'z boot_state_scheme \<Rightarrow> 'z boot_state_scheme" where
  "mp_effect (MpProc a fl) s = s\<lparr>ismp := ismp s \<and> a = of_nat (ncpu s), bcpu := (if fl AND 2 \<noteq> 0 then ncpu s else bcpu s),
    cpu_id := (cpu_id s)(ncpu s := of_nat (ncpu s)), ncpu := Suc (ncpu s)\<rparr>"
| "mp_effect (MpIoapic a) s = s\<lparr>ioapicid := a\<rparr>"
| "mp_effect (MpOther ty) s = s"

lemma table_size_simps [simp]: "table_size [] = 0" "table_size (x # xs) = entry_size x + table_size xs"
  by (simp_all add: table_size_def)

lemma entry_size_pos: "0 < entry_size x"
  by (cases x) simp_all

lemma mp_effects:
  "ncpu (fold mp_effect xs s) = ncpu s + mp_procs xs \<and> ismp (fold mp_effect xs s) = (ismp s \<and> mp_numbered (ncpu s) xs) \<and>
   bcpu (fold mp_effect xs s) = mp_boot (ncpu s) (bcpu s) xs \<and> ioapicid (fold mp_effect xs s) = mp_ioapic (ioapicid s) xs \<and>
   (\<forall>c. ncpu s \<le> c \<and> c < ncpu s + mp_procs xs \<longrightarrow> cpu_id (fold mp_effect xs s) c = of_nat c) \<and>
   (\<forall>c < ncpu s. cpu_id (fold mp_effect xs s) c = cpu_id s c) \<and>
   lapic (fold mp_effect xs s) = lapic s \<and> mem (fold mp_effect xs s) = mem s \<and> trace (fold mp_effect xs s) = trace s \<and>
   dev_in (fold mp_effect xs s) = dev_in s"
proof (induction xs arbitrary: s)
  case (Cons x xs)
  show ?case
  proof (cases x)
    case (MpProc a fl)
    note ih = Cons.IH [of "mp_effect x s"]
    have "cpu_id (fold mp_effect xs (mp_effect x s)) c = of_nat c"
      if "ncpu s \<le> c" "c < ncpu s + mp_procs (x # xs)" for c
      using ih that MpProc by (cases "c = ncpu s") simp_all
    then show ?thesis using ih MpProc by simp
  qed (use Cons.IH [of "mp_effect x s"] in simp_all)
qed auto

lemma mp_effect_printed:
  "fold mp_effect xs (s\<lparr>mem := m, trace := tr\<rparr>) = (fold mp_effect xs s)\<lparr>mem := m, trace := tr\<rparr>"
proof (induction xs arbitrary: s)
  case (Cons x xs)
  have "mp_effect x (s\<lparr>mem := m, trace := tr\<rparr>) = (mp_effect x s)\<lparr>mem := m, trace := tr\<rparr>" by (cases x) simp_all
  then show ?case using Cons by simp
qed simp

lemma entry_before_end:
  fixes p :: uint
  assumes "unat p + (a + n) < 2 ^ 32" and "0 < a"
  shows "p < p + of_nat (a + n)" and "p + of_nat (a + n) = p + of_nat a + of_nat n" and "unat (p + of_nat a) + n < 2 ^ 32"
proof -
  have add: "unat (p + of_nat k) = unat p + k" if "unat p + k < 2 ^ 32" for k
    using that by (simp add: unat_word_ariths unat_of_nat)
  show "p < p + of_nat (a + n)" "unat (p + of_nat a) + n < 2 ^ 32"
    using add [of "a + n"] add [of a] assms by (simp_all add: word_less_nat_alt del: of_nat_add)
qed simp

text \<open>The messages of \<open>mpinit\<close> can be printed, and \<open>n\<close> bytes at \<open>p\<close> are not on the screen.\<close>

definition screen_ready :: "'z cons_state_scheme \<Rightarrow> bool" where
  "screen_ready s \<longleftrightarrow> can_print s \<and> (cons_locking s \<longrightarrow> LkCons \<notin> held s)"

definition off_screen :: "uint \<Rightarrow> nat \<Rightarrow> bool" where
  "off_screen p n \<longleftrightarrow> (\<forall>i < n. \<not> on_screen (p + of_nat i))"

lemma off_screen_add: "off_screen p (k + n) \<Longrightarrow> off_screen p k \<and> off_screen (p + of_nat k) n"
proof -
  assume *: "off_screen p (k + n)"
  have "\<not> on_screen (p + of_nat k + of_nat i)" if "i < n" for i
    using * that unfolding off_screen_def by (metis add.assoc add_less_cancel_left of_nat_add)
  then show ?thesis using * by (auto simp: off_screen_def)
qed

lemma mp_table_cong:
  assumes "off_screen p (table_size xs)" and "\<And>a. \<not> on_screen a \<Longrightarrow> m' a = m a"
  shows "mp_table m' p xs = mp_table m p xs"
  using assms(1)
proof (induction xs arbitrary: p)
  case (Cons x xs)
  note o = off_screen_add [OF Cons.prems [unfolded table_size_simps]]
  have at: "m' (p + of_nat i) = m (p + of_nat i)" if "i < entry_size x" for i
    using o that assms(2) by (auto simp: off_screen_def)
  show ?case
    using at [of 0] at [of 1] at [of 3] o Cons.IH by (cases x) simp_all
qed simp

lemma prints_ncpu: "prints (cprintf_loop (str ''mpinit: ncpu=%d apicid=%d\<newline>'') [Num x, Num y])"
  by (simp add: prints_thenk prints_ret prints_consputc prints_printint)

lemma mp_proc_run:
  assumes "ncpu s \<le> NCPU" and "mem s (p + 1) = of_nat (ncpu s) \<or> screen_ready s \<and> \<not> on_screen (p + 3)"
  shows "\<exists>tr m. mp_proc p s = (if ncpu s < NCPU then
        Ret () ((mp_effect (MpProc (mem s (p + 1)) (mem s (p + 3))) s)\<lparr>mem := m, trace := tr\<rparr>)
      else Panic ''undefined behaviour'') \<and>
    (\<forall>a. \<not> on_screen a \<longrightarrow> m a = mem s a) \<and> (mem s (p + 1) = of_nat (ncpu s) \<longrightarrow> m = mem s \<and> tr = trace s)"
proof -
  let ?f = "cprintf (str ''mpinit: ncpu=%d apicid=%d\<newline>'') [Num (of_nat (ncpu s)), Num (ucast (mem s (p + 1)))]"
  have eq: "of_nat (ncpu s) = (ucast a :: uint) \<longleftrightarrow> a = of_nat (ncpu s)" for a :: byte
  proof -
    have "(ucast (of_nat (ncpu s) :: byte) :: uint) = of_nat (ncpu s)"
      using assms(1) by (simp add: unsigned_of_nat take_bit_nat_eq_self)
    moreover have "(ucast (ucast x :: uint) :: byte) = x" for x
      by (rule bit_word_eqI) (simp add: bit_simps)
    ultimately show ?thesis by metis
  qed
  show ?thesis
  proof (cases "mem s (p + 1) = of_nat (ncpu s)")
    case True
    then show ?thesis
      by (intro exI [of _ "trace s"] exI [of _ "mem s"]) (auto simp: mp_proc_def thenk_def bindk_def Let_def eq)
  next
    case False
    then have "can_print s" "cons_locking s \<longrightarrow> LkCons \<notin> held s" using assms(2) by (simp_all add: screen_ready_def)
    then obtain m tr where f: "?f s = Ret () (s\<lparr>mem := m, trace := tr\<rparr>)" and m: "\<forall>a. \<not> on_screen a \<longrightarrow> m a = mem s a"
      using cprintf_printed [OF prints_ncpu] unfolding printed_def by blast
    then have "m (p + 3) = mem s (p + 3)" using assms(2) False by simp
    then show ?thesis
      using f m False by (intro exI [of _ tr] exI [of _ m]) (auto simp: mp_proc_def thenk_def bindk_def Let_def eq)
  qed
qed

text \<open>What the loop over the entries relies on: the entries are at \<open>p\<close>, and unless the processors
  are numbered consecutively a message is printed, which must not overwrite them.\<close>

definition mp_readable :: "mpentry list \<Rightarrow> uint \<Rightarrow> 'z boot_state_scheme \<Rightarrow> bool" where
  "mp_readable xs p s \<longleftrightarrow> mp_table (mem s) p xs \<and> (mp_numbered (ncpu s) xs \<or> screen_ready s \<and> off_screen p (table_size xs))"

lemma mp_readable_step:
  assumes "mp_readable (x # xs) p s" and "\<forall>a. \<not> on_screen a \<longrightarrow> m a = mem s a"
    and "mp_numbered (ncpu s) (x # xs) \<longrightarrow> m = mem s"
  shows "mp_readable xs (p + of_nat (entry_size x)) ((mp_effect x s)\<lparr>mem := m, trace := tr\<rparr>)"
proof (cases "mp_numbered (ncpu s) (x # xs)")
  case True
  then show ?thesis using assms by (cases x) (simp_all add: mp_readable_def)
next
  case False
  then have "screen_ready s" "off_screen p (table_size (x # xs))" using assms(1) by (simp_all add: mp_readable_def)
  then have "screen_ready ((mp_effect x s)\<lparr>mem := m, trace := tr\<rparr>)" "off_screen (p + of_nat (entry_size x)) (table_size xs)"
    using off_screen_add [of p "entry_size x"]
    by (cases x; simp add: screen_ready_def can_print_def cursor_on_screen_def)+
  moreover from this have "mp_table m (p + of_nat (entry_size x)) xs = mp_table (mem s) (p + of_nat (entry_size x)) xs"
    using assms(2) by (intro mp_table_cong) simp_all
  ultimately show ?thesis using assms(1) by (cases x) (simp_all add: mp_readable_def)
qed

lemma mp_entry_run:
  assumes "mp_readable (x # xs) p s" and "unat p + table_size (x # xs) < 2 ^ 32" and "ncpu s \<le> NCPU"
  shows "\<exists>tr m. mp_entries (Suc n) (p + of_nat (table_size (x # xs))) p s =
      (if ncpu s + mp_procs [x] \<le> NCPU then
        mp_entries n (p + of_nat (entry_size x) + of_nat (table_size xs)) (p + of_nat (entry_size x))
          ((mp_effect x s)\<lparr>mem := m, trace := tr\<rparr>)
       else Panic ''undefined behaviour'') \<and>
    (\<forall>a. \<not> on_screen a \<longrightarrow> m a = mem s a) \<and> (mp_numbered (ncpu s) (x # xs) \<longrightarrow> m = mem s \<and> tr = trace s)"
proof -
  note e = entry_before_end [OF assms(2) [unfolded table_size_simps] entry_size_pos]
  have run: "mp_entries (Suc n) (p + of_nat (table_size (x # xs))) p s =
      (case x of MpProc a fl \<Rightarrow> thenk (mp_proc p) (mp_entries n (p + 20 + of_nat (table_size xs)) (p + 20)) s
       | _ \<Rightarrow> mp_entries n (p + 8 + of_nat (table_size xs)) (p + 8) (mp_effect x s))"
    using assms(1) e(1,2) by (cases x) (auto simp: mp_readable_def Let_def not_le thenk_def bindk_def add.assoc)
  show ?thesis
  proof (cases x)
    case (MpProc a fl)
    have "mem s (p + 1) = of_nat (ncpu s) \<or> screen_ready s \<and> \<not> on_screen (p + 3)"
    proof (cases "mp_numbered (ncpu s) (x # xs)")
      case False
      then have "screen_ready s" "off_screen p (table_size (x # xs))" using assms(1) by (simp_all add: mp_readable_def)
      then show ?thesis using MpProc by (auto simp: off_screen_def dest!: spec [of _ 3])
    qed (use assms(1) MpProc in \<open>simp add: mp_readable_def\<close>)
    from mp_proc_run [OF assms(3) this] obtain tr m where r: "mp_proc p s = (if ncpu s < NCPU then
          Ret () ((mp_effect (MpProc (mem s (p + 1)) (mem s (p + 3))) s)\<lparr>mem := m, trace := tr\<rparr>)
        else Panic ''undefined behaviour'')"
      and m: "\<forall>a. \<not> on_screen a \<longrightarrow> m a = mem s a" "mem s (p + 1) = of_nat (ncpu s) \<longrightarrow> m = mem s \<and> tr = trace s"
      by blast
    have "mem s (p + 1) = a" "mem s (p + 3) = fl" using assms(1) MpProc by (simp_all add: mp_readable_def)
    then show ?thesis
      using run r m MpProc by (intro exI [of _ tr] exI [of _ m]) (simp add: thenk_def bindk_def)
  next
    case (MpIoapic a)
    then show ?thesis using run assms(3) by (intro exI [of _ "trace s"] exI [of _ "mem s"]) simp
  next
    case (MpOther ty)
    then show ?thesis using run assms(3) by (intro exI [of _ "trace s"] exI [of _ "mem s"]) simp
  qed
qed

lemma mp_entries_run:
  assumes "mp_readable xs p s" and "unat p + table_size xs < 2 ^ 32" and "length xs < fuel" and "ncpu s \<le> NCPU"
  shows "\<exists>tr m. mp_entries fuel (p + of_nat (table_size xs)) p s =
      (if ncpu s + mp_procs xs \<le> NCPU then Ret () ((fold mp_effect xs s)\<lparr>mem := m, trace := tr\<rparr>)
       else Panic ''undefined behaviour'') \<and>
    (\<forall>a. \<not> on_screen a \<longrightarrow> m a = mem s a) \<and> (mp_numbered (ncpu s) xs \<longrightarrow> m = mem s \<and> tr = trace s)"
  using assms
proof (induction xs arbitrary: s p fuel)
  case Nil
  then show ?case by (intro exI [of _ "trace s"] exI [of _ "mem s"]) (cases fuel; simp)
next
  case (Cons x xs)
  obtain n where n: "fuel = Suc n" "length xs < n" using Cons.prems(3) by (cases fuel) auto
  let ?q = "p + of_nat (entry_size x)"
  obtain tr m where step: "mp_entries (Suc n) (p + of_nat (table_size (x # xs))) p s =
      (if ncpu s + mp_procs [x] \<le> NCPU then
        mp_entries n (?q + of_nat (table_size xs)) ?q ((mp_effect x s)\<lparr>mem := m, trace := tr\<rparr>)
       else Panic ''undefined behaviour'')"
    and m: "\<forall>a. \<not> on_screen a \<longrightarrow> m a = mem s a" "mp_numbered (ncpu s) (x # xs) \<longrightarrow> m = mem s \<and> tr = trace s"
    using mp_entry_run [OF Cons.prems(1,2,4)] by metis
  define u where "u = (mp_effect x s)\<lparr>mem := m, trace := tr\<rparr>"
  have k: "ncpu u = ncpu s + mp_procs [x]" "mp_procs (x # xs) = mp_procs [x] + mp_procs xs"
      "mp_numbered (ncpu s) (x # xs) \<longrightarrow> mp_numbered (ncpu u) xs"
    by (cases x; simp add: u_def)+
  show ?case
  proof (cases "ncpu s + mp_procs [x] \<le> NCPU")
    case True
    have "mp_readable xs ?q u" unfolding u_def using m by (intro mp_readable_step [OF Cons.prems(1)]) simp_all
    then obtain tr2 m2 where ih: "mp_entries n (?q + of_nat (table_size xs)) ?q u =
        (if ncpu u + mp_procs xs \<le> NCPU then Ret () ((fold mp_effect xs u)\<lparr>mem := m2, trace := tr2\<rparr>) else Panic ''undefined behaviour'')"
      and m2: "\<forall>a. \<not> on_screen a \<longrightarrow> m2 a = mem u a" "mp_numbered (ncpu u) xs \<longrightarrow> m2 = mem u \<and> tr2 = trace u"
      using Cons.IH [of ?q u n] n(2) True k(1) entry_before_end(3) [OF Cons.prems(2) [unfolded table_size_simps] entry_size_pos] by metis
    have "(fold mp_effect xs u)\<lparr>mem := m2, trace := tr2\<rparr> = (fold mp_effect (x # xs) s)\<lparr>mem := m2, trace := tr2\<rparr>"
      by (simp add: u_def mp_effect_printed)
    then show ?thesis
      using step ih m m2 k True n(1) by (intro exI [of _ tr2] exI [of _ m2]) (auto simp: u_def add.assoc)
  next
    case False
    then show ?thesis using step n(1) k(2) m by (intro exI [of _ tr] exI [of _ m]) simp
  qed
qed

text \<open>C23. \<open>mpinit\<close> counts the processors of the BIOS's table. When \<open>mpconfig\<close> finds a table whose
  entries are those of \<open>xs\<close>, with at most \<open>NCPU\<close> processors, \<open>mpinit\<close> returns. If the processors'
  APIC ids are 0, 1, \<dots> in the order of the table, the system is a multiprocessor: \<open>ncpu\<close> is the number
  of processor entries, \<open>cpus[c].id\<close> is \<open>c\<close>, the processor marked for booting is \<open>bcpu\<close>, the I/O APIC's
  number and the address of the local APIC are kept, and external interrupts are masked by two writes if
  the floating pointer has the IMCR flag. If the ids are anything else \<open>mpinit\<close> falls back to one
  processor without APICs; it then prints, for which the cursor must be on the screen and the table must
  not. With more than \<open>NCPU\<close> processors the code writes past the end of \<open>cpus\<close>. As many turns as there are
  entries, and one, are enough.\<close>

theorem mpinit_counts_processors:
  assumes "mpconfig (mem s) = Some (mp, conf)" and "mp_table (mem s) (conf + 44) xs"
    and "unat (load16 (conf + 4) (mem s)) = 44 + table_size xs" and "unat conf + 44 + table_size xs < 2 ^ 32"
    and "mp_numbered 0 xs \<or> screen_ready s \<and> off_screen (conf + 44) (table_size xs)" and "ncpu s = 0" and "length xs < fuel"
  shows "if mp_procs xs > NCPU then mpinit fuel s = Panic ''undefined behaviour''
    else \<exists>t. mpinit fuel s = Ret () t \<and>
      (if mp_numbered 0 xs then ismp t \<and> ncpu t = mp_procs xs \<and> (\<forall>c < ncpu t. cpu_id t c = of_nat c) \<and>
         mpbcpu t = mp_boot 0 0 xs \<and> ioapicid t = mp_ioapic (ioapicid s) xs \<and> lapic t = load32 (conf + 36) (mem s) \<and>
         mem t = mem s \<and> trace t = trace s @ (if mem s (mp + 12) = 0 then [] else
           let v = dev_in s (trace s @ [Out 0x22 0x70]) 0x23 in [Out 0x22 0x70, In 0x23 v, Out 0x23 (v OR 1)])
       else \<not> ismp t \<and> ncpu t = 1 \<and> lapic t = 0 \<and> ioapicid t = 0)"
proof -
  define u where "u = s\<lparr>bcpu := 0, ismp := True, lapic := load32 (conf + 36) (mem s)\<rparr>"
  let ?e = "conf + ucast (load16 (conf + 4) (mem u))"
  have sz: "unat (conf + 44) + table_size xs < 2 ^ 32"
    using assms(4) by (simp add: unat_word_ariths(1))
  have "(ucast (load16 (conf + 4) (mem s)) :: uint) = of_nat (unat (load16 (conf + 4) (mem s)))"
    by (simp add: unsigned_ucast_eq)
  then have e: "?e = conf + 44 + of_nat (table_size xs)"
    using assms(3) by (simp add: u_def)
  have "mp_readable xs (conf + 44) u"
    using assms(2,5,6) by (auto simp: mp_readable_def u_def screen_ready_def can_print_def cursor_on_screen_def)
  then obtain tr m where loop: "mp_entries fuel ?e (conf + 44) u = (if mp_procs xs \<le> NCPU
        then Ret () ((fold mp_effect xs u)\<lparr>mem := m, trace := tr\<rparr>) else Panic ''undefined behaviour'')"
      and m: "mp_numbered 0 xs \<longrightarrow> m = mem s \<and> tr = trace s"
    using mp_entries_run [of xs "conf + 44" u fuel] sz assms(6,7) unfolding e by (auto simp: u_def)
  define w where "w = (fold mp_effect xs u)\<lparr>mem := m, trace := tr\<rparr>"
  have run: "mpinit fuel s = thenk (mp_entries fuel ?e (conf + 44)) (\<lambda>s. if \<not> ismp s then Ret () (s\<lparr>ncpu := 1, lapic := 0, ioapicid := 0\<rparr>)
      else if mem s (mp + 12) \<noteq> 0 then thenk (outb 0x22 0x70) (bindk (inb 0x23) (\<lambda>v. outb 0x23 (v OR 1))) s else Ret () s) u"
    using assms(1) by (simp add: mpinit_def thenk_def bindk_def u_def)
  have w: "ncpu w = mp_procs xs" "ismp w = mp_numbered 0 xs" "bcpu w = mp_boot 0 0 xs" "ioapicid w = mp_ioapic (ioapicid s) xs"
      "\<forall>c < mp_procs xs. cpu_id w c = of_nat c" "lapic w = load32 (conf + 36) (mem s)" "mem w = m" "trace w = tr" "dev_in w = dev_in s"
    using mp_effects [of xs u] assms(6) by (simp_all add: w_def u_def)
  show ?thesis
    using run loop w m by (auto simp: w_def [symmetric] thenk_def bindk_def outb_def inb_def mpbcpu_def Let_def)
qed

text \<open>A floating pointer in the extended BIOS data area and a table with two processors and an I/O
  APIC; \<open>i\<close> is the second processor's APIC id, \<open>ck\<close> the checksum.\<close>

definition demo_table :: "byte \<Rightarrow> byte \<Rightarrow> byte list" where
  "demo_table i ck = str ''PCMP'' @ [92, 0, 1, ck] @ replicate 28 0 @ [0, 0, 0xE0, 0xFE] @ replicate 4 0 @
    [0, 0, 0, 1] @ replicate 16 0 @ [0, i, 0, 3] @ replicate 16 0 @ [2, 5] @ replicate 6 0"

definition demo_pointer :: "byte list" where
  "demo_pointer = str ''_MP_'' @ [0, 0xFD, 9, 0, 0, 0, 31, 0, 0x80, 0, 0, 0]"

definition demo_mem :: "byte \<Rightarrow> byte \<Rightarrow> memory" where
  "demo_mem i ck = store_bytes 0x8009FD00 (demo_table i ck)
    (store_bytes 0x8009FC00 demo_pointer (store_bytes 0x8000040E [0xC0, 0x9F] (\<lambda>_. 0)))"

definition demo_boot :: boot_state where
  "demo_boot = \<lparr>held = {}, mem = demo_mem 1 137, freelist = 0, use_lock = True,
    kend = 0x80110000, ptable = [], nextpid = 1, initproc = None, cpus = [\<lparr>c_proc = None, c_esp0 = 0, c_cr3 = 0\<rparr>], mycpu = 0,
    kpgdir = 0, trapret = 0, forkret_addr = 0, kdata = 0, bufs = [], mru = [], disk = \<lambda>_. [], disksize = 0, writes = [],
    l_start = 0, l_size = 0, l_busy = False, l_dev = 1, lh_n = 0, lh_sector = [], icache = [],
    dev_in = \<lambda>_ _. 0, dev_mmio = \<lambda>_ _. 0, trace = [], irqmask = 0, ismp = True, ioapicid = 0, lapic = 0, uart = False,
    kbd_shift = 0, panicked = False, cons_locking = True, in_buf = replicate 128 0, in_r = 0, in_w = 0, in_e = 0,
    devsw = \<lambda>_. None, ftable = [],
    pipes = \<lambda>_. \<lparr>pi_data = [], pi_nread = 0, pi_nwrite = 0, pi_readopen = False, pi_writeopen = False\<rparr>,
    ticks = 0, forkret_first = True, ncpu = 0, bcpu = 0, cpu_id = \<lambda>_. 0, cpu_gdt = \<lambda>_ _. SEG 0 0 0 0, idt = \<lambda>_. SETGATE False 0 0 0,
    idtr = {}, started = {}, ap_polls = \<lambda>_. 0\<rparr>"

theorem user_enters_by_system_call_only_witness:
  "\<exists>t. thenk (seginit (\<lambda>_. 0x80110000)) (tvinit (\<lambda>i. 0x80100000 + 8 * of_nat i)) demo_boot = Ret () t \<and>
    gate_offset (idt t 64) = 0x80100200 \<and> gate_dpl (idt t 14) < 3 \<and> 3 \<le> gate_dpl (idt t 64) \<and>
    gate_type (idt t 14) = 0xE \<and> code_segment (cpu_gdt t 0 (unat (drop_bit 3 (gate_cs (idt t 64))))) \<and>
    flat_segment (cpu_gdt t 0 5) \<and> data_segment (cpu_gdt t 0 5) \<and> seg_dpl (cpu_gdt t 0 5) = 3"
proof -
  have "cpunum demo_boot = Ret 0 demo_boot" by (simp add: cpunum_def demo_boot_def)
  from user_enters_by_system_call_only [OF this, of "\<lambda>_. 0x80110000" "\<lambda>i. 0x80100000 + 8 * of_nat i"]
  obtain t where t: "thenk (seginit (\<lambda>_. 0x80110000)) (tvinit (\<lambda>i. 0x80100000 + 8 * of_nat i)) demo_boot = Ret () t"
      "mycpu t = 0" and g: "\<forall>i < 256. let g = idt t i; d = cpu_gdt t (mycpu t) (unat (drop_bit 3 (gate_cs g))) in
        gate_offset g = 0x80100000 + 8 * of_nat i \<and> gate_p g = 1 \<and> (3 \<le> gate_dpl g \<longleftrightarrow> i = 64) \<and>
        gate_type g = (if i = 64 then 0xF else 0xE) \<and> code_segment d \<and> flat_segment d \<and> seg_dpl d = 0"
      and d: "\<forall>k \<in> {1, 2, 4, 5}. let d = cpu_gdt t (mycpu t) k in flat_segment d \<and>
        seg_dpl d = (if k \<ge> 4 then 3 else 0) \<and> (if k \<in> {1, 4} then code_segment d else data_segment d)"
    by auto
  show ?thesis
    using t g [rule_format, of 14] g [rule_format, of 64] d [rule_format, of 5] by (simp add: Let_def not_le)
qed

lemma mem_bytes_store:
  assumes "length bs \<le> 2 ^ 32"
  shows "mem_bytes (store_bytes a bs m) a (length bs) = bs"
  using assms by (intro nth_equalityI) (auto simp: mem_bytes_def store_bytes_def unat_of_nat)

lemma mem_bytes_store_other:
  assumes "\<And>i. i < n \<Longrightarrow> length bs \<le> unat (p + of_nat i - a)"
  shows "mem_bytes (store_bytes a bs m) p n = mem_bytes m p n"
  using assms by (auto simp: mem_bytes_def store_bytes_def not_less [symmetric])

lemma mem_bytes_take: "k \<le> n \<Longrightarrow> mem_bytes m a k = take k (mem_bytes m a n)"
  by (simp add: mem_bytes_def take_map)

lemma sum_eq: "sum m a n = sum_list (mem_bytes m a n)"
proof -
  have "foldl (+) x bs = x + sum_list bs" for x :: byte and bs
    by (induction bs arbitrary: x) (simp_all add: add.assoc)
  then show ?thesis by (simp add: sum_def)
qed

lemma demo_search: "mpsearch (demo_mem i ck) = Some 0x8009FC00"
proof -
  let ?m = "demo_mem i ck"
  have len: "length (demo_table i ck) = 92" "length demo_pointer = 16" by (simp_all add: demo_table_def demo_pointer_def)
  have "length (demo_table i ck) \<le> unat (0x8009FC00 + of_nat k - 0x8009FD00 :: uint)" if "k < 16" for k
    using that by (simp add: len unat_sub_if' unat_word_ariths(1) unat_of_nat)
  then have "mem_bytes ?m 0x8009FC00 16 = demo_pointer"
    using mem_bytes_store [of demo_pointer] len by (simp add: demo_mem_def mem_bytes_store_other)
  then have "mem_bytes ?m 0x8009FC00 4 = str ''_MP_''" "sum ?m 0x8009FC00 16 = 0"
    using mem_bytes_take [where k = 4 and n = 16 and m = ?m and a = "0x8009FC00"] by (simp_all add: sum_eq demo_pointer_def)
  then have "mpsearch1 ?m 0x9FC00 1024 = Some 0x8009FC00"
    unfolding mpsearch1_def by (simp add: upt_conv_Cons p2v_def)
  moreover have "?m 0x8000040F = 0x9F" "?m 0x8000040E = 0xC0"
    by (simp_all add: demo_mem_def store_bytes_def len)
  ultimately show ?thesis by (simp add: mpsearch_def Let_def p2v_def)
qed

lemma demo_conf:
  "mem_bytes (demo_mem i ck) 0x8009FD00 92 = demo_table i ck" "sum (demo_mem i ck) 0x8009FD00 92 = 118 + i + ck"
proof -
  have "length (demo_table i ck) = 92" by (simp add: demo_table_def)
  then show *: "mem_bytes (demo_mem i ck) 0x8009FD00 92 = demo_table i ck"
    using mem_bytes_store [of "demo_table i ck"] by (simp add: demo_mem_def)
  show "sum (demo_mem i ck) 0x8009FD00 92 = 118 + i + ck"
    unfolding sum_eq * by (simp add: demo_table_def sum_list_replicate)
qed

lemma demo_mpconfig:
  assumes "118 + i + ck = 0"
  shows "mpconfig (demo_mem i ck) = Some (0x8009FC00, 0x8009FD00)" "load16 0x8009FD04 (demo_mem i ck) = 92"
    "mp_table (demo_mem i ck) 0x8009FD2C [MpProc 0 1, MpProc i 3, MpIoapic 5]" "load32 0x8009FD24 (demo_mem i ck) = 0xFEE00000"
    "demo_mem i ck 0x8009FC0C = 0x80"
proof -
  let ?m = "demo_mem i ck"
  have "mem_bytes ?m 0x8009FD00 4 = str ''PCMP''"
    using mem_bytes_take [where k = 4 and n = 92 and m = ?m and a = "0x8009FD00"] by (simp add: demo_conf demo_table_def demo_pointer_def)
  moreover have "load32 0x8009FC04 ?m = 0x9FD00"
    by (simp add: demo_mem_def store_bytes_def demo_table_def demo_pointer_def load32_def dec32_def)
  moreover show l: "load16 0x8009FD04 ?m = 92"
    by (simp add: demo_mem_def store_bytes_def demo_table_def demo_pointer_def load16_def dec16_def)
  moreover have "?m 0x8009FD06 = 1"
    by (simp add: demo_mem_def store_bytes_def demo_table_def demo_pointer_def)
  ultimately show "mpconfig ?m = Some (0x8009FC00, 0x8009FD00)"
    using assms by (simp add: mpconfig_def demo_search p2v_def Let_def demo_conf)
  show "mp_table ?m 0x8009FD2C [MpProc 0 1, MpProc i 3, MpIoapic 5]"
    by (simp add: demo_mem_def store_bytes_def demo_table_def demo_pointer_def nth_append)
  show "load32 0x8009FD24 ?m = 0xFEE00000" "?m 0x8009FC0C = 0x80"
    by (simp_all add: demo_mem_def store_bytes_def demo_table_def demo_pointer_def nth_append load32_def dec32_def)
qed

theorem mpinit_counts_processors_witness:
  "(\<exists>t. mpinit 4 demo_boot = Ret () t \<and> ismp t \<and> ncpu t = 2 \<and> cpu_id t 1 = 1 \<and> mpbcpu t = 1 \<and> ioapicid t = 5 \<and>
     lapic t = 0xFEE00000 \<and> trace t = [Out 0x22 0x70, In 0x23 0, Out 0x23 1]) \<and>
   (\<exists>t. mpinit 4 (demo_boot\<lparr>mem := demo_mem 7 131\<rparr>) = Ret () t \<and> \<not> ismp t \<and> ncpu t = 1 \<and> lapic t = 0 \<and> ioapicid t = 0)"
proof
  have boot: "mem demo_boot = demo_mem 1 137" "ncpu demo_boot = 0" "ioapicid demo_boot = 0" "trace demo_boot = []"
      "dev_in demo_boot = (\<lambda>_ _. 0)" "panicked demo_boot = False" "held demo_boot = {}"
    by (simp_all add: demo_boot_def)
  have "\<exists>t. mpinit 4 demo_boot = Ret () t \<and> ismp t \<and> ncpu t = 2 \<and> (\<forall>c < 2. cpu_id t c = of_nat c) \<and> mpbcpu t = 1 \<and> ioapicid t = 5 \<and>
     lapic t = 0xFEE00000 \<and> trace t = [Out 0x22 0x70, In 0x23 0, Out 0x23 1]"
    using mpinit_counts_processors [of demo_boot "0x8009FC00" "0x8009FD00" "[MpProc 0 1, MpProc 1 3, MpIoapic 5]" 4]
      demo_mpconfig [of 1 137] by (auto simp: boot)
  then show "\<exists>t. mpinit 4 demo_boot = Ret () t \<and> ismp t \<and> ncpu t = 2 \<and> cpu_id t 1 = 1 \<and> mpbcpu t = 1 \<and> ioapicid t = 5 \<and>
     lapic t = 0xFEE00000 \<and> trace t = [Out 0x22 0x70, In 0x23 0, Out 0x23 1]" by fastforce
  let ?s = "demo_boot\<lparr>mem := demo_mem 7 131\<rparr>"
  have "screen_ready ?s" by (simp add: screen_ready_def can_print_def cursor_on_screen_def boot)
  moreover have "off_screen 0x8009FD2C 48"
    by (auto simp: off_screen_def on_screen_def unat_sub_if' unat_word_ariths(1) unat_of_nat)
  ultimately show "\<exists>t. mpinit 4 ?s = Ret () t \<and> \<not> ismp t \<and> ncpu t = 1 \<and> lapic t = 0 \<and> ioapicid t = 0"
    using mpinit_counts_processors [of ?s "0x8009FC00" "0x8009FD00" "[MpProc 0 1, MpProc 7 3, MpIoapic 5]" 4]
      demo_mpconfig [of 7 131] by (simp add: boot)
qed

end
