(* ===== verification/Xv6_Usys.thy ===== *)
theory Xv6_Usys
  imports Xv6_Bytes
begin

text \<open>
  The world of a user program: it computes, and it makes system calls. What a call
  answers is the kernel's business and that of the other processes; here it is a
  function \<open>kern\<close> of the calls made so far, part of the state and otherwise unknown, and
  the calls are recorded. Statements about user programs hold for every \<open>kern\<close>, or for
  those that answer as the system calls are documented to. A program that calls \<open>exit\<close>
  stops (\<open>Block\<close>), and so does one whose \<open>exec\<close> succeeds.
\<close>

section \<open>System calls\<close>

datatype ucall =
    CFork | CExit | CWait | CPipe
  | CRead int nat
  | CWrite int "byte list"
  | CClose int | CKill int
  | CExec "byte list" "byte list list"
  | COpen "byte list" int
  | CMknod "byte list" int int
  | CUnlink "byte list" | CFstat int
  | CLink "byte list" "byte list"
  | CMkdir "byte list" | CChdir "byte list" | CDup int | CGetpid | CSbrk int | CSleep int | CUptime

text \<open>The answer: the value in \<open>%eax\<close> and, for the calls that fill a buffer of the program
  (\<open>read\<close>, \<open>fstat\<close>, \<open>pipe\<close>), the bytes or numbers stored there.\<close>

record uanswer =
  u_ret :: int
  u_bytes :: "byte list"
  u_nums :: "int list"

record user_state =
  kern :: "ucall list \<Rightarrow> uanswer"
  calls :: "ucall list"

definition usys :: "ucall \<Rightarrow> (uanswer, 'z user_state_scheme) kernel" where
  "usys c = (\<lambda>s. let h = calls s @ [c] in Ret (kern s h) (s\<lparr>calls := h\<rparr>))"

definition ucalli :: "ucall \<Rightarrow> (int, 'z user_state_scheme) kernel" where
  "ucalli c = bindk (usys c) (\<lambda>r. ret (u_ret r))"

definition uexit :: "('a, 'z user_state_scheme) kernel" where
  "uexit = (\<lambda>s. Block (s\<lparr>calls := calls s @ [CExit]\<rparr>))"

text \<open>\<open>exec\<close> returns only if it fails.\<close>

definition uexec :: "byte list \<Rightarrow> byte list list \<Rightarrow> (int, 'z user_state_scheme) kernel" where
  "uexec path argv = bindk (usys (CExec path argv)) (\<lambda>r s. if u_ret r = 0 then Block s else Ret (u_ret r) s)"

lemma usys_run [simp]: "usys c s = Ret (kern s (calls s @ [c])) (s\<lparr>calls := calls s @ [c]\<rparr>)"
  by (simp add: usys_def Let_def)

lemma ucalli_run [simp]: "ucalli c s = Ret (u_ret (kern s (calls s @ [c]))) (s\<lparr>calls := calls s @ [c]\<rparr>)"
  by (simp add: ucalli_def bindk_def)

text \<open>What the programs write to a file descriptor, in order.\<close>

fun written :: "int \<Rightarrow> ucall list \<Rightarrow> byte list" where
  "written fd [] = []"
| "written fd (CWrite d bs # cs) = (if d = fd then bs else []) @ written fd cs"
| "written fd (c # cs) = written fd cs"

lemma written_append [simp]: "written fd (xs @ ys) = written fd xs @ written fd ys"
  by (induction fd xs rule: written.induct) auto

text \<open>
  The calls of \<open>read\<close> on \<open>fd\<close> deliver \<open>data\<close>, in pieces of any size, and then report the end
  of the file; \<open>pos\<close> is the number of bytes delivered so far.
\<close>

definition serves :: "(ucall list \<Rightarrow> uanswer) \<Rightarrow> int \<Rightarrow> byte list \<Rightarrow> (ucall list \<Rightarrow> nat) \<Rightarrow> bool" where
  "serves k fd data pos \<longleftrightarrow> pos [] = 0 \<and>
    (\<forall>h c. (\<forall>n. c \<noteq> CRead fd n) \<longrightarrow> pos (h @ [c]) = pos h) \<and>
    (\<forall>h n. let a = k (h @ [CRead fd n]); j = nat (u_ret a) in
      0 \<le> u_ret a \<and> j \<le> n \<and> pos h + j \<le> length data \<and> pos (h @ [CRead fd n]) = pos h + j \<and>
      u_bytes a = take j (drop (pos h) data) \<and> (0 < n \<and> pos h < length data \<longrightarrow> 0 < j))"

lemma serves_other: "serves k fd data pos \<Longrightarrow> (\<And>n. c \<noteq> CRead fd n) \<Longrightarrow> pos (h @ [c]) = pos h"
  by (simp add: serves_def)

lemma serves_read:
  assumes "serves k fd data pos" and "0 < n"
  obtains (eof) "u_ret (k (h @ [CRead fd n])) = 0" and "drop (pos h) data = []" and "pos (h @ [CRead fd n]) = pos h"
  | (more) j where "0 < j" and "u_ret (k (h @ [CRead fd n])) = int j" and "u_bytes (k (h @ [CRead fd n])) = take j (drop (pos h) data)"
      and "pos (h @ [CRead fd n]) = pos h + j" and "pos h + j \<le> length data"
proof -
  let ?a = "k (h @ [CRead fd n])"
  have a: "0 \<le> u_ret ?a \<and> pos h + nat (u_ret ?a) \<le> length data \<and> pos (h @ [CRead fd n]) = pos h + nat (u_ret ?a) \<and>
      u_bytes ?a = take (nat (u_ret ?a)) (drop (pos h) data) \<and> (pos h < length data \<longrightarrow> 0 < nat (u_ret ?a))"
    using assms unfolding serves_def Let_def by blast
  show thesis
  proof (cases "u_ret ?a = 0")
    case True
    then have "\<not> pos h < length data" using a by simp
    then show thesis using True a by (intro eof) simp_all
  next
    case False
    then show thesis using a by (intro more [of "nat (u_ret ?a)"]) simp_all
  qed
qed

text \<open>A kernel with one file: reads deliver as much as is asked for, opening it gives the
  descriptor \<open>fd\<close>, creating a file gives \<open>fd + 1\<close>, and everything else succeeds.\<close>

primrec read_pos :: "int \<Rightarrow> nat \<Rightarrow> ucall list \<Rightarrow> nat" where
  "read_pos fd len [] = 0"
| "read_pos fd len (c # h) = (case c of CRead d n \<Rightarrow> if d = fd then min len (read_pos fd len h + n) else read_pos fd len h
    | _ \<Rightarrow> read_pos fd len h)"

definition file_kern :: "int \<Rightarrow> byte list \<Rightarrow> ucall list \<Rightarrow> uanswer" where
  "file_kern fd data h = (case last h of
      CRead d n \<Rightarrow>
        (let p = read_pos fd (length data) (rev (butlast h)); j = (if d = fd then min n (length data - p) else 0) in
         \<lparr>u_ret = int j, u_bytes = take j (drop p data), u_nums = []\<rparr>)
    | COpen path m \<Rightarrow> \<lparr>u_ret = (if m = 0x202 then fd + 1 else fd), u_bytes = [], u_nums = []\<rparr>
    | _ \<Rightarrow> \<lparr>u_ret = 0, u_bytes = [], u_nums = []\<rparr>)"

lemma read_pos_le: "read_pos fd len h \<le> len"
  by (induction h) (auto split: ucall.split)

lemma file_kern_serves: "serves (file_kern fd data) fd data (\<lambda>h. read_pos fd (length data) (rev h))"
  unfolding serves_def Let_def
proof (intro conjI allI impI)
  show "read_pos fd (length data) (rev (h @ [c])) = read_pos fd (length data) (rev h)" if "\<forall>n. c \<noteq> CRead fd n" for h c
    using that by (auto split: ucall.split)
  fix h n
  have "read_pos fd (length data) (rev h) \<le> length data" by (rule read_pos_le)
  then show "read_pos fd (length data) (rev h) + nat (u_ret (file_kern fd data (h @ [CRead fd n]))) \<le> length data"
    and "read_pos fd (length data) (rev (h @ [CRead fd n])) =
      read_pos fd (length data) (rev h) + nat (u_ret (file_kern fd data (h @ [CRead fd n])))"
    by (auto simp: file_kern_def Let_def min_def)
qed (auto simp: file_kern_def Let_def)

section \<open>ulib.c: strings\<close>

text \<open>A \<open>char\<close> array is a list of bytes; a C string is an array with a NUL in it. Scanning past
  the end of the array is undefined behaviour: \<open>None\<close>.\<close>

fun strchr :: "byte list \<Rightarrow> byte \<Rightarrow> nat option option" where
  "strchr [] c = None"
| "strchr (b # bs) c = (if b = 0 then Some None else if b = c then Some (Some 0)
    else map_option (map_option Suc) (strchr bs c))"

lemma strchr_bound: "strchr bs c = Some (Some i) \<Longrightarrow> i < length bs \<and> bs ! i = c"
  by (induction bs arbitrary: i) (auto split: if_splits)

end
