(* ===== verification/Xv6_Ulib.thy ===== *)
theory Xv6_Ulib
  imports Xv6_Usys Xv6_CString Xv6_Digits
begin

text \<open>
  The C library of the user programs: ulib.c and printf.c.
\<close>

abbreviation bstr :: "string \<Rightarrow> byte list" where
  "bstr cs \<equiv> map of_char cs"

section \<open>ulib.c\<close>

text \<open>Arrays as in \<open>strchr\<close>: \<open>None\<close> when a function would leave an array.\<close>

fun ustrcpy :: "byte list \<Rightarrow> byte list \<Rightarrow> byte list option" where
  "ustrcpy (x # s) (c # t) = (if c = 0 then Some (0 # s) else map_option ((#) c) (ustrcpy s t))"
| "ustrcpy _ _ = None"

fun ustrcmp :: "byte list \<Rightarrow> byte list \<Rightarrow> int option" where
  "ustrcmp (a # p) (b # q) = (if a \<noteq> 0 \<and> a = b then ustrcmp p q else Some (uint a - uint b))"
| "ustrcmp _ _ = None"

fun ustrlen :: "byte list \<Rightarrow> nat option" where
  "ustrlen [] = None"
| "ustrlen (b # bs) = (if b = 0 then Some 0 else map_option Suc (ustrlen bs))"

definition umemset :: "uint \<Rightarrow> byte \<Rightarrow> nat \<Rightarrow> memory \<Rightarrow> memory" where
  "umemset dst c n m = stosb dst c n m"

text \<open>\<open>memmove\<close> of ulib.c always copies upwards.\<close>

definition umemmove :: "uint \<Rightarrow> uint \<Rightarrow> int \<Rightarrow> memory \<Rightarrow> memory" where
  "umemmove vdst vsrc n m = copy_up vdst vsrc (nat n) m"

text \<open>\<open>atoi\<close>, with the overflow of \<open>int\<close> wrapping around.\<close>

fun atoi_loop :: "byte list \<Rightarrow> uint \<Rightarrow> uint" where
  "atoi_loop [] n = n"
| "atoi_loop (c # s) n = (if 48 \<le> c \<and> c \<le> 57 then atoi_loop s (n * 10 + ucast c - 48) else n)"

definition atoi :: "byte list \<Rightarrow> int" where
  "atoi s = sint (atoi_loop s 0)"

text \<open>\<open>gets\<close>: at most \<open>n - 1\<close> bytes, up to a newline; the result is what \<open>buf\<close> holds before the NUL.\<close>

primrec gets_loop :: "nat \<Rightarrow> (byte list, 'z user_state_scheme) kernel" where
  "gets_loop 0 = ret []"
| "gets_loop (Suc n) = bindk (usys (CRead 0 1)) (\<lambda>r.
    if u_ret r < 1 then ret []
    else let c = hd (u_bytes r) in
      if c = 10 \<or> c = 13 then ret [c] else bindk (gets_loop n) (\<lambda>cs. ret (c # cs)))"

definition gets :: "int \<Rightarrow> (byte list, 'z user_state_scheme) kernel" where
  "gets n = gets_loop (nat (n - 1))"

text \<open>\<open>stat\<close>: the result and, if it is not negative, the numbers \<open>fstat\<close> stored (type,
  device, inode, links, size).\<close>

definition ustat :: "byte list \<Rightarrow> (int \<times> int list, 'z user_state_scheme) kernel" where
  "ustat n = bindk (ucalli (COpen n 0)) (\<lambda>fd.
    if fd < 0 then ret (-1, [])
    else bindk (usys (CFstat fd)) (\<lambda>r. thenk (ucalli (CClose fd)) (ret (u_ret r, u_nums r))))"

section \<open>printf.c\<close>

definition putc :: "int \<Rightarrow> byte \<Rightarrow> (unit, 'z user_state_scheme) kernel" where
  "putc fd c = thenk (ucalli (CWrite fd [c])) (ret ())"

definition udigit :: "uint \<Rightarrow> byte" where
  "udigit d = bstr ''0123456789ABCDEF'' ! unat d"

definition uprintint_chars :: "uint \<Rightarrow> uint \<Rightarrow> bool \<Rightarrow> byte list" where
  "uprintint_chars xx base sg =
    (let neg = (sg \<and> sint xx < 0); x = (if neg then - xx else xx) in
     (if neg then [45] else []) @ rev (digit_loop udigit x base))"

text \<open>The variable arguments: words and pointers to strings (\<open>None\<close> is null).\<close>

datatype uarg = UNum uint | UStr "byte list option"

text \<open>The characters \<open>printf\<close> writes, in order; \<open>None\<close> when an argument is missing or of the
  wrong kind (undefined behaviour).\<close>

fun uprintf_chars :: "bool \<Rightarrow> byte list \<Rightarrow> uarg list \<Rightarrow> byte list option" where
  "uprintf_chars st [] args = Some []"
| "uprintf_chars False (c # fmt) args =
    (if c = 37 then uprintf_chars True fmt args else map_option ((#) c) (uprintf_chars False fmt args))"
| "uprintf_chars True (c # fmt) args =
    (if c = 100 then
       (case args of UNum x # as \<Rightarrow> map_option ((@) (uprintint_chars x 10 True)) (uprintf_chars False fmt as) | _ \<Rightarrow> None)
     else if c = 120 \<or> c = 112 then
       (case args of UNum x # as \<Rightarrow> map_option ((@) (uprintint_chars x 16 False)) (uprintf_chars False fmt as) | _ \<Rightarrow> None)
     else if c = 115 then
       (case args of UStr p # as \<Rightarrow>
          map_option ((@) (case p of None \<Rightarrow> bstr ''(null)'' | Some s \<Rightarrow> s)) (uprintf_chars False fmt as) | _ \<Rightarrow> None)
     else if c = 99 then
       (case args of UNum x # as \<Rightarrow> map_option ((#) (ucast x)) (uprintf_chars False fmt as) | _ \<Rightarrow> None)
     else if c = 37 then map_option ((#) 37) (uprintf_chars False fmt args)
     else map_option ((@) [37, c]) (uprintf_chars False fmt args))"

definition uprintf :: "int \<Rightarrow> byte list \<Rightarrow> uarg list \<Rightarrow> (unit, 'z user_state_scheme) kernel" where
  "uprintf fd fmt args = (case uprintf_chars False fmt args of
      None \<Rightarrow> panic ''undefined behaviour''
    | Some cs \<Rightarrow> foreach cs (putc fd))"

section \<open>Printing and reading numbers\<close>

lemma uprintint_unsigned: "uprintint_chars x base False = rev (digit_loop udigit x base)"
  by (simp add: uprintint_chars_def)

lemma udigit_10:
  assumes "d < 10"
  shows "udigit d = 48 + ucast d"
proof -
  obtain n where n: "d = of_nat n" "n < 10"
    using assms by (intro that [of "unat d"]) (simp_all add: word_less_nat_alt)
  have "n \<in> {0, 1, 2, 3, 4, 5, 6, 7, 8, 9}" using n(2) by auto
  then show ?thesis using n(1) by (auto simp: udigit_def)
qed

definition digit_char :: "byte \<Rightarrow> bool" where
  "digit_char c \<longleftrightarrow> 48 \<le> c \<and> c \<le> 57"

lemma digit_char_udigit:
  assumes "d < 10"
  shows "digit_char (udigit d)" and "ucast (udigit d) - 48 = d"
proof -
  obtain n where n: "d = of_nat n" "n < 10"
    using assms by (intro that [of "unat d"]) (simp_all add: word_less_nat_alt)
  have "n \<in> {0, 1, 2, 3, 4, 5, 6, 7, 8, 9}" using n(2) by auto
  then show "digit_char (udigit d)" "ucast (udigit d) - 48 = d" using n(1) by (auto simp: udigit_def digit_char_def)
qed

lemma digit_loop_chars: "set (digit_loop udigit x 10) \<subseteq> Collect digit_char"
proof (induction x rule: digit_loop_induct [of 10])
  case (step x)
  have "x mod 10 < 10" by (simp add: word_less_nat_alt unat_mod)
  then show ?case using step digit_char_udigit(1) by (subst digit_loop_step) auto
qed simp

lemma atoi_loop_digits:
  "set cs \<subseteq> Collect digit_char \<Longrightarrow> (rest = [] \<or> \<not> digit_char (hd rest)) \<Longrightarrow>
    atoi_loop (cs @ rest) n = fold (\<lambda>c n. n * 10 + (ucast c - 48)) cs n"
proof (induction cs arbitrary: n)
  case Nil
  then show ?case by (cases rest) (auto simp: digit_char_def)
qed (auto simp: digit_char_def algebra_simps)

text \<open>C28. Numbers survive printing and reading: \<open>atoi\<close> of what \<open>printf("%d")\<close> writes for a
  number that is not negative gives the number back, whatever follows it that is not a
  digit. Of a negative number it gives 0, because \<open>atoi\<close> knows no sign. In either case
  \<open>printint\<close> uses at most 11 of the 16 bytes of its buffer.\<close>

theorem printf_atoi_roundtrip:
  assumes "rest = [] \<or> \<not> digit_char (hd rest)"
  shows "uprintf_chars False [37, 100] [UNum x] = Some (uprintint_chars x 10 True) \<and>
    atoi (uprintint_chars x 10 True @ rest) = (if 0 \<le> sint x then sint x else 0) \<and>
    length (uprintint_chars x 10 True) \<le> 11"
proof (intro conjI)
  show "uprintf_chars False [37, 100] [UNum x] = Some (uprintint_chars x 10 True)" by simp
  have "atoi (uprintint_chars x 10 True @ rest) = sint x" if "0 \<le> sint x"
  proof -
    have cs: "uprintint_chars x 10 True = rev (digit_loop udigit x 10)" using that by (simp add: uprintint_chars_def)
    have "atoi_loop (rev (digit_loop udigit x 10) @ rest) 0 = digits_value (\<lambda>c. ucast c - 48) 10 (rev (digit_loop udigit x 10))"
      unfolding digits_value_def by (rule atoi_loop_digits [OF _ assms]) (use digit_loop_chars in simp)
    also have "\<dots> = x" by (rule digits_value_digit_loop) (simp_all add: digit_char_udigit(2))
    finally show ?thesis by (simp add: atoi_def cs)
  qed
  then show "atoi (uprintint_chars x 10 True @ rest) = (if 0 \<le> sint x then sint x else 0)"
    by (simp add: uprintint_chars_def atoi_def)
  have "length (digit_loop udigit y 10) \<le> 10" for y
    by (rule length_digit_loop) (use unat_lt_2_32 [of y] in simp_all)
  from this [of x] this [of "- x"] show "length (uprintint_chars x 10 True) \<le> 11"
    by (simp add: uprintint_chars_def Let_def)
qed

theorem printf_atoi_roundtrip_witness:
  "atoi (uprintint_chars 1234 10 True @ bstr '' left'') = 1234"
  using printf_atoi_roundtrip [of "bstr '' left''" 1234] by (simp add: digit_char_def)

end
