(* ===== verification/Xv6_Utils.thy ===== *)
theory Xv6_Utils
  imports Xv6_Ulib
begin

text \<open>
  The small user programs: cat, wc, echo, kill, ln, mkdir, rm, ls, init, and the programs
  this repository adds to xv6: truncate, vim and less. A program gets the arguments
  \<open>argv[0], argv[1], ...\<close> as a list. Loops that read until the end of a file are bounded by
  a number of reads, and the statements say how many are enough.
\<close>

section \<open>Common idioms\<close>

definition uprint :: "int \<Rightarrow> string \<Rightarrow> uarg list \<Rightarrow> (unit, 'z user_state_scheme) kernel" where
  "uprint fd fmt args = uprintf fd (bstr fmt) args"

abbreviation sarg :: "byte list \<Rightarrow> uarg" where
  "sarg s \<equiv> UStr (Some s)"

abbreviation narg :: "int \<Rightarrow> uarg" where
  "narg n \<equiv> UNum (word_of_int n)"

definition uwritek :: "int \<Rightarrow> byte list \<Rightarrow> (unit, 'z user_state_scheme) kernel" where
  "uwritek fd bs = thenk (ucalli (CWrite fd bs)) (ret ())"

definition uclose :: "int \<Rightarrow> (unit, 'z user_state_scheme) kernel" where
  "uclose fd = thenk (ucalli (CClose fd)) (ret ())"

text \<open>\<open>strchr(cs, b) != 0\<close> and \<open>strcmp(a, b) == 0\<close>.\<close>

definition occurs :: "byte list \<Rightarrow> byte \<Rightarrow> bool" where
  "occurs cs b = (case strchr (cs @ [0]) b of Some (Some i) \<Rightarrow> True | _ \<Rightarrow> False)"

definition ustreq :: "byte list \<Rightarrow> byte list \<Rightarrow> bool" where
  "ustreq a b = (ustrcmp (a @ [0]) (b @ [0]) = Some 0)"

text \<open>The arguments from the second on, opened one after the other, as \<open>cat\<close> and \<open>wc\<close> do it.\<close>

definition for_files :: "string \<Rightarrow> byte list list \<Rightarrow> (int \<Rightarrow> byte list \<Rightarrow> (unit, 'z user_state_scheme) kernel) \<Rightarrow>
    (unit, 'z user_state_scheme) kernel" where
  "for_files msg names f = foreach names (\<lambda>name. bindk (ucalli (COpen name 0)) (\<lambda>fd.
    if fd < 0 then thenk (uprint 1 msg [sarg name]) uexit
    else thenk (f fd name) (uclose fd)))"

section \<open>cat.c\<close>

primrec cat :: "nat \<Rightarrow> int \<Rightarrow> (unit, 'z user_state_scheme) kernel" where
  "cat 0 fd = panic ''out of fuel''"
| "cat (Suc fuel) fd = bindk (usys (CRead fd 512)) (\<lambda>r.
    if 0 < u_ret r then thenk (uwritek 1 (u_bytes r)) (cat fuel fd)
    else if u_ret r < 0 then thenk (uprint 1 ''cat: read error\<newline>'' []) uexit
    else ret ())"

definition cat_main :: "nat \<Rightarrow> byte list list \<Rightarrow> (unit, 'z user_state_scheme) kernel" where
  "cat_main fuel argv =
    (if length argv \<le> 1 then thenk (cat fuel 0) uexit
     else thenk (for_files ''cat: cannot open %s\<newline>'' (tl argv) (\<lambda>fd name. cat fuel fd)) uexit)"

section \<open>wc.c\<close>

record wc_counts =
  wc_l :: uint
  wc_w :: uint
  wc_c :: uint
  inword :: bool

definition wc_char :: "byte \<Rightarrow> wc_counts \<Rightarrow> wc_counts" where
  "wc_char b x =
    (let x = x\<lparr>wc_c := wc_c x + 1\<rparr>;
         x = (if b = 10 then x\<lparr>wc_l := wc_l x + 1\<rparr> else x) in
     if occurs [32, 13, 9, 10, 11] b then x\<lparr>inword := False\<rparr>
     else if \<not> inword x then x\<lparr>wc_w := wc_w x + 1, inword := True\<rparr>
     else x)"

primrec wc_loop :: "nat \<Rightarrow> int \<Rightarrow> wc_counts \<Rightarrow> (wc_counts, 'z user_state_scheme) kernel" where
  "wc_loop 0 fd x = panic ''out of fuel''"
| "wc_loop (Suc fuel) fd x = bindk (usys (CRead fd 512)) (\<lambda>r.
    if 0 < u_ret r then wc_loop fuel fd (fold wc_char (u_bytes r) x)
    else if u_ret r < 0 then thenk (uprint 1 ''wc: read error\<newline>'' []) uexit
    else ret x)"

definition wc :: "nat \<Rightarrow> int \<Rightarrow> byte list \<Rightarrow> (unit, 'z user_state_scheme) kernel" where
  "wc fuel fd name = bindk (wc_loop fuel fd \<lparr>wc_l = 0, wc_w = 0, wc_c = 0, inword = False\<rparr>) (\<lambda>x.
    uprint 1 ''%d %d %d %s\<newline>'' [UNum (wc_l x), UNum (wc_w x), UNum (wc_c x), sarg name])"

definition wc_main :: "nat \<Rightarrow> byte list list \<Rightarrow> (unit, 'z user_state_scheme) kernel" where
  "wc_main fuel argv =
    (if length argv \<le> 1 then thenk (wc fuel 0 []) uexit
     else thenk (for_files ''wc: cannot open %s\<newline>'' (tl argv) (wc fuel)) uexit)"

section \<open>echo.c, kill.c, ln.c, mkdir.c, rm.c\<close>

primrec echo_loop :: "byte list list \<Rightarrow> (unit, 'z user_state_scheme) kernel" where
  "echo_loop [] = ret ()"
| "echo_loop (a # as) = thenk (uprint 1 ''%s%s'' [sarg a, sarg (if as \<noteq> [] then [32] else [10])]) (echo_loop as)"

definition echo_main :: "byte list list \<Rightarrow> (unit, 'z user_state_scheme) kernel" where
  "echo_main argv = thenk (echo_loop (tl argv)) uexit"

definition kill_main :: "byte list list \<Rightarrow> (unit, 'z user_state_scheme) kernel" where
  "kill_main argv =
    (if length argv < 1 then thenk (uprint 2 ''usage: kill pid...\<newline>'' []) uexit
     else thenk (foreach (tl argv) (\<lambda>a. thenk (ucalli (CKill (atoi a))) (ret ()))) uexit)"

definition ln_main :: "byte list list \<Rightarrow> (unit, 'z user_state_scheme) kernel" where
  "ln_main argv =
    (if length argv \<noteq> 3 then thenk (uprint 2 ''Usage: ln old new\<newline>'' []) uexit
     else bindk (ucalli (CLink (argv ! 1) (argv ! 2))) (\<lambda>r.
       thenk (whenk (r < 0) (uprint 2 ''link %s %s: failed\<newline>'' [sarg (argv ! 1), sarg (argv ! 2)])) uexit))"

text \<open>\<open>mkdir\<close> and \<open>rm\<close> stop at the first argument that fails.\<close>

primrec until_fail :: "(byte list \<Rightarrow> ucall) \<Rightarrow> string \<Rightarrow> byte list list \<Rightarrow> (unit, 'z user_state_scheme) kernel" where
  "until_fail c msg [] = ret ()"
| "until_fail c msg (a # as) = bindk (ucalli (c a)) (\<lambda>r.
    if r < 0 then uprint 2 msg [sarg a] else until_fail c msg as)"

definition mkdir_main :: "byte list list \<Rightarrow> (unit, 'z user_state_scheme) kernel" where
  "mkdir_main argv =
    (if length argv < 2 then thenk (uprint 2 ''Usage: mkdir files...\<newline>'' []) uexit
     else thenk (until_fail CMkdir ''mkdir: %s failed to create\<newline>'' (tl argv)) uexit)"

definition rm_main :: "byte list list \<Rightarrow> (unit, 'z user_state_scheme) kernel" where
  "rm_main argv =
    (if length argv < 2 then thenk (uprint 2 ''Usage: rm files...\<newline>'' []) uexit
     else thenk (until_fail CUnlink ''rm: %s failed to delete\<newline>'' (tl argv)) uexit)"

section \<open>ls.c\<close>

abbreviation (input) DIRSIZ_u :: nat where "DIRSIZ_u \<equiv> 14"

text \<open>\<open>fmtname\<close>: the part after the last slash, padded with blanks.\<close>

definition fmtname :: "byte list \<Rightarrow> byte list" where
  "fmtname path = (let p = rev (takeWhile (\<lambda>c. c \<noteq> chr CHR ''/'') (rev path)) in
    if length p \<ge> DIRSIZ_u then p else p @ replicate (DIRSIZ_u - length p) 32)"

text \<open>The numbers of \<open>struct stat\<close> in the order of its fields: type, dev, ino, nlink, size.\<close>

definition ls_line :: "byte list \<Rightarrow> int list \<Rightarrow> (unit, 'z user_state_scheme) kernel" where
  "ls_line path st = uprint 1 ''%s %d %d %d\<newline>'' [sarg (fmtname path), narg (st ! 0), narg (st ! 2), narg (st ! 4)]"

text \<open>The entries of a directory: 16 bytes each, two for the inode number and 14 for the name.\<close>

primrec ls_entries :: "nat \<Rightarrow> int \<Rightarrow> byte list \<Rightarrow> (unit, 'z user_state_scheme) kernel" where
  "ls_entries 0 fd path = panic ''out of fuel''"
| "ls_entries (Suc fuel) fd path = bindk (usys (CRead fd 16)) (\<lambda>r.
    if u_ret r \<noteq> 16 then ret ()
    else if take 2 (u_bytes r) = [0, 0] then ls_entries fuel fd path
    else let name = path @ [chr CHR ''/''] @ takeWhile (\<lambda>c. c \<noteq> 0) (drop 2 (u_bytes r)) in
      bindk (ustat name) (\<lambda>(e, st).
        thenk (if e < 0 then uprint 1 ''ls: cannot stat %s\<newline>'' [sarg name] else ls_line name st)
          (ls_entries fuel fd path)))"

definition ls :: "nat \<Rightarrow> byte list \<Rightarrow> (unit, 'z user_state_scheme) kernel" where
  "ls fuel path = bindk (ucalli (COpen path 0)) (\<lambda>fd.
    if fd < 0 then uprint 2 ''ls: cannot open %s\<newline>'' [sarg path]
    else bindk (usys (CFstat fd)) (\<lambda>r.
      if u_ret r < 0 then thenk (uprint 2 ''ls: cannot stat %s\<newline>'' [sarg path]) (uclose fd)
      else thenk
        (if u_nums r ! 0 = 2 then ls_line path (u_nums r)
         else if u_nums r ! 0 = 1 then
           (if length path + 1 + DIRSIZ_u + 1 > 512 then uprint 1 ''ls: path too long\<newline>'' []
            else ls_entries fuel fd path)
         else ret ())
        (uclose fd)))"

definition ls_main :: "nat \<Rightarrow> byte list list \<Rightarrow> (unit, 'z user_state_scheme) kernel" where
  "ls_main fuel argv = (if length argv < 2 then thenk (ls fuel (bstr ''.'')) uexit
     else thenk (foreach (tl argv) (ls fuel)) uexit)"

section \<open>truncate.c\<close>

text \<open>The copying loop: it reads first and then looks whether something is left to copy.\<close>

primrec truncate_copy :: "nat \<Rightarrow> int \<Rightarrow> int \<Rightarrow> int \<Rightarrow> (int, 'z user_state_scheme) kernel" where
  "truncate_copy 0 fd0 fd1 nowsize = panic ''out of fuel''"
| "truncate_copy (Suc fuel) fd0 fd1 nowsize = bindk (usys (CRead fd0 512)) (\<lambda>r.
    if 0 < u_ret r \<and> 0 < nowsize then
      let n = (if u_ret r > nowsize then nowsize else u_ret r) in
      thenk (uwritek fd1 (take (nat n) (u_bytes r))) (truncate_copy fuel fd0 fd1 (nowsize - n))
    else ret nowsize)"

definition truncate_file :: "nat \<Rightarrow> byte list \<Rightarrow> int \<Rightarrow> (unit, 'z user_state_scheme) kernel" where
  "truncate_file fuel name n = bindk (ucalli (COpen name 0)) (\<lambda>fd0.
    if fd0 < 0 then thenk (uprint 1 ''cannot open file %s\<newline>'' [sarg name]) uexit
    else bindk (ucalli (CUnlink name)) (\<lambda>u.
    if u < 0 then thenk (uprint 1 ''error unlinking %s\<newline>'' [sarg name]) uexit
    else bindk (ucalli (COpen name 0x202)) (\<lambda>fd1.
    if fd1 < 0 then thenk (uprint 1 ''cannot open file %s\<newline>'' [sarg name]) uexit
    else bindk (truncate_copy fuel fd0 fd1 n) (\<lambda>left.
      thenk (foreach [0..<nat left] (\<lambda>_. uwritek fd1 [0]))
      (thenk (uclose fd0) (uclose fd1))))))"

text \<open>\<open>-s\<close>: a number with an optional sign and an optional unit. The arithmetic is on 32-bit
  integers and wraps around.\<close>

definition truncate_size :: "byte list \<Rightarrow> uint \<Rightarrow> int" where
  "truncate_size arg old =
    (let add = occurs arg (chr CHR ''+''); sub = occurs arg (chr CHR ''-'');
         charsize = (if add \<or> sub then tl arg else arg);
         unit = (if occurs charsize (chr CHR ''K'') then (chr CHR ''K'', 1024)
           else if occurs charsize (chr CHR ''M'') then (chr CHR ''M'', 1024 * 1024)
           else if occurs charsize (chr CHR ''G'') then (chr CHR ''G'', 1024 * 1024 * 1024) else (0, 1));
         amount = word_of_int (atoi (takeWhile (\<lambda>c. c \<noteq> fst unit) charsize)) * snd unit in
     if add then sint (old + amount)
     else if sub then max 0 (sint (old - amount))
     else sint amount)"

definition truncate_main :: "nat \<Rightarrow> byte list list \<Rightarrow> (unit, 'z user_state_scheme) kernel" where
  "truncate_main fuel argv =
    (if length argv \<le> 1 then thenk (uprint 1 ''Need more argument\<newline>'' []) uexit
     else if ustreq (bstr ''-s'') (argv ! 1) then
       (if length argv \<le> 3 then thenk (uprint 1 ''Need more than 3 argument, check --help\<newline>'' []) uexit
        else bindk (ustat (argv ! 3)) (\<lambda>(e, st).
          if e < 0 then thenk (uprint 1 ''cannot open path %s'' [sarg (argv ! 3)]) uexit
          else thenk (truncate_file fuel (argv ! 3) (truncate_size (argv ! 2) (word_of_int (st ! 4)))) uexit))
     else if ustreq (bstr ''--version'') (argv ! 1) then
       thenk (uprint 1 ''\<newline>'' []) (thenk (uprint 1 ''Truncate Version Wibu 1.0\<newline>'' []) (thenk (uprint 1 ''\<newline>'' []) uexit))
     else if ustreq (bstr ''--help'') (argv ! 1) then
       thenk (foreach [''\<newline>'', ''Pakai -s untuk menentukan size\<newline>'', ''bisa menggunakan tanda + atau -\<newline>'',
           ''bisa menggunakan tanda K,M dan G untuk multiplier size\<newline>'', ''\<newline>'',
           ''Gunakan --version untuk melihat version\<newline>'', ''\<newline>''] (\<lambda>m. uprint 1 m []))
         uexit
     else thenk (uprint 1 ''Unkown command, gunakan --help untuk melihat command\<newline>'' []) uexit)"

section \<open>vim.c\<close>

text \<open>The length of the file, by reading all of it.\<close>

primrec vim_length :: "nat \<Rightarrow> int \<Rightarrow> int \<Rightarrow> (int, 'z user_state_scheme) kernel" where
  "vim_length 0 fd len = panic ''out of fuel''"
| "vim_length (Suc fuel) fd len = bindk (usys (CRead fd 512)) (\<lambda>r.
    if 0 < u_ret r then vim_length fuel fd (len + u_ret r) else ret len)"

definition overwrite :: "nat \<Rightarrow> byte list \<Rightarrow> byte list \<Rightarrow> (unit, 'z user_state_scheme) kernel" where
  "overwrite fuel name message = bindk (ucalli (COpen name 2)) (\<lambda>fd0.
    if fd0 < 0 then thenk (uprint 1 ''cannot open file %s\<newline>'' [sarg name]) uexit
    else bindk (vim_length fuel fd0 0) (\<lambda>len.
    bindk (ucalli (COpen name 0x202)) (\<lambda>fd1.
    if fd1 < 0 then thenk (uprint 1 ''cannot open file %s\<newline>'' [sarg name]) uexit
    else thenk (uwritek fd1 message)
      (thenk (foreach [0..<nat (len - int (length message))] (\<lambda>_. uwritek fd1 [0]))
      (thenk (uclose fd0) (uclose fd1))))))"

definition vim_main :: "nat \<Rightarrow> byte list list \<Rightarrow> (unit, 'z user_state_scheme) kernel" where
  "vim_main fuel argv =
    (if length argv \<le> 1 then thenk (uprint 1 ''Need more argument\<newline>'' []) uexit
     else if ustreq (bstr ''--version'') (argv ! 1) then
       thenk (uprint 1 ''\<newline>'' []) (thenk (uprint 1 ''Vim Version Wibu 1.0\<newline>'' []) (thenk (uprint 1 ''\<newline>'' []) uexit))
     else if ustreq (bstr ''--help'') (argv ! 1) then
       thenk (foreach [''\<newline>'', ''Pakai vim [filename] [message] untuk menulis message ke dalam file\<newline>'', ''\<newline>'',
           ''Pakai vim --version untuk melihat versi\<newline>''] (\<lambda>m. uprint 1 m []))
         uexit
     else if length argv \<le> 2 then thenk (uprint 1 ''Need more than 1 argument, check --help\<newline>'' []) uexit
     else thenk (overwrite fuel (argv ! 1) (argv ! 2)) uexit)"

section \<open>less.c\<close>

text \<open>The text read is the format string of \<open>printf\<close>. The buffer has 80 bytes and is zeroed
  before each read, so it is a C string when less than 80 bytes were read.\<close>

definition less_show :: "uanswer \<Rightarrow> (unit, 'z user_state_scheme) kernel" where
  "less_show r =
    (let bs = (if 0 < u_ret r then u_bytes r else []) in
     if length bs = 80 \<and> 0 \<notin> set bs then panic ''undefined behaviour''
     else uprintf 1 (takeWhile (\<lambda>c. c \<noteq> 0) bs) [UNum 80])"

primrec less_rows :: "nat \<Rightarrow> int \<Rightarrow> (int, 'z user_state_scheme) kernel" where
  "less_rows 0 fd = ret 0"
| "less_rows (Suc k) fd = bindk (usys (CRead fd 80)) (\<lambda>r. thenk (less_show r)
    (if u_ret r \<le> 0 then thenk (uprint 1 ''End of file\<newline>'' []) uexit
     else if k = 0 then ret (u_ret r) else less_rows k fd))"

definition less_file :: "byte list \<Rightarrow> (unit, 'z user_state_scheme) kernel" where
  "less_file name = bindk (ucalli (COpen name 0)) (\<lambda>fd.
    if fd < 0 then thenk (uprint 1 ''cannot open file %s\<newline>'' [sarg name]) uexit
    else bindk (less_rows 23 fd) (\<lambda>n.
      bindk (usys (CRead 1 20)) (\<lambda>i.
      let input = (if 0 < u_ret i then takeWhile (\<lambda>c. c \<noteq> 0) (u_bytes i) else []) in
      thenk
        (if input = [10] then bindk (usys (CRead fd 80)) (\<lambda>r. thenk (less_show r)
           (if n \<le> 0 then thenk (uprint 1 ''End of file\<newline>'' []) uexit else ret ()))
         else if input = bstr ''q'' then thenk (uprint 1 ''Quit\<newline>'' []) uexit
         else ret ())
        (uclose fd))))"

definition less_main :: "byte list list \<Rightarrow> (unit, 'z user_state_scheme) kernel" where
  "less_main argv =
    (if length argv \<le> 1 then thenk (uprint 1 ''Need more argument\<newline>'' []) uexit
     else if ustreq (bstr ''--version'') (argv ! 1) then
       thenk (uprint 1 ''\<newline>'' []) (thenk (uprint 1 ''Less Version Wibu 1.0\<newline>'' []) (thenk (uprint 1 ''\<newline>'' []) uexit))
     else if ustreq (bstr ''--help'') (argv ! 1) then
       thenk (foreach [''\<newline>'', ''Pakai less [filename] untuk membaca file\<newline>'', ''\<newline>'',
           ''Pakai less --version untuk melihat versi\<newline>''] (\<lambda>m. uprint 1 m []))
         uexit
     else thenk (less_file (argv ! 1)) uexit)"

section \<open>init.c, zombie.c\<close>

text \<open>\<open>while((wpid=wait()) >= 0 && wpid != pid)\<close>\<close>

primrec init_wait :: "nat \<Rightarrow> int \<Rightarrow> (unit, 'z user_state_scheme) kernel" where
  "init_wait 0 pid = panic ''out of fuel''"
| "init_wait (Suc fuel) pid = bindk (ucalli CWait) (\<lambda>wpid.
    if 0 \<le> wpid \<and> wpid \<noteq> pid then thenk (uprint 1 ''zombie!\<newline>'' []) (init_wait fuel pid) else ret ())"

text \<open>\<open>rounds\<close> turns of the endless loop that starts shells.\<close>

primrec init_loop :: "nat \<Rightarrow> nat \<Rightarrow> (unit, 'z user_state_scheme) kernel" where
  "init_loop 0 fuel = ret ()"
| "init_loop (Suc rounds) fuel = thenk (uprint 1 ''init: starting sh\<newline>'' []) (bindk (ucalli CFork) (\<lambda>pid.
    if pid < 0 then thenk (uprint 1 ''init: fork failed\<newline>'' []) uexit
    else if pid = 0 then
      bindk (uexec (bstr ''sh'') [bstr ''sh'']) (\<lambda>_. thenk (uprint 1 ''init: exec sh failed\<newline>'' []) uexit)
    else thenk (init_wait fuel pid) (init_loop rounds fuel)))"

definition init_main :: "nat \<Rightarrow> nat \<Rightarrow> (unit, 'z user_state_scheme) kernel" where
  "init_main rounds fuel = bindk (ucalli (COpen (bstr ''console'') 2)) (\<lambda>fd.
    thenk (whenk (fd < 0) (thenk (ucalli (CMknod (bstr ''console'') 1 1))
      (thenk (ucalli (COpen (bstr ''console'') 2)) (ret ()))))
    (thenk (ucalli (CDup 0)) (thenk (ucalli (CDup 0)) (init_loop rounds fuel))))"

definition zombie_main :: "(unit, 'z user_state_scheme) kernel" where
  "zombie_main = bindk (ucalli CFork) (\<lambda>r.
    thenk (whenk (0 < r) (thenk (ucalli (CSleep 5)) (ret ()))) uexit)"

section \<open>What the programs do\<close>

lemma uwritek_run [simp]: "uwritek fd bs s = Ret () (s\<lparr>calls := calls s @ [CWrite fd bs]\<rparr>)"
  by (simp add: uwritek_def)

lemma uclose_run [simp]: "uclose fd s = Ret () (s\<lparr>calls := calls s @ [CClose fd]\<rparr>)"
  by (simp add: uclose_def)

lemma drop_take_more: "take j (drop p xs) @ drop (p + j) xs = drop p xs"
  by (metis add.commute append_take_drop_id drop_drop)

text \<open>One turn of a loop that reads, in terms of what is left of the file.\<close>

lemma cat_run:
  assumes "serves (kern s) fd data pos" and "length data - pos (calls s) < fuel"
  shows "\<exists>cs. cat fuel fd s = Ret () (s\<lparr>calls := calls s @ cs\<rparr>) \<and> written 1 cs = drop (pos (calls s)) data"
  using assms
proof (induction fuel arbitrary: s)
  case (Suc fuel)
  let ?p = "pos (calls s)" and ?h = "calls s @ [CRead fd 512]"
  show ?case
  proof (rule serves_read [OF Suc.prems(1), of 512 "calls s"], goal_cases)
    case 2
    then show ?case by (intro exI [of _ "[CRead fd 512]"]) (simp add: bindk_def)
  next
    case (3 j)
    let ?s = "s\<lparr>calls := ?h @ [CWrite 1 (take j (drop ?p data))]\<rparr>"
    have p: "pos (calls ?s) = ?p + j"
      using serves_other [OF Suc.prems(1), of "CWrite 1 (take j (drop ?p data))" ?h] 3(4) by simp
    have "length data - pos (calls ?s) < fuel" unfolding p using Suc.prems(2) 3(1,5) by linarith
    then obtain cs where cs: "cat fuel fd ?s = Ret () (?s\<lparr>calls := calls ?s @ cs\<rparr>)" "written 1 cs = drop (pos (calls ?s)) data"
      using Suc.IH [of ?s] Suc.prems(1) by auto
    have "cat (Suc fuel) fd s = cat fuel fd ?s"
      using 3(1-3) by (simp add: bindk_def thenk_def)
    then show ?case
      using cs p by (intro exI [of _ "CRead fd 512 # CWrite 1 (take j (drop ?p data)) # cs"]) (simp add: drop_take_more)
  qed simp
qed simp

text \<open>C25. \<open>cat\<close> copies its input: if the reads on \<open>fd\<close> deliver \<open>data\<close> in pieces of any size, it
  ends after at most \<open>length data + 1\<close> reads, having written exactly \<open>data\<close> to standard
  output.\<close>

theorem cat_copies:
  assumes "serves (kern s) fd data pos" and "calls s = []" and "length data < fuel"
  shows "\<exists>t. cat fuel fd s = Ret () t \<and> written 1 (calls t) = data"
proof -
  have "pos (calls s) = 0" using assms(1,2) by (simp add: serves_def)
  then show ?thesis using cat_run [OF assms(1), of fuel] assms(2,3) by fastforce
qed

definition demo_user :: "byte list \<Rightarrow> user_state" where
  "demo_user data = \<lparr>kern = file_kern 3 data, calls = []\<rparr>"

theorem cat_copies_witness:
  "\<exists>t. cat 10 3 (demo_user (bstr ''hello'')) = Ret () t \<and> written 1 (calls t) = bstr ''hello''"
  by (rule cat_copies [OF _ _, where pos = "\<lambda>h. read_pos 3 (length (bstr ''hello'')) (rev h)"])
    (use file_kern_serves [of 3 "bstr ''hello''"] in \<open>simp_all add: demo_user_def\<close>)

lemma vim_length_run:
  assumes "serves (kern s) fd data pos" and "length data - pos (calls s) < fuel"
  shows "\<exists>cs. vim_length fuel fd len s = Ret (len + int (length data - pos (calls s))) (s\<lparr>calls := calls s @ cs\<rparr>) \<and> written d cs = []"
  using assms
proof (induction fuel arbitrary: s len)
  case (Suc fuel)
  let ?p = "pos (calls s)" and ?h = "calls s @ [CRead fd 512]"
  show ?case
  proof (rule serves_read [OF Suc.prems(1), of 512 "calls s"], goal_cases)
    case 2
    then show ?case by (intro exI [of _ "[CRead fd 512]"]) (simp add: bindk_def)
  next
    case (3 j)
    let ?s = "s\<lparr>calls := ?h\<rparr>"
    have p: "pos (calls ?s) = ?p + j" using 3(4) by simp
    have "length data - pos (calls ?s) < fuel" unfolding p using Suc.prems(2) 3(1,5) by linarith
    then obtain cs where cs: "vim_length fuel fd (len + int j) ?s = Ret (len + int j + int (length data - (?p + j))) (?s\<lparr>calls := calls ?s @ cs\<rparr>)" "written d cs = []"
      using Suc.IH [of ?s "len + int j"] Suc.prems(1) p by auto
    have "vim_length (Suc fuel) fd len s = vim_length fuel fd (len + int j) ?s"
      using 3(1-3) by (simp add: bindk_def)
    then show ?case
      using cs 3(5) by (intro exI [of _ "CRead fd 512 # cs"]) (simp add: of_nat_diff)
  qed simp
qed simp

lemma foreach_write_zero:
  "foreach xs (\<lambda>_. uwritek fd [0]) s = Ret () (s\<lparr>calls := calls s @ replicate (length xs) (CWrite fd [0])\<rparr>)"
  by (induction xs arbitrary: s) simp_all

lemma written_zeros [simp]: "written fd (replicate n (CWrite fd [0])) = replicate n 0"
  by (induction n) simp_all

lemma truncate_copy_run:
  assumes "serves (kern s) fd data pos" and "length data - pos (calls s) < fuel"
  shows "\<exists>cs. truncate_copy fuel fd fd1 (int n) s = Ret (int (n - (length data - pos (calls s)))) (s\<lparr>calls := calls s @ cs\<rparr>) \<and>
    written fd1 cs = take n (drop (pos (calls s)) data)"
  using assms
proof (induction fuel arbitrary: s n)
  case (Suc fuel)
  let ?p = "pos (calls s)" and ?h = "calls s @ [CRead fd 512]"
  show ?case
  proof (rule serves_read [OF Suc.prems(1), of 512 "calls s"], goal_cases)
    case 2
    then show ?case by (intro exI [of _ "[CRead fd 512]"]) (simp add: bindk_def)
  next
    case (3 j)
    show ?case
    proof (cases "n = 0")
      case True
      then show ?thesis by (intro exI [of _ "[CRead fd 512]"]) (simp add: bindk_def)
    next
      case False
      let ?m = "min n j"
      let ?w = "CWrite fd1 (take ?m (drop ?p data))"
      let ?s = "s\<lparr>calls := ?h @ [?w]\<rparr>"
      have p: "pos (calls ?s) = ?p + j"
        using serves_other [OF Suc.prems(1), of ?w ?h] 3(4) by simp
      have "length data - pos (calls ?s) < fuel" unfolding p using Suc.prems(2) 3(1,5) by linarith
      then obtain cs where cs: "truncate_copy fuel fd fd1 (int (n - ?m)) ?s = Ret (int (n - ?m - (length data - (?p + j)))) (?s\<lparr>calls := calls ?s @ cs\<rparr>)"
          "written fd1 cs = take (n - ?m) (drop (?p + j) data)"
        using Suc.IH [of ?s "n - ?m"] Suc.prems(1) p by auto
      have sub: "int n - (if int n < int j then int n else int j) = int (n - ?m)"
        by (simp add: min_def of_nat_diff)
      have run: "truncate_copy (Suc fuel) fd fd1 (int n) s = truncate_copy fuel fd fd1 (int (n - ?m)) ?s"
        using False 3(1-3) unfolding sub [symmetric] by (simp add: bindk_def thenk_def Let_def min_def)
      have "take ?m (drop ?p data) @ take (n - ?m) (drop (?p + j) data) = take n (drop ?p data)"
        using take_add [of j "n - j" "drop ?p data"] by (cases "n \<le> j") (simp_all add: min_def add.commute)
      moreover have "n - ?m - (length data - (?p + j)) = n - (length data - ?p)" using 3(5) by (simp add: min_def)
      ultimately show ?thesis
        using cs run by (intro exI [of _ "CRead fd 512 # ?w # cs"]) (simp del: truncate_copy.simps)
    qed
  qed simp
qed simp

text \<open>C27. \<open>truncate\<close> gives the file the requested size: the new file is the old content cut off
  at \<open>n\<close> bytes, or the old content followed by NULs up to \<open>n\<close> bytes.\<close>

theorem truncate_resizes:
  assumes "calls s = []" and "kern s [COpen name 0] = a0" and "0 \<le> u_ret a0" and "serves (kern s) (u_ret a0) data pos"
    and "0 \<le> u_ret (kern s [COpen name 0, CUnlink name])"
    and "0 \<le> u_ret (kern s [COpen name 0, CUnlink name, COpen name 0x202])" and "length data < fuel"
  shows "\<exists>t. truncate_file fuel name (int n) s = Ret () t \<and>
    written (u_ret (kern s [COpen name 0, CUnlink name, COpen name 0x202])) (calls t) = take n data @ replicate (n - length data) 0"
proof -
  let ?h = "[COpen name 0, CUnlink name, COpen name 0x202]"
  let ?s = "s\<lparr>calls := ?h\<rparr>" and ?fd1 = "u_ret (kern s ?h)"
  have "pos ?h = 0"
    using assms(4) serves_other [OF assms(4), of "COpen name 0" "[]"] serves_other [OF assms(4), of "CUnlink name" "[COpen name 0]"]
      serves_other [OF assms(4), of "COpen name 0x202" "[COpen name 0, CUnlink name]"] by (simp add: serves_def)
  then obtain cs where cs: "truncate_copy fuel (u_ret a0) ?fd1 (int n) ?s = Ret (int (n - length data)) (?s\<lparr>calls := calls ?s @ cs\<rparr>)"
      "written ?fd1 cs = take n data"
    using truncate_copy_run [of ?s "u_ret a0" data pos fuel ?fd1 n] assms(4,7) by auto
  show ?thesis
    using assms(1-3,5,6) cs by (simp add: truncate_file_def bindk_def thenk_def foreach_write_zero)
qed

theorem truncate_resizes_witness:
  "\<exists>t. truncate_file 9 [120] (int 7) (demo_user (bstr ''hello'')) = Ret () t \<and> written 4 (calls t) = bstr ''hello'' @ [0, 0]"
  using truncate_resizes [of "demo_user (bstr ''hello'')" "[120]" "file_kern 3 (bstr ''hello'') [COpen [120] 0]" "bstr ''hello''"
      "\<lambda>h. read_pos 3 (length (bstr ''hello'')) (rev h)" 9 7] file_kern_serves [of 3 "bstr ''hello''"]
  by (simp add: demo_user_def file_kern_def numeral_2_eq_2)

text \<open>C29. \<open>vim name message\<close> does not shorten the file: it writes the message at the beginning
  and then NULs up to the old length.\<close>

theorem overwrite_pads:
  assumes "calls s = []" and "0 \<le> u_ret (kern s [COpen name 2])" and "serves (kern s) (u_ret (kern s [COpen name 2])) data pos"
    and "\<And>h. u_ret (kern s (h @ [COpen name 0x202])) = fd1" and "0 \<le> fd1" and "length data < fuel"
  shows "\<exists>t. overwrite fuel name message s = Ret () t \<and>
    written fd1 (calls t) = message @ replicate (length data - length message) 0"
proof -
  let ?s = "s\<lparr>calls := [COpen name 2]\<rparr>" and ?fd0 = "u_ret (kern s [COpen name 2])"
  have "pos [COpen name 2] = 0"
    using assms(3) serves_other [OF assms(3), of "COpen name 2" "[]"] by (simp add: serves_def)
  then obtain cs where cs: "vim_length fuel ?fd0 0 ?s = Ret (int (length data)) (?s\<lparr>calls := calls ?s @ cs\<rparr>)" "written fd1 cs = []"
    using vim_length_run [of ?s ?fd0 data pos fuel 0 fd1] assms(3,6) by auto
  have fd1: "u_ret (kern s (COpen name 2 # cs @ [COpen name 0x202])) = fd1" using assms(4) [of "COpen name 2 # cs"] by simp
  have n: "nat (int (length data) - int (length message)) = length data - length message" by simp
  show ?thesis
    using assms(1,2,5) cs fd1 by (simp add: overwrite_def bindk_def thenk_def foreach_write_zero n)
qed

theorem overwrite_pads_witness:
  "\<exists>t. overwrite 9 [120] (bstr ''abc'') (demo_user (bstr ''hello'')) = Ret () t \<and> written 4 (calls t) = bstr ''abc'' @ [0, 0]"
  using overwrite_pads [of "demo_user (bstr ''hello'')" "[120]" "bstr ''hello''" "\<lambda>h. read_pos 3 (length (bstr ''hello'')) (rev h)" 4 9 "bstr ''abc''"]
    file_kern_serves [of 3 "bstr ''hello''"]
  by (simp add: demo_user_def file_kern_def numeral_2_eq_2)

section \<open>What \<open>wc\<close> counts\<close>

definition wspace :: "byte \<Rightarrow> bool" where
  "wspace b \<longleftrightarrow> b \<in> {32, 13, 9, 10, 11}"

text \<open>The positions where a word begins.\<close>

definition word_starts :: "byte list \<Rightarrow> nat set" where
  "word_starts bs = {i. i < length bs \<and> \<not> wspace (bs ! i) \<and> (i = 0 \<or> wspace (bs ! (i - 1)))}"

lemma occurs_wspace: "occurs [32, 13, 9, 10, 11] b \<longleftrightarrow> wspace b"
  by (simp add: occurs_def wspace_def)

lemma word_starts_snoc:
  "word_starts (bs @ [b]) = word_starts bs \<union> (if \<not> wspace b \<and> (bs = [] \<or> wspace (last bs)) then {length bs} else {})"
proof (cases "bs = []")
  case True
  then show ?thesis by (auto simp: word_starts_def)
next
  case False
  then have "(bs @ [b]) ! (length bs - 1) = last bs" by (simp add: nth_append last_conv_nth)
  then have "i \<in> word_starts (bs @ [b]) \<longleftrightarrow> i \<in> word_starts bs \<or> i = length bs \<and> \<not> wspace b \<and> wspace (last bs)" for i
    using False by (cases "i = length bs") (auto simp: word_starts_def nth_append less_Suc_eq)
  then show ?thesis using False by auto
qed

lemma finite_word_starts [simp]: "finite (word_starts bs)"
  by (rule finite_subset [of _ "{..<length bs}"]) (auto simp: word_starts_def)

lemma wc_chars:
  "fold wc_char bs \<lparr>wc_l = 0, wc_w = 0, wc_c = 0, inword = False\<rparr> =
    \<lparr>wc_l = of_nat (count_list bs 10), wc_w = of_nat (card (word_starts bs)), wc_c = of_nat (length bs),
     inword = (bs \<noteq> [] \<and> \<not> wspace (last bs))\<rparr>"
proof (induction bs rule: rev_induct)
  case Nil
  have "word_starts [] = {}" by (simp add: word_starts_def)
  then show ?case by simp
next
  case (snoc b bs)
  have "length bs \<notin> word_starts bs" by (simp add: word_starts_def)
  moreover have "wspace 10" by (simp add: wspace_def)
  ultimately show ?case using snoc by (auto simp: wc_char_def occurs_wspace word_starts_snoc Let_def)
qed

lemma wc_loop_run:
  assumes "serves (kern s) fd data pos" and "length data - pos (calls s) < fuel"
  shows "\<exists>cs. wc_loop fuel fd x s = Ret (fold wc_char (drop (pos (calls s)) data) x) (s\<lparr>calls := calls s @ cs\<rparr>)"
  using assms
proof (induction fuel arbitrary: s x)
  case (Suc fuel)
  let ?p = "pos (calls s)" and ?h = "calls s @ [CRead fd 512]"
  show ?case
  proof (rule serves_read [OF Suc.prems(1), of 512 "calls s"], goal_cases)
    case 2
    then show ?case by (intro exI [of _ "[CRead fd 512]"]) (simp add: bindk_def)
  next
    case (3 j)
    let ?s = "s\<lparr>calls := ?h\<rparr>" and ?x = "fold wc_char (take j (drop ?p data)) x"
    have p: "pos (calls ?s) = ?p + j" using 3(4) by simp
    have "length data - pos (calls ?s) < fuel" unfolding p using Suc.prems(2) 3(1,5) by linarith
    then obtain cs where "wc_loop fuel fd ?x ?s = Ret (fold wc_char (drop (?p + j) data) ?x) (?s\<lparr>calls := calls ?s @ cs\<rparr>)"
      using Suc.IH [of ?s ?x] Suc.prems(1) p by auto
    moreover have "wc_loop (Suc fuel) fd x s = wc_loop fuel fd ?x ?s" using 3(1-3) by (simp add: bindk_def)
    moreover have "fold wc_char (drop (?p + j) data) ?x = fold wc_char (drop ?p data) x"
      using drop_take_more [of j ?p data] by (metis fold_append comp_apply)
    ultimately show ?case by (intro exI [of _ "CRead fd 512 # cs"]) simp
  qed simp
qed simp

text \<open>C26. \<open>wc\<close> counts newlines, words and bytes, in whatever pieces the file is read: a word
  begins at each byte that is not white space and does not follow one that is not. The
  counts are modulo \<open>2^32\<close>.\<close>

theorem wc_counts_words:
  assumes "serves (kern s) fd data pos" and "calls s = []" and "length data < fuel"
  shows "\<exists>t x. wc_loop fuel fd \<lparr>wc_l = 0, wc_w = 0, wc_c = 0, inword = False\<rparr> s = Ret x t \<and>
    wc_l x = of_nat (count_list data 10) \<and> wc_w x = of_nat (card (word_starts data)) \<and> wc_c x = of_nat (length data)"
proof -
  have "pos (calls s) = 0" using assms(1,2) by (simp add: serves_def)
  then show ?thesis using wc_loop_run [OF assms(1), of fuel] assms(3) by (fastforce simp: wc_chars)
qed

theorem wc_counts_words_witness:
  "\<exists>t x. wc_loop 9 3 \<lparr>wc_l = 0, wc_w = 0, wc_c = 0, inword = False\<rparr> (demo_user (bstr ''hello'')) = Ret x t \<and> wc_c x = 5"
  using wc_counts_words [of "demo_user (bstr ''hello'')" 3 "bstr ''hello''" "\<lambda>h. read_pos 3 (length (bstr ''hello'')) (rev h)" 9]
    file_kern_serves [of 3 "bstr ''hello''"]
  by (auto simp: demo_user_def)

lemma foreach_putc_run: "foreach cs (putc fd) s = Ret () (s\<lparr>calls := calls s @ map (\<lambda>c. CWrite fd [c]) cs\<rparr>)"
  by (induction cs arbitrary: s) (simp_all add: putc_def thenk_def bindk_def)

lemma uprintf_run:
  "uprintf_chars False fmt args = Some cs \<Longrightarrow> uprintf fd fmt args s = Ret () (s\<lparr>calls := calls s @ map (\<lambda>c. CWrite fd [c]) cs\<rparr>)"
  by (simp add: uprintf_def foreach_putc_run)

text \<open>C32. \<open>less\<close> does not show a file as it is: the text read is the format string of \<open>printf\<close>.
  A file of the two characters \<open>%d\<close> is shown as 80, the size of the buffer, and for \<open>%s\<close>
  \<open>less\<close> reads a string at address 80 (undefined behaviour).\<close>

theorem less_interprets_percent:
  assumes "calls s = []" and "u_ret (kern s [COpen name 0]) = fd" and "0 \<le> fd"
    and "u_ret (kern s [COpen name 0, CRead fd 80]) = 2" and "u_bytes (kern s [COpen name 0, CRead fd 80]) = [37, c]"
    and "u_ret (kern s [COpen name 0, CRead fd 80, CWrite 1 [56], CWrite 1 [48], CRead fd 80]) = 0"
  shows "(c = 100 \<longrightarrow> (\<exists>t. less_file name s = Block t \<and> written 1 (calls t) = bstr ''80End of file\<newline>'')) \<and>
    (c = 115 \<longrightarrow> less_file name s = Panic ''undefined behaviour'')"
proof (intro conjI impI)
  note rows = less_rows.simps(2) [of 22 fd, simplified] less_rows.simps(2) [of 21 fd, simplified]
  assume c: "c = 115"
  have "less_show (kern s [COpen name 0, CRead fd 80]) u = Panic ''undefined behaviour''" for u :: "'a user_state_scheme"
    using assms(4,5) c by (simp add: less_show_def uprintf_def)
  then show "less_file name s = Panic ''undefined behaviour''"
    using assms(1-3) by (simp add: less_file_def bindk_def thenk_def rows)
next
  note rows = less_rows.simps(2) [of 22 fd, simplified] less_rows.simps(2) [of 21 fd, simplified]
  assume c: "c = 100"
  have "digit_loop udigit 80 10 = [48, 56]"
    by (subst digit_loop.simps, subst digit_loop.simps) (simp add: udigit_def)
  then have "uprintint_chars 80 10 True = bstr ''80''" by (simp add: uprintint_chars_def)
  then have "less_show (kern s [COpen name 0, CRead fd 80]) u = Ret () (u\<lparr>calls := calls u @ [CWrite 1 [56], CWrite 1 [48]]\<rparr>)" for u :: "'a user_state_scheme"
    using assms(4,5) c by (simp add: less_show_def uprintf_run)
  moreover have "less_show (kern s [COpen name 0, CRead fd 80, CWrite 1 [56], CWrite 1 [48], CRead fd 80]) u = Ret () u" for u :: "'a user_state_scheme"
    using assms(6) by (simp add: less_show_def uprintf_def)
  moreover have "uprint 1 ''End of file\<newline>'' [] u = Ret () (u\<lparr>calls := calls u @ map (\<lambda>c. CWrite 1 [c]) (bstr ''End of file\<newline>'')\<rparr>)" for u :: "'a user_state_scheme"
    unfolding uprint_def by (rule uprintf_run) simp
  ultimately show "\<exists>t. less_file name s = Block t \<and> written 1 (calls t) = bstr ''80End of file\<newline>''"
    using assms(1-4,6) by (simp add: less_file_def bindk_def thenk_def rows uexit_def)
qed

definition less_demo :: user_state where
  "less_demo = \<lparr>kern = \<lambda>h. if length h = 1 then \<lparr>u_ret = 3, u_bytes = [], u_nums = []\<rparr>
      else if length h = 2 then \<lparr>u_ret = 2, u_bytes = [37, 100], u_nums = []\<rparr> else \<lparr>u_ret = 0, u_bytes = [], u_nums = []\<rparr>,
    calls = []\<rparr>"

theorem less_interprets_percent_witness:
  "\<exists>t. less_file (bstr ''f'') less_demo = Block t \<and> written 1 (calls t) = bstr ''80End of file\<newline>''"
  using less_interprets_percent [of less_demo "bstr ''f''" 3 100] by (simp add: less_demo_def)

end
