(* ===== verification/Xv6_Grep.thy ===== *)
theory Xv6_Grep
  imports Xv6_Utils
begin

text \<open>
  grep.c: the regular expression matcher of Kernighan and Pike with the operators
  \<open>^ . * $\<close>, shown to decide the language a pattern denotes, and the loop that cuts its
  input into lines.
\<close>

section \<open>The matcher\<close>

text \<open>Patterns and texts are C strings, without their terminating NUL.\<close>

function (sequential) matchhere :: "byte list \<Rightarrow> byte list \<Rightarrow> bool"
  and matchstar :: "byte \<Rightarrow> byte list \<Rightarrow> byte list \<Rightarrow> bool" where
  "matchhere [] line = True"
| "matchhere (c # re) line =
    (if re \<noteq> [] \<and> hd re = chr CHR ''*'' then matchstar c (tl re) line
     else if c = chr CHR ''$'' \<and> re = [] then line = []
     else if line \<noteq> [] \<and> (c = chr CHR ''.'' \<or> c = hd line) then matchhere re (tl line)
     else False)"
| "matchstar c re line =
    (if matchhere re line then True
     else if line \<noteq> [] \<and> (hd line = c \<or> c = chr CHR ''.'') then matchstar c re (tl line)
     else False)"
  by pat_completeness auto

termination
  by (relation "measure (\<lambda>x. case x of Inl (re, line) \<Rightarrow> 2 * (length re + length line)
      | Inr (c, re, line) \<Rightarrow> 2 * (length re + length line) + 1)") (auto simp: neq_Nil_conv)

declare matchhere.simps [simp del] matchstar.simps [simp del]

primrec match_loop :: "byte list \<Rightarrow> byte list \<Rightarrow> bool" where
  "match_loop re [] = matchhere re []"
| "match_loop re (c # line) = (matchhere re (c # line) \<or> match_loop re line)"

definition match :: "byte list \<Rightarrow> byte list \<Rightarrow> bool" where
  "match re line = (if re \<noteq> [] \<and> hd re = chr CHR ''^'' then matchhere (tl re) line else match_loop re line)"

section \<open>What a pattern denotes\<close>

datatype elem = One byte | Many byte

fun elems :: "byte list \<Rightarrow> elem list \<times> bool" where
  "elems [] = ([], False)"
| "elems [c] = (if c = chr CHR ''$'' then ([], True) else ([One c], False))"
| "elems (c # d # re) =
    (if d = chr CHR ''*'' then map_prod ((#) (Many c)) id (elems re)
     else map_prod ((#) (One c)) id (elems (d # re)))"

definition accepts :: "byte \<Rightarrow> byte \<Rightarrow> bool" where
  "accepts c b \<longleftrightarrow> c = chr CHR ''.'' \<or> c = b"

fun lang :: "elem list \<Rightarrow> byte list set" where
  "lang [] = {[]}"
| "lang (One c # es) = {b # v |b v. accepts c b \<and> v \<in> lang es}"
| "lang (Many c # es) = {u @ v |u v. (\<forall>b \<in> set u. accepts c b) \<and> v \<in> lang es}"

text \<open>Some prefix of the line is in the language; all of it, if the pattern ends in \<open>$\<close>.\<close>

definition prefix_in :: "elem list \<times> bool \<Rightarrow> byte list \<Rightarrow> bool" where
  "prefix_in e line \<longleftrightarrow> (\<exists>u v. line = u @ v \<and> u \<in> lang (fst e) \<and> (snd e \<longrightarrow> v = []))"

lemma prefix_in_Nil: "prefix_in ([], a) line \<longleftrightarrow> (a \<longrightarrow> line = [])"
  by (auto simp: prefix_in_def)

lemma prefix_in_One: "prefix_in (One c # es, a) line \<longleftrightarrow>
    (\<exists>b rest. line = b # rest \<and> accepts c b \<and> prefix_in (es, a) rest)"
proof
  assume "prefix_in (One c # es, a) line"
  then obtain x w where "line = x @ w" "x \<in> lang (One c # es)" "a \<longrightarrow> w = []"
    unfolding prefix_in_def fst_conv snd_conv by blast
  then obtain b v where "line = (b # v) @ w" "accepts c b" "v \<in> lang es" "a \<longrightarrow> w = []"
    unfolding lang.simps by blast
  then have "line = b # (v @ w)" "accepts c b" "prefix_in (es, a) (v @ w)" by (auto simp: prefix_in_def)
  then show "\<exists>b rest. line = b # rest \<and> accepts c b \<and> prefix_in (es, a) rest" by blast
next
  assume "\<exists>b rest. line = b # rest \<and> accepts c b \<and> prefix_in (es, a) rest"
  then obtain b v w where v: "line = b # v @ w" "accepts c b" "v \<in> lang es" "a \<longrightarrow> w = []"
    by (auto simp: prefix_in_def)
  then have "line = (b # v) @ w" "b # v \<in> lang (One c # es)" by auto
  with v(4) show "prefix_in (One c # es, a) line" unfolding prefix_in_def fst_conv snd_conv by blast
qed

lemma prefix_in_Many: "prefix_in (Many c # es, a) line \<longleftrightarrow>
    (\<exists>u rest. line = u @ rest \<and> (\<forall>b \<in> set u. accepts c b) \<and> prefix_in (es, a) rest)"
proof
  assume "prefix_in (Many c # es, a) line"
  then obtain x w where "line = x @ w" "x \<in> lang (Many c # es)" "a \<longrightarrow> w = []"
    unfolding prefix_in_def fst_conv snd_conv by blast
  then obtain u v where "line = (u @ v) @ w" "\<forall>b \<in> set u. accepts c b" "v \<in> lang es" "a \<longrightarrow> w = []"
    unfolding lang.simps by blast
  then have "line = u @ (v @ w)" "\<forall>b \<in> set u. accepts c b" "prefix_in (es, a) (v @ w)" by (auto simp: prefix_in_def)
  then show "\<exists>u rest. line = u @ rest \<and> (\<forall>b \<in> set u. accepts c b) \<and> prefix_in (es, a) rest" by blast
next
  assume "\<exists>u rest. line = u @ rest \<and> (\<forall>b \<in> set u. accepts c b) \<and> prefix_in (es, a) rest"
  then obtain u v w where v: "line = u @ v @ w" "\<forall>b \<in> set u. accepts c b" "v \<in> lang es" "a \<longrightarrow> w = []"
    unfolding prefix_in_def by auto
  then have "line = (u @ v) @ w" "u @ v \<in> lang (Many c # es)" by auto
  with v(4) show "prefix_in (Many c # es, a) line" unfolding prefix_in_def fst_conv snd_conv by blast
qed

lemma elems_simps:
  "re \<noteq> [] \<Longrightarrow> hd re = chr CHR ''*'' \<Longrightarrow> elems (c # re) = map_prod ((#) (Many c)) id (elems (tl re))"
  "\<not> (re \<noteq> [] \<and> hd re = chr CHR ''*'') \<Longrightarrow> \<not> (c = chr CHR ''$'' \<and> re = []) \<Longrightarrow>
    elems (c # re) = map_prod ((#) (One c)) id (elems re)"
  by (cases re; auto)+

lemma matchhere_prefix_in:
  "matchhere re line \<longleftrightarrow> prefix_in (elems re) line"
  "matchstar c re line \<longleftrightarrow> (\<exists>u rest. line = u @ rest \<and> (\<forall>b \<in> set u. accepts c b) \<and> prefix_in (elems re) rest)"
proof (induction re line and c re line rule: matchhere_matchstar.induct)
  case (1 line)
  then show ?case by (simp add: matchhere.simps prefix_in_Nil)
next
  case (2 c re line)
  consider (star) "re \<noteq> [] \<and> hd re = chr CHR ''*''" | (dollar) "\<not> (re \<noteq> [] \<and> hd re = chr CHR ''*'')" "c = chr CHR ''$'' \<and> re = []"
    | (one) "\<not> (re \<noteq> [] \<and> hd re = chr CHR ''*'')" "\<not> (c = chr CHR ''$'' \<and> re = [])"
    by blast
  then show ?case
  proof cases
    case star
    then show ?thesis
      using 2(1) elems_simps(1) [of re c] prefix_in_Many [of c "fst (elems (tl re))" "snd (elems (tl re))" line]
      by (simp add: matchhere.simps map_prod_def split_beta)
  next
    case dollar
    then show ?thesis by (simp add: matchhere.simps prefix_in_Nil)
  next
    case one
    have "matchhere (c # re) line \<longleftrightarrow> line \<noteq> [] \<and> accepts c (hd line) \<and> prefix_in (elems re) (tl line)"
      using one 2(2) by (auto simp: matchhere.simps accepts_def)
    also have "\<dots> \<longleftrightarrow> prefix_in (elems (c # re)) line"
      using elems_simps(2) [OF one] prefix_in_One [of c "fst (elems re)" "snd (elems re)" line]
      by (cases line) (auto simp: map_prod_def split_beta)
    finally show ?thesis .
  qed
next
  case (3 c re line)
  have step: "matchstar c re line \<longleftrightarrow> prefix_in (elems re) line \<or>
      line \<noteq> [] \<and> accepts c (hd line) \<and> (\<exists>u rest. tl line = u @ rest \<and> (\<forall>b \<in> set u. accepts c b) \<and> prefix_in (elems re) rest)"
    using 3 by (subst matchstar.simps) (auto simp: accepts_def)
  show ?case (is "_ \<longleftrightarrow> ?R")
  proof
    assume "matchstar c re line"
    then consider "prefix_in (elems re) line" | u rest where "line \<noteq> []" "accepts c (hd line)" "tl line = u @ rest" "\<forall>b \<in> set u. accepts c b" "prefix_in (elems re) rest"
      using step by blast
    then show ?R
    proof cases
      case 1
      then show ?thesis by (intro exI [of _ "[]"] exI [of _ line]) simp
    next
      case 2
      then show ?thesis by (intro exI [of _ "hd line # u"] exI [of _ rest]) (cases line, auto)
    qed
  next
    assume ?R
    then obtain u rest where u: "line = u @ rest" "\<forall>b \<in> set u. accepts c b" "prefix_in (elems re) rest" by blast
    then show "matchstar c re line" using step by (cases u) auto
  qed
qed

lemma match_loop_suffix: "match_loop re line \<longleftrightarrow> (\<exists>x y. line = x @ y \<and> matchhere re y)"
proof (induction line)
  case (Cons c line)
  have "(\<exists>x y. c # line = x @ y \<and> matchhere re y) \<longleftrightarrow> matchhere re (c # line) \<or> (\<exists>x y. line = x @ y \<and> matchhere re y)"
    by (auto simp: Cons_eq_append_conv)
  then show ?case using Cons.IH by simp
qed simp

text \<open>C18. \<open>match\<close> decides the language of the pattern: it holds exactly if the line has a
  part that spells out the pattern, starting at the beginning if the pattern starts with
  \<open>^\<close> and reaching the end if it ends with \<open>$\<close>. (The recursion of \<open>matchhere\<close> and
  \<open>matchstar\<close> ends on every pattern and line.)\<close>

theorem match_decides_language:
  "match re line \<longleftrightarrow>
    (if re \<noteq> [] \<and> hd re = chr CHR ''^'' then prefix_in (elems (tl re)) line
     else \<exists>x y. line = x @ y \<and> prefix_in (elems re) y)"
  by (simp add: match_def match_loop_suffix matchhere_prefix_in(1))

section \<open>The loop over lines\<close>

text \<open>
  \<open>while((q = strchr(p, '\n')) != 0)\<close> on the array \<open>buf\<close>: the new array (the newline of a
  line that does not match stays overwritten by NUL), the new \<open>p\<close>, and what is written.
\<close>

function grep_lines :: "byte list \<Rightarrow> byte list \<Rightarrow> nat \<Rightarrow> (byte list \<times> nat \<times> byte list list) option" where
  "grep_lines pattern buf p = (case strchr (drop p buf) 10 of
      None \<Rightarrow> None
    | Some None \<Rightarrow> Some (buf, p, [])
    | Some (Some i) \<Rightarrow>
        let q = p + i; line = take i (drop p buf) in
        if match pattern line then
          map_option (\<lambda>(buf, p, ws). (buf, p, (line @ [10]) # ws)) (grep_lines pattern buf (Suc q))
        else grep_lines pattern (buf[q := 0]) (Suc q))"
  by pat_completeness auto

termination
  by (relation "measure (\<lambda>(pattern, buf, p). length buf - p)") (auto dest!: strchr_bound)

declare grep_lines.simps [simp del]

record grep_state = user_state +
  gbuf :: "byte list"

text \<open>\<open>grep\<close>, for at most \<open>fuel\<close> calls of \<open>read\<close>; \<open>m\<close> is the number of bytes kept in the
  buffer, and it can become negative. Accesses outside of \<open>buf\<close> are undefined behaviour.\<close>

primrec grep :: "nat \<Rightarrow> byte list \<Rightarrow> int \<Rightarrow> int \<Rightarrow> (unit, 'z grep_state_scheme) kernel" where
  "grep 0 pattern fd m = panic ''out of fuel''"
| "grep (Suc fuel) pattern fd m = bindk (usys (CRead fd (nat (1024 - m)))) (\<lambda>r.
    if u_ret r \<le> 0 then ret ()
    else if m < 0 then panic ''undefined behaviour''
    else thenk (modk (\<lambda>s. s\<lparr>gbuf := take (nat m) (gbuf s) @ u_bytes r @ drop (nat (m + u_ret r)) (gbuf s)\<rparr>))
      (\<lambda>s. case grep_lines pattern (gbuf s) 0 of
          None \<Rightarrow> Panic ''undefined behaviour''
        | Some (buf, p, ws) \<Rightarrow>
            let m = (if p = 0 then 0 else m + u_ret r);
                m' = (if 0 < m then m - int p else m);
                buf' = (if 0 < m then take (nat m') (drop p buf) @ drop (nat m') buf else buf) in
            thenk (foreach ws (\<lambda>w. bindk (usys (CWrite 1 w)) (\<lambda>_. ret ())))
              (thenk (modk (\<lambda>s. s\<lparr>gbuf := buf'\<rparr>)) (grep fuel pattern fd m')) s))"

definition grep_main :: "nat \<Rightarrow> byte list list \<Rightarrow> (unit, 'z grep_state_scheme) kernel" where
  "grep_main fuel argv =
    (if length argv \<le> 1 then thenk (uprint 2 ''usage: grep pattern [file ...]\<newline>'' []) uexit
     else if length argv \<le> 2 then thenk (grep fuel (argv ! 1) 0 0) uexit
     else thenk (for_files ''grep: cannot open %s\<newline>'' (drop 2 argv) (\<lambda>fd name. grep fuel (argv ! 1) fd 0)) uexit)"

text \<open>C31. \<open>grep\<close> prints old lines again: the buffer is not terminated after the bytes that
  were read, so when a read returns less than the one before, the rest of the older text
  is searched as well. Here the input is \<open>x\n\<close>, \<open>y\n\<close>, \<open>z\<close> in two reads, and the output of
  \<open>grep ""\<close> is \<open>x\n y\n z\n y\n\<close>.\<close>

theorem grep_repeats_old_lines:
  assumes "x \<notin> {0, 10}" and "y \<notin> {0, 10}" and "z \<notin> {0, 10 :: byte}"
    and "kern s [CRead 0 1024] = \<lparr>u_ret = 4, u_bytes = [x, 10, y, 10], u_nums = []\<rparr>"
    and "kern s [CRead 0 1024, CWrite 1 [x, 10], CWrite 1 [y, 10], CRead 0 1024] = \<lparr>u_ret = 1, u_bytes = [z], u_nums = []\<rparr>"
    and "u_ret (kern s [CRead 0 1024, CWrite 1 [x, 10], CWrite 1 [y, 10], CRead 0 1024, CWrite 1 [z, 10], CWrite 1 [y, 10], CRead 0 1027]) = 0"
    and "calls s = []" and "gbuf s = replicate 1024 0"
  shows "\<exists>t. grep 3 [] 0 0 s = Ret () t \<and> written 1 (calls t) = [x, 10, y, 10, z, 10, y, 10]"
proof -
  have m: "match [] line" for line
    by (cases line) (simp_all add: match_def matchhere.simps)
  have buf: "replicate 1024 0 = replicate 4 0 @ (0 :: byte) # replicate 1019 0"
    by (simp add: replicate_add [symmetric] replicate_Suc [symmetric] del: replicate_Suc)
  have l1: "grep_lines [] ([x, 10, y, 10] @ 0 # zs) 0 = Some ([x, 10, y, 10] @ 0 # zs, 4, [[x, 10], [y, 10]])" for zs
    using assms(1,2) by (simp add: m grep_lines.simps)
  have l2: "grep_lines [] ([z, 10, y, 10] @ 0 # zs) 0 = Some ([z, 10, y, 10] @ 0 # zs, 4, [[z, 10], [y, 10]])" for zs
    using assms(2,3) by (simp add: m grep_lines.simps)
  have g1: "take (nat 0) (gbuf s) @ [x, 10, y, 10] @ drop (nat 4) (gbuf s) = [x, 10, y, 10] @ 0 # replicate 1019 0"
    using assms(8) buf by simp
  show ?thesis
    using assms(4-7) g1 l1 l2
    by (simp add: numeral_3_eq_3 bindk_def thenk_def)
qed

definition grep_demo :: grep_state where
  "grep_demo = \<lparr>kern = \<lambda>h. if length h = 1 then \<lparr>u_ret = 4, u_bytes = [120, 10, 121, 10], u_nums = []\<rparr>
      else if length h = 4 then \<lparr>u_ret = 1, u_bytes = [122], u_nums = []\<rparr> else \<lparr>u_ret = 0, u_bytes = [], u_nums = []\<rparr>,
    calls = [], gbuf = replicate 1024 0\<rparr>"

theorem grep_repeats_old_lines_witness:
  "\<exists>t. grep 3 [] 0 0 grep_demo = Ret () t \<and> written 1 (calls t) = [120, 10, 121, 10, 122, 10, 121, 10]"
  by (rule grep_repeats_old_lines) (simp_all add: grep_demo_def)

end
