(* ===== verification/Xv6_Sh.thy ===== *)
theory Xv6_Sh
  imports Xv6_Utils
begin

text \<open>
  sh.c: the parser and the interpreter of the shell. The line is a C string \<open>buf\<close> of length
  \<open>es\<close>; \<open>char*\<close> variables are positions in it, and \<open>char **ps\<close> is the state of the parser.
  \<open>Panic msg\<close> is a call of the shell's \<open>panic\<close>, which prints the message and exits. The
  recursive descent takes a bound on its depth, and \<open>Block\<close> says that it was reached; that four
  levels per character are enough is a theorem. The constructors \<open>execcmd\<close>, \<open>redircmd\<close> etc. are
  modelled for a \<open>malloc\<close> that succeeds: the code does not test its result.
\<close>

section \<open>Commands\<close>

datatype cmd =
    EXEC "(nat \<times> nat) list"
  | REDIR cmd nat nat int int
  | PIPE cmd cmd
  | LIST cmd cmd
  | BACK cmd

abbreviation (input) MAXARGS :: nat where "MAXARGS \<equiv> 10"

section \<open>Tokens\<close>

definition sh_space :: "byte \<Rightarrow> bool" where
  "sh_space c = occurs [32, 9, 13, 10, 11] c"

definition sh_symbol :: "byte \<Rightarrow> bool" where
  "sh_symbol c = occurs (bstr ''<|>&;()'') c"

text \<open>The tokens of one character, \<open>>\<close> apart.\<close>

definition sh_single :: "byte \<Rightarrow> bool" where
  "sh_single c = (c \<in> set (bstr ''|();&<''))"

text \<open>\<open>*s\<close>, also at the end of the string.\<close>

definition at :: "byte list \<Rightarrow> nat \<Rightarrow> byte" where
  "at buf s = (if s < length buf then buf ! s else 0)"

function skip_while :: "(byte \<Rightarrow> bool) \<Rightarrow> byte list \<Rightarrow> nat \<Rightarrow> nat" where
  "skip_while P buf s = (if s < length buf \<and> P (buf ! s) then skip_while P buf (Suc s) else s)"
  by pat_completeness auto

termination
  by (relation "measure (\<lambda>(P, buf, s). length buf - s)") auto

declare skip_while.simps [simp del]

text \<open>\<open>gettoken\<close>: the token, where its text begins and ends, and the new position.\<close>

definition gettoken :: "byte list \<Rightarrow> (byte \<times> nat \<times> nat, nat) kernel" where
  "gettoken buf = (\<lambda>ps.
    let q = skip_while sh_space buf ps; c = at buf q;
        (tok, eq) =
          (if c = 0 then (0, q)
           else if sh_single c then (c, Suc q)
           else if c = chr CHR ''>'' then
             (if at buf (Suc q) = chr CHR ''>'' then (chr CHR ''+'', Suc (Suc q)) else (c, Suc q))
           else (chr CHR ''a'', skip_while (\<lambda>c. \<not> sh_space c \<and> \<not> sh_symbol c) buf q)) in
    Ret (tok, q, eq) (skip_while sh_space buf eq))"

definition peek :: "byte list \<Rightarrow> string \<Rightarrow> (bool, nat) kernel" where
  "peek buf toks = (\<lambda>ps. let s = skip_while sh_space buf ps in
    Ret (at buf s \<noteq> 0 \<and> occurs (bstr toks) (at buf s)) s)"

section \<open>The grammar\<close>

text \<open>The bound on the depth is reached.\<close>

definition parse_limit :: "('a, nat) kernel" where
  "parse_limit = Block"

type_synonym redir = "nat \<times> nat \<times> int \<times> int"

text \<open>\<open>redircmd\<close>, applied to the command so far.\<close>

definition redircmd :: "redir \<Rightarrow> cmd \<Rightarrow> cmd" where
  "redircmd r c = (case r of (q, eq, mode, fd) \<Rightarrow> REDIR c q eq mode fd)"

text \<open>\<open>parseredirs\<close>: the redirections found, in order. (In C the command is wrapped on the way;
  in \<open>parseexec\<close> its arguments are filled in later, through a second pointer to it.)\<close>

primrec parseredirs :: "nat \<Rightarrow> byte list \<Rightarrow> redir list \<Rightarrow> (redir list, nat) kernel" where
  "parseredirs 0 buf rs = parse_limit"
| "parseredirs (Suc n) buf rs = bindk (peek buf ''<>'') (\<lambda>b.
    if \<not> b then ret rs
    else bindk (gettoken buf) (\<lambda>(tok, _, _). bindk (gettoken buf) (\<lambda>(t, q, eq).
      if t \<noteq> chr CHR ''a'' then panic ''missing file for redirection''
      else parseredirs n buf (rs @ [if tok = chr CHR ''<'' then (q, eq, 0, 0) else (q, eq, 0x201, 1)]))))"

text \<open>The loop of \<open>parseexec\<close> over the arguments.\<close>

primrec parseargs :: "nat \<Rightarrow> byte list \<Rightarrow> (nat \<times> nat) list \<Rightarrow> redir list \<Rightarrow> ((nat \<times> nat) list \<times> redir list, nat) kernel" where
  "parseargs 0 buf argv rs = parse_limit"
| "parseargs (Suc n) buf argv rs = bindk (peek buf ''|)&;'') (\<lambda>b.
    if b then ret (argv, rs)
    else bindk (gettoken buf) (\<lambda>(tok, q, eq).
      if tok = 0 then ret (argv, rs)
      else if tok \<noteq> chr CHR ''a'' then panic ''syntax''
      else let argv = argv @ [(q, eq)] in
        if length argv \<ge> MAXARGS then panic ''too many args''
        else bindk (parseredirs (Suc (length buf)) buf rs) (\<lambda>rs. parseargs n buf argv rs)))"

text \<open>\<open>while(peek(ps, es, "&"))\<close> in \<open>parseline\<close>.\<close>

primrec parsebacks :: "nat \<Rightarrow> byte list \<Rightarrow> cmd \<Rightarrow> (cmd, nat) kernel" where
  "parsebacks 0 buf c = parse_limit"
| "parsebacks (Suc n) buf c = bindk (peek buf ''&'') (\<lambda>b.
    if b then bindk (gettoken buf) (\<lambda>_. parsebacks n buf (BACK c)) else ret c)"

fun parseline :: "nat \<Rightarrow> byte list \<Rightarrow> (cmd, nat) kernel"
  and parsepipe :: "nat \<Rightarrow> byte list \<Rightarrow> (cmd, nat) kernel"
  and parseblock :: "nat \<Rightarrow> byte list \<Rightarrow> (cmd, nat) kernel"
  and parseexec :: "nat \<Rightarrow> byte list \<Rightarrow> (cmd, nat) kernel" where
  "parseline 0 buf = parse_limit"
| "parseline (Suc n) buf = bindk (parsepipe n buf) (\<lambda>c. bindk (parsebacks (Suc (length buf)) buf c) (\<lambda>c.
    bindk (peek buf '';'') (\<lambda>b.
      if b then bindk (gettoken buf) (\<lambda>_. bindk (parseline n buf) (\<lambda>d. ret (LIST c d))) else ret c)))"
| "parsepipe 0 buf = parse_limit"
| "parsepipe (Suc n) buf = bindk (parseexec n buf) (\<lambda>c. bindk (peek buf ''|'') (\<lambda>b.
    if b then bindk (gettoken buf) (\<lambda>_. bindk (parsepipe n buf) (\<lambda>d. ret (PIPE c d))) else ret c))"
| "parseblock 0 buf = parse_limit"
| "parseblock (Suc n) buf = bindk (peek buf ''('') (\<lambda>b.
    if \<not> b then panic ''parseblock''
    else bindk (gettoken buf) (\<lambda>_. bindk (parseline n buf) (\<lambda>c. bindk (peek buf '')'') (\<lambda>b.
      if \<not> b then panic ''syntax - missing )''
      else bindk (gettoken buf) (\<lambda>_. bindk (parseredirs (Suc (length buf)) buf []) (\<lambda>rs. ret (fold redircmd rs c)))))))"
| "parseexec 0 buf = parse_limit"
| "parseexec (Suc n) buf = bindk (peek buf ''('') (\<lambda>b.
    if b then parseblock n buf
    else bindk (parseredirs (Suc (length buf)) buf []) (\<lambda>rs. bindk (parseargs (Suc (length buf)) buf [] rs) (\<lambda>(argv, rs).
      ret (fold redircmd rs (EXEC argv)))))"

declare parseredirs.simps [simp del] parseargs.simps [simp del] parsebacks.simps [simp del]
  parseline.simps [simp del] parsepipe.simps [simp del] parseblock.simps [simp del] parseexec.simps [simp del]

text \<open>\<open>nulterminate\<close> on the array that holds the line.\<close>

primrec nulterminate :: "cmd \<Rightarrow> byte list \<Rightarrow> byte list" where
  "nulterminate (EXEC argv) arr = fold (\<lambda>(q, eq) arr. arr[eq := 0]) argv arr"
| "nulterminate (REDIR c q eq mode fd) arr = (nulterminate c arr)[eq := 0]"
| "nulterminate (PIPE l r) arr = nulterminate r (nulterminate l arr)"
| "nulterminate (LIST l r) arr = nulterminate r (nulterminate l arr)"
| "nulterminate (BACK c) arr = nulterminate c arr"

section \<open>Running commands\<close>

definition cstr_at :: "byte list \<Rightarrow> nat \<Rightarrow> byte list" where
  "cstr_at arr q = takeWhile (\<lambda>c. c \<noteq> 0) (drop q arr)"

definition sh_panic :: "string \<Rightarrow> ('a, 'z user_state_scheme) kernel" where
  "sh_panic s = thenk (uprint 2 ''%s\<newline>'' [sarg (bstr s)]) uexit"

definition fork1 :: "(int, 'z user_state_scheme) kernel" where
  "fork1 = bindk (ucalli CFork) (\<lambda>pid. if pid = -1 then sh_panic ''fork'' else ret pid)"

text \<open>\<open>parsecmd\<close>: the command, and the line after \<open>nulterminate\<close>.\<close>

definition parsecmd :: "byte list \<Rightarrow> (cmd \<times> byte list, 'z user_state_scheme) kernel" where
  "parsecmd line = (case bindk (parseline (4 * length line + 4) line) (\<lambda>c. thenk (peek line '''') (ret c)) 0 of
      Panic msg \<Rightarrow> sh_panic msg
    | Block s \<Rightarrow> panic ''out of fuel''
    | Ret c s \<Rightarrow>
        if s \<noteq> length line then thenk (uprint 2 ''leftovers: %s\<newline>'' [sarg (drop s line)]) (sh_panic ''syntax'')
        else ret (c, nulterminate c (line @ [0])))"

text \<open>\<open>runcmd\<close> never returns: every path ends in \<open>exit\<close> or in a successful \<open>exec\<close>.\<close>

primrec runcmd :: "cmd \<Rightarrow> byte list \<Rightarrow> (unit, 'z user_state_scheme) kernel" where
  "runcmd (EXEC argv) arr =
    (if argv = [] then uexit
     else bindk (uexec (cstr_at arr (fst (hd argv))) (map (\<lambda>(q, eq). cstr_at arr q) argv)) (\<lambda>_.
       thenk (uprint 2 ''exec %s failed\<newline>'' [sarg (cstr_at arr (fst (hd argv)))]) uexit))"
| "runcmd (REDIR c q eq mode fd) arr = thenk (uclose fd) (bindk (ucalli (COpen (cstr_at arr q) mode)) (\<lambda>r.
    if r < 0 then thenk (uprint 2 ''open %s failed\<newline>'' [sarg (cstr_at arr q)]) uexit
    else thenk (runcmd c arr) uexit))"
| "runcmd (LIST l r) arr = bindk fork1 (\<lambda>pid. if pid = 0 then runcmd l arr
    else thenk (ucalli CWait) (thenk (runcmd r arr) uexit))"
| "runcmd (PIPE l r) arr = bindk (usys CPipe) (\<lambda>a. if u_ret a < 0 then sh_panic ''pipe''
    else let p0 = u_nums a ! 0; p1 = u_nums a ! 1 in
    bindk fork1 (\<lambda>pid. if pid = 0 then
      thenk (uclose 1) (thenk (ucalli (CDup p1)) (thenk (uclose p0) (thenk (uclose p1) (runcmd l arr))))
    else bindk fork1 (\<lambda>pid. if pid = 0 then
      thenk (uclose 0) (thenk (ucalli (CDup p0)) (thenk (uclose p0) (thenk (uclose p1) (runcmd r arr))))
    else thenk (uclose p0) (thenk (uclose p1) (thenk (ucalli CWait) (thenk (ucalli CWait) uexit))))))"
| "runcmd (BACK c) arr = bindk fork1 (\<lambda>pid. if pid = 0 then runcmd c arr else uexit)"

text \<open>\<open>getcmd\<close>: the line read, and -1 at the end of the input.\<close>

definition getcmd :: "(int \<times> byte list, 'z user_state_scheme) kernel" where
  "getcmd = thenk (uprint 2 ''$ '' []) (bindk (gets 100) (\<lambda>line.
    let line = takeWhile (\<lambda>c. c \<noteq> 0) line in ret (if line = [] then -1 else 0, line)))"

primrec sh_console :: "nat \<Rightarrow> (unit, 'z user_state_scheme) kernel" where
  "sh_console 0 = panic ''out of fuel''"
| "sh_console (Suc n) = bindk (ucalli (COpen (bstr ''console'') 2)) (\<lambda>fd.
    if 0 \<le> fd then (if 3 \<le> fd then uclose fd else sh_console n) else ret ())"

primrec sh_loop :: "nat \<Rightarrow> (unit, 'z user_state_scheme) kernel" where
  "sh_loop 0 = panic ''out of fuel''"
| "sh_loop (Suc n) = bindk getcmd (\<lambda>(r, line).
    if r < 0 then uexit
    else if take 3 line = bstr ''cd '' then
      let dir = drop 3 (butlast line) in
      bindk (ucalli (CChdir dir)) (\<lambda>r.
        thenk (whenk (r < 0) (uprint 2 ''cannot cd %s\<newline>'' [sarg dir])) (sh_loop n))
    else bindk fork1 (\<lambda>pid. if pid = 0 then bindk (parsecmd line) (\<lambda>(c, arr). runcmd c arr)
      else thenk (ucalli CWait) (sh_loop n)))"

definition sh_main :: "nat \<Rightarrow> (unit, 'z user_state_scheme) kernel" where
  "sh_main n = thenk (sh_console n) (sh_loop n)"

section \<open>The parser ends, and its tokens are words\<close>

lemma skip_while_le: "s \<le> skip_while P buf s"
  by (induction P buf s rule: skip_while.induct) (subst skip_while.simps, auto)

lemma skip_while_length: "s \<le> length buf \<Longrightarrow> skip_while P buf s \<le> length buf"
  by (induction P buf s rule: skip_while.induct) (subst skip_while.simps, auto)

lemma skip_while_stops: "skip_while P buf s < length buf \<Longrightarrow> \<not> P (buf ! skip_while P buf s)"
  by (induction P buf s rule: skip_while.induct) (subst (asm) skip_while.simps, subst skip_while.simps, auto split: if_splits)

lemma skip_while_all: "s \<le> i \<Longrightarrow> i < skip_while P buf s \<Longrightarrow> P (buf ! i)"
proof (induction P buf s rule: skip_while.induct)
  case (1 P buf s)
  then have c: "s < length buf \<and> P (buf ! s)" by (metis linorder_not_less skip_while.simps)
  then have "skip_while P buf s = skip_while P buf (Suc s)" by (simp add: skip_while.simps [of P buf s])
  then show ?case using 1 c by (cases "i = s") auto
qed

lemma skip_while_twice: "skip_while P buf (skip_while P buf s) = skip_while P buf s"
  using skip_while_stops [of P buf s] by (subst skip_while.simps) auto

lemma skip_while_Suc: "s < length buf \<Longrightarrow> P (buf ! s) \<Longrightarrow> s < skip_while P buf s"
  using skip_while_le [of "Suc s" P buf] by (subst skip_while.simps) simp

lemma at_length: "at buf q \<noteq> 0 \<Longrightarrow> q < length buf"
  by (simp add: at_def split: if_splits)

definition sh_word :: "byte \<Rightarrow> bool" where
  "sh_word c \<longleftrightarrow> \<not> sh_space c \<and> \<not> sh_symbol c"

text \<open>A maximal word of the line.\<close>

definition word_at :: "byte list \<Rightarrow> nat \<times> nat \<Rightarrow> bool" where
  "word_at buf r = (case r of (q, eq) \<Rightarrow> q < eq \<and> eq \<le> length buf \<and> (\<forall>i. q \<le> i \<and> i < eq \<longrightarrow> sh_word (buf ! i)) \<and>
    (eq < length buf \<longrightarrow> \<not> sh_word (buf ! eq)))"

lemma sh_symbol_cases: "sh_symbol c \<longleftrightarrow> sh_single c \<or> c = chr CHR ''>''"
  by (simp add: sh_symbol_def sh_single_def occurs_def)

lemma sh_single_simps [simp]: "\<not> sh_single 0" "\<not> sh_single 62" "\<not> sh_single 97"
  by (simp_all add: sh_single_def)

text \<open>What a parser promises: it does not reach its limit, it moves forward inside the line,
  and the result satisfies \<open>P\<close>.\<close>

definition parses :: "byte list \<Rightarrow> ('a, nat) kernel \<Rightarrow> nat \<Rightarrow> ('a \<Rightarrow> nat \<Rightarrow> bool) \<Rightarrow> bool" where
  "parses buf f s P = (case f s of Ret c t \<Rightarrow> s \<le> t \<and> t \<le> length buf \<and> P c t | Panic msg \<Rightarrow> True | Block t \<Rightarrow> False)"

lemma parses_ret: "s \<le> length buf \<Longrightarrow> P c s \<Longrightarrow> parses buf (ret c) s P"
  by (simp add: parses_def)

lemma parses_panic: "parses buf (panic msg) s P"
  by (simp add: parses_def)

lemma parses_bind:
  assumes "parses buf f s Q" and "\<And>c t. s \<le> t \<Longrightarrow> t \<le> length buf \<Longrightarrow> Q c t \<Longrightarrow> parses buf (g c) t P"
  shows "parses buf (bindk f g) s P"
proof (cases "f s")
  case (Ret c t)
  then have "s \<le> t" "t \<le> length buf" "Q c t" using assms(1) by (simp_all add: parses_def)
  then show ?thesis using assms(2) [of t c] Ret by (auto simp: parses_def split: outcome.splits)
qed (use assms(1) in \<open>simp_all add: parses_def bindk_def\<close>)

lemma parses_mono:
  "parses buf f s Q \<Longrightarrow> (\<And>c t. s \<le> t \<Longrightarrow> t \<le> length buf \<Longrightarrow> Q c t \<Longrightarrow> P c t) \<Longrightarrow> parses buf f s P"
  by (auto simp: parses_def split: outcome.splits)

lemma peek_parses:
  "s \<le> length buf \<Longrightarrow> parses buf (peek buf toks) s (\<lambda>b t. b \<longrightarrow> at buf t \<noteq> 0 \<and> skip_while sh_space buf t = t)"
  using skip_while_le [of s sh_space buf] skip_while_length [of s buf sh_space]
    skip_while_stops [of sh_space buf s] at_length [of buf "skip_while sh_space buf s"]
  by (auto simp: parses_def peek_def Let_def skip_while_twice)

lemma gettoken_parses:
  assumes "s \<le> length buf"
  shows "parses buf (gettoken buf) s (\<lambda>(tok, q, eq) t.
    (at buf (skip_while sh_space buf s) \<noteq> 0 \<longrightarrow> s < t) \<and> (tok = 0 \<longleftrightarrow> at buf (skip_while sh_space buf s) = 0) \<and>
    (tok = chr CHR ''a'' \<longrightarrow> word_at buf (q, eq)))"
proof -
  let ?q = "skip_while sh_space buf s" and ?c = "at buf (skip_while sh_space buf s)"
  let ?eq = "skip_while (\<lambda>c. \<not> sh_space c \<and> \<not> sh_symbol c) buf ?q"
  have q: "s \<le> ?q" "?q \<le> length buf" using skip_while_le skip_while_length [OF assms] by auto
  have next_: "e \<le> skip_while sh_space buf e \<and> (e \<le> length buf \<longrightarrow> skip_while sh_space buf e \<le> length buf)" for e
    using skip_while_le skip_while_length by blast
  have word: "word_at buf (?q, ?eq) \<and> ?q < ?eq \<and> ?eq \<le> length buf" if "?c \<noteq> 0" "\<not> sh_symbol ?c"
  proof -
    have l: "?q < length buf" using at_length that(1) .
    then have "\<not> sh_space (buf ! ?q)" by (rule skip_while_stops)
    then have "?q < ?eq" using l that(2) by (intro skip_while_Suc) (simp_all add: at_def)
    moreover have "?eq \<le> length buf" using q(2) by (rule skip_while_length)
    ultimately show ?thesis
      using skip_while_all [of ?q _ "\<lambda>c. \<not> sh_space c \<and> \<not> sh_symbol c" buf]
        skip_while_stops [of "\<lambda>c. \<not> sh_space c \<and> \<not> sh_symbol c" buf ?q]
      by (auto simp: word_at_def sh_word_def)
  qed
  have at2: "at buf (Suc ?q) = chr CHR ''>'' \<Longrightarrow> Suc (Suc ?q) \<le> length buf"
    using at_length [of buf "Suc ?q"] by auto
  consider (zero) "?c = 0" | (sym) "?c \<noteq> 0" "sh_single ?c"
    | (gt) "?c = chr CHR ''>''" | (other) "?c \<noteq> 0" "\<not> sh_symbol ?c"
    using sh_symbol_cases by blast
  then show ?thesis
  proof cases
    case zero
    then show ?thesis using q next_ [of ?q] by (simp add: parses_def gettoken_def Let_def)
  next
    case sym
    then show ?thesis using q next_ [of "Suc ?q"] at_length [OF sym(1)]
      by (auto simp: parses_def gettoken_def Let_def)
  next
    case gt
    then show ?thesis
      using q next_ [of "Suc ?q"] next_ [of "Suc (Suc ?q)"] at_length [of buf ?q] at2
      by (auto simp: parses_def gettoken_def Let_def)
  next
    case other
    then show ?thesis using q word next_ [of ?eq] sh_symbol_cases [of ?c]
      by (auto simp: parses_def gettoken_def Let_def)
  qed
qed

lemma parses_token:
  assumes "s \<le> length buf" and "at buf s \<noteq> 0" and "skip_while sh_space buf s = s"
    and "\<And>c t. s < t \<Longrightarrow> t \<le> length buf \<Longrightarrow> fst c \<noteq> 0 \<Longrightarrow> parses buf (g c) t P"
  shows "parses buf (bindk (gettoken buf) g) s P"
  by (rule parses_bind [OF gettoken_parses [OF assms(1)]]) (use assms(2-4) in \<open>auto simp: split_beta\<close>)

text \<open>The words of a command.\<close>

primrec ranges :: "cmd \<Rightarrow> (nat \<times> nat) list" where
  "ranges (EXEC argv) = argv"
| "ranges (REDIR c q eq mode fd) = ranges c @ [(q, eq)]"
| "ranges (PIPE l r) = ranges l @ ranges r"
| "ranges (LIST l r) = ranges l @ ranges r"
| "ranges (BACK c) = ranges c"

abbreviation words_ok :: "byte list \<Rightarrow> cmd \<Rightarrow> bool" where
  "words_ok buf c \<equiv> \<forall>r \<in> set (ranges c). word_at buf r"

abbreviation redirs_ok :: "byte list \<Rightarrow> redir list \<Rightarrow> bool" where
  "redirs_ok buf rs \<equiv> \<forall>r \<in> set rs. word_at buf (fst r, fst (snd r))"

lemma words_ok_redirs: "words_ok buf c \<Longrightarrow> redirs_ok buf rs \<Longrightarrow> words_ok buf (fold redircmd rs c)"
proof (induction rs arbitrary: c)
  case (Cons r rs)
  then have "words_ok buf (redircmd r c)" by (auto simp: redircmd_def split: prod.splits)
  then show ?case using Cons.IH [of "redircmd r c"] Cons.prems(2) by simp
qed simp

lemma ret_redirs_parses:
  "s \<le> length buf \<Longrightarrow> words_ok buf c \<Longrightarrow> redirs_ok buf rs \<Longrightarrow> parses buf (ret (fold redircmd rs c)) s (\<lambda>c t. words_ok buf c)"
  by (intro parses_ret words_ok_redirs)

lemma parseredirs_parses:
  "s \<le> length buf \<Longrightarrow> length buf - s < n \<Longrightarrow> redirs_ok buf rs \<Longrightarrow>
    parses buf (parseredirs n buf rs) s (\<lambda>rs' t. redirs_ok buf rs')"
proof (induction n arbitrary: s rs)
  case (Suc n)
  show ?case unfolding parseredirs.simps
  proof (rule parses_bind [OF peek_parses [OF Suc.prems(1)]], goal_cases)
    case (1 b t)
    show ?case
    proof (cases b)
      case True
      then have t: "at buf t \<noteq> 0" "skip_while sh_space buf t = t" using 1 by auto
      show ?thesis unfolding if_not_P [OF not_not [THEN iffD2, OF True]]
      proof (rule parses_token [OF 1(2) t], goal_cases)
        case (1 c u)
        show ?case unfolding split_beta
        proof (rule parses_bind [OF gettoken_parses [OF 1(2)]], goal_cases)
          case (1 d v)
          then show ?case
            using \<open>t < u\<close> \<open>s \<le> t\<close> Suc.prems
            by (cases "fst d = chr CHR ''a''") (auto simp: split_beta parses_panic intro!: Suc.IH)
        qed
      qed
    qed (use 1 Suc.prems in \<open>simp add: parses_ret\<close>)
  qed
qed simp

lemma parseargs_parses:
  "s \<le> length buf \<Longrightarrow> length buf - s < n \<Longrightarrow> redirs_ok buf rs \<Longrightarrow> \<forall>r \<in> set argv. word_at buf r \<Longrightarrow>
    parses buf (parseargs n buf argv rs) s (\<lambda>(argv', rs') t. redirs_ok buf rs' \<and> (\<forall>r \<in> set argv'. word_at buf r))"
proof (induction n arbitrary: s rs argv)
  case (Suc n)
  show ?case unfolding parseargs.simps
  proof (rule parses_bind [OF peek_parses [OF Suc.prems(1)]], goal_cases)
    case (1 b t)
    show ?case
    proof (cases b)
      case False
      show ?thesis unfolding if_not_P [OF False]
      proof (rule parses_bind [OF gettoken_parses [OF 1(2)]], goal_cases)
        case (1 c u)
        obtain tok q eq where c: "c = (tok, q, eq)" by (cases c)
        consider (zero) "tok = 0" | (bad) "tok \<noteq> 0" "tok \<noteq> chr CHR ''a''" | (many) "tok = chr CHR ''a''" "length argv \<ge> 9" | (word) "tok = chr CHR ''a''" "length argv < 9"
          by linarith
        then show ?case
        proof cases
          case word
          have lt: "s < u" "word_at buf (q, eq)" using 1 word \<open>s \<le> t\<close> c by (auto simp: split_beta)
          have "parses buf (bindk (parseredirs (Suc (length buf)) buf rs) (\<lambda>rs. parseargs n buf (argv @ [(q, eq)]) rs)) u
              (\<lambda>(argv', rs') t. redirs_ok buf rs' \<and> (\<forall>r \<in> set argv'. word_at buf r))"
          proof (rule parses_bind [OF parseredirs_parses [OF 1(2) _ Suc.prems(3)]], goal_cases)
            case (2 rs' v)
            then show ?case using Suc.prems lt by (intro Suc.IH) auto
          qed simp
          then show ?thesis using word c by simp
        qed (use 1 c Suc.prems in \<open>simp_all add: parses_ret parses_panic\<close>)
      qed
    qed (use 1 Suc.prems in \<open>simp add: parses_ret\<close>)
  qed
qed simp

lemma parsebacks_parses:
  "s \<le> length buf \<Longrightarrow> length buf - s < n \<Longrightarrow> words_ok buf c \<Longrightarrow> parses buf (parsebacks n buf c) s (\<lambda>c' t. words_ok buf c')"
proof (induction n arbitrary: s c)
  case (Suc n)
  show ?case unfolding parsebacks.simps
  proof (rule parses_bind [OF peek_parses [OF Suc.prems(1)]], goal_cases)
    case (1 b t)
    show ?case
    proof (cases b)
      case True
      then show ?thesis
        using 1 Suc.prems by (auto intro!: parses_token Suc.IH)
    qed (use 1 Suc.prems in \<open>simp add: parses_ret\<close>)
  qed
qed simp

text \<open>The four levels of the grammar need a bound of four times what is left of the line.\<close>

lemma parser_parses:
  "4 * (length buf - s) + 4 \<le> n \<Longrightarrow> s \<le> length buf \<Longrightarrow> parses buf (parseline n buf) s (\<lambda>c t. words_ok buf c)"
  "4 * (length buf - s) + 3 \<le> n \<Longrightarrow> s \<le> length buf \<Longrightarrow> parses buf (parsepipe n buf) s (\<lambda>c t. words_ok buf c)"
  "4 * (length buf - s) + 1 \<le> n \<Longrightarrow> s \<le> length buf \<Longrightarrow> parses buf (parseblock n buf) s (\<lambda>c t. words_ok buf c)"
  "4 * (length buf - s) + 2 \<le> n \<Longrightarrow> s \<le> length buf \<Longrightarrow> parses buf (parseexec n buf) s (\<lambda>c t. words_ok buf c)"
proof (induction n buf and n buf and n buf and n buf arbitrary: s and s and s and s
    rule: parseline_parsepipe_parseblock_parseexec.induct)
  case (2 n buf)
  have line: "parses buf (parseline n buf) t (\<lambda>c t. words_ok buf c)" if "s < t" "t \<le> length buf" for t
    by (rule 2(2)) (use that 2(3) in auto)
  show ?case unfolding parseline.simps
  proof (rule parses_bind [OF 2(1)], goal_cases)
    case (3 c t)
    show ?case
    proof (rule parses_bind [OF parsebacks_parses], goal_cases)
      case (4 d u)
      show ?case
        by (rule parses_bind [OF peek_parses])
          (use 3 4 line in \<open>auto intro!: parses_ret parses_token parses_bind [OF line]\<close>)
    qed (use 3 in auto)
  qed (use 2 in auto)
next
  case (4 n buf)
  have pipe: "parses buf (parsepipe n buf) t (\<lambda>c t. words_ok buf c)" if "s < t" "t \<le> length buf" for t
    by (rule 4(2)) (use that 4(3) in auto)
  show ?case unfolding parsepipe.simps
  proof (rule parses_bind [OF 4(1)], goal_cases)
    case (3 c t)
    show ?case
      by (rule parses_bind [OF peek_parses])
        (use 3 pipe in \<open>auto intro!: parses_ret parses_token parses_bind [OF pipe]\<close>)
  qed (use 4 in auto)
next
  case (6 n buf)
  have line: "parses buf (parseline n buf) t (\<lambda>c t. words_ok buf c)" if "s < t" "t \<le> length buf" for t
    by (rule 6(1)) (use that 6(2) in auto)
  have rest: "parses buf (bindk (parseredirs (Suc (length buf)) buf []) (\<lambda>rs. ret (fold redircmd rs c))) t (\<lambda>c t. words_ok buf c)"
    if "t \<le> length buf" "words_ok buf c" for c t
    by (rule parses_bind [OF parseredirs_parses]) (use that in \<open>auto intro!: ret_redirs_parses\<close>)
  show ?case unfolding parseblock.simps
  proof (rule parses_bind [OF peek_parses [OF 6(3)]], goal_cases)
    case (1 b t)
    show ?case
    proof (cases b)
      case True
      have "parses buf (bindk (gettoken buf) (\<lambda>_. bindk (parseline n buf) (\<lambda>c. bindk (peek buf '')'') (\<lambda>b.
          if \<not> b then panic ''syntax - missing )''
          else bindk (gettoken buf) (\<lambda>_. bindk (parseredirs (Suc (length buf)) buf []) (\<lambda>rs. ret (fold redircmd rs c))))))) t (\<lambda>c t. words_ok buf c)"
      proof (rule parses_token, goal_cases)
        case (4 _ u)
        show ?case
        proof (rule parses_bind [OF line], goal_cases)
          case (3 c v)
          show ?case
            by (rule parses_bind [OF peek_parses]) (use 3 in \<open>auto simp: parses_panic intro!: parses_token rest\<close>)
        qed (use 1 4 in auto)
      qed (use 1 True in auto)
      then show ?thesis using True by simp
    qed (simp add: parses_panic)
  qed
next
  case (8 n buf)
  show ?case unfolding parseexec.simps
  proof (rule parses_bind [OF peek_parses [OF 8(3)]], goal_cases)
    case (1 b t)
    show ?case
    proof (cases b)
      case True
      then show ?thesis using 1 8 by auto
    next
      case False
      have "parses buf (bindk (parseredirs (Suc (length buf)) buf []) (\<lambda>rs. bindk (parseargs (Suc (length buf)) buf [] rs) (\<lambda>(argv, rs).
          ret (fold redircmd rs (EXEC argv))))) t (\<lambda>c t. words_ok buf c)"
      proof (rule parses_bind [OF parseredirs_parses], goal_cases)
        case (4 rs u)
        show ?case
          by (rule parses_bind [OF parseargs_parses]) (use 4 in \<open>auto intro!: ret_redirs_parses\<close>)
      qed (use 1 in auto)
      then show ?thesis using False by simp
    qed
  qed
qed simp_all

section \<open>The strings of a command\<close>

lemma nulterminate_ranges: "nulterminate c arr = fold (\<lambda>r arr. arr[snd r := 0]) (ranges c) arr"
  by (induction c arbitrary: arr) (simp_all add: split_def)

lemma zero_ends:
  "length (fold (\<lambda>r arr. arr[snd r := 0]) rs arr) = length arr"
  "i < length arr \<Longrightarrow> fold (\<lambda>r arr. arr[snd r := 0]) rs arr ! i = (if i \<in> snd ` set rs then 0 else arr ! i)"
  by (induction rs arbitrary: arr) (auto simp: nth_list_update)

lemma takeWhile_prefix:
  assumes "k < length xs" and "\<And>i. i < k \<Longrightarrow> P (xs ! i)" and "\<not> P (xs ! k)"
  shows "takeWhile P xs = take k xs"
  using assms by (intro takeWhile_eq_take_P_nth) auto

definition sub :: "byte list \<Rightarrow> nat \<times> nat \<Rightarrow> byte list" where
  "sub buf r = take (snd r - fst r) (drop (fst r) buf)"

text \<open>Cutting the line up for one word does not damage another.\<close>

lemma nulterminate_word:
  assumes "words_ok buf c" and "0 \<notin> set buf" and "(q, eq) \<in> set (ranges c)"
  shows "cstr_at (nulterminate c (buf @ [0])) q = sub buf (q, eq)"
proof -
  let ?arr = "nulterminate c (buf @ [0])"
  have w: "q < eq" "eq \<le> length buf" "\<And>i. q \<le> i \<Longrightarrow> i < eq \<Longrightarrow> sh_word (buf ! i)"
    using assms(1,3) by (auto simp: word_at_def)
  have len: "length ?arr = Suc (length buf)" by (simp add: nulterminate_ranges zero_ends)
  have inside: "?arr ! i = buf ! i" if "q \<le> i" "i < eq" for i
  proof -
    have "i \<notin> snd ` set (ranges c)"
      using assms(1) w(2) w(3) [OF that] that by (fastforce simp: word_at_def)
    then show ?thesis using that w(2) by (simp add: nulterminate_ranges zero_ends nth_append)
  qed
  have nonzero: "buf ! i \<noteq> 0" if "i < length buf" for i using assms(2) that nth_mem by metis
  have "?arr ! eq = 0"
    using assms(3) w(2) by (force simp: nulterminate_ranges zero_ends)
  then have "takeWhile (\<lambda>c. c \<noteq> 0) (drop q ?arr) = take (eq - q) (drop q ?arr)"
    using w(1,2) len inside nonzero by (intro takeWhile_prefix) auto
  also have "\<dots> = take (eq - q) (drop q buf)"
    using w(1,2) len inside by (intro nth_equalityI) auto
  finally show ?thesis by (simp add: cstr_at_def sub_def)
qed

lemma sh_panic_run:
  "sh_panic msg s = Block (s\<lparr>calls := calls s @ map (\<lambda>c. CWrite 2 [c]) (bstr msg @ [10]) @ [CExit]\<rparr>)"
proof -
  have "uprint 2 ''%s\<newline>'' [sarg (bstr msg)] s = Ret () (s\<lparr>calls := calls s @ map (\<lambda>c. CWrite 2 [c]) (bstr msg @ [10])\<rparr>)"
    unfolding uprint_def by (rule uprintf_run) simp
  then show ?thesis by (simp add: sh_panic_def uexit_def)
qed

lemma written_bytes: "written fd (map (\<lambda>c. CWrite fd [c]) cs) = cs"
  by (induction cs) simp_all

text \<open>C21. The parser of the shell is safe on every line: the recursion ends, and either the
  shell has printed a message and exited, or there is a command. In the latter case each word
  of the command is, as the C string \<open>runcmd\<close> will read, a part of the line that has no white
  space and no symbol in it: cutting the line into strings does not damage any word.\<close>

theorem parsecmd_safe:
  assumes "0 \<notin> set line"
  shows "(\<exists>cs. parsecmd line s = Block (s\<lparr>calls := calls s @ cs @ [CExit]\<rparr>) \<and> written 2 cs \<noteq> []) \<or>
    (\<exists>c arr. parsecmd line s = Ret (c, arr) s \<and>
      (\<forall>(q, eq) \<in> set (ranges c). cstr_at arr q = sub line (q, eq) \<and> cstr_at arr q \<noteq> [] \<and>
        (\<forall>b \<in> set (cstr_at arr q). \<not> sh_space b \<and> \<not> sh_symbol b)))"
proof -
  let ?p = "bindk (parseline (4 * length line + 4) line) (\<lambda>c. thenk (peek line '''') (ret c))"
  have "parses line ?p 0 (\<lambda>c t. words_ok line c)"
  proof (rule parses_bind [OF parser_parses(1)], goal_cases)
    case (3 c t)
    then show ?case unfolding thenk_def
      by (intro parses_bind [OF peek_parses] parses_ret) auto
  qed simp_all
  then consider (panic) msg where "?p 0 = Panic msg" | (ok) c t where "?p 0 = Ret c t" "words_ok line c"
    by (auto simp: parses_def split: outcome.splits)
  then show ?thesis
  proof cases
    case panic
    then show ?thesis unfolding parsecmd_def
      by (intro disjI1 exI [of _ "map (\<lambda>c. CWrite 2 [c]) (bstr msg @ [10])"]) (simp add: sh_panic_run)
  next
    case ok
    show ?thesis
    proof (cases "t = length line")
      case True
      have "cstr_at (nulterminate c (line @ [0])) q = sub line (q, eq) \<and> cstr_at (nulterminate c (line @ [0])) q \<noteq> [] \<and>
          (\<forall>b \<in> set (cstr_at (nulterminate c (line @ [0])) q). \<not> sh_space b \<and> \<not> sh_symbol b)"
        if "(q, eq) \<in> set (ranges c)" for q eq
        using nulterminate_word [OF ok(2) assms that] ok(2) that
        by (fastforce simp: sub_def word_at_def sh_word_def in_set_conv_nth)
      then show ?thesis using ok(1) True by (intro disjI2) (auto simp: parsecmd_def)
    next
      case False
      have "uprint 2 ''leftovers: %s\<newline>'' [sarg (drop t line)] s =
          Ret () (s\<lparr>calls := calls s @ map (\<lambda>c. CWrite 2 [c]) (bstr ''leftovers: '' @ drop t line @ [10])\<rparr>)"
        unfolding uprint_def by (rule uprintf_run) simp
      then show ?thesis using ok(1) False
        by (intro disjI1 exI [of _ "map (\<lambda>c. CWrite 2 [c]) (bstr ''leftovers: '' @ drop t line @ [10] @ bstr ''syntax'' @ [10])"])
          (simp add: parsecmd_def sh_panic_run)
    qed
  qed
qed

theorem parsecmd_safe_witness:
  "(\<exists>cs. parsecmd (bstr ''ls>f'') (demo_user []) = Block ((demo_user [])\<lparr>calls := calls (demo_user []) @ cs @ [CExit]\<rparr>) \<and> written 2 cs \<noteq> []) \<or>
    (\<exists>c arr. parsecmd (bstr ''ls>f'') (demo_user []) = Ret (c, arr) (demo_user []) \<and>
      (\<forall>(q, eq) \<in> set (ranges c). cstr_at arr q = sub (bstr ''ls>f'') (q, eq) \<and> cstr_at arr q \<noteq> [] \<and>
        (\<forall>b \<in> set (cstr_at arr q). \<not> sh_space b \<and> \<not> sh_symbol b)))"
  by (rule parsecmd_safe) simp

section \<open>What a line means\<close>

text \<open>The commands of the shell's language, how they are written, and the command they stand
  for, with strings in place of positions.\<close>

datatype rd = RIn "byte list" | ROut "byte list" | RApp "byte list"

datatype sline = SEnd spipe nat | SSeq spipe nat sline
  and spipe = SOne sexec | SPipe sexec spipe
  and sexec = SSimple "byte list list" "rd list" | SBlock sline "rd list"

primrec show_rd :: "rd \<Rightarrow> byte list" where
  "show_rd (RIn w) = chr CHR ''<'' # w @ [32]"
| "show_rd (ROut w) = chr CHR ''>'' # w @ [32]"
| "show_rd (RApp w) = chr CHR ''>'' # chr CHR ''>'' # w @ [32]"

primrec show_line :: "sline \<Rightarrow> byte list"
  and show_pipe :: "spipe \<Rightarrow> byte list"
  and show_exec :: "sexec \<Rightarrow> byte list" where
  "show_line (SEnd p k) = show_pipe p @ replicate k (chr CHR ''&'')"
| "show_line (SSeq p k l) = show_pipe p @ replicate k (chr CHR ''&'') @ [chr CHR '';''] @ show_line l"
| "show_pipe (SOne e) = show_exec e"
| "show_pipe (SPipe e p) = show_exec e @ [chr CHR ''|''] @ show_pipe p"
| "show_exec (SSimple ws rs) = concat (map (\<lambda>w. w @ [32]) ws) @ concat (map show_rd rs)"
| "show_exec (SBlock l rs) = [chr CHR ''(''] @ show_line l @ [chr CHR '')''] @ concat (map show_rd rs)"

definition valid_word :: "byte list \<Rightarrow> bool" where
  "valid_word w \<longleftrightarrow> w \<noteq> [] \<and> (\<forall>c \<in> set w. c \<noteq> 0 \<and> sh_word c)"

primrec rd_word :: "rd \<Rightarrow> byte list" where
  "rd_word (RIn w) = w"
| "rd_word (ROut w) = w"
| "rd_word (RApp w) = w"

text \<open>At most nine words in a simple command.\<close>

primrec valid_line :: "sline \<Rightarrow> bool"
  and valid_pipe :: "spipe \<Rightarrow> bool"
  and valid_exec :: "sexec \<Rightarrow> bool" where
  "valid_line (SEnd p k) = valid_pipe p"
| "valid_line (SSeq p k l) = (valid_pipe p \<and> valid_line l)"
| "valid_pipe (SOne e) = valid_exec e"
| "valid_pipe (SPipe e p) = (valid_exec e \<and> valid_pipe p)"
| "valid_exec (SSimple ws rs) = (length ws < MAXARGS \<and> (\<forall>w \<in> set ws. valid_word w) \<and> (\<forall>r \<in> set rs. valid_word (rd_word r)))"
| "valid_exec (SBlock l rs) = (valid_line l \<and> (\<forall>r \<in> set rs. valid_word (rd_word r)))"

datatype shcmd =
    XExec "byte list list"
  | XRedir shcmd "byte list" int int
  | XPipe shcmd shcmd
  | XList shcmd shcmd
  | XBack shcmd

text \<open>A command of the parser with its words read by \<open>f\<close>.\<close>

primrec view :: "(nat \<times> nat \<Rightarrow> byte list) \<Rightarrow> cmd \<Rightarrow> shcmd" where
  "view f (EXEC argv) = XExec (map f argv)"
| "view f (REDIR c q eq mode fd) = XRedir (view f c) (f (q, eq)) mode fd"
| "view f (PIPE l r) = XPipe (view f l) (view f r)"
| "view f (LIST l r) = XList (view f l) (view f r)"
| "view f (BACK c) = XBack (view f c)"

text \<open>\<open><\<close> reads from descriptor 0; both \<open>>\<close> and \<open>>>\<close> create the file and write to descriptor 1.\<close>

definition mean_rd :: "rd \<Rightarrow> shcmd \<Rightarrow> shcmd" where
  "mean_rd r c = (case r of RIn w \<Rightarrow> XRedir c w 0 0 | ROut w \<Rightarrow> XRedir c w 0x201 1 | RApp w \<Rightarrow> XRedir c w 0x201 1)"

primrec mean_line :: "sline \<Rightarrow> shcmd"
  and mean_pipe :: "spipe \<Rightarrow> shcmd"
  and mean_exec :: "sexec \<Rightarrow> shcmd" where
  "mean_line (SEnd p k) = (XBack ^^ k) (mean_pipe p)"
| "mean_line (SSeq p k l) = XList ((XBack ^^ k) (mean_pipe p)) (mean_line l)"
| "mean_pipe (SOne e) = mean_exec e"
| "mean_pipe (SPipe e p) = XPipe (mean_exec e) (mean_pipe p)"
| "mean_exec (SSimple ws rs) = fold mean_rd rs (XExec ws)"
| "mean_exec (SBlock l rs) = fold mean_rd rs (mean_line l)"

subsection \<open>Scanning\<close>

lemma skip_while_takeWhile: "skip_while P buf s = s + length (takeWhile P (drop s buf))"
proof (induction P buf s rule: skip_while.induct)
  case (1 P buf s)
  then show ?case by (cases "s < length buf") (simp_all add: skip_while.simps [of P buf s] Cons_nth_drop_Suc [symmetric])
qed

lemma at_drop: "at buf s = (case drop s buf of [] \<Rightarrow> 0 | c # _ \<Rightarrow> c)"
  by (cases "s < length buf") (simp_all add: at_def Cons_nth_drop_Suc [symmetric])

lemma drop_add: "drop s buf = xs @ ys \<Longrightarrow> drop (s + length xs) buf = ys"
  by (metis add.commute append_eq_conv_conj drop_drop)

text \<open>Text that does not start with white space.\<close>

definition starts :: "byte list \<Rightarrow> bool" where
  "starts xs \<longleftrightarrow> xs = [] \<or> \<not> sh_space (hd xs)"

lemma starts_skip: "starts xs \<Longrightarrow> takeWhile sh_space xs = []"
  by (cases xs) (auto simp: starts_def)

lemma sh_single_not_space: "sh_single c \<Longrightarrow> \<not> sh_space c \<and> c \<noteq> 0 \<and> c \<noteq> 62"
  by (auto simp: sh_single_def sh_space_def occurs_def)

lemma peek_drop:
  "drop s buf = xs \<Longrightarrow> starts xs \<Longrightarrow>
    peek buf toks s = Ret (case xs of [] \<Rightarrow> False | c # _ \<Rightarrow> c \<noteq> 0 \<and> occurs (bstr toks) c) s"
  by (auto simp: peek_def Let_def skip_while_takeWhile starts_skip at_drop split: list.split)

lemma gettoken_end: "drop s buf = [] \<Longrightarrow> gettoken buf s = Ret (0, s, s) s"
  by (simp add: gettoken_def Let_def skip_while_takeWhile at_drop)

lemma gettoken_single:
  assumes "drop s buf = c # xs" and "sh_single c" and "starts xs"
  shows "gettoken buf s = Ret (c, s, Suc s) (Suc s)"
proof -
  have "drop (Suc s) buf = xs" using drop_add [of s buf "[c]" xs] assms(1) by simp
  then show ?thesis
    using assms sh_single_not_space [OF assms(2)] by (simp add: gettoken_def Let_def skip_while_takeWhile at_drop starts_skip)
qed

lemma sh_space_62: "\<not> sh_space 62"
  by (simp add: sh_space_def occurs_def)

lemma gettoken_gt:
  assumes "drop s buf = 62 # c # xs" and "\<not> sh_space c"
  shows "gettoken buf s = (if c = 62 then Ret (43, s, s + 2) (s + 2 + length (takeWhile sh_space xs)) else Ret (62, s, Suc s) (Suc s))"
proof -
  have "drop (Suc s) buf = c # xs" "drop (Suc (Suc s)) buf = xs"
    using drop_add [of s buf "[62]"] drop_add [of s buf "[62, c]"] assms(1) by simp_all
  then show ?thesis
    using assms sh_space_62 by (simp add: gettoken_def Let_def skip_while_takeWhile at_drop)
qed

lemma valid_wordD: "valid_word w \<Longrightarrow> w \<noteq> [] \<and> hd w \<noteq> 0 \<and> \<not> sh_space (hd w) \<and> \<not> sh_symbol (hd w)"
  by (cases w) (simp_all add: valid_word_def sh_word_def)

lemma gettoken_word:
  assumes "drop s buf = w @ 32 # xs" and "valid_word w" and "starts xs"
  shows "gettoken buf s = Ret (chr CHR ''a'', s, s + length w) (s + length w + 1)" and "sub buf (s, s + length w) = w"
proof -
  obtain c v where w: "w = c # v" "c \<noteq> 0" "\<not> sh_space c" "\<not> sh_symbol c"
    using valid_wordD [OF assms(2)] by (cases w) auto
  have end_: "drop (s + length w) buf = 32 # xs" using drop_add [OF assms(1)] .
  have "sh_space 32" by (simp add: sh_space_def occurs_def)
  moreover have "takeWhile (\<lambda>c. \<not> sh_space c \<and> \<not> sh_symbol c) (w @ 32 # xs) = w"
    using assms(2) \<open>sh_space 32\<close> by (subst takeWhile_append2) (auto simp: valid_word_def sh_word_def)
  ultimately show "gettoken buf s = Ret (chr CHR ''a'', s, s + length w) (s + length w + 1)"
    using w assms(1,3) end_ sh_symbol_cases [of c]
    by (simp add: gettoken_def Let_def skip_while_takeWhile at_drop starts_skip)
  show "sub buf (s, s + length w) = w" using assms(1) by (simp add: sub_def)
qed

subsection \<open>Parsing\<close>

definition follow :: "string \<Rightarrow> byte list \<Rightarrow> bool" where
  "follow cs xs \<longleftrightarrow> xs = [] \<or> hd xs \<in> set (bstr cs)"

abbreviation show_rds :: "rd list \<Rightarrow> byte list" where
  "show_rds rs \<equiv> concat (map show_rd rs)"

abbreviation show_words :: "byte list list \<Rightarrow> byte list" where
  "show_words ws \<equiv> concat (map (\<lambda>w. w @ [32]) ws)"

lemma starts_word: "valid_word w \<Longrightarrow> starts (w @ xs)"
  using valid_wordD [of w] by (simp add: starts_def hd_append)

lemma starts_rds: "starts xs \<Longrightarrow> starts (show_rds rs @ xs)"
proof (cases rs)
  case (Cons r rs')
  then show ?thesis by (cases r) (simp_all add: starts_def sh_space_def occurs_def)
qed simp

lemma starts_words: "\<forall>w \<in> set ws. valid_word w \<Longrightarrow> starts xs \<Longrightarrow> starts (show_words ws @ xs)"
  using starts_word by (cases ws) auto

lemma starts_symbol: "c \<in> set (bstr ''|)&;('') \<Longrightarrow> starts (c # xs)"
  by (auto simp: starts_def sh_space_def occurs_def)

lemma follow_starts: "follow cs xs \<Longrightarrow> set cs \<subseteq> set ''|)&;'' \<Longrightarrow> starts xs"
  by (cases xs) (use starts_symbol in \<open>auto simp: follow_def starts_def [of "[]"]\<close>)

lemma rd_tokens:
  assumes "drop s buf = show_rd r @ xs" and "valid_word (rd_word r)" and "starts xs"
  shows "peek buf ''<>'' s = Ret True s \<and> (\<exists>tok a b q. gettoken buf s = Ret (tok, a, b) q \<and>
    gettoken buf q = Ret (chr CHR ''a'', q, q + length (rd_word r)) (s + length (show_rd r)) \<and>
    sub buf (q, q + length (rd_word r)) = rd_word r \<and> (tok = chr CHR ''<'' \<longleftrightarrow> (\<exists>w. r = RIn w)))"
proof -
  obtain c v where w: "rd_word r = c # v" "\<not> sh_space c" "\<not> sh_symbol c"
    using valid_wordD [OF assms(2)] by (cases "rd_word r") auto
  have c: "c \<noteq> 62" using w(3) by (auto simp: sh_symbol_cases)
  have "peek buf ''<>'' s = Ret True s"
    by (subst peek_drop [OF assms(1)], cases r) (simp_all add: starts_def sh_space_def occurs_def, (cases r, simp_all add: occurs_def)?)
  moreover have "\<exists>tok a b q. gettoken buf s = Ret (tok, a, b) q \<and> drop q buf = rd_word r @ 32 # xs \<and>
      s + length (show_rd r) = q + length (rd_word r) + 1 \<and> (tok = chr CHR ''<'' \<longleftrightarrow> (\<exists>w. r = RIn w))"
  proof (cases r)
    case (RIn w')
    then show ?thesis
      using gettoken_single [of s buf "chr CHR ''<''" "w' @ 32 # xs"] drop_add [of s buf "[chr CHR ''<'']" "w' @ 32 # xs"] assms starts_word
      by (simp add: sh_single_def)
  next
    case (ROut w')
    then show ?thesis
      using gettoken_gt [of s buf c "v @ 32 # xs"] drop_add [of s buf "[62]" "w' @ 32 # xs"] assms(1) w c by simp
  next
    case (RApp w')
    then show ?thesis
      using gettoken_gt [of s buf 62 "w' @ 32 # xs"] drop_add [of s buf "[62, 62]" "w' @ 32 # xs"] assms(1) w sh_space_62 by simp
  qed
  ultimately show ?thesis
    using gettoken_word [OF _ assms(2,3)] by metis
qed

text \<open>The redirections \<open>rv\<close> stand for \<open>rs\<close>.\<close>

definition redirs_mean :: "byte list \<Rightarrow> redir list \<Rightarrow> rd list \<Rightarrow> bool" where
  "redirs_mean buf rv rs \<longleftrightarrow> (\<forall>c. view (sub buf) (fold redircmd rv c) = fold mean_rd rs (view (sub buf) c))"

lemma parseredirs_shown:
  assumes "drop s buf = show_rds rs @ xs" and "\<forall>r \<in> set rs. valid_word (rd_word r)" and "starts xs" and "xs = [] \<or> \<not> occurs (bstr ''<>'') (hd xs)" and "length rs < n"
  shows "\<exists>rv. parseredirs n buf rs0 s = Ret (rs0 @ rv) (s + length (show_rds rs)) \<and> redirs_mean buf rv rs"
  using assms
proof (induction rs arbitrary: s n rs0)
  case Nil
  then have "peek buf ''<>'' s = Ret False s" by (subst peek_drop [OF Nil(1)]) (auto split: list.split)
  then show ?case using Nil(5) by (cases n) (auto simp: parseredirs.simps redirs_mean_def bindk_def)
next
  case (Cons r rs)
  obtain m where n: "n = Suc m" "length rs < m" using Cons.prems(5) by (cases n) auto
  have d: "drop s buf = show_rd r @ (show_rds rs @ xs)" using Cons.prems(1) by simp
  have d': "drop (s + length (show_rd r)) buf = show_rds rs @ xs" using drop_add [OF d] .
  obtain tok a b q where t: "peek buf ''<>'' s = Ret True s" "gettoken buf s = Ret (tok, a, b) q"
      "gettoken buf q = Ret (chr CHR ''a'', q, q + length (rd_word r)) (s + length (show_rd r))"
      "sub buf (q, q + length (rd_word r)) = rd_word r" "tok = chr CHR ''<'' \<longleftrightarrow> (\<exists>w. r = RIn w)"
    using rd_tokens [OF d _ starts_rds] Cons.prems(2,3) by auto
  let ?r = "if tok = chr CHR ''<'' then (q, q + length (rd_word r), 0, 0) else (q, q + length (rd_word r), 0x201, 1)"
  obtain rv where rv: "parseredirs m buf (rs0 @ [?r]) (s + length (show_rd r)) =
      Ret ((rs0 @ [?r]) @ rv) (s + length (show_rd r) + length (show_rds rs))" "redirs_mean buf rv rs"
    using Cons.IH [OF d' _ Cons.prems(3,4) n(2), of "rs0 @ [?r]"] Cons.prems(2) by auto
  have "view (sub buf) (redircmd ?r c) = mean_rd r (view (sub buf) c)" for c
    using t(4,5) by (cases r) (auto simp: redircmd_def mean_rd_def)
  then have "redirs_mean buf (?r # rv) (r # rs)" using rv(2) by (simp add: redirs_mean_def)
  moreover have "parseredirs n buf rs0 s = Ret (rs0 @ ?r # rv) (s + length (show_rds (r # rs)))"
    using rv(1) t(1-3) by (simp add: n(1) parseredirs.simps bindk_def add.assoc)
  ultimately show ?case by blast
qed

lemma length_rds: "length rs \<le> length (show_rds rs)"
proof (induction rs)
  case (Cons r rs)
  then show ?case by (cases r) auto
qed simp

lemma not_redir_follow: "follow ''|)&;'' xs \<Longrightarrow> xs = [] \<or> \<not> occurs (bstr ''<>'') (hd xs)"
  by (auto simp: follow_def occurs_def)

lemma not_redir_word: "valid_word w \<Longrightarrow> \<not> occurs (bstr ''<>'') (hd (w @ xs))"
  using valid_wordD [of w] by (auto simp: hd_append sh_symbol_def occurs_def)

lemma parseargs_shown:
  assumes "drop s buf = show_words ws @ show_rds rs @ xs" and "\<forall>w \<in> set ws. valid_word w" and "\<forall>r \<in> set rs. valid_word (rd_word r)"
    and "follow ''|)&;'' xs" and "ws = [] \<longrightarrow> rs = []" and "length ws < n" and "length argv + length ws < MAXARGS"
  shows "\<exists>av rv. parseargs n buf argv rs0 s = Ret (argv @ av, rs0 @ rv) (s + length (show_words ws) + length (show_rds rs)) \<and>
    map (sub buf) av = ws \<and> redirs_mean buf rv rs"
  using assms
proof (induction ws arbitrary: s n argv rs rs0)
  case Nil
  have st: "starts xs" using follow_starts [OF Nil(4)] by simp
  have "drop s buf = xs" using Nil by simp
  then have "parseargs n buf argv rs0 s = Ret (argv, rs0) s"
    using Nil(4,6) peek_drop [OF _ st, of s buf "''|)&;''"] gettoken_end [of s buf]
    by (cases n; cases xs) (auto simp: parseargs.simps bindk_def follow_def occurs_def)
  then show ?case using Nil(5) by (auto simp: redirs_mean_def)
next
  case (Cons w ws)
  obtain m where n: "n = Suc m" "length ws < m" using Cons.prems(6) by (cases n) auto
  let ?q = "s + length w" and ?t = "s + length (w @ [32])"
  have st: "starts xs" using follow_starts [OF Cons.prems(4)] by simp
  have d: "drop s buf = w @ 32 # (show_words ws @ show_rds rs @ xs)" using Cons.prems(1) by simp
  then have d': "drop ?t buf = show_words ws @ show_rds rs @ xs" using drop_add [of s buf "w @ [32]"] by simp
  have v: "valid_word w" "\<forall>w \<in> set ws. valid_word w" using Cons.prems(2) by auto
  have tok: "gettoken buf s = Ret (chr CHR ''a'', s, ?q) ?t" "sub buf (s, ?q) = w"
    using gettoken_word [OF d v(1) starts_words [OF v(2) starts_rds [OF st]]] by simp_all
  have pk: "peek buf ''|)&;'' s = Ret False s"
    using valid_wordD [OF v(1)] peek_drop [OF d starts_word [OF v(1)], of "''|)&;''"]
    by (cases w) (auto simp: occurs_def sh_symbol_def)
  have len: "Suc (length argv) < MAXARGS" using Cons.prems(7) by simp
  have step: "parseargs n buf argv rs0 s =
      bindk (parseredirs (Suc (length buf)) buf rs0) (\<lambda>rs. parseargs m buf (argv @ [(s, ?q)]) rs) ?t"
    using pk tok(1) len by (simp add: n(1) parseargs.simps bindk_def)
  obtain rs1 rs2 where rs: "rs = rs1 @ rs2" "ws = [] \<longrightarrow> rs2 = []" "ws \<noteq> [] \<longrightarrow> rs1 = []"
    by (cases "ws = []") auto
  let ?ys = "show_words ws @ show_rds rs2 @ xs" and ?u = "?t + length (show_rds rs1)"
  have d1: "drop ?t buf = show_rds rs1 @ ?ys" using d' rs by (cases "ws = []") simp_all
  have ys: "starts ?ys" by (rule starts_words [OF v(2) starts_rds [OF st]])
  have ys': "?ys = [] \<or> \<not> occurs (bstr ''<>'') (hd ?ys)"
    using v(2) rs(2) not_redir_follow [OF Cons.prems(4)] not_redir_word by (cases ws) auto
  have l: "length rs1 < Suc (length buf)"
    using length_rds [of rs1] arg_cong [OF d1, of length] by simp
  have vr: "\<forall>r \<in> set rs1. valid_word (rd_word r)" "\<forall>r \<in> set rs2. valid_word (rd_word r)" using Cons.prems(3) rs(1) by auto
  obtain rv1 where r1: "parseredirs (Suc (length buf)) buf rs0 ?t = Ret (rs0 @ rv1) ?u" "redirs_mean buf rv1 rs1"
    using parseredirs_shown [OF d1 vr(1) ys ys' l, of rs0] by blast
  have l2: "length (argv @ [(s, ?q)]) + length ws < MAXARGS" using Cons.prems(7) by simp
  obtain av rv2 where r2: "parseargs m buf (argv @ [(s, ?q)]) (rs0 @ rv1) ?u =
      Ret ((argv @ [(s, ?q)]) @ av, (rs0 @ rv1) @ rv2) (?u + length (show_words ws) + length (show_rds rs2))"
      "map (sub buf) av = ws" "redirs_mean buf rv2 rs2"
    using Cons.IH [OF drop_add [OF d1] v(2) vr(2) Cons.prems(4) rs(2) n(2) l2, of "rs0 @ rv1"] by blast
  have "redirs_mean buf (rv1 @ rv2) rs" using r1(2) r2(3) rs(1) by (simp add: redirs_mean_def)
  moreover have "?u + length (show_words ws) + length (show_rds rs2) = s + length (show_words (w # ws)) + length (show_rds rs)"
    using rs(1) by simp
  ultimately show ?case
    using step r1(1) r2(1,2) tok(2) by (intro exI [of _ "(s, ?q) # av"] exI [of _ "rv1 @ rv2"]) (simp add: bindk_def)
qed

lemma occurs_set: "occurs cs b \<Longrightarrow> b \<in> set cs"
proof (induction cs)
  case (Cons c cs)
  then show ?case by (auto simp: occurs_def split: if_splits option.splits)
qed (simp add: occurs_def)

lemma peek_no:
  "drop s buf = xs \<Longrightarrow> follow cs xs \<Longrightarrow> set cs \<subseteq> set ''|)&;'' \<Longrightarrow> set (bstr toks) \<inter> set (bstr cs) = {} \<Longrightarrow>
    peek buf toks s = Ret False s"
  using peek_drop [of s buf xs toks] follow_starts [of cs xs] occurs_set [of "bstr toks" "hd xs"]
  by (cases xs) (auto simp: follow_def)

lemma peek_yes:
  "drop s buf = c # xs \<Longrightarrow> sh_single c \<Longrightarrow> occurs (bstr toks) c \<Longrightarrow> peek buf toks s = Ret True s"
  using peek_drop [of s buf "c # xs" toks] sh_single_not_space [of c] by (simp add: starts_def)

lemma follow_mono: "follow cs xs \<Longrightarrow> set cs \<subseteq> set ds \<Longrightarrow> follow ds xs"
  by (auto simp: follow_def)

lemma starts_backs: "starts xs \<Longrightarrow> starts (replicate k (chr CHR ''&'') @ xs)"
  using starts_symbol [of "chr CHR ''&''"] by (cases k) simp_all

lemma starts_show:
  "valid_line l \<Longrightarrow> starts xs \<Longrightarrow> starts (show_line l @ xs)"
  "valid_pipe p \<Longrightarrow> starts xs \<Longrightarrow> starts (show_pipe p @ xs)"
  "valid_exec e \<Longrightarrow> starts xs \<Longrightarrow> starts (show_exec e @ xs)"
  by (induction l and p and e arbitrary: xs and xs and xs)
    (simp_all add: starts_words starts_rds starts_symbol starts_backs [simplified])

lemma parsebacks_shown:
  "drop s buf = replicate k (chr CHR ''&'') @ xs \<Longrightarrow> starts xs \<Longrightarrow> xs = [] \<or> hd xs \<noteq> chr CHR ''&'' \<Longrightarrow> k < n \<Longrightarrow>
    parsebacks n buf c s = Ret ((BACK ^^ k) c) (s + k)"
proof (induction k arbitrary: s n c)
  case 0
  then have "peek buf ''&'' s = Ret False s"
    using peek_drop [of s buf xs "''&''"] occurs_set [of "bstr ''&''" "hd xs"] by (cases xs) auto
  then show ?case using 0 by (cases n) (simp_all add: parsebacks.simps bindk_def)
next
  case (Suc k)
  obtain m where n: "n = Suc m" "k < m" using Suc.prems(4) by (cases n) auto
  have d: "drop s buf = chr CHR ''&'' # (replicate k (chr CHR ''&'') @ xs)" using Suc.prems(1) by simp
  have single: "sh_single (chr CHR ''&'')" by (simp add: sh_single_def)
  have "peek buf ''&'' s = Ret True s" by (rule peek_yes [OF d single]) (simp add: occurs_def)
  moreover have "gettoken buf s = Ret (chr CHR ''&'', s, Suc s) (Suc s)"
    by (rule gettoken_single [OF d single starts_backs [OF Suc.prems(2)]])
  moreover have "parsebacks m buf (BACK c) (Suc s) = Ret ((BACK ^^ k) (BACK c)) (Suc s + k)"
    using drop_add [of s buf "[chr CHR ''&'']"] d by (intro Suc.IH Suc.prems n(2)) simp
  ultimately show ?case by (simp add: n(1) parsebacks.simps bindk_def funpow_swap1)
qed

lemma view_backs: "view f ((BACK ^^ k) c) = (XBack ^^ k) (view f c)"
  by (induction k) simp_all

lemma length_words: "length ws \<le> length (show_words ws)"
  by (induction ws) auto

definition no_paren :: "byte list \<Rightarrow> bool" where
  "no_paren xs \<longleftrightarrow> xs = [] \<or> \<not> occurs (bstr ''('') (hd xs)"

lemma no_paren_follow: "follow ''|)&;'' xs \<Longrightarrow> no_paren xs"
  by (auto simp: no_paren_def follow_def occurs_def)

lemma no_paren_words: "\<forall>w \<in> set ws. valid_word w \<Longrightarrow> no_paren xs \<Longrightarrow> no_paren (show_words ws @ xs)"
  using valid_wordD [of "hd ws"] by (cases ws) (auto simp: no_paren_def hd_append sh_symbol_def occurs_def)

lemma no_paren_rds: "no_paren xs \<Longrightarrow> no_paren (show_rds rs @ xs)"
proof (cases rs)
  case (Cons r rs')
  then show ?thesis by (cases r) (simp_all add: no_paren_def occurs_def)
qed simp

lemma peek_no_paren: "drop s buf = xs \<Longrightarrow> starts xs \<Longrightarrow> no_paren xs \<Longrightarrow> peek buf ''('' s = Ret False s"
  using peek_drop [of s buf xs "''(''"] by (cases xs) (auto simp: no_paren_def)

lemma parsesimple_shown:
  assumes "drop s buf = show_exec (SSimple ws rs) @ xs" and "valid_exec (SSimple ws rs)" and "follow ''|)&;'' xs"
  shows "\<exists>c. parseexec (Suc n) buf s = Ret c (s + length (show_exec (SSimple ws rs))) \<and> view (sub buf) c = mean_exec (SSimple ws rs)"
proof -
  have v: "length ws < MAXARGS" "\<forall>w \<in> set ws. valid_word w" "\<forall>r \<in> set rs. valid_word (rd_word r)" using assms(2) by auto
  have st: "starts xs" using follow_starts [OF assms(3)] by simp
  obtain rs1 rs2 where rs: "rs = rs1 @ rs2" "ws = [] \<longrightarrow> rs2 = []" "ws \<noteq> [] \<longrightarrow> rs1 = []"
    by (cases "ws = []") auto
  have vr: "\<forall>r \<in> set rs1. valid_word (rd_word r)" "\<forall>r \<in> set rs2. valid_word (rd_word r)" using v(3) rs(1) by auto
  let ?ys = "show_words ws @ show_rds rs2 @ xs" and ?t = "s + length (show_rds rs1)"
  have d: "drop s buf = show_rds rs1 @ ?ys" using assms(1) rs by (cases "ws = []") simp_all
  have ys: "starts ?ys" by (rule starts_words [OF v(2) starts_rds [OF st]])
  have ys': "?ys = [] \<or> \<not> occurs (bstr ''<>'') (hd ?ys)"
    using v(2) rs(2) not_redir_follow [OF assms(3)] not_redir_word by (cases ws) auto
  have l: "length rs1 < Suc (length buf)" "length ws < Suc (length buf)"
    using length_rds [of rs1] length_words [of ws] arg_cong [OF d, of length] by simp_all
  have "peek buf ''('' s = Ret False s"
    by (rule peek_no_paren [OF d starts_rds [OF ys] no_paren_rds [OF no_paren_words [OF v(2) no_paren_rds [OF no_paren_follow [OF assms(3)]]]]])
  moreover obtain rv1 where r1: "parseredirs (Suc (length buf)) buf [] s = Ret rv1 ?t" "redirs_mean buf rv1 rs1"
    using parseredirs_shown [OF d vr(1) ys ys' l(1), of "[]"] by auto
  moreover obtain av rv2 where r2: "parseargs (Suc (length buf)) buf [] rv1 ?t =
      Ret (av, rv1 @ rv2) (?t + length (show_words ws) + length (show_rds rs2))" "map (sub buf) av = ws" "redirs_mean buf rv2 rs2"
    using parseargs_shown [OF drop_add [OF d] v(2) vr(2) assms(3) rs(2) l(2), of "[]" rv1] v(1) by auto
  ultimately show ?thesis using rs(1) by (simp add: parseexec.simps bindk_def redirs_mean_def)
qed

lemma symbol_token:
  assumes "drop s buf = c # xs" and "sh_single c" and "starts xs" and "occurs (bstr toks) c"
  shows "peek buf toks s = Ret True s" and "gettoken buf s = Ret (c, s, Suc s) (Suc s)" and "drop (Suc s) buf = xs"
    and "s < length buf"
  using peek_yes [OF assms(1,2,4)] gettoken_single [OF assms(1-3)] drop_add [of s buf "[c]" xs] assms(1)
  by (simp_all, metis drop_eq_Nil linorder_not_less list.discI)

lemma singles: "sh_single (chr CHR '';'')" "sh_single (chr CHR ''|'')" "sh_single (chr CHR ''('')" "sh_single (chr CHR '')'')"
  by (simp_all add: sh_single_def)

lemma occurs_singles:
  "occurs (bstr '';'') (chr CHR '';'')" "occurs (bstr ''|'') (chr CHR ''|'')"
  "occurs (bstr ''('') (chr CHR ''('')" "occurs (bstr '')'') (chr CHR '')'')"
  by (simp_all add: occurs_def)

text \<open>The part of \<open>parseline\<close> before the semicolon.\<close>

lemma parseline_backs:
  assumes "parsepipe m buf s = Ret c t" and "drop t buf = replicate k (chr CHR ''&'') @ ys" and "follow '');'' ys"
  shows "parseline (Suc m) buf s = bindk (peek buf '';'') (\<lambda>b. if b then bindk (gettoken buf) (\<lambda>_.
      bindk (parseline m buf) (\<lambda>d. ret (LIST ((BACK ^^ k) c) d))) else ret ((BACK ^^ k) c)) (t + k)" and "drop (t + k) buf = ys"
proof -
  have "k < Suc (length buf)" using arg_cong [OF assms(2), of length] by simp
  then have "parsebacks (Suc (length buf)) buf c t = Ret ((BACK ^^ k) c) (t + k)"
    using assms(3) follow_starts [OF assms(3)] by (intro parsebacks_shown [OF assms(2)]) (auto simp: follow_def)
  then show "parseline (Suc m) buf s = bindk (peek buf '';'') (\<lambda>b. if b then bindk (gettoken buf) (\<lambda>_.
      bindk (parseline m buf) (\<lambda>d. ret (LIST ((BACK ^^ k) c) d))) else ret ((BACK ^^ k) c)) (t + k)"
    using assms(1) by (simp add: parseline.simps bindk_def)
  show "drop (t + k) buf = ys" using drop_add [OF assms(2)] by simp
qed

lemma follow_backs: "follow '');'' ys \<Longrightarrow> follow '')&;'' (replicate k (chr CHR ''&'') @ ys)"
  by (cases k) (auto simp: follow_def)

text \<open>A block, given that the line inside of it is parsed.\<close>

lemma parseblock_shown:
  assumes "drop s buf = show_exec (SBlock l rs) @ xs" and "valid_exec (SBlock l rs)" and "follow ''|)&;'' xs"
    and "\<And>ys. drop (Suc s) buf = show_line l @ ys \<Longrightarrow> follow '')'' ys \<Longrightarrow> s < length buf \<Longrightarrow>
      \<exists>c. parseline m buf (Suc s) = Ret c (Suc s + length (show_line l)) \<and> view (sub buf) c = mean_line l"
  shows "\<exists>c. parseexec (Suc (Suc m)) buf s = Ret c (s + length (show_exec (SBlock l rs))) \<and> view (sub buf) c = mean_exec (SBlock l rs)"
proof -
  let ?zs = "chr CHR '')'' # (show_rds rs @ xs)" and ?t = "Suc s + length (show_line l)"
  have v: "valid_line l" "\<forall>r \<in> set rs. valid_word (rd_word r)" using assms(2) by auto
  have st: "starts xs" using follow_starts [OF assms(3)] by simp
  have "starts (show_line l @ ?zs)" using starts_show(1) [OF v(1)] starts_symbol [of "chr CHR '')''"] by simp
  moreover have "drop s buf = chr CHR ''('' # (show_line l @ ?zs)" using assms(1) by simp
  ultimately have o: "peek buf ''('' s = Ret True s" "gettoken buf s = Ret (chr CHR ''('', s, Suc s) (Suc s)" "drop (Suc s) buf = show_line l @ ?zs" "s < length buf"
    using symbol_token [OF _ singles(3) _ occurs_singles(3)] by blast+
  note cl = symbol_token [OF drop_add [OF o(3)] singles(4) starts_rds [OF st] occurs_singles(4)]
  obtain c where c: "parseline m buf (Suc s) = Ret c ?t" "view (sub buf) c = mean_line l"
    using assms(4) [OF o(3) _ o(4)] by (auto simp: follow_def)
  have "length rs < Suc (length buf)" using length_rds [of rs] arg_cong [OF cl(3), of length] by simp
  then obtain rv where "parseredirs (Suc (length buf)) buf [] (Suc ?t) = Ret rv (Suc ?t + length (show_rds rs))" "redirs_mean buf rv rs"
    using parseredirs_shown [OF cl(3) v(2) st not_redir_follow [OF assms(3)], of "Suc (length buf)" "[]"] by auto
  then show ?thesis using c o(1,2) cl(1,2) by (simp add: parseexec.simps(2) parseblock.simps(2) bindk_def redirs_mean_def add.assoc)
qed

lemma parser_shown:
  "valid_line l \<Longrightarrow> drop s buf = show_line l @ xs \<Longrightarrow> follow '')'' xs \<Longrightarrow> 4 * (length buf - s) + 4 \<le> n \<Longrightarrow>
    \<exists>c. parseline n buf s = Ret c (s + length (show_line l)) \<and> view (sub buf) c = mean_line l"
  "valid_pipe p \<Longrightarrow> drop s buf = show_pipe p @ xs \<Longrightarrow> follow '')&;'' xs \<Longrightarrow> 4 * (length buf - s) + 3 \<le> n \<Longrightarrow>
    \<exists>c. parsepipe n buf s = Ret c (s + length (show_pipe p)) \<and> view (sub buf) c = mean_pipe p"
  "valid_exec e \<Longrightarrow> drop s buf = show_exec e @ xs \<Longrightarrow> follow ''|)&;'' xs \<Longrightarrow> 4 * (length buf - s) + 2 \<le> n \<Longrightarrow>
    \<exists>c. parseexec n buf s = Ret c (s + length (show_exec e)) \<and> view (sub buf) c = mean_exec e"
proof (induction l and p and e arbitrary: s xs n and s xs n and s xs n)
  case (SEnd p k)
  obtain m where n: "n = Suc m" "4 * (length buf - s) + 3 \<le> m" using SEnd.prems(4) by (cases n) auto
  have d: "drop s buf = show_pipe p @ (replicate k (chr CHR ''&'') @ xs)" using SEnd.prems(2) by simp
  have f: "follow '');'' xs" using follow_mono [OF SEnd.prems(3)] by simp
  obtain c where c: "parsepipe m buf s = Ret c (s + length (show_pipe p))" "view (sub buf) c = mean_pipe p"
    using SEnd.IH [OF _ d follow_backs [OF f] n(2)] SEnd.prems(1) by auto
  note l = parseline_backs [OF c(1) drop_add [OF d] f]
  have "peek buf '';'' (s + length (show_pipe p) + k) = Ret False (s + length (show_pipe p) + k)"
    by (rule peek_no [OF l(2) SEnd.prems(3)]) simp_all
  then show ?case using c(2) l(1) by (simp add: n(1) bindk_def view_backs add.assoc)
next
  case (SSeq p k l)
  obtain m where n: "n = Suc m" "4 * (length buf - s) + 3 \<le> m" using SSeq.prems(4) by (cases n) auto
  let ?zs = "chr CHR '';'' # (show_line l @ xs)" and ?t = "s + length (show_pipe p) + k"
  have v: "valid_pipe p" "valid_line l" using SSeq.prems(1) by auto
  have d: "drop s buf = show_pipe p @ (replicate k (chr CHR ''&'') @ ?zs)" using SSeq.prems(2) by simp
  have f: "follow '');'' ?zs" by (simp add: follow_def)
  obtain c where c: "parsepipe m buf s = Ret c (s + length (show_pipe p))" "view (sub buf) c = mean_pipe p"
    using SSeq.IH(1) [OF v(1) d follow_backs [OF f] n(2)] by blast
  note b = parseline_backs [OF c(1) drop_add [OF d] f]
  have "starts (show_line l @ xs)" using starts_show(1) [OF v(2)] follow_starts [OF SSeq.prems(3)] by simp
  note t = symbol_token [OF b(2) singles(1) this occurs_singles(1)]
  have "4 * (length buf - Suc ?t) + 4 \<le> m" using n(2) t(4) by simp
  then obtain c2 where "parseline m buf (Suc ?t) = Ret c2 (Suc ?t + length (show_line l))" "view (sub buf) c2 = mean_line l"
    using SSeq.IH(2) [OF v(2) t(3) SSeq.prems(3)] by blast
  then show ?case using c(2) b(1) t(1,2) by (simp add: n(1) bindk_def view_backs add.assoc)
next
  case (SOne e)
  obtain m where n: "n = Suc m" "4 * (length buf - s) + 2 \<le> m" using SOne.prems(4) by (cases n) auto
  have d: "drop s buf = show_exec e @ xs" using SOne.prems(2) by simp
  obtain c where c: "parseexec m buf s = Ret c (s + length (show_exec e))" "view (sub buf) c = mean_exec e"
    using SOne.IH [OF _ d follow_mono [OF SOne.prems(3)] n(2)] SOne.prems(1) by auto
  have "peek buf ''|'' (s + length (show_exec e)) = Ret False (s + length (show_exec e))"
    by (rule peek_no [OF drop_add [OF d] SOne.prems(3)]) simp_all
  then show ?case using c by (simp add: n(1) parsepipe.simps bindk_def)
next
  case (SPipe e p)
  obtain m where n: "n = Suc m" "4 * (length buf - s) + 2 \<le> m" using SPipe.prems(4) by (cases n) auto
  let ?zs = "chr CHR ''|'' # (show_pipe p @ xs)" and ?t = "s + length (show_exec e)"
  have v: "valid_exec e" "valid_pipe p" using SPipe.prems(1) by auto
  have d: "drop s buf = show_exec e @ ?zs" using SPipe.prems(2) by simp
  obtain c where c: "parseexec m buf s = Ret c ?t" "view (sub buf) c = mean_exec e"
    using SPipe.IH(1) [OF v(1) d _ n(2)] by (auto simp: follow_def)
  have "starts (show_pipe p @ xs)" using starts_show(2) [OF v(2)] follow_starts [OF SPipe.prems(3)] by simp
  note t = symbol_token [OF drop_add [OF d] singles(2) this occurs_singles(2)]
  have "4 * (length buf - Suc ?t) + 3 \<le> m" using n(2) t(4) by simp
  then obtain c2 where "parsepipe m buf (Suc ?t) = Ret c2 (Suc ?t + length (show_pipe p))" "view (sub buf) c2 = mean_pipe p"
    using SPipe.IH(2) [OF v(2) t(3) SPipe.prems(3)] by blast
  then show ?case using c t(1,2) by (simp add: n(1) parsepipe.simps(2) bindk_def add.assoc)
next
  case (SSimple ws rs)
  then show ?case using parsesimple_shown by (cases n) auto
next
  case (SBlock l rs)
  obtain m where n: "n = Suc (Suc m)" "4 * (length buf - s) \<le> m" using SBlock.prems(4) by (cases n; cases "n - 1") auto
  show ?case unfolding n(1)
    by (rule parseblock_shown [OF SBlock.prems(2,1,3)], rule SBlock.IH) (use SBlock.prems(1) n(2) in auto)
qed

lemma view_cong: "(\<And>r. r \<in> set (ranges c) \<Longrightarrow> f r = g r) \<Longrightarrow> view f c = view g c"
  by (induction c) auto

lemma show_nonzero:
  "valid_line l \<Longrightarrow> 0 \<notin> set (show_line l)" "valid_pipe p \<Longrightarrow> 0 \<notin> set (show_pipe p)" "valid_exec e \<Longrightarrow> 0 \<notin> set (show_exec e)"
proof (induction l and p and e)
  case (SSimple ws rs)
  moreover have "0 \<notin> set (show_rd r)" if "valid_word (rd_word r)" for r using that by (cases r) (auto simp: valid_word_def)
  ultimately show ?case by (auto simp: valid_word_def)
next
  case (SBlock l rs)
  moreover have "0 \<notin> set (show_rd r)" if "valid_word (rd_word r)" for r using that by (cases r) (auto simp: valid_word_def)
  ultimately show ?case by auto
qed auto

text \<open>C20. The parser reads every command as it is meant: for each command of the shell's language,
  however nested, the line that spells it is parsed, and the command \<open>runcmd\<close> gets, with its
  words as the C strings in the line, is the one meant. In particular \<open>>>\<close> means the same as \<open>>\<close>.\<close>

theorem parsecmd_reads_back:
  assumes "valid_line l"
  shows "\<exists>c arr. parsecmd (show_line l) s = Ret (c, arr) s \<and> view (\<lambda>(q, eq). cstr_at arr q) c = mean_line l"
proof -
  let ?line = "show_line l"
  have "\<exists>c. parseline (4 * length ?line + 4) ?line 0 = Ret c (0 + length ?line) \<and> view (sub ?line) c = mean_line l"
    by (rule parser_shown(1) [OF assms, of _ _ "[]"]) (simp_all add: follow_def)
  then obtain c where c: "parseline (4 * length ?line + 4) ?line 0 = Ret c (length ?line)" "view (sub ?line) c = mean_line l"
    by auto
  have "words_ok ?line c" using parser_parses(1) [of ?line 0 "4 * length ?line + 4"] c(1) by (simp add: parses_def)
  then have "view (\<lambda>(q, eq). cstr_at (nulterminate c (?line @ [0])) q) c = view (sub ?line) c"
    using nulterminate_word [OF _ show_nonzero(1) [OF assms]] by (intro view_cong) auto
  moreover have "peek ?line '''' (length ?line) = Ret False (length ?line)"
    using peek_drop [of "length ?line" ?line "[]"] by (simp add: starts_def)
  ultimately show ?thesis using c by (simp add: parsecmd_def bindk_def thenk_def)
qed

text \<open>\<open>a b <f &;(c |d )>g \<close>\<close>

definition demo_line :: sline where
  "demo_line = SSeq (SOne (SSimple [bstr ''a'', bstr ''b''] [RIn (bstr ''f'')])) 1
    (SEnd (SOne (SBlock (SEnd (SPipe (SSimple [bstr ''c''] []) (SOne (SSimple [bstr ''d''] []))) 0) [ROut (bstr ''g'')])) 0)"

theorem parsecmd_reads_back_witness:
  "\<exists>c arr. parsecmd (bstr ''a b <f &;(c |d )>g '') (demo_user []) = Ret (c, arr) (demo_user []) \<and>
    view (\<lambda>(q, eq). cstr_at arr q) c = XList (XBack (XRedir (XExec [bstr ''a'', bstr ''b'']) (bstr ''f'') 0 0))
      (XRedir (XPipe (XExec [bstr ''c'']) (XExec [bstr ''d''])) (bstr ''g'') 0x201 1)"
  using parsecmd_reads_back [of demo_line "demo_user []"]
  by (simp add: demo_line_def valid_word_def sh_word_def sh_space_def sh_symbol_def occurs_def mean_rd_def)

section \<open>Running a command\<close>

definition gone :: "'z user_state_scheme \<Rightarrow> bool" where
  "gone t \<longleftrightarrow> last (calls t) = CExit \<or>
    (\<exists>path argv. last (calls t) = CExec path argv \<and> u_ret (kern t (calls t)) = 0)"

definition leaves :: "('a, 'z user_state_scheme) kernel \<Rightarrow> bool" where
  "leaves f \<longleftrightarrow> (\<forall>s. \<exists>t. f s = Block t \<and> gone t)"

lemma leaves_uexit: "leaves uexit"
  by (simp add: leaves_def gone_def uexit_def)

lemma leaves_sh_panic: "leaves (sh_panic msg)"
  by (simp add: leaves_def gone_def sh_panic_run)

lemma leaves_first: "leaves f \<Longrightarrow> leaves (thenk f g)"
  unfolding leaves_def by (metis thenk_Block)

lemma leaves_call: "(\<And>r. leaves (g r)) \<Longrightarrow> leaves (bindk (ucalli c) g)"
  by (simp add: leaves_def bindk_def)

lemma leaves_sys: "(\<And>r. leaves (g r)) \<Longrightarrow> leaves (bindk (usys c) g)"
  by (simp add: leaves_def bindk_def)

lemma leaves_then: "leaves g \<Longrightarrow> leaves (thenk (ucalli c) g)" "leaves g \<Longrightarrow> leaves (thenk (uclose fd) g)"
  by (simp_all add: leaves_def thenk_def bindk_def)

lemma leaves_fork1:
  assumes "\<And>pid. leaves (g pid)"
  shows "leaves (bindk fork1 g)"
  using assms by (auto simp: leaves_def fork1_def bindk_def sh_panic_run gone_def)

lemma leaves_print:
  assumes "uprintf_chars False (bstr fmt) args \<noteq> None" and "leaves g"
  shows "leaves (thenk (uprint fd fmt args) g)"
proof -
  obtain cs where "uprintf_chars False (bstr fmt) args = Some cs" using assms(1) by blast
  then show ?thesis using assms(2) by (simp add: leaves_def uprint_def thenk_def bindk_def uprintf_run)
qed

lemma leaves_exec:
  assumes "\<And>r. leaves (g r)"
  shows "leaves (bindk (uexec path argv) g)"
  using assms by (auto simp: leaves_def gone_def uexec_def bindk_def)

lemma leaves_if: "leaves f \<Longrightarrow> leaves g \<Longrightarrow> leaves (if b then f else g)"
  by simp

lemmas leaves = leaves_if leaves_sys leaves_call leaves_exec leaves_fork1 leaves_then leaves_sh_panic leaves_uexit

text \<open>C24. \<open>runcmd\<close> never returns, as its comment says: whatever the system calls answer, a process
  that runs a command ends in \<open>exit\<close> or in a successful \<open>exec\<close>. So a child of the shell never
  comes back into the shell's loop.\<close>

theorem runcmd_never_returns:
  fixes s :: "'z user_state_scheme"
  shows "\<exists>t. runcmd c arr s = Block t \<and> gone t"
proof -
  have "leaves (runcmd c arr :: (unit, 'z user_state_scheme) kernel)"
    by (induction c; unfold runcmd.simps Let_def; intro leaves)
      (simp_all add: leaves_print leaves_first leaves_uexit)
  then show ?thesis by (simp add: leaves_def)
qed

end
