(* ===== verification/Spec2Isabelle.thy ===== *)
theory Spec2Isabelle
  imports Xv6_CString Xv6_Pipe Xv6_Dir Xv6_Boot Xv6_Grep Xv6_Utils Xv6_Sh
begin

text \<open>
  A verification development for the xv6 operating system of this repository (src/), a
  Unix-like teaching kernel for multiprocessor x86 machines with a shell and user programs,
  extended by the programs truncate, vim and less.

  \<^bold>\<open>Style of the model.\<close> Code that changes the state is a function from states to outcomes:
  \<open>Ret\<close> a result and a new state, \<open>Panic\<close> a message (the kernel's \<open>panic\<close>, a trap in the kernel,
  or behaviour C leaves undefined), or \<open>Block\<close> a state, where the process gives up the CPU in
  \<open>sched\<close> and does not come back on this path (Xv6\_Prelude). Machine integers are words: \<open>uint\<close>
  has 32 bits and a byte has 8, so overflow wraps as in the code. Total correctness statements
  use \<open>wp\<close>. Memory is a function from 32-bit addresses to bytes (Xv6\_Bytes). Hardware is a
  parameter held in the state: what a port or a device register answers is a function of
  the accesses made so far. Loops whose end depends on hardware or on a file take a bound, and
  the statements about them say which bound is enough.

  \<^bold>\<open>The kernel\<close> is one chain of records, each component adding its fields to those of the
  components it calls, so that an operation works on every later state:
  \<^item> Xv6\_CString: string.c, and what \<open>memset\<close>, \<open>memmove\<close> and \<open>safestrcpy\<close> compute.
  \<^item> Xv6\_Spinlock: spinlock.c, as steps of several CPUs that interleave (mutual exclusion) and
    as the interface the kernel uses on one CPU; the former refines the latter.
  \<^item> Xv6\_Kalloc: kalloc.c; no page is handed out twice or lost.
  \<^item> Xv6\_Vm: vm.c; page tables in memory.
  \<^item> Xv6\_Proc: proc.c; the process table and the scheduler as a step relation: a process runs
    on one CPU at most, and neither a runnable process nor the wakeup of a parent is lost.
  \<^item> Xv6\_Bio, Xv6\_Log, Xv6\_Crash, Xv6\_Tx: bio.c, log.c and memide.c; a crash may come between
    any two disk writes, and a transaction is atomic under recovery.
  \<^item> Xv6\_Inode, Xv6\_Fs: fs.c; bitmap, inodes, contents, directories and paths. Xv6\_Alloc shows that
    \<open>balloc\<close> gives each block to one owner, Xv6\_Bmap and Xv6\_Content what \<open>bmap\<close>, \<open>writei\<close> and \<open>readi\<close> do
    to the blocks and bytes of files inside a transaction, with well-formed files staying so, and
    Xv6\_Dir that a directory is a map from names to inode numbers.
  \<^item> Xv6\_Device, Xv6\_Digits, Xv6\_Console: timer, interrupt controllers, serial port, keyboard, and
    console.c, with the lemma that printing changes the screen only.
  \<^item> Xv6\_User, Xv6\_File, Xv6\_Ring, Xv6\_Pipe: access to user memory through page tables, file.c and
    pipe.c; a pipe is a queue (an interpretation of the locale \<open>ringbuf\<close>), and in the
    interleavings of its users where no killed writer gives up on a full pipe that a reader waits
    for, nobody sleeps without a reason.
  \<^item> Xv6\_Sysfile, Xv6\_Process, Xv6\_Trap: the system calls, fork, exec, and trap.c.
  \<^item> Xv6\_Ide: ide.c, the driver of a real disk, which takes the place of memide.c in kernels that
    have one; its pointer queue is a list, served in order.
  \<^item> Xv6\_Boot: bootmain.c, mp.c, main.c and the descriptor tables; the system call gate is the
    only way from user code into the kernel, and \<open>mpinit\<close> counts the processors or falls back to one.

  \<^bold>\<open>The user programs\<close> see the kernel through system calls only. What a call answers is a
  function of the calls made so far, and unknown (Xv6\_Usys): statements hold for every kernel,
  or for one that delivers a file as \<open>read\<close> is documented to (\<open>serves\<close>).
  \<^item> Xv6\_Ulib: ulib.c and printf.c; numbers survive printing and reading.
  \<^item> Xv6\_Utils: cat, wc, echo, kill, ln, mkdir, rm, ls, init, zombie, truncate, vim and less.
  \<^item> Xv6\_Grep: grep.c; the matcher decides the language of its pattern.
  \<^item> Xv6\_Sh: sh.c; the parser ends on every line (four levels of recursion for each character
    are enough), keeps words intact, and reads every command as it is meant; \<open>runcmd\<close> never
    returns.

  \<^bold>\<open>Interfaces.\<close> The locale \<open>frame\<close> collects what operations leave alone, \<open>blockstore\<close> is what the
  file system relies on of the log, \<open>codec\<close> is a layout of values in bytes, and \<open>ringbuf\<close> is a
  bounded queue with free-running counters; each is interpreted on the definitions of the model.

  \<^bold>\<open>Errors in the code\<close> that the model shows are stated as properties too: \<open>kill(0)\<close>, a killed
  writer of a pipe, \<open>balloc\<close> handing out the log, \<open>grep\<close> repeating lines, \<open>less\<close> interpreting percent signs, a disk error that
  passes as a read, and a table of processors that is longer than the kernel's.

  \<^bold>\<open>Not modelled:\<close> assembly (mode switches, register saving, the context switch itself, of which
  the model has the state before and after), \<open>malloc\<close> of the user programs, the image builder
  mkfs, and the test programs.
\<close>

end
